(* ===== verification/Prelude.thy ===== *)
theory Prelude
  imports Main "HOL-Library.Word"
begin

text \<open>
  Shared vocabulary of the development: the machine integer types of the C sources, the
  \<open>for\<close> loop over an unsigned counter, and the generic facts on words, bits, lists and
  states that the component theories use.
\<close>

unbundle bit_operations_syntax

type_synonym u8 = "8 word"
type_synonym u16 = "16 word"
type_synonym u32 = "32 word"
type_synonym u64 = "64 word"

named_theorems word_nat \<open>reading word operations as natural number arithmetic\<close>

section \<open>Words as natural numbers\<close>

lemma unat_less_pow: "unat w < 2 ^ LENGTH('a)"
  for w :: "'a::len word"
  by (rule unsigned_less)

lemma unat_drop_bit [word_nat]: "unat (drop_bit n w) = unat w div 2 ^ n"
  for w :: "'a::len word"
  by (subst unat_drop_bit_eq) (simp add: drop_bit_eq_div)

lemma unat_and_mask [word_nat]: "unat (w AND mask n) = unat w mod 2 ^ n"
  for w :: "'a::len word"
  by (simp flip: take_bit_eq_mask take_bit_eq_mod add: unsigned_take_bit_eq)

lemma unat_plus_simple [word_nat]:
  "unat a + unat b < 2 ^ LENGTH('a) \<Longrightarrow> unat (a + b) = unat a + unat b"
  for a b :: "'a::len word"
  by (simp add: unat_word_ariths)

lemma unat_minus_simple [word_nat]: "b \<le> a \<Longrightarrow> unat (a - b) = unat a - unat b"
  for a b :: "'a::len word"
  by (simp add: unat_sub)

lemma unat_Suc_less: "a < b \<Longrightarrow> unat (a + 1) = Suc (unat a)"
  for a b :: "'a::len word"
proof -
  assume "a < b"
  then have "unat a + 1 < 2 ^ LENGTH('a)"
    using unat_less_pow [of b] unfolding word_less_nat_alt by linarith
  then show ?thesis by (simp add: unat_word_ariths)
qed

lemma unat_of_nat_less [word_nat]: "n < 2 ^ LENGTH('a) \<Longrightarrow> unat (word_of_nat n :: 'a::len word) = n"
  by (simp add: unat_of_nat)

lemma and_exp_zero: "(w AND 2 ^ n = 0) = (\<not> bit w n)"
  if "n < LENGTH('a)" for w :: "'a::len word"
  using that bit_iff_and_push_bit_not_eq_0 [of w n] by auto

section \<open>Counting loops\<close>

text \<open>
  \<open>for (T i = lo; i < hi; i++) s = body(i, s)\<close> for an unsigned type \<open>T\<close>. The counter does
  not wrap, because it is below \<open>hi\<close> whenever it is incremented.
\<close>

function for_word :: "'a::len word \<Rightarrow> 'a word \<Rightarrow> ('a word \<Rightarrow> 's \<Rightarrow> 's) \<Rightarrow> 's \<Rightarrow> 's" where
  "for_word lo hi body s = (if lo < hi then for_word (lo + 1) hi body (body lo s) else s)"
  by pat_completeness auto
termination
  by (relation "measure (\<lambda>(lo, hi, _, _). unat hi - unat lo)")
    (auto simp: unat_Suc_less word_less_nat_alt)

declare for_word.simps [simp del]

lemma for_word_fold: "for_word lo hi body s = fold (\<lambda>i. body (word_of_nat i)) [unat lo..<unat hi] s"
proof (induction lo hi body s rule: for_word.induct)
  case (1 lo hi body s)
  show ?case
  proof (cases "lo < hi")
    case True
    then have "[unat lo..<unat hi] = unat lo # [Suc (unat lo)..<unat hi]"
      by (simp add: upt_rec word_less_nat_alt)
    with True 1 show ?thesis
      by (simp add: for_word.simps [of lo] unat_Suc_less)
  next
    case False
    then show ?thesis by (simp add: for_word.simps [of lo] word_less_nat_alt)
  qed
qed


lemma for_word_frame: "(\<And>i s. g (body i s) = g s) \<Longrightarrow> g (for_word lo hi body s) = g s"
  by (induction lo hi body s rule: for_word.induct) (simp add: for_word.simps)

section \<open>Alignment masks\<close>

lemma and_not_mask: "w AND NOT (mask n) = w - take_bit n w"
  for w :: "'a::len word"
proof -
  have "push_bit n (drop_bit n w) = w AND NOT (mask n)"
    by (rule bit_word_eqI) (auto simp: bit_simps)
  moreover have "push_bit n (drop_bit n w) + take_bit n w = w"
    by (rule bits_ident)
  ultimately show ?thesis by (metis add_diff_cancel_right')
qed

lemma unat_take_bit [word_nat]: "unat (take_bit n w) = unat w mod 2 ^ n"
  for w :: "'a::len word"
  by (subst unsigned_take_bit_eq) (rule take_bit_eq_mod)

lemma unat_and_not_mask [word_nat]: "unat (w AND NOT (mask n)) = unat w - unat w mod 2 ^ n"
  for w :: "'a::len word"
  by (simp add: and_not_mask unat_minus_simple word_le_nat_alt unat_take_bit)


lemma take_bit_and_absorb: "take_bit n x = x \<Longrightarrow> take_bit n (f AND x) = f AND x"
  for x :: "'a::len word"
  by (metis and.assoc take_bit_eq_mask)

lemma unat_ucast_less [word_nat]:
  "unat w < 2 ^ LENGTH('b) \<Longrightarrow> unat (ucast (w :: 'a::len word) :: 'b::len word) = unat w"
  by (simp add: unsigned_ucast_eq take_bit_eq_mod)

lemma unat_ucast_up [word_nat]:
  "LENGTH('a) \<le> LENGTH('b) \<Longrightarrow> unat (ucast (w :: 'a::len word) :: 'b::len word) = unat w"
proof -
  assume "LENGTH('a) \<le> LENGTH('b)"
  then have "(2 :: nat) ^ LENGTH('a) \<le> 2 ^ LENGTH('b)" by simp
  then have "unat w < 2 ^ LENGTH('b)" using unat_less_pow [of w] by linarith
  then show ?thesis by (rule unat_ucast_less)
qed

lemma sint_small: "unat w < 2 ^ 31 \<Longrightarrow> sint w = int (unat w)" for w :: u32
proof -
  assume "unat w < 2 ^ 31"
  then have "int (unat w) < int (2 ^ 31)" by (simp only: of_nat_less_iff)
  then have a: "uint w < 2 ^ 31" by simp
  have "- (2 ^ 31) \<le> (0 :: int)" by simp
  then have b: "- (2 ^ 31) \<le> uint w" using uint_ge_0 [of w] by (rule order_trans)
  have "signed_take_bit 31 (uint w) = uint w"
    by (rule signed_take_bit_int_eq_self [OF b a])
  then show ?thesis by (simp add: sint_uint)
qed

section \<open>Bytes and characters\<close>

definition byte_chr :: "u8 \<Rightarrow> char" where
  "byte_chr b = char_of (unat b)"

lemma of_char_unat: "unat (of_char c :: u8) = of_char c"
proof -
  have "(of_char c :: nat) < 256" by simp
  then have "unat (word_of_nat (of_char c) :: u8) = of_char c" by (intro unat_of_nat_less) simp
  then show ?thesis by (simp only: of_nat_of_char)
qed

lemma byte_chr_of_char [simp]: "byte_chr (of_char c) = c"
  by (simp add: byte_chr_def of_char_unat)

lemma of_char_byte_chr [simp]: "of_char (byte_chr b) = b"
  using unat_less_pow [of b] by (simp add: byte_chr_def word_unat_eq_iff of_char_unat)

section \<open>Bytes of words and buffers\<close>

definition le16 :: "u8 \<Rightarrow> u8 \<Rightarrow> u16" where
  "le16 lo hi = ucast lo OR push_bit 8 (ucast hi)"

definition lo8 :: "u16 \<Rightarrow> u8" where "lo8 w = ucast (w AND 0xFF)"
definition hi8 :: "u16 \<Rightarrow> u8" where "hi8 w = ucast (drop_bit 8 w)"

lemma le16_split: "le16 (ucast (v AND 0xFF)) (ucast (drop_bit 8 v)) = v"
proof (rule bit_word_eqI)
  fix n assume "n < LENGTH(16)"
  have m: "v AND 0xFF = take_bit 8 v" by (simp add: take_bit_eq_mask mask_eq_exp_minus_1)
  show "bit (le16 (ucast (v AND 0xFF)) (ucast (drop_bit 8 v))) n = bit v n"
    unfolding m using \<open>n < LENGTH(16)\<close> by (auto simp: le16_def bit_simps)
qed

lemma bit_le16: "bit (le16 a b) n \<longleftrightarrow> (if n < 8 then bit a n else n < 16 \<and> bit b (n - 8))"
  by (auto simp: le16_def bit_simps dest: bit_imp_le_length)

lemma le16_bytes [simp]: "le16 (lo8 w) (hi8 w) = w"
  by (simp add: lo8_def hi8_def le16_split)

lemma le32_bytes:
  fixes w :: u32
  shows "(ucast (ucast (w AND 0xFF) :: u8) :: u32) OR push_bit 8 (ucast (ucast (drop_bit 8 w) :: u8)) OR
    push_bit 16 (ucast (ucast (drop_bit 16 w) :: u8)) OR push_bit 24 (ucast (ucast (drop_bit 24 w) :: u8)) = w"
proof (rule bit_word_eqI)
  fix n assume "n < LENGTH(32)"
  have m: "w AND 0xFF = take_bit 8 w" by (simp add: take_bit_eq_mask mask_eq_exp_minus_1)
  consider "n < 8" | "8 \<le> n" "n < 16" | "16 \<le> n" "n < 24" | "24 \<le> n" "n < 32"
    using \<open>n < LENGTH(32)\<close> by fastforce
  then show "bit ((ucast (ucast (w AND 0xFF) :: u8) :: u32) OR push_bit 8 (ucast (ucast (drop_bit 8 w) :: u8)) OR
    push_bit 16 (ucast (ucast (drop_bit 16 w) :: u8)) OR push_bit 24 (ucast (ucast (drop_bit 24 w) :: u8))) n = bit w n"
    unfolding m by cases (auto simp: bit_simps)
qed

text \<open>\<open>memcpy\<close> of \<open>xs\<close> to offset \<open>off\<close> of a buffer.\<close>

definition overwrite :: "nat \<Rightarrow> 'a list \<Rightarrow> 'a list \<Rightarrow> 'a list" where
  "overwrite off xs buf = take off buf @ xs @ drop (off + length xs) buf"

lemma overwrite_upd:
  "length out = n \<Longrightarrow> i < n \<Longrightarrow> overwrite (Suc i) xs (out[i := x]) = overwrite i (x # xs) out"
  by (simp add: overwrite_def take_Suc_conv_app_nth)

lemma overwrite_Nil [simp]: "overwrite i [] out = out"
  by (simp add: overwrite_def)

lemma length_overwrite [simp]: "off + length xs \<le> length out \<Longrightarrow> length (overwrite off xs out) = length out"
  by (simp add: overwrite_def)

end
