(* ===== verification/Interfaces.thy ===== *)
theory Interfaces
  imports Prelude
begin

text \<open>
  The contracts between components, as locales. Each fixes the operations a client calls and
  assumes the laws its provider promises; the client-side consequences are proved once here and
  reach the model through the interpretations in the providers' theories.
\<close>

section \<open>Frame allocator\<close>

text \<open>
  A run of a client of the frame allocator: it may ask for a frame, or give back one of the frames
  it holds (the \<open>n\<close>-th). The list records the frames it holds; a returned 0 is the null frame.
\<close>

datatype frame_op = AllocFrame | FreeFrame nat

fun frame_step :: "('s \<Rightarrow> u32 \<times> 's) \<Rightarrow> (u32 \<Rightarrow> 's \<Rightarrow> 's) \<Rightarrow> frame_op \<Rightarrow> 's \<times> u32 list \<Rightarrow> 's \<times> u32 list"
where
  "frame_step alloc free AllocFrame (s, held) =
     (let (a, s') = alloc s in if a = 0 then (s', held) else (s', held @ [a]))"
| "frame_step alloc free (FreeFrame n) (s, held) =
     (if n < length held then (free (held ! n) s, take n held @ drop (Suc n) held) else (s, held))"

definition frame_run ::
  "('s \<Rightarrow> u32 \<times> 's) \<Rightarrow> (u32 \<Rightarrow> 's \<Rightarrow> 's) \<Rightarrow> frame_op list \<Rightarrow> 's \<times> u32 list \<Rightarrow> 's \<times> u32 list" where
  "frame_run alloc free ops sh = fold (frame_step alloc free) ops sh"

locale frame_allocator =
  fixes alloc :: "'s \<Rightarrow> u32 \<times> 's"
    and free :: "u32 \<Rightarrow> 's \<Rightarrow> 's"
    and avail :: "'s \<Rightarrow> u32 set"
    and managed :: "'s \<Rightarrow> u32 set"
    and inv :: "'s \<Rightarrow> bool"
  assumes alloc_some: "inv s \<Longrightarrow> alloc s = (a, s') \<Longrightarrow> a \<noteq> 0 \<Longrightarrow>
      a \<in> avail s \<and> avail s' = avail s - {a} \<and> managed s' = managed s \<and> inv s'"
    and alloc_none: "inv s \<Longrightarrow> alloc s = (0, s') \<Longrightarrow> s' = s \<and> avail s = {}"
    and free_avail: "inv s \<Longrightarrow> a \<in> managed s \<Longrightarrow>
      avail (free a s) = insert a (avail s) \<and> managed (free a s) = managed s \<and> inv (free a s)"
    and avail_managed: "inv s \<Longrightarrow> avail s \<subseteq> managed s"
    and null_unmanaged: "0 \<notin> managed s"
begin

lemma alloc_progress: "inv s \<Longrightarrow> avail s \<noteq> {} \<Longrightarrow> \<exists>a s'. alloc s = (a, s') \<and> a \<noteq> 0 \<and> a \<in> avail s"
  by (metis alloc_none alloc_some surj_pair)

lemma frame_step_ok:
  assumes "frame_step alloc free x (s, held) = (s', held')"
    and "inv s" and "distinct held" and "set held \<inter> avail s = {}" and "set held \<subseteq> managed s"
  shows "inv s' \<and> distinct held' \<and> set held' \<inter> avail s' = {} \<and> set held' \<subseteq> managed s' \<and>
    managed s' = managed s \<and> set held' \<union> avail s' = set held \<union> avail s"
proof (cases x)
  case AllocFrame
  obtain a t where a: "alloc s = (a, t)" by fastforce
  show ?thesis
  proof (cases "a = 0")
    case True
    with assms AllocFrame a alloc_none [of s t] show ?thesis by auto
  next
    case False
    with assms AllocFrame a alloc_some [of s a t] avail_managed [of s] show ?thesis by auto
  qed
next
  case (FreeFrame n)
  show ?thesis
  proof (cases "n < length held")
    case True
    then have m: "held ! n \<in> managed s" using assms(5) nth_mem by blast
    have held: "held = take n held @ held ! n # drop (Suc n) held"
      using True by (simp add: id_take_nth_drop)
    have "distinct (take n held @ held ! n # drop (Suc n) held)"
      using held assms(3) by metis
    moreover have "set held = insert (held ! n) (set (take n held @ drop (Suc n) held))"
      using arg_cong [OF held, of set] by auto
    ultimately show ?thesis
      using assms True FreeFrame free_avail [OF assms(2) m] by auto
  qed (use assms FreeFrame in auto)
qed

text \<open>
  No frame is handed out twice or lost: after any run the frames held and the frames available
  are disjoint and together are the frames that were available (or held) at the start.
\<close>

lemma frame_run_ok:
  assumes "frame_run alloc free ops (s, held) = (s', held')"
    and "inv s" and "distinct held" and "set held \<inter> avail s = {}" and "set held \<subseteq> managed s"
  shows "inv s' \<and> distinct held' \<and> set held' \<inter> avail s' = {} \<and>
    set held' \<union> avail s' = set held \<union> avail s"
  using assms
proof (induction ops arbitrary: s held)
  case Nil
  then show ?case by (simp add: frame_run_def)
next
  case (Cons x ops)
  obtain t h where st: "frame_step alloc free x (s, held) = (t, h)" by fastforce
  with Cons.prems(1) have "frame_run alloc free ops (t, h) = (s', held')"
    by (simp add: frame_run_def)
  from Cons.IH [OF this] frame_step_ok [OF st] Cons.prems show ?case by auto
qed

end


section \<open>Page mapper\<close>

text \<open>
  An address space: \<open>entry s q\<close> is the entry of virtual page number \<open>q\<close>, if that page is mapped.
  Virtual page numbers are the 20-bit numbers. A failed \<open>map\<close> changes no translation.
\<close>

locale page_mapper =
  fixes map :: "u32 \<Rightarrow> u32 \<Rightarrow> u32 \<Rightarrow> 's \<Rightarrow> int \<times> 's"
    and unmap :: "u32 \<Rightarrow> 's \<Rightarrow> 's"
    and translate :: "u32 \<Rightarrow> 's \<Rightarrow> u32"
    and entry :: "'s \<Rightarrow> u32 \<Rightarrow> 'e option"
    and mk :: "u32 \<Rightarrow> u32 \<Rightarrow> 'e"
    and frame :: "'e \<Rightarrow> u32"
    and inv :: "'s \<Rightarrow> bool"
  assumes map_ok: "inv s \<Longrightarrow> map v p f s = (0, s') \<Longrightarrow>
      inv s' \<and> (\<forall>q. unat q < 2 ^ 20 \<longrightarrow> entry s' q = ((entry s)(drop_bit 12 v \<mapsto> mk p f)) q)"
    and map_fail: "inv s \<Longrightarrow> map v p f s = (r, s') \<Longrightarrow> r \<noteq> 0 \<Longrightarrow>
      inv s' \<and> (\<forall>q. unat q < 2 ^ 20 \<longrightarrow> entry s' q = entry s q)"
    and unmap_ok: "inv s \<Longrightarrow>
      inv (unmap v s) \<and> (\<forall>q. unat q < 2 ^ 20 \<longrightarrow> entry (unmap v s) q = ((entry s)(drop_bit 12 v := None)) q)"
    and translate_entry: "translate v s = (case entry s (drop_bit 12 v) of
        None \<Rightarrow> 0xFFFFFFFF | Some e \<Rightarrow> frame e OR (v AND 0xFFF))"
    and frame_mk: "frame (mk p f) = p AND 0xFFFFF000"
begin

lemma vpn_bound: "unat (drop_bit 12 v) < 2 ^ 20" for v :: u32
  using unat_less_pow [of v] by (simp add: unat_drop_bit div_less_iff_less_mult)

lemma translate_cong: "entry s (drop_bit 12 v) = entry t (drop_bit 12 v) \<Longrightarrow> translate v s = translate v t"
  by (simp add: translate_entry)

lemma map_inv: "inv s \<Longrightarrow> map v p f s = (r, s') \<Longrightarrow> inv s'"
  using map_ok map_fail by (cases "r = 0") blast+

lemma translate_map:
  assumes "inv s" and "map v p f s = (0, s')"
  shows "translate w s' =
    (if drop_bit 12 w = drop_bit 12 v then (p AND 0xFFFFF000) OR (w AND 0xFFF) else translate w s)"
  using map_ok [OF assms] vpn_bound [of w] by (simp add: translate_entry frame_mk)

lemma translate_map_fail:
  assumes "inv s" and "map v p f s = (r, s')" and "r \<noteq> 0"
  shows "translate w s' = translate w s"
  using map_fail [OF assms] vpn_bound [of w] by (simp add: translate_entry)

lemma translate_unmap:
  assumes "inv s"
  shows "translate w (unmap v s) =
    (if drop_bit 12 w = drop_bit 12 v then 0xFFFFFFFF else translate w s)"
  using unmap_ok [OF assms, of v] vpn_bound [of w] by (simp add: translate_entry)

text \<open>Mapping never removes a mapping.\<close>

lemma map_mono:
  assumes "inv s" and "map v p f s = (r, s')" and "unat q < 2 ^ 20" and "entry s q \<noteq> None"
  shows "entry s' q \<noteq> None"
proof (cases "r = 0")
  case True
  then show ?thesis using map_ok [of s v p f s'] assms by simp
next
  case False
  then show ?thesis using map_fail [OF assms(1,2)] assms by simp
qed

end

section \<open>Heap\<close>

text \<open>
  A heap with explicit release. \<open>live s\<close> maps the address of every allocation in use to its
  size. The operations may fail to return (\<open>None\<close>); the laws say that they do return.
\<close>

datatype heap_op = Malloc u32 | Free nat

text \<open>A client that keeps its allocations in a list and releases them by position.\<close>

fun heap_step :: "(u32 \<Rightarrow> 's \<Rightarrow> (u32 \<times> 's) option) \<Rightarrow> (u32 \<Rightarrow> 's \<Rightarrow> 's option) \<Rightarrow>
    heap_op \<Rightarrow> 's \<times> u32 list \<Rightarrow> ('s \<times> u32 list) option" where
  "heap_step malloc free (Malloc n) (s, held) =
     map_option (\<lambda>(p, s'). (s', if p = 0 then held else p # held)) (malloc n s)"
| "heap_step malloc free (Free i) (s, held) =
     (if i < length held
      then map_option (\<lambda>s'. (s', take i held @ drop (Suc i) held)) (free (held ! i) s)
      else Some (s, held))"

fun heap_run :: "(u32 \<Rightarrow> 's \<Rightarrow> (u32 \<times> 's) option) \<Rightarrow> (u32 \<Rightarrow> 's \<Rightarrow> 's option) \<Rightarrow>
    heap_op list \<Rightarrow> 's \<times> u32 list \<Rightarrow> ('s \<times> u32 list) option" where
  "heap_run malloc free [] c = Some c"
| "heap_run malloc free (x # xs) c = Option.bind (heap_step malloc free x c) (heap_run malloc free xs)"

locale heap_allocator =
  fixes malloc :: "u32 \<Rightarrow> 's \<Rightarrow> (u32 \<times> 's) option"
    and free :: "u32 \<Rightarrow> 's \<Rightarrow> 's option"
    and live :: "'s \<Rightarrow> u32 \<Rightarrow> nat option"
    and inv :: "'s \<Rightarrow> bool"
  assumes malloc_returns: "inv s \<Longrightarrow> \<exists>p s'. malloc n s = Some (p, s') \<and> inv s'"
    and malloc_null: "inv s \<Longrightarrow> malloc n s = Some (0, s') \<Longrightarrow> live s' = live s"
    and malloc_fresh: "inv s \<Longrightarrow> malloc n s = Some (p, s') \<Longrightarrow> p \<noteq> 0 \<Longrightarrow>
      live s p = None \<and> (\<exists>k. live s' = (live s)(p \<mapsto> k) \<and> (unat n + 8 \<le> 2 ^ 32 \<longrightarrow> unat n \<le> k))"
    and free_live: "inv s \<Longrightarrow> live s p \<noteq> None \<Longrightarrow>
      \<exists>s'. free p s = Some s' \<and> inv s' \<and> live s' = (live s)(p := None)"
    and live_disjoint: "inv s \<Longrightarrow> live s p = Some k \<Longrightarrow> live s q = Some l \<Longrightarrow> p \<noteq> q \<Longrightarrow>
      unat p + k \<le> unat q \<or> unat q + l \<le> unat p"
begin

definition holds :: "'s \<times> u32 list \<Rightarrow> bool" where
  "holds c \<longleftrightarrow> inv (fst c) \<and> distinct (snd c) \<and> set (snd c) = dom (live (fst c))"

lemma heap_step_holds:
  assumes "holds c"
  shows "\<exists>c'. heap_step malloc free x c = Some c' \<and> holds c'"
proof -
  obtain s held where c: "c = (s, held)" by fastforce
  have h: "inv s" "distinct held" "set held = dom (live s)" using assms by (auto simp: holds_def c)
  show ?thesis
  proof (cases x)
    case (Malloc n)
    obtain p s' where m: "malloc n s = Some (p, s')" "inv s'" using malloc_returns [OF h(1)] by blast
    show ?thesis
    proof (cases "p = 0")
      case True
      with m h malloc_null [OF h(1), of n s'] show ?thesis by (simp add: Malloc c holds_def)
    next
      case False
      with malloc_fresh [OF h(1) m(1)] m h show ?thesis by (auto simp: Malloc c holds_def)
    qed
  next
    case (Free i)
    show ?thesis
    proof (cases "i < length held")
      case True
      then have held: "held = take i held @ held ! i # drop (Suc i) held" by (simp add: id_take_nth_drop)
      have "live s (held ! i) \<noteq> None" using True h(3) nth_mem by blast
      from free_live [OF h(1) this] obtain s' where s': "free (held ! i) s = Some s'" "inv s'"
        "live s' = (live s)(held ! i := None)" by blast
      have "distinct (take i held @ held ! i # drop (Suc i) held)"
        "set (take i held @ held ! i # drop (Suc i) held) = dom (live s)"
        using held h(2,3) by metis+
      then show ?thesis using True s' by (auto simp: Free c holds_def)
    next
      case False
      then show ?thesis using assms by (simp add: Free c)
    qed
  qed
qed

lemma heap_run_holds: "holds c \<Longrightarrow> \<exists>c'. heap_run malloc free xs c = Some c' \<and> holds c'"
proof (induction xs arbitrary: c)
  case (Cons x xs)
  then show ?case using heap_step_holds [of c x] by auto
qed simp

lemma held_disjoint:
  assumes "holds (s, held)" and "i < length held" and "j < length held" and "i \<noteq> j"
  shows "\<exists>k l. live s (held ! i) = Some k \<and> live s (held ! j) = Some l \<and>
    (unat (held ! i) + k \<le> unat (held ! j) \<or> unat (held ! j) + l \<le> unat (held ! i))"
proof -
  have "held ! i \<in> dom (live s)" "held ! j \<in> dom (live s)"
    using assms nth_mem unfolding holds_def by fastforce+
  moreover have "held ! i \<noteq> held ! j" using assms by (simp add: holds_def nth_eq_iff_index_eq)
  ultimately show ?thesis using live_disjoint [of s] assms(1) by (auto simp: holds_def)
qed

end

section \<open>Bounded queues\<close>

text \<open>
  A queue that keeps at most \<open>cap\<close> elements and drops what arrives when it is full. Producer and consumer
  run interleaved; the consumer takes an element only when there is one.
\<close>

datatype 'a queue_op = Put 'a | Get

fun queue_run :: "('a \<Rightarrow> 's \<Rightarrow> 's) \<Rightarrow> ('s \<Rightarrow> 'a \<times> 's) \<Rightarrow> ('s \<Rightarrow> bool) \<Rightarrow> 'a queue_op list \<Rightarrow> 's \<Rightarrow> 'a list \<times> 's" where
  "queue_run put get has [] s = ([], s)"
| "queue_run put get has (Put x # ops) s = queue_run put get has ops (put x s)"
| "queue_run put get has (Get # ops) s =
     (if has s then (let (x, s1) = get s; (xs, s2) = queue_run put get has ops s1 in (x # xs, s2))
      else queue_run put get has ops s)"

definition list_put :: "nat \<Rightarrow> 'a \<Rightarrow> 'a list \<Rightarrow> 'a list" where
  "list_put cap x xs = (if length xs < cap then xs @ [x] else xs)"

definition list_get :: "'a list \<Rightarrow> 'a \<times> 'a list" where
  "list_get xs = (hd xs, tl xs)"

locale bounded_queue =
  fixes wf :: "'s \<Rightarrow> bool" and contents :: "'s \<Rightarrow> 'a list" and cap :: nat
    and put :: "'a \<Rightarrow> 's \<Rightarrow> 's" and get :: "'s \<Rightarrow> 'a \<times> 's" and has :: "'s \<Rightarrow> bool"
  assumes put_wf: "wf s \<Longrightarrow> wf (put x s)"
    and put_contents: "wf s \<Longrightarrow> contents (put x s) = list_put cap x (contents s)"
    and has_iff: "wf s \<Longrightarrow> has s \<longleftrightarrow> contents s \<noteq> []"
    and get_wf: "wf s \<Longrightarrow> contents s \<noteq> [] \<Longrightarrow> wf (snd (get s))"
    and get_contents: "wf s \<Longrightarrow> contents s \<noteq> [] \<Longrightarrow> contents s = fst (get s) # contents (snd (get s))"
begin

text \<open>Every interleaving behaves as on a list.\<close>

lemma run_refines:
  "wf s \<Longrightarrow> queue_run put get has ops s = (xs, t) \<Longrightarrow>
   wf t \<and> queue_run (list_put cap) list_get (\<lambda>l. l \<noteq> []) ops (contents s) = (xs, contents t)"
proof (induction ops arbitrary: s xs t)
  case (Cons q ops)
  show ?case
  proof (cases q)
    case (Put x)
    then show ?thesis
      using Cons.IH [OF put_wf [OF Cons.prems(1)], of x xs t] Cons.prems(2) put_contents [OF Cons.prems(1), of x] by simp
  next
    case Get
    show ?thesis
    proof (cases "contents s = []")
      case True
      then show ?thesis
        using Cons.IH [OF Cons.prems(1), of xs t] Cons.prems(2) Get has_iff [OF Cons.prems(1)] by simp
    next
      case False
      obtain x s1 where g: "get s = (x, s1)" by fastforce
      obtain ys where ys: "queue_run put get has ops s1 = (ys, t)" "xs = x # ys"
        using Cons.prems(2) False Get g has_iff [OF Cons.prems(1)] by (auto split: prod.splits)
      have c: "contents s = x # contents s1" "wf s1"
        using get_contents [OF Cons.prems(1) False] get_wf [OF Cons.prems(1) False] g by simp_all
      then show ?thesis using Cons.IH [OF c(2) ys(1)] Get ys(2) by (simp add: list_get_def)
    qed
  qed
qed simp

end

end
