(* ===== verification/Pmm.thy ===== *)
theory Pmm
  imports Interfaces
begin

text \<open>
  The physical memory manager of \<open>mm/pmm.c\<close>: a bitmap with one bit per 4 KiB frame, sized and
  filled from the BIOS E820 map. The map the boot loader left in low memory is the list argument
  of \<open>pmm_init\<close>; the static variables of the file are the record \<open>pmm\<close>. The abstract view of
  a state is the set of used frame numbers, and every operation is shown to implement its
  effect on that set.
\<close>

section \<open>Data\<close>

record e820_entry =
  e_base :: u64
  e_length :: u64
  e_type :: u32
  e_attr :: u32

record pmm =
  bitmap :: "u32 list"
  bitmap_addr :: u32
  total_frames :: u32
  used_frames :: u32

definition E820_USABLE :: u32 where
  "E820_USABLE = 1"

definition FOUR_GIB :: u64 where
  "FOUR_GIB = 0x100000000"

section \<open>Operations\<close>

definition frame_mark_used :: "u32 \<Rightarrow> pmm \<Rightarrow> pmm" where
  "frame_mark_used f s =
     (if total_frames s \<le> f then s
      else let i = unat (drop_bit 5 f); m = push_bit (unat (f AND 31)) 1
      in if bitmap s ! i AND m = 0
         then s\<lparr>bitmap := (bitmap s)[i := bitmap s ! i OR m], used_frames := used_frames s + 1\<rparr>
         else s)"

definition frame_mark_free :: "u32 \<Rightarrow> pmm \<Rightarrow> pmm" where
  "frame_mark_free f s =
     (if total_frames s \<le> f then s
      else let i = unat (drop_bit 5 f); m = push_bit (unat (f AND 31)) 1
      in if bitmap s ! i AND m \<noteq> 0
         then s\<lparr>bitmap := (bitmap s)[i := bitmap s ! i AND NOT m], used_frames := used_frames s - 1\<rparr>
         else s)"

definition reserve_range :: "u64 \<Rightarrow> u64 \<Rightarrow> pmm \<Rightarrow> pmm" where
  "reserve_range start end0 s =
     (let end = (if FOUR_GIB < end0 then FOUR_GIB else end0)
      in if end \<le> start then s
         else let f0 = ucast (drop_bit 12 start); f1 = ucast (drop_bit 12 (end + 0xFFF))
              in for_word f0 f1 frame_mark_used s)"

definition free_range :: "u64 \<Rightarrow> u64 \<Rightarrow> pmm \<Rightarrow> pmm" where
  "free_range start end0 s =
     (let end = (if FOUR_GIB < end0 then FOUR_GIB else end0)
      in if end \<le> start then s
         else let f0 = ucast (drop_bit 12 (start + 0xFFF)); f1 = ucast (drop_bit 12 end)
              in for_word f0 f1 frame_mark_free s)"

text \<open>Pass 1 of \<open>pmm_init\<close>: the highest usable address, capped at 4 GiB.\<close>

fun max_usable :: "e820_entry list \<Rightarrow> u64 \<Rightarrow> u64" where
  "max_usable [] max_addr = max_addr"
| "max_usable (e # es) max_addr =
     (if e_type e \<noteq> E820_USABLE then max_usable es max_addr
      else if drop_bit 32 (e_base e) \<noteq> 0 then max_usable es max_addr
      else let end0 = e_base e + e_length e;
               end = (if FOUR_GIB < end0 then FOUR_GIB else end0)
           in max_usable es (if max_addr < end then end else max_addr))"

text \<open>Pass 2: the first usable spot at or above 1 MiB that holds the bitmap, or 0.\<close>

fun find_bitmap :: "u32 \<Rightarrow> e820_entry list \<Rightarrow> u32" where
  "find_bitmap bytes [] = 0"
| "find_bitmap bytes (e # es) =
     (if e_type e \<noteq> E820_USABLE then find_bitmap bytes es
      else if drop_bit 32 (e_base e) \<noteq> 0 then find_bitmap bytes es
      else let end0 = e_base e + e_length e;
               end = (if FOUR_GIB < end0 then FOUR_GIB else end0);
               base = (if e_base e < 0x100000 then 0x100000 else e_base e)
           in if end \<le> base then find_bitmap bytes es
              else if ucast bytes \<le> end - base then ucast base
              else find_bitmap bytes es)"

text \<open>The loop that frees the usable regions.\<close>

fun free_usable :: "e820_entry list \<Rightarrow> pmm \<Rightarrow> pmm" where
  "free_usable [] s = s"
| "free_usable (e # es) s =
     (if e_type e \<noteq> E820_USABLE then free_usable es s
      else if drop_bit 32 (e_base e) \<noteq> 0 then free_usable es s
      else free_usable es (free_range (e_base e) (e_base e + e_length e) s))"

definition bitmap_size :: "u32 \<Rightarrow> u32" where
  "bitmap_size frames = (drop_bit 3 (frames + 7) + 3) AND NOT 3"

definition pmm_init :: "e820_entry list \<Rightarrow> pmm" where
  "pmm_init e =
     (let max_addr = max_usable e 0
      in if max_addr = 0
         then \<lparr>bitmap = [], bitmap_addr = 0, total_frames = 0, used_frames = 0\<rparr>
         else let frames = ucast (drop_bit 12 max_addr);
                  bytes = bitmap_size frames;
                  addr = find_bitmap bytes e
              in if addr = 0
                 then \<lparr>bitmap = [], bitmap_addr = 0, total_frames = 0, used_frames = 0\<rparr>
                 else let s0 = \<lparr>bitmap = replicate (unat (drop_bit 2 bytes)) 0xFFFFFFFF,
                                bitmap_addr = addr, total_frames = frames, used_frames = frames\<rparr>;
                          s1 = free_usable e s0;
                          s2 = reserve_range 0 0x100000 s1
                      in reserve_range (ucast addr) (ucast addr + ucast bytes) s2)"

text \<open>
  The two nested loops of \<open>pmm_alloc_frame\<close>: the word index \<open>i\<close> and the bit index \<open>b\<close>.
  \<open>None\<close> is the end of the loop without a free bit.
\<close>

function scan_bits :: "pmm \<Rightarrow> nat \<Rightarrow> nat \<Rightarrow> u32 option" where
  "scan_bits s i b =
     (if b < 32
      then let f = push_bit 5 (word_of_nat i) + word_of_nat b
           in if total_frames s \<le> f then None
              else if bitmap s ! i AND push_bit b 1 = 0 then Some f
              else scan_bits s i (Suc b)
      else None)"
  by pat_completeness auto
termination
  by (relation "measure (\<lambda>(s, i, b). 32 - b)") auto

function scan_words :: "pmm \<Rightarrow> nat \<Rightarrow> nat \<Rightarrow> u32 option" where
  "scan_words s words i =
     (if i < words
      then if bitmap s ! i = 0xFFFFFFFF then scan_words s words (Suc i)
           else case scan_bits s i 0 of Some f \<Rightarrow> Some f | None \<Rightarrow> scan_words s words (Suc i)
      else None)"
  by pat_completeness auto
termination
  by (relation "measure (\<lambda>(s, words, i). words - i)") auto

declare scan_bits.simps [simp del] scan_words.simps [simp del]

definition pmm_alloc_frame :: "pmm \<Rightarrow> u32 \<times> pmm" where
  "pmm_alloc_frame s =
     (if total_frames s = 0 then (0, s)
      else case scan_words s (unat (drop_bit 5 (total_frames s + 31))) 0 of
             Some f \<Rightarrow> (push_bit 12 f, frame_mark_used f s)
           | None \<Rightarrow> (0, s))"

definition pmm_free_frame :: "u32 \<Rightarrow> pmm \<Rightarrow> pmm" where
  "pmm_free_frame phys_addr s = frame_mark_free (drop_bit 12 phys_addr) s"

definition pmm_reserve :: "u32 \<Rightarrow> u32 \<Rightarrow> pmm \<Rightarrow> pmm" where
  "pmm_reserve phys bytes s = reserve_range (ucast phys) (ucast phys + ucast bytes) s"

definition pmm_total_frames :: "pmm \<Rightarrow> u32" where
  "pmm_total_frames s = total_frames s"

definition pmm_used_frames :: "pmm \<Rightarrow> u32" where
  "pmm_used_frames s = used_frames s"

definition pmm_free_frames :: "pmm \<Rightarrow> u32" where
  "pmm_free_frames s = total_frames s - used_frames s"

section \<open>The abstract view: the set of used frames\<close>

definition used_set :: "pmm \<Rightarrow> nat set" where
  "used_set s = {f. f < unat (total_frames s) \<and> bit (bitmap s ! (f div 32)) (f mod 32)}"

text \<open>The bitmap covers every frame, there are at most \<open>2 ^ 20\<close> of them, and the counter is exact.\<close>

definition pmm_wf :: "pmm \<Rightarrow> bool" where
  "pmm_wf s \<longleftrightarrow> unat (total_frames s) \<le> 2 ^ 20 \<and>
     unat (total_frames s) \<le> 32 * length (bitmap s) \<and>
     unat (used_frames s) = card (used_set s)"

lemma finite_used_set [simp]: "finite (used_set s)"
  by (rule finite_subset [of _ "{..<unat (total_frames s)}"]) (auto simp: used_set_def)

lemma used_set_less: "f \<in> used_set s \<Longrightarrow> f < unat (total_frames s)"
  by (simp add: used_set_def)

lemma used_set_subset: "used_set s \<subseteq> {..<unat (total_frames s)}"
  by (auto simp: used_set_def)

lemma and_31: "f AND 31 = f AND mask 5" for f :: u32
  by (simp add: mask_eq_exp_minus_1)

lemma unat_and_31 [simp]: "unat (f AND 31) = unat f mod 32" for f :: u32
  by (simp add: and_31 unat_and_mask)

lemma unat_drop_5 [simp]: "unat (drop_bit 5 f) = unat f div 32" for f :: u32
  by (simp add: unat_drop_bit)

text \<open>The mask test of the code is the bit of the frame, and the updates flip just that bit.\<close>

lemma mark_used_bitmap:
  assumes "g < 32 * length bm" and "f < 32 * length bm"
  shows "bit (bm[f div 32 := bm ! (f div 32) OR (2::u32) ^ (f mod 32)] ! (g div 32)) (g mod 32)
    \<longleftrightarrow> g = f \<or> bit (bm ! (g div 32)) (g mod 32)"
proof (cases "g div 32 = f div 32")
  case True
  then have "g = f \<longleftrightarrow> g mod 32 = f mod 32"
    by (metis div_mult_mod_eq)
  with True assms show ?thesis
    by (auto simp: bit_simps nth_list_update)
next
  case False
  then show ?thesis by (auto simp: nth_list_update)
qed

lemma mark_free_bitmap:
  assumes "g < 32 * length bm" and "f < 32 * length bm"
  shows "bit (bm[f div 32 := bm ! (f div 32) AND NOT ((2::u32) ^ (f mod 32))] ! (g div 32)) (g mod 32)
    \<longleftrightarrow> g \<noteq> f \<and> bit (bm ! (g div 32)) (g mod 32)"
proof (cases "g div 32 = f div 32")
  case True
  then have "g = f \<longleftrightarrow> g mod 32 = f mod 32"
    by (metis div_mult_mod_eq)
  with True assms show ?thesis
    by (auto simp: bit_simps nth_list_update)
next
  case False
  then show ?thesis by (auto simp: nth_list_update)
qed

lemma frame_mark_used_fields [simp]:
  "total_frames (frame_mark_used f s) = total_frames s"
  "length (bitmap (frame_mark_used f s)) = length (bitmap s)"
  "bitmap_addr (frame_mark_used f s) = bitmap_addr s"
  by (simp_all add: frame_mark_used_def Let_def)

lemma frame_mark_free_fields [simp]:
  "total_frames (frame_mark_free f s) = total_frames s"
  "length (bitmap (frame_mark_free f s)) = length (bitmap s)"
  "bitmap_addr (frame_mark_free f s) = bitmap_addr s"
  by (simp_all add: frame_mark_free_def Let_def)

lemma used_set_mark_used:
  assumes "unat (total_frames s) \<le> 32 * length (bitmap s)"
  shows "used_set (frame_mark_used f s) =
    used_set s \<union> ({unat f} \<inter> {..<unat (total_frames s)})"
  using assms
  by (auto simp: used_set_def frame_mark_used_def Let_def and_exp_zero mark_used_bitmap bit_simps
      word_le_nat_alt split: if_splits)

lemma used_set_mark_free:
  assumes "unat (total_frames s) \<le> 32 * length (bitmap s)"
  shows "used_set (frame_mark_free f s) = used_set s - {unat f}"
  using assms
  by (auto simp: used_set_def frame_mark_free_def Let_def and_exp_zero mark_free_bitmap bit_simps
      word_le_nat_alt split: if_splits)


lemma used_frames_mark_used:
  assumes "pmm_wf s"
  shows "unat (used_frames (frame_mark_used f s)) = card (used_set (frame_mark_used f s))"
proof (cases "total_frames s \<le> f \<or> unat f \<in> used_set s")
  case True
  then have "frame_mark_used f s = s"
    by (auto simp: frame_mark_used_def Let_def and_exp_zero used_set_def)
  with assms show ?thesis by (simp add: pmm_wf_def)
next
  case False
  then have n: "unat f \<notin> used_set s" and t: "unat f < unat (total_frames s)"
    by (auto simp: word_le_nat_alt)
  have c: "card (used_set s) \<le> 2 ^ 20"
    using card_mono [OF _ used_set_subset [of s]] assms by (simp add: pmm_wf_def)
  have "used_frames (frame_mark_used f s) = used_frames s + 1"
    using n t by (auto simp: frame_mark_used_def Let_def and_exp_zero used_set_def word_le_nat_alt)
  then have "unat (used_frames (frame_mark_used f s)) = Suc (card (used_set s))"
    using c assms by (simp add: pmm_wf_def unat_plus_simple)
  with n t show ?thesis
    using assms by (simp add: used_set_mark_used pmm_wf_def Int_absorb2)
qed

lemma used_frames_mark_free:
  assumes "pmm_wf s"
  shows "unat (used_frames (frame_mark_free f s)) = card (used_set (frame_mark_free f s))"
proof (cases "unat f \<in> used_set s")
  case False
  then have "frame_mark_free f s = s"
    by (auto simp: frame_mark_free_def Let_def and_exp_zero used_set_def word_le_nat_alt)
  with assms show ?thesis by (simp add: pmm_wf_def)
next
  case True
  then have "used_frames (frame_mark_free f s) = used_frames s - 1"
    by (auto simp: frame_mark_free_def Let_def and_exp_zero used_set_def word_le_nat_alt)
  moreover have "0 < card (used_set s)"
    using True by (auto simp: card_gt_0_iff)
  ultimately have "unat (used_frames (frame_mark_free f s)) = card (used_set s) - 1"
    using assms by (simp add: pmm_wf_def unat_minus_simple word_le_nat_alt)
  with True show ?thesis
    using assms by (simp add: used_set_mark_free pmm_wf_def)
qed

lemma pmm_wf_mark_used [intro]: "pmm_wf s \<Longrightarrow> pmm_wf (frame_mark_used f s)"
  using used_frames_mark_used [of s f] by (simp add: pmm_wf_def)

lemma pmm_wf_mark_free [intro]: "pmm_wf s \<Longrightarrow> pmm_wf (frame_mark_free f s)"
  using used_frames_mark_free [of s f] by (simp add: pmm_wf_def)

section \<open>Ranges\<close>

lemma fold_mark_used:
  assumes "pmm_wf s" and "\<forall>x \<in> set xs. x < 2 ^ 32"
  shows "pmm_wf (fold (\<lambda>i. frame_mark_used (word_of_nat i)) xs s) \<and>
    total_frames (fold (\<lambda>i. frame_mark_used (word_of_nat i)) xs s) = total_frames s \<and>
    bitmap_addr (fold (\<lambda>i. frame_mark_used (word_of_nat i)) xs s) = bitmap_addr s \<and>
    used_set (fold (\<lambda>i. frame_mark_used (word_of_nat i)) xs s) =
      used_set s \<union> (set xs \<inter> {..<unat (total_frames s)})"
  using assms
proof (induction xs arbitrary: s)
  case (Cons x xs)
  have "pmm_wf (frame_mark_used (word_of_nat x) s)"
    using Cons.prems(1) by blast
  from Cons.IH [OF this] Cons.prems show ?case
    by (auto simp: used_set_mark_used pmm_wf_def unat_of_nat_less)
qed simp

lemma fold_mark_free:
  assumes "pmm_wf s" and "\<forall>x \<in> set xs. x < 2 ^ 32"
  shows "pmm_wf (fold (\<lambda>i. frame_mark_free (word_of_nat i)) xs s) \<and>
    total_frames (fold (\<lambda>i. frame_mark_free (word_of_nat i)) xs s) = total_frames s \<and>
    bitmap_addr (fold (\<lambda>i. frame_mark_free (word_of_nat i)) xs s) = bitmap_addr s \<and>
    used_set (fold (\<lambda>i. frame_mark_free (word_of_nat i)) xs s) = used_set s - set xs"
  using assms
proof (induction xs arbitrary: s)
  case (Cons x xs)
  have "pmm_wf (frame_mark_free (word_of_nat x) s)"
    using Cons.prems(1) by blast
  from Cons.IH [OF this] Cons.prems show ?case
    by (auto simp: used_set_mark_free pmm_wf_def unat_of_nat_less)
qed simp

text \<open>
  The frames that touch an address range, and the frames that lie wholly inside it, with the
  range clipped at 4 GiB as the code does.
\<close>

definition touching :: "nat \<Rightarrow> nat \<Rightarrow> nat set" where
  "touching a b = {f. \<exists>x. a \<le> x \<and> x < min b (2 ^ 32) \<and> x div 4096 = f}"

definition inside :: "nat \<Rightarrow> nat \<Rightarrow> nat set" where
  "inside a b = {f. a \<le> f * 4096 \<and> (f + 1) * 4096 \<le> min b (2 ^ 32)}"

lemma touching_interval:
  assumes "a < min b (2 ^ 32)"
  shows "touching a b = {a div 4096..<(min b (2 ^ 32) + 4095) div 4096}"
proof (intro equalityI subsetI)
  fix f assume "f \<in> {a div 4096..<(min b (2 ^ 32) + 4095) div 4096}"
  then have "a div 4096 \<le> f" and "f * 4096 < min b (2 ^ 32)" by auto
  then have "a \<le> max a (f * 4096) \<and> max a (f * 4096) < min b (2 ^ 32) \<and> max a (f * 4096) div 4096 = f"
    using assms by (auto simp: max_def)
  then show "f \<in> touching a b" unfolding touching_def by blast
qed (use assms in \<open>auto simp: touching_def div_le_mono\<close>)

lemma touching_empty: "min b (2 ^ 32) \<le> a \<Longrightarrow> touching a b = {}"
  by (auto simp: touching_def)

lemma inside_interval:
  "inside a b = {(a + 4095) div 4096..<min b (2 ^ 32) div 4096}"
  by (auto simp: inside_def)

lemma unat_clip: "unat (if FOUR_GIB < e then FOUR_GIB else e) = min (unat e) (2 ^ 32)"
  by (simp add: FOUR_GIB_def word_less_nat_alt min_def)


lemma unat_ucast_u32: "unat w < 2 ^ 32 \<Longrightarrow> unat (ucast w :: u32) = unat w"
  for w :: u64
  by (simp add: unsigned_ucast_eq take_bit_eq_mod)

lemma unat_ucast_u64 [simp]: "unat (ucast w :: u64) = unat w"
  for w :: u32
  using unat_less_pow [of w] by (simp add: unsigned_ucast_eq take_bit_eq_mod)

lemma frame_bounds:
  fixes a e :: u64
  assumes "unat a < unat e" and "unat e \<le> 2 ^ 32"
  shows "unat (ucast (drop_bit 12 a) :: u32) = unat a div 4096"
    and "unat (ucast (drop_bit 12 (a + 0xFFF)) :: u32) = (unat a + 4095) div 4096"
    and "unat (ucast (drop_bit 12 e) :: u32) = unat e div 4096"
    and "unat (ucast (drop_bit 12 (e + 0xFFF)) :: u32) = (unat e + 4095) div 4096"
  using assms
  by (simp_all add: unat_ucast_u32 unat_drop_bit unat_plus_simple)

lemma reserve_range_spec:
  assumes "pmm_wf s"
  shows "pmm_wf (reserve_range a b s) \<and>
    total_frames (reserve_range a b s) = total_frames s \<and>
    bitmap_addr (reserve_range a b s) = bitmap_addr s \<and>
    used_set (reserve_range a b s) =
      used_set s \<union> (touching (unat a) (unat b) \<inter> {..<unat (total_frames s)})"
proof -
  define e where "e = (if FOUR_GIB < b then FOUR_GIB else b)"
  have e: "unat e = min (unat b) (2 ^ 32)" by (simp add: e_def unat_clip)
  show ?thesis
  proof (cases "e \<le> a")
    case True
    then show ?thesis using assms e
      by (simp add: reserve_range_def e_def [symmetric] Let_def touching_empty word_le_nat_alt)
  next
    case False
    then have ae: "unat a < unat e" and e32: "unat e \<le> 2 ^ 32"
      using e by (auto simp: word_le_nat_alt)
    have small: "\<forall>x \<in> set [unat a div 4096..<(unat e + 4095) div 4096]. x < 2 ^ 32"
      using e32 by auto
    show ?thesis
      using False fold_mark_used [OF assms small] touching_interval [of "unat a" "unat b"] ae e
      by (simp add: reserve_range_def e_def [symmetric] Let_def for_word_fold
          frame_bounds [OF ae e32])
  qed
qed

lemma free_range_spec:
  assumes "pmm_wf s"
  shows "pmm_wf (free_range a b s) \<and>
    total_frames (free_range a b s) = total_frames s \<and>
    bitmap_addr (free_range a b s) = bitmap_addr s \<and>
    used_set (free_range a b s) = used_set s - inside (unat a) (unat b)"
proof -
  define e where "e = (if FOUR_GIB < b then FOUR_GIB else b)"
  have e: "unat e = min (unat b) (2 ^ 32)" by (simp add: e_def unat_clip)
  show ?thesis
  proof (cases "e \<le> a")
    case True
    then have "inside (unat a) (unat b) = {}"
      using e by (auto simp: inside_def word_le_nat_alt)
    with True show ?thesis using assms
      by (simp add: free_range_def e_def [symmetric] Let_def)
  next
    case False
    then have ae: "unat a < unat e" and e32: "unat e \<le> 2 ^ 32"
      using e by (auto simp: word_le_nat_alt)
    have small: "\<forall>x \<in> set [(unat a + 4095) div 4096..<unat e div 4096]. x < 2 ^ 32"
      using e32 by auto
    show ?thesis
      using False fold_mark_free [OF assms small] inside_interval [of "unat a" "unat b"] e
      by (simp add: free_range_def e_def [symmetric] Let_def for_word_fold
          frame_bounds [OF ae e32])
  qed
qed

section \<open>Initialisation\<close>

text \<open>The entries the code considers: usable, and starting below 4 GiB.\<close>

definition usable :: "e820_entry \<Rightarrow> bool" where
  "usable e \<longleftrightarrow> e_type e = E820_USABLE \<and> drop_bit 32 (e_base e) = 0"

definition e_end :: "e820_entry \<Rightarrow> nat" where
  "e_end e = unat (e_base e + e_length e)"

lemma free_usable_spec:
  assumes "pmm_wf s"
  shows "pmm_wf (free_usable es s) \<and>
    total_frames (free_usable es s) = total_frames s \<and>
    bitmap_addr (free_usable es s) = bitmap_addr s \<and>
    used_set (free_usable es s) =
      used_set s - (\<Union>e \<in> {e \<in> set es. usable e}. inside (unat (e_base e)) (e_end e))"
  using assms
proof (induction es arbitrary: s)
  case (Cons e es)
  have wf: "pmm_wf (free_range (e_base e) (e_base e + e_length e) s)"
    using free_range_spec [OF Cons.prems] by blast
  show ?case
  proof (cases "usable e")
    case True
    then show ?thesis
      using Cons.IH [OF wf] free_range_spec [OF Cons.prems, of "e_base e" "e_base e + e_length e"]
      by (auto simp: usable_def e_end_def)
  next
    case False
    then have "{x \<in> set (e # es). usable x} = {x \<in> set es. usable x}" by auto
    with False Cons.IH [OF Cons.prems] show ?thesis
      by (auto simp: usable_def)
  qed
qed simp

lemma max_usable_bound: "unat m \<le> 2 ^ 32 \<Longrightarrow> unat (max_usable es m) \<le> 2 ^ 32"
  by (induction es m rule: max_usable.induct)
    (auto simp: Let_def FOUR_GIB_def word_less_nat_alt word_le_nat_alt)

lemma find_bitmap_spec:
  assumes "find_bitmap n es = a" and "a \<noteq> 0"
  shows "2 ^ 20 \<le> unat a \<and>
    (\<exists>e \<in> set es. usable e \<and> unat (e_base e) \<le> unat a \<and> unat a + unat n \<le> min (e_end e) (2 ^ 32))"
  using assms
proof (induction n es rule: find_bitmap.induct)
  case (2 n e es)
  define ed where "ed = (if FOUR_GIB < e_base e + e_length e then FOUR_GIB else e_base e + e_length e)"
  define b where "b = (if e_base e < 0x100000 then 0x100000 else e_base e)"
  have ed: "unat ed = min (e_end e) (2 ^ 32)" by (simp add: ed_def unat_clip e_end_def)
  show ?case
  proof (cases "usable e \<and> \<not> ed \<le> b \<and> ucast n \<le> ed - b")
    case True
    then have lt: "unat b < unat ed" and n: "unat n \<le> unat ed - unat b"
      by (auto simp: word_le_nat_alt unat_minus_simple)
    from True 2 have a: "a = ucast b"
      by (simp add: usable_def ed_def b_def Let_def)
    have "unat a = unat b"
      using a lt ed by (simp add: unat_ucast_u32)
    moreover have "2 ^ 20 \<le> unat b" and "unat (e_base e) \<le> unat b"
      by (auto simp: b_def word_less_nat_alt)
    ultimately show ?thesis
      using True n lt ed by auto
  next
    case False
    then have "find_bitmap n es = a"
      using 2 by (auto simp: usable_def ed_def b_def Let_def split: if_splits)
    with False 2 show ?thesis
      by (auto simp: usable_def ed_def b_def Let_def split: if_splits)
  qed
qed simp


lemma unat_bitmap_size:
  assumes "unat t \<le> 2 ^ 20"
  shows "unat (bitmap_size t) = 4 * ((unat t + 31) div 32)"
proof -
  have m: "(3::u32) = mask 2" by (simp add: mask_eq_exp_minus_1)
  have "unat (drop_bit 3 (t + 7) + 3) = (unat t + 7) div 8 + 3"
    using assms by (simp add: unat_plus_simple unat_drop_bit)
  then have "unat (bitmap_size t) = ((unat t + 7) div 8 + 3) - ((unat t + 7) div 8 + 3) mod 4"
    unfolding bitmap_size_def using unat_and_not_mask [of "drop_bit 3 (t + 7) + 3" 2] m by simp
  also have "\<dots> = 4 * (((unat t + 7) div 8 + 3) div 4)"
    by (rule minus_mod_eq_mult_div)
  also have "(unat t + 7) div 8 + 3 = (unat t + 31) div 8"
    using div_mult_self1 [of 8 "unat t + 7" 3] by simp
  also have "(unat t + 31) div 8 div 4 = (unat t + 31) div 32"
    by (simp flip: div_mult2_eq)
  finally show ?thesis .
qed

lemma length_bitmap_range [simp]:
  "length (bitmap (reserve_range a b s)) = length (bitmap s)"
  "length (bitmap (free_range a b s)) = length (bitmap s)"
  by (simp_all add: reserve_range_def free_range_def Let_def
      for_word_frame [where g = "\<lambda>s. length (bitmap s)"])

lemma length_bitmap_free_usable [simp]: "length (bitmap (free_usable es s)) = length (bitmap s)"
  by (induction es s rule: free_usable.induct) simp_all

lemma in_touching:
  assumes "a < b" and "b \<le> 2 ^ 32"
  shows "f \<in> touching a b \<longleftrightarrow> f * 4096 < b \<and> a < (f + 1) * 4096"
  using assms by (subst touching_interval) auto

text \<open>Where initialisation ends: either nothing can be managed, or the bitmap was placed.\<close>

lemma pmm_init_cases:
  obtains (none) "pmm_init e = \<lparr>bitmap = [], bitmap_addr = 0, total_frames = 0, used_frames = 0\<rparr>"
  | (placed) t s0 where "unat t \<le> 2 ^ 20" and "find_bitmap (bitmap_size t) e \<noteq> 0"
      and "s0 = \<lparr>bitmap = replicate ((unat t + 31) div 32) 0xFFFFFFFF,
                 bitmap_addr = find_bitmap (bitmap_size t) e, total_frames = t, used_frames = t\<rparr>"
      and "pmm_init e = reserve_range (ucast (bitmap_addr s0))
              (ucast (bitmap_addr s0) + ucast (bitmap_size t))
              (reserve_range 0 0x100000 (free_usable e s0))"
proof -
  define t :: u32 where "t = ucast (drop_bit 12 (max_usable e 0))"
  have "unat (max_usable e 0) \<le> 2 ^ 32" by (rule max_usable_bound) simp
  then have t: "unat t \<le> 2 ^ 20"
    by (simp add: t_def unat_ucast_u32 unat_drop_bit)
  show ?thesis
  proof (cases "max_usable e 0 = 0 \<or> find_bitmap (bitmap_size t) e = 0")
    case True
    then show ?thesis
      by (intro none) (auto simp: pmm_init_def Let_def t_def)
  next
    case False
    have len: "unat (drop_bit 2 (bitmap_size t)) = (unat t + 31) div 32"
      by (simp add: unat_drop_bit unat_bitmap_size [OF t])
    show ?thesis
      by (rule placed [OF t _ refl])
        (use False in \<open>simp_all add: pmm_init_def Let_def t_def [symmetric] len\<close>)
  qed
qed

lemma all_used_wf:
  fixes a :: u32
  assumes "unat t \<le> 2 ^ 20"
  defines "s0 \<equiv> \<lparr>bitmap = replicate ((unat t + 31) div 32) 0xFFFFFFFF, bitmap_addr = a,
    total_frames = t, used_frames = t\<rparr>"
  shows "used_set s0 = {..<unat t}" and "pmm_wf s0"
proof -
  have ones: "(0xFFFFFFFF :: u32) = mask 32" by (simp add: mask_eq_exp_minus_1)
  show u: "used_set s0 = {..<unat t}"
    unfolding s0_def ones by (auto simp: used_set_def bit_simps)
  show "pmm_wf s0"
    using assms(1) u by (simp add: pmm_wf_def) (simp add: s0_def)
qed

text \<open>
  The specification of a freshly initialised manager: the bitmap lies between 1 MiB and 4 GiB and
  has one bit per frame, and a frame is used exactly if it is in the first 1 MiB, not wholly inside
  a usable region, or touches the bitmap itself.
\<close>

definition pmm_initial :: "e820_entry list \<Rightarrow> pmm \<Rightarrow> bool" where
  "pmm_initial e s \<longleftrightarrow> pmm_wf s \<and>
     length (bitmap s) = (unat (total_frames s) + 31) div 32 \<and>
     (0 < unat (total_frames s) \<longrightarrow> 2 ^ 20 \<le> unat (bitmap_addr s) \<and>
        unat (bitmap_addr s) + 4 * length (bitmap s) \<le> 2 ^ 32) \<and>
     used_set s = {f. f < unat (total_frames s) \<and>
       (f < 256 \<or> (\<forall>x \<in> set e. usable x \<longrightarrow> f \<notin> inside (unat (e_base x)) (e_end x)) \<or>
        f \<in> touching (unat (bitmap_addr s)) (unat (bitmap_addr s) + 4 * length (bitmap s)))}"

lemma pmm_init_spec: "pmm_initial e (pmm_init e)"
proof (cases rule: pmm_init_cases [of e])
  case none
  then show ?thesis
    by (simp add: pmm_initial_def pmm_wf_def used_set_def)
next
  case (placed t s0)
  let ?a = "bitmap_addr s0"
  define s1 where "s1 = free_usable e s0"
  define s2 where "s2 = reserve_range 0 0x100000 s1"
  define s where "s = pmm_init e"
  have s: "s = reserve_range (ucast ?a) (ucast ?a + ucast (bitmap_size t)) s2"
    by (simp add: s_def s1_def s2_def placed)
  have wf0: "pmm_wf s0" and u0: "used_set s0 = {..<unat t}"
    using all_used_wf [OF placed(1)] placed(3) by auto
  have a: "2 ^ 20 \<le> unat ?a" "unat ?a + unat (bitmap_size t) \<le> 2 ^ 32"
    using find_bitmap_spec [OF refl placed(2)] placed(3) by auto
  have sum: "unat (ucast ?a + ucast (bitmap_size t) :: u64) = unat ?a + unat (bitmap_size t)"
    using a by (simp add: unat_plus_simple)
  note r1 = free_usable_spec [OF wf0, of e, folded s1_def]
  have wf1: "pmm_wf s1" using r1 by blast
  note r2 = reserve_range_spec [OF wf1, of 0 "0x100000", folded s2_def]
  have wf2: "pmm_wf s2" using r2 by blast
  note r3 = reserve_range_spec [OF wf2, of "ucast ?a" "ucast ?a + ucast (bitmap_size t)", folded s]
  have low: "touching 0 (unat (0x100000::u64)) = {..<256}"
    by (auto simp: touching_interval)
  have tot: "total_frames s = t" "bitmap_addr s = ?a"
    using r1 r2 r3 placed(3) by auto
  have len: "4 * length (bitmap s) = unat (bitmap_size t)"
    by (simp add: s s2_def s1_def placed(3) unat_bitmap_size [OF placed(1)])
  have "used_set s = (({..<unat t} - (\<Union>x \<in> {x \<in> set e. usable x}. inside (unat (e_base x)) (e_end x)))
      \<union> ({..<256} \<inter> {..<unat t})) \<union>
      (touching (unat ?a) (unat ?a + unat (bitmap_size t)) \<inter> {..<unat t})"
    using r1 r2 r3 u0 low sum placed(3) by simp
  moreover have "length (bitmap s) = (unat (total_frames s) + 31) div 32"
    unfolding tot by (simp add: s s2_def s1_def placed(3))
  ultimately have "pmm_initial e s"
    using r3 a tot len unfolding pmm_initial_def by auto
  then show ?thesis by (simp add: s_def)
qed


section \<open>Allocation\<close>

lemma unat_scan_frame:
  assumes "i < 2 ^ 20" and "b < 32"
  shows "unat (push_bit 5 (word_of_nat i) + word_of_nat b :: u32) = i * 32 + b"
  using assms
  by (simp add: push_bit_eq_mult unat_plus_simple unat_of_nat_less unat_word_ariths unat_of_nat)

text \<open>
  What a scan from frame \<open>lo\<close> up to frame \<open>hi\<close> may answer: the first free frame, or nothing if
  the frames below \<open>hi\<close> are all used.
\<close>

definition scan_result :: "pmm \<Rightarrow> nat \<Rightarrow> nat \<Rightarrow> u32 option \<Rightarrow> bool" where
  "scan_result s lo hi r \<longleftrightarrow> (case r of
      Some f \<Rightarrow> lo \<le> unat f \<and> unat f < unat (total_frames s) \<and> unat f \<notin> used_set s \<and>
        {lo..<unat f} \<subseteq> used_set s
    | None \<Rightarrow> {lo..<min hi (unat (total_frames s))} \<subseteq> used_set s)"

lemma scan_result_extend:
  assumes "{lo..<min mid (unat (total_frames s))} \<subseteq> used_set s" and "lo \<le> mid"
    and "scan_result s mid hi r"
  shows "scan_result s lo hi r"
proof -
  have "{lo..<n} \<subseteq> used_set s"
    if "{mid..<n} \<subseteq> used_set s" and "n \<le> unat (total_frames s)" for n
  proof
    fix x assume "x \<in> {lo..<n}"
    with assms(1) that show "x \<in> used_set s" by (cases "x < mid") (auto simp: subset_iff)
  qed
  with assms(2,3) show ?thesis
    by (auto simp: scan_result_def split: option.splits)
qed

lemma bit_all_ones: "bit (0xFFFFFFFF :: u32) n \<longleftrightarrow> n < 32"
proof -
  have "(0xFFFFFFFF :: u32) = mask 32" by (simp add: mask_eq_exp_minus_1)
  then show ?thesis by (simp only: bit_mask_iff) simp
qed

lemma scan_bits_spec:
  assumes "i < 2 ^ 20" and "b \<le> 32"
  shows "scan_result s (i * 32 + b) (i * 32 + 32) (scan_bits s i b)"
  using assms
proof (induction s i b rule: scan_bits.induct)
  case (1 s i b)
  let ?f = "push_bit 5 (word_of_nat i) + word_of_nat b :: u32"
  show ?case
  proof (cases "b < 32")
    case True
    have f: "unat ?f = i * 32 + b" using 1(2) True by (rule unat_scan_frame)
    have bit: "bitmap s ! i AND push_bit b 1 = 0 \<longleftrightarrow> \<not> bit (bitmap s ! i) b"
      using True by (simp add: and_exp_zero)
    consider (over) "total_frames s \<le> ?f"
      | (free) "\<not> total_frames s \<le> ?f" "\<not> bit (bitmap s ! i) b"
      | (used) "\<not> total_frames s \<le> ?f" "bit (bitmap s ! i) b" by blast
    then show ?thesis
    proof cases
      case over
      then show ?thesis using True f
        by (simp add: scan_bits.simps [of s i b] word_le_nat_alt scan_result_def)
    next
      case free
      then have "scan_bits s i b = Some ?f"
        using True bit by (simp add: scan_bits.simps [of s i b])
      with free True f show ?thesis
        by (simp add: scan_result_def used_set_def word_le_nat_alt)
    next
      case used
      have "i * 32 + b \<in> used_set s"
        using used True f by (simp add: used_set_def word_le_nat_alt)
      then have here: "{i * 32 + b..<min (i * 32 + Suc b) (unat (total_frames s))} \<subseteq> used_set s"
        by (auto simp: le_less_Suc_eq)
      have "scan_bits s i b = scan_bits s i (Suc b)"
        using used True bit by (simp add: scan_bits.simps [of s i b])
      with 1(1) [OF True refl] used bit 1(2) True scan_result_extend [OF here] show ?thesis
        by simp
    qed
  next
    case False
    then have "scan_bits s i b = None" by (simp add: scan_bits.simps [of s i b])
    with False show ?thesis by (simp add: scan_result_def)
  qed
qed

lemma scan_words_spec:
  assumes "words \<le> 2 ^ 20"
  shows "scan_result s (i * 32) (words * 32) (scan_words s words i)"
  using assms
proof (induction s words i rule: scan_words.induct)
  case (1 s words i)
  show ?case
  proof (cases "i < words")
    case True
    then have i: "i < 2 ^ 20" using 1(3) by simp
    have go_on: "scan_result s (i * 32) (words * 32) (scan_words s words (Suc i))"
      if "{i * 32..<min (Suc i * 32) (unat (total_frames s))} \<subseteq> used_set s"
        and "scan_result s (Suc i * 32) (words * 32) (scan_words s words (Suc i))"
      by (rule scan_result_extend [OF that(1) _ that(2)]) simp
    show ?thesis
    proof (cases "bitmap s ! i = 0xFFFFFFFF")
      case ones: True
      have "{i * 32..<min (Suc i * 32) (unat (total_frames s))} \<subseteq> used_set s"
      proof
        fix g assume g: "g \<in> {i * 32..<min (Suc i * 32) (unat (total_frames s))}"
        then have "g div 32 = i" by auto
        with g ones bit_all_ones [of "g mod 32"] show "g \<in> used_set s"
          unfolding used_set_def by auto
      qed
      with go_on 1(1) [OF True ones 1(3)] show ?thesis
        by (simp add: scan_words.simps [of s words i] True ones)
    next
      case False
      note sb = scan_bits_spec [OF i, of 0 s]
      show ?thesis
      proof (cases "scan_bits s i 0")
        case None
        with go_on 1(2) [OF True False None 1(3)] sb show ?thesis
          by (simp add: scan_words.simps [of s words i] True False None scan_result_def add.commute)
      next
        case (Some f)
        with sb show ?thesis
          by (simp add: scan_words.simps [of s words i] True False scan_result_def)
      qed
    qed
  next
    case False
    then show ?thesis by (simp add: scan_words.simps [of s words i] scan_result_def)
  qed
qed

text \<open>\<open>pmm_alloc_frame\<close> hands out the lowest free frame, or 0 when every frame is used.\<close>

lemma pmm_alloc_frame_cases:
  assumes "pmm_wf s"
  obtains (full) "used_set s = {..<unat (total_frames s)}" and "pmm_alloc_frame s = (0, s)"
  | (frame) f where "unat f < unat (total_frames s)" and "unat f \<notin> used_set s"
      and "{..<unat f} \<subseteq> used_set s"
      and "pmm_alloc_frame s = (push_bit 12 f, frame_mark_used f s)"
proof -
  let ?w = "unat (drop_bit 5 (total_frames s + 31))"
  have t: "unat (total_frames s) \<le> 2 ^ 20" using assms by (simp add: pmm_wf_def)
  then have w: "?w = (unat (total_frames s) + 31) div 32"
    by (simp add: unat_plus_simple)
  have w20: "?w \<le> 2 ^ 20" unfolding w using t by simp
  note sw = scan_words_spec [OF w20, of s 0]
  show ?thesis
  proof (cases "total_frames s = 0")
    case True
    then show ?thesis by (intro full) (auto simp: used_set_def pmm_alloc_frame_def)
  next
    case False
    show ?thesis
    proof (cases "scan_words s ?w 0")
      case None
      moreover have "min (?w * 32) (unat (total_frames s)) = unat (total_frames s)"
        unfolding w by simp
      ultimately have "{..<unat (total_frames s)} \<subseteq> used_set s"
        using sw by (simp add: scan_result_def lessThan_atLeast0)
      with None False show ?thesis
        by (intro full) (auto simp: pmm_alloc_frame_def dest: used_set_less)
    next
      case (Some f)
      with sw False show ?thesis
        by (intro frame [of f]) (auto simp: pmm_alloc_frame_def scan_result_def)
    qed
  qed
qed


section \<open>The interface\<close>

text \<open>
  Frame 0 is never free, so address 0 can mean "no frame". The manager hands out addresses of
  free frames; a client may give back any frame address except 0.
\<close>

definition pmm_inv :: "pmm \<Rightarrow> bool" where
  "pmm_inv s \<longleftrightarrow> pmm_wf s \<and> (0 < unat (total_frames s) \<longrightarrow> 0 \<in> used_set s)"

definition frame_addr :: "nat \<Rightarrow> u32" where
  "frame_addr f = push_bit 12 (word_of_nat f)"

definition avail_frames :: "pmm \<Rightarrow> u32 set" where
  "avail_frames s = frame_addr ` ({..<unat (total_frames s)} - used_set s)"

definition managed_frames :: "pmm \<Rightarrow> u32 set" where
  "managed_frames s = frame_addr ` {0<..<min (unat (total_frames s)) (2 ^ 20)}"

lemma unat_frame_addr: "f < 2 ^ 20 \<Longrightarrow> unat (frame_addr f) = f * 4096"
  by (simp add: frame_addr_def push_bit_eq_mult unat_word_ariths unat_of_nat)


lemma frame_addr_inj: "f < 2 ^ 20 \<Longrightarrow> g < 2 ^ 20 \<Longrightarrow> frame_addr f = frame_addr g \<longleftrightarrow> f = g"
  by (metis mult_cancel2 unat_frame_addr zero_neq_numeral)

lemma frame_addr_eq_0: "f < 2 ^ 20 \<Longrightarrow> frame_addr f = 0 \<longleftrightarrow> f = 0"
  using frame_addr_inj [of f 0] by (simp add: frame_addr_def)

lemma frame_addr_unat: "push_bit 12 f = frame_addr (unat f)"
  by (simp add: frame_addr_def)

lemma drop_frame_addr: "f < 2 ^ 20 \<Longrightarrow> unat (drop_bit 12 (frame_addr f)) = f"
  by (simp add: unat_drop_bit unat_frame_addr)

lemma inj_frame_addr: "inj_on frame_addr {f. f < 2 ^ 20}"
  by (rule inj_onI) (metis frame_addr_inj mem_Collect_eq)

lemma avail_minus:
  assumes "unat (total_frames s) \<le> 2 ^ 20" and "f < unat (total_frames s)"
  shows "frame_addr ` ({..<unat (total_frames s)} - insert f U) =
    frame_addr ` ({..<unat (total_frames s)} - U) - {frame_addr f}"
proof -
  let ?T = "{..<unat (total_frames s)}"
  have "?T \<subseteq> {f. f < 2 ^ 20}"
    using assms(1) by (simp only: subset_iff lessThan_iff mem_Collect_eq less_le_trans) simp
  then have inj: "inj_on frame_addr ?T" by (rule inj_on_subset [OF inj_frame_addr])
  have "frame_addr ` ((?T - U) - {f}) = frame_addr ` (?T - U) - frame_addr ` {f}"
    by (rule inj_on_image_set_diff [OF inj]) (auto simp: assms(2))
  moreover have "?T - insert f U = (?T - U) - {f}" by blast
  ultimately show ?thesis by simp
qed

lemma pmm_inv_mark_used: "pmm_inv s \<Longrightarrow> pmm_inv (frame_mark_used f s)"
  by (auto simp: pmm_inv_def used_set_mark_used pmm_wf_def [of s])

interpretation pmm: frame_allocator pmm_alloc_frame pmm_free_frame avail_frames managed_frames pmm_inv
proof
  fix s s' and a :: u32
  assume inv: "pmm_inv s" and al: "pmm_alloc_frame s = (a, s')" and nz: "a \<noteq> 0"
  then have wf: "pmm_wf s" by (simp add: pmm_inv_def)
  show "a \<in> avail_frames s \<and> avail_frames s' = avail_frames s - {a} \<and>
      managed_frames s' = managed_frames s \<and> pmm_inv s'"
    using wf
  proof (cases rule: pmm_alloc_frame_cases)
    case full
    with al nz show ?thesis by simp
  next
    case (frame f)
    then have eq: "a = frame_addr (unat f)" "s' = frame_mark_used f s"
      using al by (auto simp: frame_addr_unat)
    have u: "used_set s' = insert (unat f) (used_set s)"
      using wf frame(1) eq by (auto simp: used_set_mark_used pmm_wf_def)
    show ?thesis
      using frame wf u avail_minus [of s "unat f" "used_set s"] inv
      by (auto simp: eq avail_frames_def managed_frames_def pmm_wf_def pmm_inv_mark_used)
  qed
next
  fix s s'
  assume inv: "pmm_inv s" and al: "pmm_alloc_frame s = (0, s')"
  then have wf: "pmm_wf s" by (simp add: pmm_inv_def)
  show "s' = s \<and> avail_frames s = {}"
    using wf
  proof (cases rule: pmm_alloc_frame_cases)
    case full
    with al show ?thesis by (simp add: avail_frames_def)
  next
    case (frame f)
    then have "frame_addr (unat f) = 0" using al by (simp add: frame_addr_unat)
    then have "unat f = 0" using frame(1) wf frame_addr_eq_0 [of "unat f"] by (simp add: pmm_wf_def)
    with frame inv show ?thesis by (simp add: pmm_inv_def)
  qed
next
  fix s and a :: u32
  assume inv: "pmm_inv s" and "a \<in> managed_frames s"
  then obtain f where f: "a = frame_addr f" "0 < f" "f < unat (total_frames s)" "f < 2 ^ 20"
    by (auto simp: managed_frames_def)
  have wf: "pmm_wf s" using inv by (simp add: pmm_inv_def)
  have u: "used_set (pmm_free_frame a s) = used_set s - {f}"
    using wf f by (simp add: pmm_free_frame_def used_set_mark_free pmm_wf_def drop_frame_addr)
  moreover have "pmm_wf (pmm_free_frame a s)" "total_frames (pmm_free_frame a s) = total_frames s"
    using wf by (auto simp: pmm_free_frame_def)
  ultimately show "avail_frames (pmm_free_frame a s) = insert a (avail_frames s) \<and>
      managed_frames (pmm_free_frame a s) = managed_frames s \<and> pmm_inv (pmm_free_frame a s)"
    using f inv by (auto simp: avail_frames_def managed_frames_def pmm_inv_def)
next
  fix s
  assume "pmm_inv s"
  then show "avail_frames s \<subseteq> managed_frames s"
    by (auto simp: avail_frames_def managed_frames_def pmm_inv_def pmm_wf_def)
      (metis (no_types, lifting) gr0I greaterThanLessThan_iff image_eqI min_less_iff_conj
        order.strict_trans2)
next
  fix s
  show "0 \<notin> managed_frames s"
    using frame_addr_eq_0 by (fastforce simp: managed_frames_def)
qed


lemma total_frames_range [simp]:
  "total_frames (reserve_range a b s) = total_frames s"
  "total_frames (free_range a b s) = total_frames s"
  "bitmap_addr (reserve_range a b s) = bitmap_addr s"
  "bitmap_addr (free_range a b s) = bitmap_addr s"
  by (simp_all add: reserve_range_def free_range_def Let_def for_word_frame
      [where g = total_frames] for_word_frame [where g = bitmap_addr])

lemma total_frames_free_usable [simp]:
  "total_frames (free_usable es s) = total_frames s"
  "bitmap_addr (free_usable es s) = bitmap_addr s"
  by (induction es s rule: free_usable.induct) simp_all

lemma pmm_init_geometry:
  assumes "max_usable e 0 \<noteq> 0"
    and "find_bitmap (bitmap_size (ucast (drop_bit 12 (max_usable e 0)))) e \<noteq> 0"
  shows "total_frames (pmm_init e) = ucast (drop_bit 12 (max_usable e 0))"
    and "bitmap_addr (pmm_init e) = find_bitmap (bitmap_size (ucast (drop_bit 12 (max_usable e 0)))) e"
    and "length (bitmap (pmm_init e)) = unat (drop_bit 2 (bitmap_size (ucast (drop_bit 12 (max_usable e 0)))))"
  using assms by (simp_all add: pmm_init_def Let_def)

lemma pmm_init_inv: "pmm_inv (pmm_init e)"
  using pmm_init_spec [of e] by (auto simp: pmm_initial_def pmm_inv_def)

lemma not_touching:
  assumes "a < b" and "b \<le> 2 ^ 32"
  shows "f \<notin> touching a b \<longleftrightarrow> (f + 1) * 4096 \<le> a \<or> b \<le> f * 4096"
  using in_touching [OF assms, of f] by auto

lemma pmm_init_free:
  fixes e :: "e820_entry list"
  defines "s \<equiv> pmm_init e"
  assumes "f < unat (total_frames s)"
  shows "f \<notin> used_set s \<longleftrightarrow> 256 \<le> f \<and>
    (\<exists>x \<in> set e. usable x \<and> unat (e_base x) \<le> f * 4096 \<and> (f + 1) * 4096 \<le> min (e_end x) (2 ^ 32)) \<and>
    ((f + 1) * 4096 \<le> unat (bitmap_addr s) \<or>
      unat (bitmap_addr s) + 4 * length (bitmap s) \<le> f * 4096)"
proof -
  note i = pmm_init_spec [of e, folded s_def, unfolded pmm_initial_def]
  have "0 < length (bitmap s)" using i assms(2) by auto
  then have nt: "f \<notin> touching (unat (bitmap_addr s)) (unat (bitmap_addr s) + 4 * length (bitmap s)) \<longleftrightarrow>
      (f + 1) * 4096 \<le> unat (bitmap_addr s) \<or> unat (bitmap_addr s) + 4 * length (bitmap s) \<le> f * 4096"
    using i assms(2) by (intro not_touching) auto
  have "f \<in> used_set s \<longleftrightarrow> f < 256 \<or>
      (\<forall>x \<in> set e. usable x \<longrightarrow> f \<notin> inside (unat (e_base x)) (e_end x)) \<or>
      f \<in> touching (unat (bitmap_addr s)) (unat (bitmap_addr s) + 4 * length (bitmap s))"
    using i assms(2) by auto
  then show ?thesis using nt by (auto simp: inside_def)
qed

lemma card_avail_frames:
  assumes "pmm_wf s"
  shows "card (avail_frames s) = unat (pmm_free_frames s)"
proof -
  let ?T = "{..<unat (total_frames s)}"
  have "?T - used_set s \<subseteq> {f. f < 2 ^ 20}"
    using assms unfolding pmm_wf_def by auto
  then have "card (avail_frames s) = card (?T - used_set s)"
    unfolding avail_frames_def by (intro card_image inj_on_subset [OF inj_frame_addr])
  also have "\<dots> = unat (total_frames s) - card (used_set s)"
    using card_Diff_subset [OF _ used_set_subset [of s]] by simp
  also have "\<dots> = unat (pmm_free_frames s)"
    using assms card_mono [OF _ used_set_subset [of s]]
    by (simp add: pmm_free_frames_def pmm_wf_def unat_minus_simple word_le_nat_alt)
  finally show ?thesis .
qed

section \<open>Properties\<close>

text \<open>
  C1. After \<open>pmm_init\<close> a frame is free exactly if it lies above the first 1 MiB, wholly inside a
  usable E820 region that starts below 4 GiB, and does not touch the bitmap's own storage; the
  manager's counters and bitmap length are consistent.
\<close>

theorem pmm_init_free_iff:
  assumes "f < unat (total_frames (pmm_init e))"
  shows "pmm_wf (pmm_init e) \<and>
    (f \<notin> used_set (pmm_init e) \<longleftrightarrow> 256 \<le> f \<and>
      (\<exists>x \<in> set e. usable x \<and> unat (e_base x) \<le> f * 4096 \<and>
         (f + 1) * 4096 \<le> min (e_end x) (2 ^ 32)) \<and>
      ((f + 1) * 4096 \<le> unat (bitmap_addr (pmm_init e)) \<or>
       unat (bitmap_addr (pmm_init e)) + 4 * length (bitmap (pmm_init e)) \<le> f * 4096))"
  using pmm_init_free [OF assms] pmm_init_inv [of e] by (simp add: pmm_inv_def)

text \<open>A machine with 639 KiB of low memory and one MiB above the 1 MiB mark.\<close>

definition small_map :: "e820_entry list" where
  "small_map = [\<lparr>e_base = 0, e_length = 0x9FC00, e_type = 1, e_attr = 0\<rparr>,
    \<lparr>e_base = 0x9FC00, e_length = 0x400, e_type = 2, e_attr = 0\<rparr>,
    \<lparr>e_base = 0x100000, e_length = 0x100000, e_type = 1, e_attr = 0\<rparr>]"

lemma small_map_max: "max_usable small_map 0 = 0x200000"
  by (simp add: small_map_def E820_USABLE_def FOUR_GIB_def)

lemma small_map_bitmap: "find_bitmap (bitmap_size 0x200) small_map = 0x100000"
  by (simp add: small_map_def bitmap_size_def E820_USABLE_def FOUR_GIB_def)

lemma small_map_init:
  "total_frames (pmm_init small_map) = 512" "bitmap_addr (pmm_init small_map) = 0x100000"
  "length (bitmap (pmm_init small_map)) = 16"
  using pmm_init_geometry [of small_map] small_map_bitmap
  by (simp_all add: small_map_max bitmap_size_def)

lemma small_map_used:
  "f < 512 \<Longrightarrow> f \<notin> used_set (pmm_init small_map) \<longleftrightarrow> 257 \<le> f"
  using pmm_init_free [of f small_map]
  by (simp add: small_map_init) (auto simp: small_map_def usable_def E820_USABLE_def e_end_def)

lemma small_map_avail: "avail_frames (pmm_init small_map) = frame_addr ` {257..<512}"
proof -
  have "{..<512} - used_set (pmm_init small_map) = {257..<512}"
  proof (rule set_eqI)
    fix f
    show "f \<in> {..<512} - used_set (pmm_init small_map) \<longleftrightarrow> f \<in> {257..<512}"
      using small_map_used [of f] by (cases "f < 512") simp_all
  qed
  then show ?thesis by (simp only: avail_frames_def small_map_init) simp
qed

lemma small_map_card: "card (avail_frames (pmm_init small_map)) = 255"
proof -
  have "inj_on frame_addr {257..<512}" by (rule inj_on_subset [OF inj_frame_addr]) auto
  then show ?thesis by (simp add: small_map_avail card_image)
qed

theorem pmm_init_free_iff_witness:
  "257 < unat (total_frames (pmm_init small_map)) \<and> 257 \<notin> used_set (pmm_init small_map)"
  using pmm_init_free_iff [of 257 small_map]
  by (simp add: small_map_init) (simp add: small_map_def usable_def E820_USABLE_def e_end_def)


text \<open>
  C2. On a consistent manager \<open>pmm_alloc_frame\<close> hands out the lowest free frame and marks exactly
  that frame used, or returns 0 and changes nothing when every frame is used.
\<close>

theorem pmm_alloc_lowest_free:
  assumes "pmm_wf s"
  shows "if used_set s = {..<unat (total_frames s)} then pmm_alloc_frame s = (0, s)
    else \<exists>s' f. f = (LEAST f. f \<notin> used_set s) \<and> f < unat (total_frames s) \<and>
      pmm_alloc_frame s = (frame_addr f, s') \<and>
      used_set s' = insert f (used_set s) \<and> total_frames s' = total_frames s \<and> pmm_wf s'"
  using assms
proof (cases rule: pmm_alloc_frame_cases)
  case (frame f)
  have "unat f = (LEAST f. f \<notin> used_set s)"
    by (rule Least_equality [symmetric]) (use frame(2,3) in \<open>auto simp: subset_iff not_less [symmetric]\<close>)
  moreover have "used_set (frame_mark_used f s) = insert (unat f) (used_set s)"
    using assms frame(1) by (auto simp: used_set_mark_used pmm_wf_def)
  moreover have "used_set s \<noteq> {..<unat (total_frames s)}" using frame(1,2) by auto
  ultimately show ?thesis
    using frame assms by (auto simp: frame_addr_unat pmm_wf_mark_used)
qed simp

theorem pmm_alloc_lowest_free_witness:
  "pmm_wf (pmm_init small_map) \<and> (\<exists>s'. pmm_alloc_frame (pmm_init small_map) = (0x101000, s'))"
proof -
  have wf: "pmm_wf (pmm_init small_map)"
    using pmm_init_inv [of small_map] by (simp add: pmm_inv_def)
  note free = small_map_used
  have "(LEAST f. f \<notin> used_set (pmm_init small_map)) = 257"
  proof (rule Least_equality)
    show "257 \<notin> used_set (pmm_init small_map)" by (simp add: free)
  next
    fix f assume "f \<notin> used_set (pmm_init small_map)"
    then show "257 \<le> f" using free [of f] by linarith
  qed
  moreover have "257 \<notin> used_set (pmm_init small_map)" using free by simp
  ultimately show ?thesis
    using pmm_alloc_lowest_free [OF wf] wf
    by (auto simp: small_map_init frame_addr_def split: if_splits)
qed

text \<open>
  C3. From the initial state, any sequence of allocations and releases of held frames keeps the
  held frames distinct and separate from the free ones and loses none; every held frame is page
  aligned, above 1 MiB, inside usable memory and clear of the bitmap; and the free counter is
  exact.
\<close>

theorem pmm_run_safe:
  assumes run: "frame_run pmm_alloc_frame pmm_free_frame ops (pmm_init e, []) = (s, held)"
  shows "distinct held \<and> set held \<inter> avail_frames s = {} \<and>
    set held \<union> avail_frames s = avail_frames (pmm_init e) \<and>
    length held + unat (pmm_free_frames s) = unat (pmm_free_frames (pmm_init e)) \<and>
    (\<forall>a \<in> set held. 2 ^ 20 \<le> unat a \<and> unat a mod 4096 = 0 \<and>
      (\<exists>x \<in> set e. usable x \<and> unat (e_base x) \<le> unat a \<and> unat a + 4096 \<le> e_end x) \<and>
      (unat a + 4096 \<le> unat (bitmap_addr (pmm_init e)) \<or>
       unat (bitmap_addr (pmm_init e)) + 4 * length (bitmap (pmm_init e)) \<le> unat a))"
proof -
  have ok: "pmm_inv s \<and> distinct held \<and> set held \<inter> avail_frames s = {} \<and>
      set held \<union> avail_frames s = avail_frames (pmm_init e)"
    using pmm.frame_run_ok [OF run pmm_init_inv] by simp
  have "card (avail_frames (pmm_init e)) = length held + card (avail_frames s)"
    using ok by (metis (no_types, lifting) List.finite_set avail_frames_def card_Un_disjoint
        distinct_card finite_Diff finite_imageI finite_lessThan)
  then have count: "length held + unat (pmm_free_frames s) = unat (pmm_free_frames (pmm_init e))"
    using ok pmm_init_inv [of e] by (simp add: card_avail_frames pmm_inv_def)
  have "2 ^ 20 \<le> unat a \<and> unat a mod 4096 = 0 \<and>
      (\<exists>x \<in> set e. usable x \<and> unat (e_base x) \<le> unat a \<and> unat a + 4096 \<le> e_end x) \<and>
      (unat a + 4096 \<le> unat (bitmap_addr (pmm_init e)) \<or>
       unat (bitmap_addr (pmm_init e)) + 4 * length (bitmap (pmm_init e)) \<le> unat a)"
    if "a \<in> set held" for a
  proof -
    have "a \<in> avail_frames (pmm_init e)" using that ok by blast
    then obtain f where f: "a = frame_addr f" "f < unat (total_frames (pmm_init e))"
        "f \<notin> used_set (pmm_init e)"
      by (auto simp: avail_frames_def)
    moreover have "unat (total_frames (pmm_init e)) \<le> 2 ^ 20"
      using pmm_init_inv [of e] by (simp add: pmm_inv_def pmm_wf_def)
    ultimately have a: "unat a = f * 4096" by (simp add: unat_frame_addr)
    show ?thesis
      using pmm_init_free [OF f(2)] f(3) unfolding a by (auto simp: add.commute)
  qed
  with ok count show ?thesis by blast
qed

theorem pmm_run_safe_witness:
  "\<exists>s held. frame_run pmm_alloc_frame pmm_free_frame [AllocFrame, AllocFrame, FreeFrame 0, AllocFrame]
      (pmm_init small_map, []) = (s, held) \<and> distinct held"
proof -
  obtain s held where run: "frame_run pmm_alloc_frame pmm_free_frame
      [AllocFrame, AllocFrame, FreeFrame 0, AllocFrame] (pmm_init small_map, []) = (s, held)"
    by fastforce
  from pmm_run_safe [OF run] run show ?thesis by blast
qed

end
