(* ===== verification/Paging.thy ===== *)
theory Paging
  imports Pmm
begin

text \<open>
  The two-level page tables of \<open>mm/paging.c\<close>. The page directory and the page tables live in
  physical frames that come from \<open>Pmm\<close>; they are read and written through one store \<open>pmem\<close> of
  32-bit cells addressed by byte address, so that a wrong frame would overwrite another table.
  The abstract view is the partial map from virtual page numbers to page table entries.
\<close>

section \<open>State and operations\<close>

record paging =
  pg_pmm :: pmm
  page_directory :: u32
  enabled :: bool
  cr0 :: u32
  cr3 :: u32
  pmem :: "u32 \<Rightarrow> u32"

definition PAGE_PRESENT :: u32 where "PAGE_PRESENT = 1"
definition PAGE_WRITE :: u32 where "PAGE_WRITE = 2"
definition PAGE_USER :: u32 where "PAGE_USER = 4"
definition ADDR_MASK :: u32 where "ADDR_MASK = 0xFFFFF000"

lemmas page_flag_defs = PAGE_PRESENT_def PAGE_WRITE_def PAGE_USER_def

definition load_cr3 :: "u32 \<Rightarrow> paging \<Rightarrow> paging" where
  "load_cr3 pd_phys s = s\<lparr>cr3 := pd_phys\<rparr>"

definition set_paging_bit :: "paging \<Rightarrow> paging" where
  "set_paging_bit s = s\<lparr>cr0 := cr0 s OR 0x80000000\<rparr>"

text \<open>Entry \<open>i\<close> of the table at \<open>t\<close> is the cell at byte address \<open>t + 4 * i\<close>.\<close>

definition cell :: "u32 \<Rightarrow> u32 \<Rightarrow> u32" where
  "cell t i = t + 4 * i"

definition zero_table :: "u32 \<Rightarrow> (u32 \<Rightarrow> u32) \<Rightarrow> (u32 \<Rightarrow> u32)" where
  "zero_table t m = for_word 0 1024 (\<lambda>i m. m(cell t i := 0)) m"

definition paging_flush :: "paging \<Rightarrow> paging" where
  "paging_flush s = (if enabled s then load_cr3 (page_directory s) s else s)"

definition paging_map :: "u32 \<Rightarrow> u32 \<Rightarrow> u32 \<Rightarrow> paging \<Rightarrow> int \<times> paging" where
  "paging_map virt phys flags s =
     (let pdi = drop_bit 22 virt;
          pti = drop_bit 12 virt AND 0x3FF;
          pde = pmem s (cell (page_directory s) pdi);
          (pt, s1) =
            (if pde AND PAGE_PRESENT = 0
             then let (pt_phys, pm) = pmm_alloc_frame (pg_pmm s)
                  in if pt_phys = 0 then (0, s\<lparr>pg_pmm := pm\<rparr>)
                     else (pt_phys, s\<lparr>pg_pmm := pm, pmem := (zero_table pt_phys (pmem s))
                            (cell (page_directory s) pdi :=
                               pt_phys OR PAGE_PRESENT OR PAGE_WRITE OR (flags AND PAGE_USER))\<rparr>)
             else (pde AND ADDR_MASK, s))
      in if pde AND PAGE_PRESENT = 0 \<and> pt = 0 then (-1, s1)
         else (0, paging_flush (s1\<lparr>pmem := (pmem s1)
                 (cell pt pti := (phys AND ADDR_MASK) OR (flags AND 0xFFF) OR PAGE_PRESENT)\<rparr>)))"

definition paging_unmap :: "u32 \<Rightarrow> paging \<Rightarrow> paging" where
  "paging_unmap virt s =
     (let pdi = drop_bit 22 virt;
          pti = drop_bit 12 virt AND 0x3FF;
          pde = pmem s (cell (page_directory s) pdi)
      in if pde AND PAGE_PRESENT = 0 then s
         else paging_flush (s\<lparr>pmem := (pmem s)(cell (pde AND ADDR_MASK) pti := 0)\<rparr>))"

definition paging_get_phys :: "u32 \<Rightarrow> paging \<Rightarrow> u32" where
  "paging_get_phys virt s =
     (let pdi = drop_bit 22 virt;
          pti = drop_bit 12 virt AND 0x3FF;
          pde = pmem s (cell (page_directory s) pdi);
          pte = pmem s (cell (pde AND ADDR_MASK) pti)
      in if pde AND PAGE_PRESENT = 0 then 0xFFFFFFFF
         else if pte AND PAGE_PRESENT = 0 then 0xFFFFFFFF
         else (pte AND ADDR_MASK) OR (virt AND 0xFFF))"

definition paging_is_enabled :: "paging \<Rightarrow> bool" where
  "paging_is_enabled s = enabled s"

definition IDENTITY_CAP :: u64 where "IDENTITY_CAP = 0x40000000"

definition identity_top :: "pmm \<Rightarrow> u32" where
  "identity_top pm =
     (let top64 = push_bit 12 (ucast (pmm_total_frames pm))
      in ucast (if IDENTITY_CAP < top64 then IDENTITY_CAP else top64))"

text \<open>
  The loop \<open>for (addr = 0; addr < top; addr += PAGE_SIZE)\<close> runs over the page numbers below
  \<open>top / 4096\<close>: \<open>top\<close> is a multiple of 4096 and at most 1 GiB, so \<open>addr\<close> does not wrap. As in
  the code, the result of each \<open>paging_map\<close> is ignored.
\<close>

definition identity_map :: "nat \<Rightarrow> paging \<Rightarrow> paging" where
  "identity_map n s =
     fold (\<lambda>k s. snd (paging_map (frame_addr k) (frame_addr k) (PAGE_PRESENT OR PAGE_WRITE) s)) [0..<n] s"

definition paging_init :: "paging \<Rightarrow> paging" where
  "paging_init s =
     (let (pd_phys, pm) = pmm_alloc_frame (pg_pmm s);
          s1 = s\<lparr>pg_pmm := pm, page_directory := pd_phys, pmem := zero_table pd_phys (pmem s)\<rparr>;
          top = identity_top pm;
          s2 = identity_map (unat top div 4096) s1
      in (set_paging_bit (load_cr3 pd_phys s2))\<lparr>enabled := True\<rparr>)"

section \<open>Addresses\<close>

definition page_aligned :: "u32 \<Rightarrow> bool" where
  "page_aligned a \<longleftrightarrow> unat a mod 4096 = 0"

lemma page_alignedE:
  assumes "page_aligned a"
  obtains k where "unat a = k * 4096" and "k < 2 ^ 20"
proof -
  have "unat a = (unat a div 4096) * 4096"
    using assms unfolding page_aligned_def by (metis div_mult_mod_eq add.right_neutral)
  moreover have "unat a div 4096 < 2 ^ 20"
    using unat_less_pow [of a] by (simp add: div_less_iff_less_mult)
  ultimately show ?thesis by (rule that)
qed

lemma page_aligned_bound: "page_aligned a \<Longrightarrow> unat a + 4096 \<le> 2 ^ 32"
  by (erule page_alignedE) simp

lemma unat_cell:
  assumes "page_aligned t" and "unat i < 1024"
  shows "unat (cell t i) = unat t + 4 * unat i"
proof -
  have "unat (4 * i) = 4 * unat i" using assms(2) by (simp add: unat_word_ariths)
  then show ?thesis
    using assms page_aligned_bound [OF assms(1)] unfolding cell_def by (subst unat_plus_simple) auto
qed

lemma cell_eq:
  assumes "page_aligned t" and "page_aligned u" and "unat i < 1024" and "unat j < 1024"
  shows "cell t i = cell u j \<longleftrightarrow> t = u \<and> i = j"
proof
  assume "cell t i = cell u j"
  then have e: "unat t + 4 * unat i = unat u + 4 * unat j"
    using assms by (metis unat_cell)
  obtain k l where k: "unat t = k * 4096" and l: "unat u = l * 4096"
    using assms(1,2) by (metis page_alignedE)
  have "(k * 4096 + 4 * unat i) div 4096 = k" "(l * 4096 + 4 * unat j) div 4096 = l"
    using assms(3,4) by simp_all
  with e have "unat t = unat u" unfolding k l by metis
  with e show "t = u \<and> i = j" by (simp add: word_unat_eq_iff)
qed simp

lemma zero_table_cells:
  assumes "page_aligned t"
  shows "zero_table t m a = (if \<exists>i. unat i < 1024 \<and> a = cell t i then 0 else m a)"
proof -
  have "fold (\<lambda>i m. m(cell t (word_of_nat i) := 0)) [0..<n] m a =
      (if \<exists>i < n. a = cell t (word_of_nat i) then 0 else m a)" for n
    by (induction n) (auto simp: less_Suc_eq)
  then have "zero_table t m a = (if \<exists>i < 1024. a = cell t (word_of_nat i) then 0 else m a)"
    by (simp add: zero_table_def for_word_fold)
  moreover have "(\<exists>i < 1024. a = cell t (word_of_nat i)) \<longleftrightarrow> (\<exists>i. unat i < 1024 \<and> a = cell t i)"
  proof safe
    fix i :: nat assume "i < 1024"
    then show "\<exists>j. unat j < 1024 \<and> cell t (word_of_nat i) = cell t j"
      by (intro exI [of _ "word_of_nat i"]) (simp add: unat_of_nat_less)
  next
    fix i :: u32 assume "unat i < 1024"
    then show "\<exists>j < 1024. cell t i = cell t (word_of_nat j)"
      by (intro exI [of _ "unat i"]) simp
  qed
  ultimately show ?thesis by simp
qed


lemma page_aligned_take_bit: "page_aligned a \<longleftrightarrow> take_bit 12 a = 0"
  by (simp add: page_aligned_def word_unat_eq_iff unat_take_bit)

lemma ADDR_MASK_mask: "ADDR_MASK = NOT (mask 12)"
  by (simp add: ADDR_MASK_def mask_eq_exp_minus_1)

lemma and_ADDR_MASK: "a AND ADDR_MASK = a - take_bit 12 a"
  by (simp add: ADDR_MASK_mask and_not_mask)

lemma or_low_ADDR_MASK:
  assumes "page_aligned a" and "take_bit 12 x = x"
  shows "(a OR x) AND ADDR_MASK = a"
proof -
  have "(a OR x) AND ADDR_MASK = (a AND ADDR_MASK) OR (x AND ADDR_MASK)"
    by (rule bit_word_eqI) (auto simp: bit_simps)
  then show ?thesis using assms by (simp add: and_ADDR_MASK page_aligned_take_bit)
qed

lemma page_aligned_and_mask: "page_aligned (a AND ADDR_MASK)"
  by (simp add: page_aligned_take_bit ADDR_MASK_mask take_bit_eq_mask)
    (rule bit_word_eqI, auto simp: bit_simps)

lemma unat_and_3FF: "unat (x AND 0x3FF) = unat x mod 1024" for x :: u32
  using unat_and_mask [of x 10] by (simp add: mask_eq_exp_minus_1)

lemma index_bounds [simp]:
  "unat (drop_bit 22 v) < 1024" "unat (x AND 0x3FF) < 1024" for v x :: u32
  using unat_less_pow [of v] by (simp_all add: unat_drop_bit unat_and_3FF div_less_iff_less_mult)

lemma vpn_index: "drop_bit 22 v = drop_bit 10 (drop_bit 12 v)" for v :: u32
  by (simp add: drop_bit_drop_bit)

lemma vpn_eqI: "drop_bit 10 p = drop_bit 10 q \<Longrightarrow> p AND 0x3FF = q AND 0x3FF \<Longrightarrow> p = q" for p q :: u32
proof -
  have m: "(0x3FF :: u32) = mask 10" by (simp add: mask_eq_exp_minus_1)
  assume "drop_bit 10 p = drop_bit 10 q" and "p AND 0x3FF = q AND 0x3FF"
  then have "push_bit 10 (drop_bit 10 p) + take_bit 10 p = push_bit 10 (drop_bit 10 q) + take_bit 10 q"
    unfolding m by (simp add: take_bit_eq_mask)
  then show "p = q" by (simp only: bits_ident)
qed

section \<open>The abstract view: virtual pages\<close>

abbreviation present :: "u32 \<Rightarrow> bool" where
  "present e \<equiv> e AND PAGE_PRESENT \<noteq> 0"

definition pde :: "paging \<Rightarrow> u32 \<Rightarrow> u32" where
  "pde s i = pmem s (cell (page_directory s) i)"

definition table_of :: "paging \<Rightarrow> u32 \<Rightarrow> u32" where
  "table_of s i = pde s i AND ADDR_MASK"

definition pages :: "paging \<Rightarrow> u32 \<Rightarrow> u32 option" where
  "pages s p =
     (let e = pmem s (cell (table_of s (drop_bit 10 p)) (p AND 0x3FF))
      in if present (pde s (drop_bit 10 p)) \<and> present e then Some e else None)"

definition page_entry :: "u32 \<Rightarrow> u32 \<Rightarrow> u32" where
  "page_entry phys flags = (phys AND ADDR_MASK) OR (flags AND 0xFFF) OR PAGE_PRESENT"

text \<open>
  Every table is a frame taken from the manager and not given back, no two directory slots share
  a table, and the directory is not one of the tables.
\<close>

definition pg_inv :: "paging \<Rightarrow> bool" where
  "pg_inv s \<longleftrightarrow> pmm_inv (pg_pmm s) \<and>
     page_directory s \<in> managed_frames (pg_pmm s) - avail_frames (pg_pmm s) \<and>
     (\<forall>i. unat i < 1024 \<and> present (pde s i) \<longrightarrow>
        table_of s i \<in> managed_frames (pg_pmm s) - avail_frames (pg_pmm s) \<and>
        table_of s i \<noteq> page_directory s \<and>
        (\<forall>j. unat j < 1024 \<and> present (pde s j) \<and> j \<noteq> i \<longrightarrow> table_of s j \<noteq> table_of s i))"

text \<open>The frames that hold the paging structures.\<close>

definition tables :: "paging \<Rightarrow> u32 set" where
  "tables s = insert (page_directory s) (table_of s ` {i. unat i < 1024 \<and> present (pde s i)})"

lemma tables_held: "pg_inv s \<Longrightarrow> tables s \<subseteq> managed_frames (pg_pmm s) - avail_frames (pg_pmm s)"
  unfolding pg_inv_def tables_def by blast

lemma tables_cong:
  "page_directory s' = page_directory s \<Longrightarrow> (\<And>i. unat i < 1024 \<Longrightarrow> pde s' i = pde s i) \<Longrightarrow> tables s' = tables s"
  by (auto simp: tables_def table_of_def)

lemma page_entry_present [simp]: "present (page_entry p f)"
proof -
  have "bit (page_entry p f) 0" by (simp add: page_entry_def PAGE_PRESENT_def bit_simps)
  then show ?thesis
    by (metis PAGE_PRESENT_def and_exp_zero len_gt_0 power_0)
qed

lemma present_table_entry [simp]: "present (pt OR PAGE_PRESENT OR PAGE_WRITE OR x)"
proof -
  have "bit (pt OR PAGE_PRESENT OR PAGE_WRITE OR x) 0" by (simp add: PAGE_PRESENT_def bit_simps)
  then show ?thesis
    by (metis PAGE_PRESENT_def and_exp_zero len_gt_0 power_0)
qed

lemma not_present_0 [simp]: "\<not> present 0"
  by simp

lemma table_entry_mask [simp]:
  assumes "page_aligned pt"
  shows "(pt OR PAGE_PRESENT OR PAGE_WRITE OR (f AND PAGE_USER)) AND ADDR_MASK = pt"
proof -
  have "take_bit 12 (f AND PAGE_USER) = f AND PAGE_USER"
    by (rule take_bit_and_absorb) (simp add: PAGE_USER_def)
  then have "take_bit 12 (PAGE_PRESENT OR PAGE_WRITE OR (f AND PAGE_USER)) =
      PAGE_PRESENT OR PAGE_WRITE OR (f AND PAGE_USER)"
    by (simp only: take_bit_or) (simp add: PAGE_PRESENT_def PAGE_WRITE_def)
  from or_low_ADDR_MASK [OF assms this] show ?thesis by (simp add: or.assoc)
qed

lemma managed_aligned: "a \<in> managed_frames pm \<Longrightarrow> page_aligned a"
  by (auto simp: managed_frames_def page_aligned_def unat_frame_addr)

lemma pg_inv_aligned:
  assumes "pg_inv s"
  shows "page_aligned (page_directory s)" and "page_aligned (table_of s i)"
proof -
  have "page_directory s \<in> managed_frames (pg_pmm s)" using assms unfolding pg_inv_def by blast
  then show "page_aligned (page_directory s)" by (rule managed_aligned)
  show "page_aligned (table_of s i)" unfolding table_of_def by (rule page_aligned_and_mask)
qed

lemma paging_get_phys_pages:
  "paging_get_phys v s = (case pages s (drop_bit 12 v) of
     None \<Rightarrow> 0xFFFFFFFF | Some e \<Rightarrow> (e AND ADDR_MASK) OR (v AND 0xFFF))"
  by (simp add: paging_get_phys_def pages_def pde_def table_of_def Let_def)


section \<open>Mapping\<close>

lemma pmem_flush [simp]:
  "pmem (paging_flush s) = pmem s" "page_directory (paging_flush s) = page_directory s"
  "pg_pmm (paging_flush s) = pg_pmm s" "enabled (paging_flush s) = enabled s"
  by (simp_all add: paging_flush_def load_cr3_def)

lemma pg_inv_flush [simp]: "pg_inv (paging_flush s) = pg_inv s" "pages (paging_flush s) = pages s"
  by (simp_all add: pg_inv_def pde_def table_of_def pages_def fun_eq_iff)

text \<open>Writing one entry of a live page table.\<close>

lemma write_entry:
  fixes e :: u32
  assumes inv: "pg_inv s" and pr: "present (pde s i)" and i: "unat i < 1024" and j: "unat j < 1024"
  defines "s' \<equiv> s\<lparr>pmem := (pmem s)(cell (table_of s i) j := e)\<rparr>"
  shows "pg_inv s'"
    and "\<And>k l. present (pde s k) \<Longrightarrow> unat k < 1024 \<Longrightarrow> unat l < 1024 \<Longrightarrow>
      pmem s' (cell (table_of s' k) l) =
      (if k = i \<and> l = j then e else pmem s (cell (table_of s k) l))"
    and "\<And>k. unat k < 1024 \<Longrightarrow> pde s' k = pde s k"
proof -
  note al = pg_inv_aligned [OF inv]
  have ne: "table_of s i \<noteq> page_directory s" using inv pr i unfolding pg_inv_def by blast
  show pd: "pde s' k = pde s k" if "unat k < 1024" for k
    using ne cell_eq [OF al(1) al(2) that j] by (auto simp: pde_def s'_def)
  have fr: "pg_pmm s' = pg_pmm s" "page_directory s' = page_directory s"
    by (simp_all add: s'_def)
  have tb: "table_of s' k = table_of s k" if "unat k < 1024" for k
    using pd [OF that] by (simp add: table_of_def)
  show "pg_inv s'"
    using inv unfolding pg_inv_def by (simp add: fr pd tb cong: conj_cong)
  fix k l :: u32 assume k: "present (pde s k)" "unat k < 1024" "unat l < 1024"
  have "table_of s k = table_of s i \<longleftrightarrow> k = i"
    using inv pr i k unfolding pg_inv_def by metis
  then show "pmem s' (cell (table_of s' k) l) =
      (if k = i \<and> l = j then e else pmem s (cell (table_of s k) l))"
    using cell_eq [OF al(2) al(2) k(3) j, of k i] tb [OF k(2)] by (simp add: s'_def)
qed

lemma index_vpn:
  assumes "unat p < 2 ^ 20"
  shows "unat (drop_bit 10 p) < 1024"
  using assms by (simp add: unat_drop_bit div_less_iff_less_mult)

text \<open>The same on the abstract view; \<open>e\<close> is absent when the entry is cleared.\<close>

lemma write_entry_pages:
  assumes inv: "pg_inv s" and pr: "present (pde s (drop_bit 22 v))" and p: "unat p < 2 ^ 20"
  shows "pages (s\<lparr>pmem := (pmem s)(cell (table_of s (drop_bit 22 v)) (drop_bit 12 v AND 0x3FF) := e)\<rparr>) p =
    (if p = drop_bit 12 v then (if present e then Some e else None) else pages s p)"
proof -
  let ?i = "drop_bit 22 v" and ?j = "drop_bit 12 v AND 0x3FF"
  define s1 where "s1 = s\<lparr>pmem := (pmem s)(cell (table_of s ?i) ?j := e)\<rparr>"
  note w = write_entry [OF inv pr index_bounds(1) index_bounds(2) [of "drop_bit 12 v"], where e = e,
      folded s1_def]
  have pde: "pde s1 (drop_bit 10 p) = pde s (drop_bit 10 p)"
    using w(3) [OF index_vpn [OF p]] by simp
  have hit: "p = drop_bit 12 v \<longleftrightarrow> drop_bit 10 p = ?i \<and> p AND 0x3FF = ?j"
    using vpn_eqI [of p "drop_bit 12 v"] by auto
  show ?thesis
    unfolding s1_def [symmetric]
  proof (cases "present (pde s (drop_bit 10 p))")
    case True
    show "pages s1 p = (if p = drop_bit 12 v then (if present e then Some e else None) else pages s p)"
      using w(2) [OF True index_vpn [OF p] index_bounds(2) [of p]] pde True hit
      by (auto simp: pages_def Let_def)
  next
    case False
    then have "p \<noteq> drop_bit 12 v" using pr by auto
    with False pde show "pages s1 p =
        (if p = drop_bit 12 v then (if present e then Some e else None) else pages s p)"
      by (simp add: pages_def)
  qed
qed


text \<open>Hanging a fresh, zeroed table into an empty directory slot changes no translation.\<close>

lemma install_table:
  fixes f :: u32
  assumes inv: "pg_inv s" and i: "unat i < 1024" and np: "\<not> present (pde s i)"
    and al: "pmm_alloc_frame (pg_pmm s) = (pt, pm)" and nz: "pt \<noteq> 0"
  defines "s1 \<equiv> s\<lparr>pg_pmm := pm, pmem := (zero_table pt (pmem s))
      (cell (page_directory s) i := pt OR PAGE_PRESENT OR PAGE_WRITE OR (f AND PAGE_USER))\<rparr>"
  shows "pg_inv s1" and "table_of s1 i = pt" and "present (pde s1 i)"
    and "\<And>p. unat p < 2 ^ 20 \<Longrightarrow> pages s1 p = pages s p"
    and "\<And>k. unat k < 1024 \<Longrightarrow> k \<noteq> i \<Longrightarrow> pde s1 k = pde s k"
proof -
  let ?e = "pt OR PAGE_PRESENT OR PAGE_WRITE OR (f AND PAGE_USER)"
  have "pmm_inv (pg_pmm s)" using inv unfolding pg_inv_def by blast
  note a = pmm.alloc_some [OF this al nz]
  have pt: "page_aligned pt"
    using a pmm.avail_managed [OF \<open>pmm_inv (pg_pmm s)\<close>] managed_aligned by blast
  note ali = pg_inv_aligned [OF inv]
  have pd_pt: "page_directory s \<noteq> pt" using inv a unfolding pg_inv_def by blast
  have tb_pt: "table_of s k \<noteq> pt" if "unat k < 1024" "present (pde s k)" for k
    using inv a that unfolding pg_inv_def by blast
  have fr: "page_directory s1 = page_directory s" "pg_pmm s1 = pm" by (simp_all add: s1_def)
  have keep: "pmem s1 (cell t l) = pmem s (cell t l)"
    if "page_aligned t" "unat l < 1024" "t \<noteq> pt" "t \<noteq> page_directory s \<or> l \<noteq> i" for t l
    using that cell_eq [OF that(1) pt that(2)] cell_eq [OF that(1) ali(1) that(2) i]
    by (auto simp: s1_def zero_table_cells [OF pt])
  have pdi: "pde s1 k = (if k = i then ?e else pde s k)" if "unat k < 1024" for k
    using keep [OF ali(1) that] pd_pt by (auto simp: pde_def fr) (simp add: s1_def)
  then have tbi: "table_of s1 k = (if k = i then pt else table_of s k)" if "unat k < 1024" for k
    using pt that by (simp add: table_of_def)
  show "table_of s1 i = pt" and "present (pde s1 i)"
    using tbi [OF i] pdi [OF i] by simp_all
  show "\<And>k. unat k < 1024 \<Longrightarrow> k \<noteq> i \<Longrightarrow> pde s1 k = pde s k"
    by (simp add: pdi)
  have "pt \<in> managed_frames (pg_pmm s)"
    using a pmm.avail_managed [OF \<open>pmm_inv (pg_pmm s)\<close>] by blast
  then show "pg_inv s1"
    using inv a i np pd_pt tb_pt unfolding pg_inv_def
    by (simp add: fr pdi tbi cong: conj_cong) blast
  show "pages s1 p = pages s p" if p: "unat p < 2 ^ 20" for p
  proof (cases "drop_bit 10 p = i")
    case True
    have "pmem s1 (cell pt (p AND 0x3FF)) = 0"
      using cell_eq [OF ali(1) pt i index_bounds(2) [of p]] pd_pt index_bounds(2) [of p]
      unfolding s1_def by (auto simp: zero_table_cells [OF pt] simp del: index_bounds)
    with True tbi [OF i] np show ?thesis by (simp add: pages_def)
  next
    case False
    let ?k = "drop_bit 10 p"
    have k: "unat ?k < 1024" by (rule index_vpn [OF p])
    show ?thesis
    proof (cases "present (pde s ?k)")
      case True
      then have "table_of s ?k \<noteq> page_directory s" using inv k unfolding pg_inv_def by blast
      then have "pmem s1 (cell (table_of s ?k) (p AND 0x3FF)) = pmem s (cell (table_of s ?k) (p AND 0x3FF))"
        using keep [OF ali(2) index_bounds(2)] tb_pt [OF k True] by blast
      with False pdi [OF k] tbi [OF k] show ?thesis by (simp add: pages_def)
    next
      case absent: False
      with False pdi [OF k] show ?thesis by (simp add: pages_def)
    qed
  qed
qed

lemma paging_map_cases:
  fixes s :: paging and v :: u32
  defines "i \<equiv> drop_bit 22 v"
  obtains (present) "present (pde s i)"
      and "paging_map v p f s = (0, paging_flush (s\<lparr>pmem := (pmem s)
        (cell (table_of s i) (drop_bit 12 v AND 0x3FF) := page_entry p f)\<rparr>))"
  | (install) pt pm where "\<not> present (pde s i)" and "pmm_alloc_frame (pg_pmm s) = (pt, pm)" and "pt \<noteq> 0"
      and "paging_map v p f s = (0, paging_flush
        ((s\<lparr>pg_pmm := pm, pmem := (zero_table pt (pmem s))
            (cell (page_directory s) i := pt OR PAGE_PRESENT OR PAGE_WRITE OR (f AND PAGE_USER))\<rparr>)
          \<lparr>pmem := ((zero_table pt (pmem s))
            (cell (page_directory s) i := pt OR PAGE_PRESENT OR PAGE_WRITE OR (f AND PAGE_USER)))
            (cell pt (drop_bit 12 v AND 0x3FF) := page_entry p f)\<rparr>))"
  | (oom) pm where "\<not> present (pde s i)" and "pmm_alloc_frame (pg_pmm s) = (0, pm)"
      and "paging_map v p f s = (-1, s\<lparr>pg_pmm := pm\<rparr>)"
proof -
  obtain pt pm where al: "pmm_alloc_frame (pg_pmm s) = (pt, pm)" by fastforce
  show ?thesis
  proof (cases "present (pde s i)")
    case True
    then show ?thesis
      by (intro present) (simp_all add: paging_map_def i_def pde_def table_of_def page_entry_def Let_def)
  next
    case False
    show ?thesis
    proof (cases "pt = 0")
      case True
      with False al show ?thesis
        by (intro oom) (simp_all add: paging_map_def i_def pde_def Let_def)
    next
      case nz: False
      with False al show ?thesis
        by (intro install [of pt pm])
          (simp_all add: paging_map_def i_def pde_def page_entry_def Let_def)
    qed
  qed
qed

lemma paging_map_ok:
  assumes inv: "pg_inv s" and map: "paging_map v p f s = (0, s')"
  shows "pg_inv s'" and "\<And>q. unat q < 2 ^ 20 \<Longrightarrow> pages s' q = ((pages s)(drop_bit 12 v \<mapsto> page_entry p f)) q"
proof -
  let ?i = "drop_bit 22 v" and ?j = "drop_bit 12 v AND 0x3FF"
  have "pg_inv s' \<and> (\<forall>q. unat q < 2 ^ 20 \<longrightarrow>
      pages s' q = ((pages s)(drop_bit 12 v \<mapsto> page_entry p f)) q)"
  proof (cases rule: paging_map_cases [where v = v and p = p and f = f and s = s])
    case present
    with map write_entry(1) [OF inv present(1) index_bounds] write_entry_pages [OF inv present(1)]
    show ?thesis by auto
  next
    case (install pt pm)
    let ?s1 = "s\<lparr>pg_pmm := pm, pmem := (zero_table pt (pmem s))
      (cell (page_directory s) ?i := pt OR PAGE_PRESENT OR PAGE_WRITE OR (f AND PAGE_USER))\<rparr>"
    note t = install_table [OF inv index_bounds(1) install(1-3), where f = f]
    have "s' = paging_flush (?s1\<lparr>pmem := (pmem ?s1)(cell (table_of ?s1 ?i) ?j := page_entry p f)\<rparr>)"
      using map install(4) unfolding t(2) by simp
    with write_entry(1) [OF t(1) t(3) index_bounds] write_entry_pages [OF t(1) t(3)] t(4)
    show ?thesis by auto
  next
    case (oom pm)
    with map show ?thesis by simp
  qed
  then show "pg_inv s'" and "\<And>q. unat q < 2 ^ 20 \<Longrightarrow>
      pages s' q = ((pages s)(drop_bit 12 v \<mapsto> page_entry p f)) q" by auto
qed


lemma pg_inv_pmm: "pg_inv s \<Longrightarrow> pmm_inv (pg_pmm s)"
  by (simp add: pg_inv_def)

lemma paging_map_fail:
  assumes inv: "pg_inv s" and map: "paging_map v p f s = (r, s')" and r: "r \<noteq> 0"
  shows "s' = s" and "r = -1" and "avail_frames (pg_pmm s) = {}" and "\<not> present (pde s (drop_bit 22 v))"
proof -
  have "s' = s \<and> r = -1 \<and> avail_frames (pg_pmm s) = {} \<and> \<not> present (pde s (drop_bit 22 v))"
  proof (cases rule: paging_map_cases [where v = v and p = p and f = f and s = s])
    case (oom pm)
    then show ?thesis using map pmm.alloc_none [OF pg_inv_pmm [OF inv] oom(2)] by simp
  qed (use map r in auto)
  then show "s' = s" "r = -1" "avail_frames (pg_pmm s) = {}" "\<not> present (pde s (drop_bit 22 v))"
    by auto
qed

lemma paging_unmap_ok:
  assumes inv: "pg_inv s"
  shows "pg_inv (paging_unmap v s)"
    and "\<And>q. unat q < 2 ^ 20 \<Longrightarrow> pages (paging_unmap v s) q = ((pages s)(drop_bit 12 v := None)) q"
proof -
  have "pg_inv (paging_unmap v s) \<and> (\<forall>q. unat q < 2 ^ 20 \<longrightarrow>
      pages (paging_unmap v s) q = ((pages s)(drop_bit 12 v := None)) q)"
  proof (cases "present (pde s (drop_bit 22 v))")
    case True
    then have "paging_unmap v s = paging_flush (s\<lparr>pmem := (pmem s)
        (cell (table_of s (drop_bit 22 v)) (drop_bit 12 v AND 0x3FF) := 0)\<rparr>)"
      by (simp add: paging_unmap_def pde_def table_of_def)
    with write_entry(1) [OF inv True index_bounds] write_entry_pages [OF inv True, of _ 0]
    show ?thesis by auto
  next
    case False
    then have "paging_unmap v s = s" by (simp add: paging_unmap_def pde_def)
    moreover have "pages s (drop_bit 12 v) = None" using False by (simp add: pages_def)
    ultimately show ?thesis using inv by auto
  qed
  then show "pg_inv (paging_unmap v s)" and "\<And>q. unat q < 2 ^ 20 \<Longrightarrow>
      pages (paging_unmap v s) q = ((pages s)(drop_bit 12 v := None)) q" by auto
qed

lemma page_entry_frame: "page_entry p f AND ADDR_MASK = p AND 0xFFFFF000"
proof -
  have "take_bit 12 (f AND 0xFFF) = f AND 0xFFF" by (rule take_bit_and_absorb) simp
  then have "take_bit 12 ((f AND 0xFFF) OR PAGE_PRESENT) = (f AND 0xFFF) OR PAGE_PRESENT"
    by (simp only: take_bit_or) (simp add: PAGE_PRESENT_def)
  from or_low_ADDR_MASK [OF page_aligned_and_mask this]
  show ?thesis by (simp add: page_entry_def or.assoc ADDR_MASK_def)
qed

interpretation pg: page_mapper paging_map paging_unmap paging_get_phys pages page_entry
  "\<lambda>e. e AND ADDR_MASK" pg_inv
proof
  fix s s' v p f
  assume "pg_inv s" and "paging_map v p f s = (0, s')"
  from paging_map_ok [OF this] show "pg_inv s' \<and>
      (\<forall>q. unat q < 2 ^ 20 \<longrightarrow> pages s' q = ((pages s)(drop_bit 12 v \<mapsto> page_entry p f)) q)" by blast
next
  fix s s' v p f r
  assume "pg_inv s" and "paging_map v p f s = (r, s')" and "r \<noteq> 0"
  from paging_map_fail(1) [OF this] \<open>pg_inv s\<close>
  show "pg_inv s' \<and> (\<forall>q. unat q < 2 ^ 20 \<longrightarrow> pages s' q = pages s q)" by simp
next
  fix s v
  assume "pg_inv s"
  from paging_unmap_ok [OF this] show "pg_inv (paging_unmap v s) \<and>
      (\<forall>q. unat q < 2 ^ 20 \<longrightarrow> pages (paging_unmap v s) q = ((pages s)(drop_bit 12 v := None)) q)"
    by blast
qed (simp_all add: paging_get_phys_pages page_entry_frame)


text \<open>What a successful mapping takes from the frame manager: at most one frame, for a table.\<close>

lemma paging_map_frames:
  assumes inv: "pg_inv s" and map: "paging_map v p f s = (0, s')"
  shows "page_directory s' = page_directory s \<and> enabled s' = enabled s \<and>
    managed_frames (pg_pmm s') = managed_frames (pg_pmm s) \<and>
    (\<forall>k. unat k < 1024 \<longrightarrow> present (pde s' k) = (present (pde s k) \<or> k = drop_bit 22 v)) \<and>
    (if present (pde s (drop_bit 22 v)) then pg_pmm s' = pg_pmm s \<and> tables s' = tables s
     else \<exists>pt \<in> avail_frames (pg_pmm s). avail_frames (pg_pmm s') = avail_frames (pg_pmm s) - {pt} \<and>
       tables s' = insert pt (tables s))"
proof (cases rule: paging_map_cases [where v = v and p = p and f = f and s = s])
  case present
  have pde: "pde s' k = pde s k" if "unat k < 1024" for k
    using write_entry(3) [OF inv present(1) index_bounds(1) index_bounds(2) [of "drop_bit 12 v"] that,
        of "page_entry p f"] present(2) map by (auto simp: pde_def)
  have "page_directory s' = page_directory s \<and> enabled s' = enabled s \<and> pg_pmm s' = pg_pmm s"
    using present(2) map by auto
  with pde tables_cong [of s' s] present(1) show ?thesis by auto
next
  case (install pt pm)
  let ?i = "drop_bit 22 v" and ?j = "drop_bit 12 v AND 0x3FF"
  define s1 where "s1 = s\<lparr>pg_pmm := pm, pmem := (zero_table pt (pmem s))
    (cell (page_directory s) ?i := pt OR PAGE_PRESENT OR PAGE_WRITE OR (f AND PAGE_USER))\<rparr>"
  define s2 where "s2 = s1\<lparr>pmem := (pmem s1)(cell (table_of s1 ?i) ?j := page_entry p f)\<rparr>"
  note t = install_table [OF inv index_bounds(1) install(1-3), where f = f, folded s1_def]
  have s': "s' = paging_flush s2"
    using map install(4) t(2) unfolding s2_def by (simp add: s1_def)
  have pde: "pde s' k = pde s1 k" if "unat k < 1024" for k
    using write_entry(3) [OF t(1) t(3) index_bounds that, where e = "page_entry p f"]
    by (simp add: s' s2_def pde_def)
  have pres: "present (pde s' k) = (present (pde s k) \<or> k = ?i)" if "unat k < 1024" for k
    using pde [OF that] t(3) t(5) [OF that] by (cases "k = ?i") auto
  have pd: "page_directory s' = page_directory s" "enabled s' = enabled s" "pg_pmm s' = pm"
    by (simp_all add: s' s2_def s1_def)
  have tab: "table_of s' k = (if k = ?i then pt else table_of s k)" if "unat k < 1024" for k
    using pde [OF that] t(2) t(5) [OF that] by (auto simp: table_of_def)
  have "table_of s' ` {k. unat k < 1024 \<and> present (pde s' k)} =
      insert pt (table_of s ` {k. unat k < 1024 \<and> present (pde s k)})" (is "?L = ?R")
  proof (intro equalityI subsetI)
    fix x assume "x \<in> ?L"
    then obtain k where "unat k < 1024" "present (pde s' k)" "x = table_of s' k" by blast
    then show "x \<in> ?R" using pres tab by (cases "k = ?i") auto
  next
    fix x assume "x \<in> ?R"
    then consider "x = pt" | k where "unat k < 1024" "present (pde s k)" "x = table_of s k" by blast
    then show "x \<in> ?L"
    proof cases
      case 1
      then show ?thesis using pres tab index_bounds(1) [of v] by (intro image_eqI [of _ _ ?i]) auto
    next
      case (2 k)
      then show ?thesis using pres tab install(1) by (intro image_eqI [of _ _ k]) auto
    qed
  qed
  then have "tables s' = insert pt (tables s)" by (auto simp: tables_def pd)
  with pd pres show ?thesis
    using install pmm.alloc_some [OF pg_inv_pmm [OF inv] install(2,3)] by auto
qed (use map in simp)

section \<open>The identity map\<close>

lemma drop_bit_22_frame_addr: "n < 2 ^ 20 \<Longrightarrow> unat (drop_bit 22 (frame_addr n)) = n div 1024"
  by (simp add: unat_drop_bit unat_frame_addr)

lemma drop_bit_12_frame_addr: "n < 2 ^ 20 \<Longrightarrow> drop_bit 12 (frame_addr n) = word_of_nat n"
  by (simp add: word_unat_eq_iff unat_drop_bit unat_frame_addr unat_of_nat)

definition identity_ok :: "nat \<Rightarrow> paging \<Rightarrow> paging \<Rightarrow> bool" where
  "identity_ok n s0 s \<longleftrightarrow> pg_inv s \<and> page_directory s = page_directory s0 \<and>
     managed_frames (pg_pmm s) = managed_frames (pg_pmm s0) \<and>
     (\<forall>i. unat i < 1024 \<longrightarrow> present (pde s i) = (unat i * 1024 < n)) \<and>
     card (avail_frames (pg_pmm s)) + (n + 1023) div 1024 = card (avail_frames (pg_pmm s0)) \<and>
     (\<forall>q. unat q < 2 ^ 20 \<longrightarrow> pages s q =
        (if unat q < n then Some (page_entry (frame_addr (unat q)) (PAGE_PRESENT OR PAGE_WRITE)) else None))"

lemma finite_avail_frames: "finite (avail_frames m)"
  by (simp add: avail_frames_def)

lemma tables_needed_Suc:
  "(Suc n + 1023) div 1024 = (n + 1023) div 1024 + (if n mod 1024 = 0 then 1 else 0)" for n :: nat
proof -
  obtain a b where n: "n = b + a * 1024" and b: "b < 1024"
    by (metis add.commute div_mult_mod_eq mod_less_divisor zero_less_numeral)
  have "(n + 1023) div 1024 = a + (b + 1023) div 1024"
    unfolding n using div_mult_self1 [of 1024 "b + 1023" a] by (simp add: algebra_simps)
  moreover have "(b + 1023) div 1024 = (if b = 0 then 0 else 1)"
    using b by (cases b) (auto simp: div_if)
  moreover have "(Suc n + 1023) div 1024 = a + 1"
  proof -
    have "Suc n + 1023 = b + (a + 1) * 1024" by (simp add: n)
    then show ?thesis using b by (simp add: div_mult_self1 del: distrib_right_numeral)
  qed
  moreover have "n mod 1024 = b" using b by (simp add: n)
  ultimately show ?thesis by simp
qed

lemma identity_ok_step:
  assumes ok: "identity_ok n s0 s" and n: "n < 2 ^ 20"
    and room: "(Suc n + 1023) div 1024 \<le> card (avail_frames (pg_pmm s0))"
    and map: "paging_map (frame_addr n) (frame_addr n) (PAGE_PRESENT OR PAGE_WRITE) s = (r, s')"
  shows "r = 0" and "identity_ok (Suc n) s0 s'"
proof -
  let ?i = "drop_bit 22 (frame_addr n)"
  have inv: "pg_inv s" using ok by (simp add: identity_ok_def)
  have i: "unat ?i = n div 1024" using n by (rule drop_bit_22_frame_addr)
  have pr: "present (pde s ?i) \<longleftrightarrow> n mod 1024 \<noteq> 0"
  proof -
    have "present (pde s ?i) = (n div 1024 * 1024 < n)"
      using ok i index_bounds(1) [of "frame_addr n"] by (simp add: identity_ok_def)
    then show ?thesis using div_mult_mod_eq [of n 1024] by linarith
  qed
  note cnt = tables_needed_Suc [of n]
  show r: "r = 0"
  proof (rule ccontr)
    assume "r \<noteq> 0"
    note f = paging_map_fail [OF inv map this]
    then have "card (avail_frames (pg_pmm s)) = 0" by simp
    with ok room cnt f(4) pr show False by (simp add: identity_ok_def)
  qed
  note m = map [unfolded r]
  note ok' = paging_map_ok [OF inv m] paging_map_frames [OF inv m]
  have card: "card (avail_frames (pg_pmm s')) + (if n mod 1024 = 0 then 1 else 0) =
      card (avail_frames (pg_pmm s))"
  proof (cases "n mod 1024 = 0")
    case True
    then obtain pt where "pt \<in> avail_frames (pg_pmm s)"
        "avail_frames (pg_pmm s') = avail_frames (pg_pmm s) - {pt}"
      using ok'(3) pr by auto
    then show ?thesis using card_Suc_Diff1 [OF finite_avail_frames] True by simp
  next
    case False
    then show ?thesis using ok'(3) pr by simp
  qed
  have pres: "present (pde s' k) = (unat k * 1024 < Suc n)" if "unat k < 1024" for k
  proof -
    have "k = ?i \<longleftrightarrow> unat k = n div 1024" using i by (metis word_unat_eq_iff)
    moreover have "unat k * 1024 < n \<or> unat k = n div 1024 \<longleftrightarrow> unat k * 1024 < Suc n"
      by auto
    ultimately show ?thesis using ok ok'(3) that by (simp add: identity_ok_def)
  qed
  have "pages s' q = (if unat q < Suc n
      then Some (page_entry (frame_addr (unat q)) (PAGE_PRESENT OR PAGE_WRITE)) else None)"
    if "unat q < 2 ^ 20" for q
  proof -
    have "unat (word_of_nat n :: u32) = n" using n by (intro unat_of_nat_less) simp
    then have "q = word_of_nat n \<longleftrightarrow> unat q = n" by (simp add: word_unat_eq_iff)
    then show ?thesis
      using ok ok'(2) [OF that] that by (auto simp: identity_ok_def drop_bit_12_frame_addr [OF n])
  qed
  with ok ok' card cnt pres show "identity_ok (Suc n) s0 s'"
    unfolding identity_ok_def by auto
qed

lemma identity_map_ok:
  assumes "identity_ok 0 s0 s0" and "n \<le> 2 ^ 20"
    and "(n + 1023) div 1024 \<le> card (avail_frames (pg_pmm s0))"
  shows "identity_ok n s0 (identity_map n s0)"
  using assms(2,3)
proof (induction n)
  case 0
  then show ?case using assms(1) by (simp add: identity_map_def)
next
  case (Suc n)
  have "(n + 1023) div 1024 \<le> (Suc n + 1023) div 1024" by (rule div_le_mono) simp
  then have ok: "identity_ok n s0 (identity_map n s0)" using Suc by simp
  have n: "n < 2 ^ 20" using Suc.prems by simp
  obtain r s' where m: "paging_map (frame_addr n) (frame_addr n) (PAGE_PRESENT OR PAGE_WRITE)
      (identity_map n s0) = (r, s')" by fastforce
  then have "identity_map (Suc n) s0 = s'" by (simp add: identity_map_def)
  with identity_ok_step(2) [OF ok n Suc.prems(2) m] show ?case by simp
qed

text \<open>The fresh directory has no table.\<close>

lemma pmm_alloc_total: "total_frames (snd (pmm_alloc_frame m)) = total_frames m"
  by (simp add: pmm_alloc_frame_def frame_mark_used_def Let_def split: option.splits)

lemma fresh_directory:
  assumes inv: "pmm_inv (pg_pmm s)" and al: "pmm_alloc_frame (pg_pmm s) = (pd, pm)" and pd: "pd \<noteq> 0"
  defines "s1 \<equiv> s\<lparr>pg_pmm := pm, page_directory := pd, pmem := zero_table pd (pmem s)\<rparr>"
  shows "identity_ok 0 s1 s1"
proof -
  note a = pmm.alloc_some [OF inv al pd]
  have man: "pd \<in> managed_frames pm - avail_frames pm"
    using a pmm.avail_managed [OF inv] by auto
  have z: "pde s1 i = 0" if "unat i < 1024" for i
    using that zero_table_cells [OF managed_aligned, of pd pm] man by (auto simp: pde_def s1_def)
  moreover have "unat (drop_bit 10 q) < 1024" if "unat q < 2 ^ 20" for q :: u32
    using that by (simp add: unat_drop_bit div_less_iff_less_mult)
  ultimately have "pages s1 q = None" if "unat q < 2 ^ 20" for q
    using that by (simp add: pages_def)
  moreover have "pg_pmm s1 = pm" "page_directory s1 = pd" by (simp_all add: s1_def)
  ultimately show ?thesis
    using man a by (simp add: identity_ok_def pg_inv_def z cong: conj_cong)
qed

lemma unat_identity_top:
  assumes "pmm_inv pm"
  shows "unat (identity_top pm) = min (unat (total_frames pm)) (2 ^ 18) * 4096"
proof -
  have t: "unat (total_frames pm) \<le> 2 ^ 20"
    using assms by (simp add: pmm_inv_def pmm_wf_def)
  have "unat (push_bit 12 (ucast (total_frames pm)) :: u64) = unat (total_frames pm) * 4096"
    using t by (simp add: push_bit_eq_mult unat_word_ariths)
  then show ?thesis
    unfolding identity_top_def Let_def pmm_total_frames_def IDENTITY_CAP_def
    by (subst unat_ucast_u32) (auto simp: word_less_nat_alt min_def)
qed

lemma identity_translate:
  assumes "pages s (drop_bit 12 v) = Some (page_entry (frame_addr (unat (drop_bit 12 v))) f)"
  shows "paging_get_phys v s = v"
proof -
  have "frame_addr (unat (drop_bit 12 v)) AND ADDR_MASK = v AND ADDR_MASK"
    unfolding frame_addr_def ADDR_MASK_mask by (rule bit_word_eqI) (auto simp: bit_simps)
  moreover have "(v AND ADDR_MASK) OR (v AND 0xFFF) = v"
  proof -
    have "v AND 0xFFF = v AND mask 12" by (simp add: mask_eq_exp_minus_1)
    then show ?thesis unfolding ADDR_MASK_mask by simp (rule bit_word_eqI, auto simp: bit_simps)
  qed
  ultimately show ?thesis
    using assms page_entry_frame by (simp add: paging_get_phys_pages ADDR_MASK_def)
qed

lemma cr0_paging_map: "cr0 (snd (paging_map v p f s)) = cr0 s"
  by (simp add: paging_map_def paging_flush_def load_cr3_def Let_def split: prod.splits)

lemma cr0_identity_map: "cr0 (identity_map n s) = cr0 s"
  by (induction n) (simp_all add: identity_map_def cr0_paging_map)

lemma identity_ok_switch:
  "identity_ok n s1 ((set_paging_bit (load_cr3 a s))\<lparr>enabled := True\<rparr>) = identity_ok n s1 s"
  by (simp add: identity_ok_def pg_inv_def pde_def table_of_def pages_def set_paging_bit_def load_cr3_def)

lemma paging_init_ok:
  fixes n :: nat
  assumes inv: "pmm_inv (pg_pmm s)"
    and room: "1 + (n + 1023) div 1024 \<le> card (avail_frames (pg_pmm s))"
    and n: "n = min (unat (total_frames (pg_pmm s))) (2 ^ 18)"
  shows "\<exists>s1. identity_ok n s1 (paging_init s) \<and> enabled (paging_init s) \<and>
    cr3 (paging_init s) = page_directory (paging_init s) \<and>
    cr0 (paging_init s) = cr0 s OR 0x80000000 \<and>
    card (avail_frames (pg_pmm s1)) + 1 = card (avail_frames (pg_pmm s)) \<and>
    managed_frames (pg_pmm s1) = managed_frames (pg_pmm s)"
proof -
  obtain pd pm where al: "pmm_alloc_frame (pg_pmm s) = (pd, pm)" by fastforce
  have "avail_frames (pg_pmm s) \<noteq> {}" using room by (auto simp: card_gt_0_iff)
  then have pd: "pd \<noteq> 0" using pmm.alloc_none [OF inv] al by auto
  note a = pmm.alloc_some [OF inv al pd]
  define s1 where "s1 = s\<lparr>pg_pmm := pm, page_directory := pd, pmem := zero_table pd (pmem s)\<rparr>"
  have pm: "pg_pmm s1 = pm" "page_directory s1 = pd" by (simp_all add: s1_def)
  have c: "card (avail_frames pm) + 1 = card (avail_frames (pg_pmm s))"
    using a card_Suc_Diff1 [OF finite_avail_frames, of pd "pg_pmm s"] by simp
  have tot: "total_frames pm = total_frames (pg_pmm s)"
    using al pmm_alloc_total by (metis snd_conv)
  have n': "unat (identity_top pm) div 4096 = n"
    using unat_identity_top [of pm] a by (simp add: n tot)
  have ok: "identity_ok n s1 (identity_map n s1)"
    using identity_map_ok [OF fresh_directory [OF inv al pd, folded s1_def], of n] room c n pm by simp
  have init: "paging_init s = (set_paging_bit (load_cr3 pd (identity_map n s1)))\<lparr>enabled := True\<rparr>"
    using n' by (simp add: paging_init_def al s1_def)
  have "page_directory (identity_map n s1) = pd" using ok pm by (simp add: identity_ok_def)
  moreover have "managed_frames pm = managed_frames (pg_pmm s)" using a by simp
  ultimately show ?thesis using ok pm c init
    by (intro exI [of _ s1]) (simp add: identity_ok_switch,
      simp add: set_paging_bit_def load_cr3_def cr0_identity_map, simp add: s1_def)
qed

section \<open>Properties\<close>

text \<open>
  C4. With one frame for the directory and one for every 4 MiB to map, \<open>paging_init\<close> turns paging
  on over a directory whose tables are distinct frames taken from the frame manager: every
  address below the mapped top (all of memory, at most 1 GiB) translates to itself and every
  other address is unmapped.
\<close>

theorem paging_init_identity:
  fixes s :: paging
  assumes "pmm_inv (pg_pmm s)" and "n = min (unat (total_frames (pg_pmm s))) (2 ^ 18)"
    and "1 + (n + 1023) div 1024 \<le> card (avail_frames (pg_pmm s))"
  shows "pg_inv (paging_init s) \<and> paging_is_enabled (paging_init s) \<and>
    cr3 (paging_init s) = page_directory (paging_init s) \<and>
    cr0 (paging_init s) = cr0 s OR 0x80000000 \<and>
    card (avail_frames (pg_pmm (paging_init s))) + 1 + (n + 1023) div 1024 = card (avail_frames (pg_pmm s)) \<and>
    (\<forall>v. paging_get_phys v (paging_init s) = (if unat v < n * 4096 then v else 0xFFFFFFFF))"
proof -
  obtain s1 where ok: "identity_ok n s1 (paging_init s)"
    and r: "enabled (paging_init s)" "cr3 (paging_init s) = page_directory (paging_init s)"
      "cr0 (paging_init s) = cr0 s OR 0x80000000"
      "card (avail_frames (pg_pmm s1)) + 1 = card (avail_frames (pg_pmm s))"
    using paging_init_ok [OF assms(1,3,2)] by blast
  have "paging_get_phys v (paging_init s) = (if unat v < n * 4096 then v else 0xFFFFFFFF)" for v
  proof (cases "unat v < n * 4096")
    case True
    then have "unat (drop_bit 12 v) < n" by (simp add: unat_drop_bit div_less_iff_less_mult)
    with ok pg.vpn_bound [of v] show ?thesis
      using True identity_translate by (simp add: identity_ok_def)
  next
    case False
    then have "\<not> unat (drop_bit 12 v) < n" by (simp add: unat_drop_bit div_less_iff_less_mult)
    with ok pg.vpn_bound [of v] show ?thesis
      using False by (simp add: identity_ok_def paging_get_phys_pages)
  qed
  with ok r show ?thesis by (simp add: identity_ok_def paging_is_enabled_def)
qed

definition small_boot :: paging where
  "small_boot = \<lparr>pg_pmm = pmm_init small_map, page_directory = 0, enabled = False, cr0 = 0x11,
     cr3 = 0, pmem = (\<lambda>_. 0)\<rparr>"

lemma small_boot_room:
  "pmm_inv (pg_pmm small_boot)" "512 = min (unat (total_frames (pg_pmm small_boot))) (2 ^ 18)"
  "1 + (512 + 1023) div 1024 \<le> card (avail_frames (pg_pmm small_boot))"
  by (simp_all add: small_boot_def small_map_init small_map_card pmm_init_inv)

theorem paging_init_identity_witness:
  "pmm_inv (pg_pmm small_boot) \<and> 512 = min (unat (total_frames (pg_pmm small_boot))) (2 ^ 18) \<and>
   1 + (512 + 1023) div 1024 \<le> card (avail_frames (pg_pmm small_boot)) \<and>
   paging_get_phys 0xB8000 (paging_init small_boot) = 0xB8000 \<and>
   paging_get_phys 0x400000 (paging_init small_boot) = 0xFFFFFFFF"
  using paging_init_identity [OF small_boot_room] small_boot_room by simp

text \<open>
  C5. \<open>paging_map\<close> and \<open>paging_get_phys\<close> agree: mapping a page makes exactly the addresses of that
  page translate into the given frame and leaves every other translation alone, although a page
  table may be installed on the way. It fails only when a table is needed and no frame is free,
  and then nothing changes.
\<close>

theorem paging_map_translates:
  assumes "pg_inv s" and "paging_map v p f s = (r, s')"
  shows "pg_inv s' \<and>
    (r = 0 \<longrightarrow> (\<forall>w. paging_get_phys w s' =
      (if drop_bit 12 w = drop_bit 12 v then (p AND 0xFFFFF000) OR (w AND 0xFFF) else paging_get_phys w s))) \<and>
    (r \<noteq> 0 \<longrightarrow> r = -1 \<and> s' = s \<and> avail_frames (pg_pmm s) = {})"
  using assms pg.map_inv [OF assms] pg.translate_map [of s v p f s'] paging_map_fail [OF assms]
  by auto

lemma small_boot_identity: "\<exists>s1. identity_ok 512 s1 (paging_init small_boot)"
  using paging_init_ok [OF small_boot_room(1,3,2)] by blast

lemma small_boot_pg_inv: "pg_inv (paging_init small_boot)"
  using small_boot_identity by (auto simp only: identity_ok_def)

lemma small_boot_managed: "managed_frames (pg_pmm (paging_init small_boot)) = frame_addr ` {0<..<512}"
  using paging_init_ok [OF small_boot_room(1,3,2)] small_boot_room(2) by (auto simp: identity_ok_def managed_frames_def min_def split: if_splits)

lemma small_boot_unmapped: "512 \<le> unat q \<Longrightarrow> unat q < 2 ^ 20 \<Longrightarrow> pages (paging_init small_boot) q = None"
  using small_boot_identity by (auto simp: identity_ok_def)

theorem paging_map_translates_witness:
  "\<exists>r s'. paging_map 0x40000000 0x180000 PAGE_WRITE (paging_init small_boot) = (r, s') \<and> pg_inv s'"
proof -
  obtain r s' where m: "paging_map 0x40000000 0x180000 PAGE_WRITE (paging_init small_boot) = (r, s')"
    by fastforce
  from paging_map_translates [OF small_boot_pg_inv m] m show ?thesis by blast
qed

text \<open>
  \<open>paging_unmap\<close> removes exactly the translations of one page: mapping a page and unmapping it
  again restores every translation the address space had, when the page was not mapped before.
\<close>

theorem paging_unmap_roundtrip:
  assumes "pg_inv s" and "paging_map v p f s = (0, s')"
  shows "paging_get_phys w (paging_unmap v s') =
    (if drop_bit 12 w = drop_bit 12 v then 0xFFFFFFFF else paging_get_phys w s)"
  using pg.translate_unmap [OF pg.map_inv [OF assms]] pg.translate_map [OF assms] by simp

theorem paging_unmap_roundtrip_witness:
  "\<exists>s'. paging_map 0xB8000 0x180000 PAGE_WRITE (paging_init small_boot) = (0, s') \<and>
     paging_get_phys 0xB8123 (paging_unmap 0xB8000 s') = 0xFFFFFFFF"
proof -
  obtain r s' where m: "paging_map 0xB8000 0x180000 PAGE_WRITE (paging_init small_boot) = (r, s')"
    by fastforce
  obtain s1 where "identity_ok 512 s1 (paging_init small_boot)" using small_boot_identity ..
  then have "present (pde (paging_init small_boot) (drop_bit 22 0xB8000))"
    by (simp only: identity_ok_def) (simp add: drop_bit_eq_div)
  then have "r = 0" using paging_map_fail(4) [OF small_boot_pg_inv m] by auto
  then show ?thesis
    using m paging_unmap_roundtrip [OF small_boot_pg_inv, where v = "0xB8000" and s' = s' and w = "0xB8123"]
    by auto
qed

text \<open>
  The protection of a slot is fixed when its table is installed: mapping a page, for the user or
  not, into a slot that has a table leaves the directory entry as it was.
\<close>

lemma paging_map_keeps_pde:
  assumes "pg_inv s" and "present (pde s (drop_bit 22 v))" and "paging_map v p f s = (r, s')"
  shows "r = 0 \<and> (\<forall>i. unat i < 1024 \<longrightarrow> pde s' i = pde s i) \<and> pg_pmm s' = pg_pmm s"
proof (cases rule: paging_map_cases [where v = v and p = p and f = f and s = s])
  case present
  have "pde s' i = pde s i" if "unat i < 1024" for i
    using write_entry(3) [OF assms(1) present(1) index_bounds(1) index_bounds(2) [of "drop_bit 12 v"] that,
        of "page_entry p f"]
      present(2) assms(3) by (auto simp: pde_def)
  with present assms(3) show ?thesis by auto
qed (use assms(2) in auto)

end
