(* ===== verification/Kheap.thy ===== *)
theory Kheap
  imports Paging
begin

text \<open>
  The kernel heap of \<open>mm/kheap.c\<close>: a first-fit allocator over a chain of blocks in the virtual
  region at 3 GiB. The block headers are a store from addresses to headers, so that the pointer
  code (\<open>split\<close>, \<open>coalesce\<close>, the search loops) is translated assignment by assignment; every loop
  over the chain is a partial function whose value is \<open>None\<close> if the loop never ends. The chain is
  related to a list of blocks, on which the effect of each operation is stated.

  Headers live in heap pages and page tables in frames; the two stores are separate here because
  the frames behind the heap are shown to be neither page tables nor free nor shared.
\<close>

section \<open>State and operations\<close>

record block =
  b_size :: u32
  nxt :: u32
  used :: u32

record kheap =
  kh_pg :: paging
  heap_base :: u32
  heap_end :: u32
  head :: u32
  hmem :: "u32 \<Rightarrow> block"

definition KHEAP_BASE :: u32 where "KHEAP_BASE = 0xC0000000"
definition KHEAP_INITIAL :: u32 where "KHEAP_INITIAL = 0x4000"
definition PAGE_SIZE :: u32 where "PAGE_SIZE = 4096"
definition HEADER_SIZE :: u32 where "HEADER_SIZE = 16"
definition MIN_SPLIT :: u32 where "MIN_SPLIT = 8"

lemmas kheap_consts = KHEAP_BASE_def KHEAP_INITIAL_def PAGE_SIZE_def HEADER_SIZE_def MIN_SPLIT_def

partial_function (option) coalesce_loop :: "u32 \<Rightarrow> (u32 \<Rightarrow> block) \<Rightarrow> (u32 \<Rightarrow> block) option" where
  "coalesce_loop b m =
     (if b = 0 \<or> nxt (m b) = 0 then Some m
      else if used (m b) = 0 \<and> used (m (nxt (m b))) = 0
      then coalesce_loop b (m(b := (m b)\<lparr>b_size := b_size (m b) + (HEADER_SIZE + b_size (m (nxt (m b)))),
                                        nxt := nxt (m (nxt (m b)))\<rparr>))
      else coalesce_loop (nxt (m b)) m)"

definition coalesce :: "kheap \<Rightarrow> kheap option" where
  "coalesce h = map_option (\<lambda>m. h\<lparr>hmem := m\<rparr>) (coalesce_loop (head h) (hmem h))"

definition heap_alloc_frame :: "kheap \<Rightarrow> u32 \<times> kheap" where
  "heap_alloc_frame h =
     (let (phys, pm) = pmm_alloc_frame (pg_pmm (kh_pg h)) in (phys, h\<lparr>kh_pg := (kh_pg h)\<lparr>pg_pmm := pm\<rparr>\<rparr>))"

definition heap_free_frame :: "u32 \<Rightarrow> kheap \<Rightarrow> kheap" where
  "heap_free_frame phys h =
     h\<lparr>kh_pg := (kh_pg h)\<lparr>pg_pmm := pmm_free_frame phys (pg_pmm (kh_pg h))\<rparr>\<rparr>"

definition heap_map_page :: "u32 \<Rightarrow> kheap \<Rightarrow> int \<times> kheap" where
  "heap_map_page phys h =
     (let (r, pg) = paging_map (heap_end h) phys (PAGE_PRESENT OR PAGE_WRITE) (kh_pg h)
      in (r, h\<lparr>kh_pg := pg\<rparr>))"

text \<open>The frame loop of \<open>grow_heap\<close>; the result is the number of bytes mapped.\<close>

partial_function (option) grow_loop :: "u32 \<Rightarrow> u32 \<Rightarrow> kheap \<Rightarrow> (u32 \<times> kheap) option" where
  "grow_loop bytes mapped h =
     (if \<not> mapped < bytes then Some (mapped, h)
      else let a = heap_alloc_frame h; phys = fst a
      in if phys = 0 then Some (mapped, snd a)
         else let m = heap_map_page phys (snd a)
         in if fst m \<noteq> 0 then Some (mapped, heap_free_frame phys (snd m))
            else grow_loop bytes (mapped + PAGE_SIZE)
                   ((snd m)\<lparr>heap_end := heap_end (snd m) + PAGE_SIZE\<rparr>))"

partial_function (option) last_block :: "u32 \<Rightarrow> (u32 \<Rightarrow> block) \<Rightarrow> u32 option" where
  "last_block l m = (if nxt (m l) \<noteq> 0 then last_block (nxt (m l)) m else Some l)"

definition grow_heap :: "u32 \<Rightarrow> kheap \<Rightarrow> (int \<times> kheap) option" where
  "grow_heap min_bytes h =
     (let bytes = (min_bytes + (PAGE_SIZE - 1)) AND NOT (PAGE_SIZE - 1);
          start = heap_end h
      in Option.bind (grow_loop bytes 0 h) (\<lambda>(mapped, h1).
           if mapped = 0 then Some (-1, h1)
           else let m = (hmem h1)(start := (hmem h1 start)\<lparr>b_size := mapped - HEADER_SIZE, used := 0, nxt := 0\<rparr>)
           in Option.bind
                (if head h1 = 0 then Some (h1\<lparr>hmem := m, head := start\<rparr>)
                 else Option.bind (last_block (head h1) m) (\<lambda>l.
                        Some (h1\<lparr>hmem := m(l := (m l)\<lparr>nxt := start\<rparr>)\<rparr>)))
                (\<lambda>h2. map_option (Pair 0) (coalesce h2))))"

definition kheap_init :: "kheap \<Rightarrow> kheap option" where
  "kheap_init h = map_option snd
     (grow_heap KHEAP_INITIAL (h\<lparr>heap_base := KHEAP_BASE, heap_end := KHEAP_BASE, head := 0\<rparr>))"

definition split_block :: "u32 \<Rightarrow> u32 \<Rightarrow> (u32 \<Rightarrow> block) \<Rightarrow> (u32 \<Rightarrow> block)" where
  "split_block b sz m =
     (if b_size (m b) \<ge> sz + HEADER_SIZE + MIN_SPLIT
      then let n = b + HEADER_SIZE + sz;
               m1 = m(n := (m n)\<lparr>b_size := b_size (m b) - sz - HEADER_SIZE, used := 0, nxt := nxt (m b)\<rparr>)
           in m1(b := (m1 b)\<lparr>nxt := n, b_size := sz\<rparr>)
      else m)"

text \<open>The search of \<open>kmalloc\<close>: the first free block of at least \<open>need\<close> bytes; 0 if there is none.\<close>

partial_function (option) find_fit :: "u32 \<Rightarrow> u32 \<Rightarrow> (u32 \<Rightarrow> block) \<Rightarrow> u32 option" where
  "find_fit b need m =
     (if b = 0 then Some 0
      else if used (m b) = 0 \<and> b_size (m b) \<ge> need then Some b
      else find_fit (nxt (m b)) need m)"

fun kmalloc_attempts :: "nat \<Rightarrow> u32 \<Rightarrow> kheap \<Rightarrow> (u32 \<times> kheap) option" where
  "kmalloc_attempts 0 need h = Some (0, h)"
| "kmalloc_attempts (Suc k) need h =
     Option.bind (find_fit (head h) need (hmem h)) (\<lambda>b.
       if b \<noteq> 0
       then let m = split_block b need (hmem h) in Some (b + HEADER_SIZE, h\<lparr>hmem := m(b := (m b)\<lparr>used := 1\<rparr>)\<rparr>)
       else Option.bind (grow_heap (need + HEADER_SIZE) h) (\<lambda>(r, h1).
              if r \<noteq> 0 then Some (0, h1) else kmalloc_attempts k need h1))"

definition kmalloc :: "u32 \<Rightarrow> kheap \<Rightarrow> (u32 \<times> kheap) option" where
  "kmalloc sz h =
     (if sz = 0 then Some (0, h) else kmalloc_attempts 2 ((sz + 7) AND NOT 7) h)"

definition kfree :: "u32 \<Rightarrow> kheap \<Rightarrow> kheap option" where
  "kfree ptr h =
     (if ptr = 0 then Some h
      else let b = ptr - HEADER_SIZE
           in coalesce (h\<lparr>hmem := (hmem h)(b := (hmem h b)\<lparr>used := 0\<rparr>)\<rparr>))"

text \<open>The loop of \<open>kheap_report\<close>, which visits every block in address order.\<close>

type_synonym hblock = "u32 \<times> nat \<times> bool"

partial_function (option) heap_walk :: "u32 \<Rightarrow> (u32 \<Rightarrow> block) \<Rightarrow> hblock list option" where
  "heap_walk b m =
     (if b = 0 then Some []
      else Option.bind (heap_walk (nxt (m b)) m)
             (\<lambda>bs. Some ((b, unat (b_size (m b)), used (m b) \<noteq> 0) # bs)))"

section \<open>The chain as a list of blocks\<close>

text \<open>\<open>seg m p lo bs q hi\<close>: from \<open>p\<close> the chain runs through the blocks \<open>bs\<close>, which tile the
  addresses from \<open>lo\<close> to \<open>hi\<close>, and then continues with \<open>q\<close>.\<close>

fun seg :: "(u32 \<Rightarrow> block) \<Rightarrow> u32 \<Rightarrow> nat \<Rightarrow> hblock list \<Rightarrow> u32 \<Rightarrow> nat \<Rightarrow> bool" where
  "seg m p lo [] q hi \<longleftrightarrow> p = q \<and> lo = hi"
| "seg m p lo ((a, n, u) # bs) q hi \<longleftrightarrow> p = a \<and> a \<noteq> 0 \<and> unat a = lo \<and>
     unat (b_size (m a)) = n \<and> (used (m a) \<noteq> 0) = u \<and> seg m (nxt (m a)) (lo + 16 + n) bs q hi"

lemma seg_le: "seg m p lo bs q hi \<Longrightarrow> lo + 16 * length bs \<le> hi"
  by (induction bs arbitrary: p lo) fastforce+

lemma seg_append:
  "seg m p lo (as @ bs) q hi \<longleftrightarrow> (\<exists>r mid. seg m p lo as r mid \<and> seg m r mid bs q hi)"
  by (induction as arbitrary: p lo) force+

lemma seg_frame:
  assumes "seg m p lo bs q hi" and "\<And>a. lo \<le> unat a \<Longrightarrow> unat a < hi \<Longrightarrow> m' a = m a"
  shows "seg m' p lo bs q hi"
  using assms
proof (induction bs arbitrary: p lo)
  case (Cons b bs)
  obtain a n u where b: "b = (a, n, u)" by (metis prod_cases3)
  have "m' a = m a" using Cons.prems(1) seg_le [OF Cons.prems(1)] by (intro Cons.prems(2)) (auto simp: b)
  moreover have "seg m' (nxt (m a)) (lo + 16 + n) bs q hi"
    using Cons.prems by (intro Cons.IH) (auto simp: b)
  ultimately show ?case using Cons.prems(1) by (simp add: b)
qed simp

lemma seg_walk: "seg m p lo bs 0 hi \<Longrightarrow> heap_walk p m = Some bs"
  by (induction bs arbitrary: p lo) (subst heap_walk.simps, auto)+

lemma seg_null: "seg m 0 lo bs q hi \<Longrightarrow> bs = [] \<and> q = 0"
  by (cases bs) auto

lemma seg_end: "seg m p lo bs 0 hi \<Longrightarrow> bs \<noteq> [] \<Longrightarrow> p \<noteq> 0"
  by (cases bs) auto

text \<open>Addresses strictly increase along the chain.\<close>

lemma seg_addr:
  "seg m p lo bs q hi \<Longrightarrow> (a, n, u) \<in> set bs \<Longrightarrow> lo \<le> unat a \<and> unat a + 16 + n \<le> hi"
proof (induction bs arbitrary: p lo)
  case (Cons b bs)
  obtain a' n' u' where b: "b = (a', n', u')" by (metis prod_cases3)
  show ?case
  proof (cases "(a, n, u) = b")
    case True
    then show ?thesis using Cons.prems(1) seg_le [of m "nxt (m a)" "lo + 16 + n" bs q hi] by (simp add: b)
  next
    case False
    then show ?thesis using Cons.prems Cons.IH [of "nxt (m a')" "lo + 16 + n'"] by (auto simp: b)
  qed
qed simp

section \<open>Coalescing\<close>

fun coalesce_l :: "hblock list \<Rightarrow> hblock list" where
  "coalesce_l ((a, n, u) # (b, k, v) # bs) =
     (if \<not> u \<and> \<not> v then coalesce_l ((a, n + (16 + k), False) # bs)
      else (a, n, u) # coalesce_l ((b, k, v) # bs))"
| "coalesce_l bs = bs"

lemma coalesce_loop_seg:
  assumes "seg m p lo bs 0 hi" and "hi \<le> 2 ^ 32"
  shows "\<exists>m'. coalesce_loop p m = Some m' \<and> seg m' p lo (coalesce_l bs) 0 hi \<and>
    (\<forall>a. \<not> (lo \<le> unat a \<and> unat a < hi) \<longrightarrow> m' a = m a)"
  using assms
proof (induction bs arbitrary: p lo m rule: coalesce_l.induct)
  case (1 a n u b k v bs)
  then have p: "p = a" "a \<noteq> 0" "unat a = lo" "unat (b_size (m a)) = n" "(used (m a) \<noteq> 0) = u"
    "nxt (m a) = b" "b \<noteq> 0" "unat b = lo + 16 + n" "unat (b_size (m b)) = k" "(used (m b) \<noteq> 0) = v"
    and tl: "seg m (nxt (m b)) (lo + 16 + n + 16 + k) bs 0 hi" by auto
  have fit: "n + (16 + k) < 2 ^ 32" using seg_le [OF tl] "1.prems"(2) by simp
  have ba: "b \<noteq> a" using p by auto
  show ?case
  proof (cases "\<not> u \<and> \<not> v")
    case True
    define m1 where "m1 = m(a := (m a)\<lparr>b_size := b_size (m a) + (HEADER_SIZE + b_size (m b)), nxt := nxt (m b)\<rparr>)"
    have "unat (HEADER_SIZE + b_size (m b)) = 16 + k"
      using fit p by (subst unat_plus_simple) (auto simp: HEADER_SIZE_def)
    then have "unat (b_size (m1 a)) = n + (16 + k)"
      using fit p by (simp add: m1_def unat_plus_simple)
    moreover have "seg m1 (nxt (m b)) (lo + 16 + (n + (16 + k))) bs 0 hi"
    proof (rule seg_frame)
      show "seg m (nxt (m b)) (lo + 16 + (n + (16 + k))) bs 0 hi" using tl by (simp add: add.assoc)
    qed (auto simp: m1_def p)
    ultimately have "seg m1 a lo ((a, n + (16 + k), False) # bs) 0 hi"
      using p True by (simp add: m1_def)
    from "1.IH"(1) [OF True this "1.prems"(2)]
    obtain m' where m': "coalesce_loop a m1 = Some m'" "seg m' a lo (coalesce_l ((a, n, u) # (b, k, v) # bs)) 0 hi"
      "\<forall>x. \<not> (lo \<le> unat x \<and> unat x < hi) \<longrightarrow> m' x = m1 x" using True by auto
    have "coalesce_loop p m = coalesce_loop a m1"
      using p True by (subst coalesce_loop.simps) (simp add: m1_def)
    moreover have "m1 x = m x" if "\<not> (lo \<le> unat x \<and> unat x < hi)" for x
      using that p seg_le [OF tl] by (auto simp: m1_def)
    ultimately show ?thesis using m' p(1) by auto
  next
    case False
    have "seg m b (lo + 16 + n) ((b, k, v) # bs) 0 hi" using "1.prems" p by simp
    from "1.IH"(2) [OF False this "1.prems"(2)]
    obtain m' where m': "coalesce_loop b m = Some m'"
      "seg m' b (lo + 16 + n) (coalesce_l ((b, k, v) # bs)) 0 hi"
      "\<forall>x. \<not> (lo + 16 + n \<le> unat x \<and> unat x < hi) \<longrightarrow> m' x = m x" by auto
    have "coalesce_loop p m = coalesce_loop b m"
      using p False by (subst coalesce_loop.simps) auto
    moreover have "m' a = m a" using m'(3) p by simp
    ultimately show ?thesis using m' p False by auto
  qed
qed (subst coalesce_loop.simps, auto)+

section \<open>Growing: the pages behind the heap\<close>

abbreviation kh_avail :: "kheap \<Rightarrow> u32 set" where
  "kh_avail h \<equiv> avail_frames (pg_pmm (kh_pg h))"

definition heap_page :: "kheap \<Rightarrow> u32 \<Rightarrow> bool" where
  "heap_page h q \<longleftrightarrow> 0xC0000 \<le> unat q \<and> unat q < unat (heap_end h) div 4096"

definition heap_frame :: "kheap \<Rightarrow> u32 \<Rightarrow> u32" where
  "heap_frame h q = the (pages (kh_pg h) q) AND ADDR_MASK"

text \<open>
  Every page below \<open>heap_end\<close> is mapped, to a frame that is neither free nor a page table, and
  no two heap pages share a frame. The heap pages and the free frames together stay below
  \<open>2 ^ 18\<close>, the number of pages between 3 GiB and 4 GiB; this holds from the start on a machine
  with at most 1 GiB of memory, all of which is identity mapped.
\<close>

definition heap_backed :: "kheap \<Rightarrow> bool" where
  "heap_backed h \<longleftrightarrow> pg_inv (kh_pg h) \<and>
     (\<exists>k. unat (heap_end h) = 0xC0000000 + k * 4096 \<and> k + card (kh_avail h) < 2 ^ 18) \<and>
     (\<forall>q. heap_page h q \<longrightarrow> pages (kh_pg h) q \<noteq> None \<and>
        heap_frame h q \<in> managed_frames (pg_pmm (kh_pg h)) - kh_avail h - tables (kh_pg h)) \<and>
     inj_on (heap_frame h) {q. heap_page h q}"

lemma pg_inv_pmm_update:
  assumes "pg_inv s" and "pmm_inv pm" and "managed_frames pm = managed_frames (pg_pmm s)"
    and "avail_frames pm \<inter> tables s = {}"
  shows "pg_inv (s\<lparr>pg_pmm := pm\<rparr>)"
  using assms unfolding pg_inv_def tables_def by (auto simp: pde_def table_of_def)

lemma pages_pmm_update [simp]:
  "pages (s\<lparr>pg_pmm := pm\<rparr>) = pages s" "tables (s\<lparr>pg_pmm := pm\<rparr>) = tables s"
  by (simp_all add: pages_def pde_def table_of_def tables_def fun_eq_iff)

text \<open>Only the translations, the tables and the free frames matter.\<close>

lemma heap_backed_cong:
  assumes "heap_backed h" and "pg_inv (kh_pg h')" and "heap_end h' = heap_end h"
    and "pages (kh_pg h') = pages (kh_pg h)" and "tables (kh_pg h') = tables (kh_pg h)"
    and "kh_avail h' = kh_avail h"
    and "managed_frames (pg_pmm (kh_pg h')) = managed_frames (pg_pmm (kh_pg h))"
  shows "heap_backed h'"
proof -
  have fr: "heap_frame h' = heap_frame h" "heap_page h' = heap_page h"
    by (simp_all add: heap_frame_def heap_page_def assms fun_eq_iff)
  show ?thesis
    using assms(1,2) unfolding heap_backed_def fr assms(3-7) by blast
qed

lemma heap_alloc_frameE:
  assumes "heap_alloc_frame h = (phys, h1)"
  obtains pm where "pmm_alloc_frame (pg_pmm (kh_pg h)) = (phys, pm)"
    and "h1 = h\<lparr>kh_pg := (kh_pg h)\<lparr>pg_pmm := pm\<rparr>\<rparr>"
  using assms by (auto simp: heap_alloc_frame_def split: prod.splits)

lemma heap_map_pageE:
  assumes "heap_map_page phys h = (r, h2)"
  obtains pg where "paging_map (heap_end h) phys (PAGE_PRESENT OR PAGE_WRITE) (kh_pg h) = (r, pg)"
    and "h2 = h\<lparr>kh_pg := pg\<rparr>"
  using assms by (auto simp: heap_map_page_def split: prod.splits)

text \<open>One frame of \<open>grow_loop\<close>: it is mapped at \<open>heap_end\<close>, or everything is as it was.\<close>

lemma alloc_frame_pg:
  assumes inv: "pg_inv pg" and al: "pmm_alloc_frame (pg_pmm pg) = (phys, pm)" and nz: "phys \<noteq> 0"
  shows "pg_inv (pg\<lparr>pg_pmm := pm\<rparr>)" and "phys \<in> avail_frames (pg_pmm pg)"
    and "avail_frames pm = avail_frames (pg_pmm pg) - {phys}"
    and "managed_frames pm = managed_frames (pg_pmm pg)" and "pmm_inv pm"
    and "phys \<in> managed_frames pm - tables pg"
proof -
  note a = pmm.alloc_some [OF pg_inv_pmm [OF inv] al nz]
  show "pg_inv (pg\<lparr>pg_pmm := pm\<rparr>)"
    using pg_inv_pmm_update [OF inv] a tables_held [OF inv] by blast
  show "phys \<in> managed_frames pm - tables pg"
    using a pmm.avail_managed [OF pg_inv_pmm [OF inv]] tables_held [OF inv] by blast
qed (use pmm.alloc_some [OF pg_inv_pmm [OF inv] al nz] in auto)

lemma grow_frame_fail:
  assumes ok: "heap_backed h" and al: "heap_alloc_frame h = (phys, h1)" and nz: "phys \<noteq> 0"
    and mp: "heap_map_page phys h1 = (r, h2)" and r: "r \<noteq> 0"
  defines "h3 \<equiv> heap_free_frame phys h2"
  shows "heap_backed h3" and "kh_avail h3 = kh_avail h" and "card (kh_avail h) = 1"
    and "heap_end h3 = heap_end h" and "head h3 = head h" and "hmem h3 = hmem h"
    and "heap_base h3 = heap_base h"
proof -
  let ?pg = "kh_pg h"
  obtain pm where pm: "pmm_alloc_frame (pg_pmm ?pg) = (phys, pm)" and h1: "h1 = h\<lparr>kh_pg := ?pg\<lparr>pg_pmm := pm\<rparr>\<rparr>"
    using al by (rule heap_alloc_frameE)
  have inv: "pg_inv ?pg" using ok by (simp add: heap_backed_def)
  note a = alloc_frame_pg [OF inv pm nz]
  obtain pg2 where pg2: "paging_map (heap_end h1) phys (PAGE_PRESENT OR PAGE_WRITE) (kh_pg h1) = (r, pg2)"
    and h2: "h2 = h1\<lparr>kh_pg := pg2\<rparr>"
    using mp by (rule heap_map_pageE)
  have "pg_inv (kh_pg h1)" using a(1) by (simp add: h1)
  note f = paging_map_fail [OF this pg2 r]
  have pg3: "kh_pg h3 = ?pg\<lparr>pg_pmm := pmm_free_frame phys pm\<rparr>"
    by (simp add: h3_def heap_free_frame_def h2 f(1) h1)
  show rest: "heap_end h3 = heap_end h" "head h3 = head h" "hmem h3 = hmem h" "heap_base h3 = heap_base h"
    by (simp_all add: h3_def heap_free_frame_def h2 h1)
  have fr: "avail_frames (pmm_free_frame phys pm) = insert phys (avail_frames pm)"
    "managed_frames (pmm_free_frame phys pm) = managed_frames pm" "pmm_inv (pmm_free_frame phys pm)"
    using pmm.free_avail [OF a(5), of phys] a(6) by auto
  have e: "avail_frames pm = {}" using f(3) by (simp add: h1)
  then have one: "kh_avail h = {phys}" using a(2,3) by blast
  then show "card (kh_avail h) = 1" by simp
  show av: "kh_avail h3 = kh_avail h" by (simp add: pg3 fr one e)
  have "pg_inv (kh_pg h3)"
    unfolding pg3 using fr a e by (intro pg_inv_pmm_update inv) auto
  then show "heap_backed h3"
    by (rule heap_backed_cong [OF ok]) (simp_all add: rest av, simp_all add: pg3 fr a(4))
qed

lemma card_remove2:
  assumes "finite A"
  shows "card A \<le> card (A - {x} - {y}) + 2"
proof -
  have two: "card (insert x (insert y B)) \<le> card B + 2" if "finite B" for B
    using that by (simp add: card_insert_if)
  have "card A \<le> card (insert x (insert y (A - {x} - {y})))" using assms by (intro card_mono) auto
  also have "\<dots> \<le> card (A - {x} - {y}) + 2" using assms by (intro two) simp
  finally show ?thesis .
qed

lemma grow_frame_ok:
  assumes ok: "heap_backed h" and al: "heap_alloc_frame h = (phys, h1)" and nz: "phys \<noteq> 0"
    and mp: "heap_map_page phys h1 = (0, h2)"
  defines "h3 \<equiv> h2\<lparr>heap_end := heap_end h2 + PAGE_SIZE\<rparr>"
  shows "heap_backed h3" and "kh_avail h3 \<subset> kh_avail h" and "unat (heap_end h3) = unat (heap_end h) + 4096"
    and "head h3 = head h" and "hmem h3 = hmem h" and "heap_base h3 = heap_base h"
    and "card (kh_avail h) \<le> card (kh_avail h3) + 2"
proof -
  let ?pg = "kh_pg h" and ?q = "drop_bit 12 (heap_end h)"
  obtain pm where pm: "pmm_alloc_frame (pg_pmm ?pg) = (phys, pm)" and h1: "h1 = h\<lparr>kh_pg := ?pg\<lparr>pg_pmm := pm\<rparr>\<rparr>"
    using al by (rule heap_alloc_frameE)
  have inv: "pg_inv ?pg" using ok by (simp add: heap_backed_def)
  note a = alloc_frame_pg [OF inv pm nz]
  obtain pg2 where pg2: "paging_map (heap_end h1) phys (PAGE_PRESENT OR PAGE_WRITE) (kh_pg h1) = (0, pg2)"
    and h2: "h2 = h1\<lparr>kh_pg := pg2\<rparr>"
    using mp by (rule heap_map_pageE)
  have "pg_inv (kh_pg h1)" using a(1) by (simp add: h1)
  note m = paging_map_ok [OF this pg2] and fr = paging_map_frames [OF this pg2]
  have pg3: "kh_pg h3 = pg2" by (simp add: h3_def h2)
  show rest: "head h3 = head h" "hmem h3 = hmem h" "heap_base h3 = heap_base h"
    by (simp_all add: h3_def h2 h1)
  have av: "avail_frames (pg_pmm pg2) \<subseteq> avail_frames pm" "tables pg2 \<subseteq> tables ?pg \<union> avail_frames pm"
    "managed_frames (pg_pmm pg2) = managed_frames (pg_pmm ?pg)"
    using fr a(4) by (auto simp: h1 split: if_splits)
  then show sub: "kh_avail h3 \<subset> kh_avail h" using a(2,3) by (auto simp: pg3)
  have "\<exists>pt. avail_frames pm - {pt} \<subseteq> kh_avail h3"
    using fr by (auto simp: pg3 h1 split: if_splits)
  then obtain pt where "kh_avail h - {phys} - {pt} \<subseteq> kh_avail h3" using a(3) by auto
  then have "card (kh_avail h - {phys} - {pt}) \<le> card (kh_avail h3)"
    by (rule card_mono [OF finite_avail_frames])
  with card_remove2 [OF finite_avail_frames, of "pg_pmm (kh_pg h)" phys pt]
  show "card (kh_avail h) \<le> card (kh_avail h3) + 2" by linarith
  obtain k where k: "unat (heap_end h) = 0xC0000000 + k * 4096" "k + card (kh_avail h) < 2 ^ 18"
    using ok unfolding heap_backed_def by blast
  have card: "card (kh_avail h3) < card (kh_avail h)"
    using psubset_card_mono [OF finite_avail_frames sub] .
  show e: "unat (heap_end h3) = unat (heap_end h) + 4096"
    using k card by (simp add: h3_def h2 h1 PAGE_SIZE_def) (subst unat_plus_simple, auto)
  have q: "unat ?q = 0xC0000 + k" by (simp add: unat_drop_bit k)
  have hp: "heap_page h3 p \<longleftrightarrow> heap_page h p \<or> p = ?q" for p
    using q by (auto simp: heap_page_def e k word_unat_eq_iff)
  have nq: "\<not> heap_page h ?q" using q by (simp add: heap_page_def k)
  have lt: "unat p < 2 ^ 20" if "heap_page h3 p" for p
    using that k card by (auto simp: heap_page_def e)
  have pg: "pages pg2 p = (if p = ?q then Some (page_entry phys (PAGE_PRESENT OR PAGE_WRITE)) else pages ?pg p)"
    if "heap_page h3 p" for p
    using m(2) [OF lt [OF that]] by (simp add: h1)
  have al: "page_aligned phys" using a(6) managed_aligned by blast
  then have frq: "page_entry phys f AND ADDR_MASK = phys" for f
    by (simp add: page_entry_frame flip: ADDR_MASK_def) (simp add: and_ADDR_MASK page_aligned_take_bit)
  have frame: "heap_frame h3 p = (if p = ?q then phys else heap_frame h p)" if "heap_page h3 p" for p
    using pg [OF that] by (simp add: heap_frame_def pg3 frq)
  have old: "pages (kh_pg h) p \<noteq> None" "heap_frame h p \<in> managed_frames (pg_pmm ?pg) - kh_avail h - tables ?pg"
    if "heap_page h p" for p
    using ok that unfolding heap_backed_def by auto
  have bkd: "pages pg2 p \<noteq> None \<and> heap_frame h3 p \<in> managed_frames (pg_pmm pg2) - avail_frames (pg_pmm pg2) - tables pg2"
    if "heap_page h3 p" for p
  proof (cases "p = ?q")
    case True
    then show ?thesis using pg [OF that] frame [OF that] a(2-6) av by auto
  next
    case False
    then show ?thesis using pg [OF that] frame [OF that] old [of p] hp that a(2-6) av by auto
  qed
  have "inj_on (heap_frame h3) (insert ?q {p. heap_page h p})"
  proof -
    have "inj_on (heap_frame h3) {p. heap_page h p}"
      using ok frame hp nq unfolding heap_backed_def by (auto simp: inj_on_def)
    moreover have "heap_frame h3 ?q \<notin> heap_frame h3 ` {p. heap_page h p}"
      using frame [of ?q] frame hp nq old(2) a(2) by auto
    ultimately show ?thesis using nq by (simp add: inj_on_insert)
  qed
  moreover have "Collect (heap_page h3) = insert ?q {p. heap_page h p}" using hp by blast
  ultimately show "heap_backed h3"
    unfolding heap_backed_def using m(1) bkd k card e by (auto simp: pg3 intro: exI [of _ "Suc k"])
qed

lemma grow_frame_none:
  assumes "heap_backed h" and "heap_alloc_frame h = (0, h1)"
  shows "h1 = h \<and> kh_avail h = {}"
proof -
  obtain pm where "pmm_alloc_frame (pg_pmm (kh_pg h)) = (0, pm)" "h1 = h\<lparr>kh_pg := (kh_pg h)\<lparr>pg_pmm := pm\<rparr>\<rparr>"
    using assms(2) by (rule heap_alloc_frameE)
  moreover have "pmm_inv (pg_pmm (kh_pg h))" using assms(1) pg_inv_pmm by (simp add: heap_backed_def)
  ultimately show ?thesis using pmm.alloc_none by fastforce
qed

text \<open>
  \<open>grow_loop\<close> returns. It maps all the bytes asked for unless the frames run out: then at most
  one frame is left, one that could not be used because mapping it needed a page table.
\<close>

lemma grow_loop_spec:
  assumes "heap_backed h" and "4096 dvd unat bytes" and "4096 dvd unat mapped" and "mapped \<le> bytes"
  shows "\<exists>got h'. grow_loop bytes mapped h = Some (got, h') \<and> heap_backed h' \<and>
    mapped \<le> got \<and> got \<le> bytes \<and> 4096 dvd unat got \<and>
    unat (heap_end h') + unat mapped = unat (heap_end h) + unat got \<and>
    head h' = head h \<and> hmem h' = hmem h \<and> heap_base h' = heap_base h \<and>
    kh_avail h' \<subseteq> kh_avail h \<and> (got < bytes \<longrightarrow> card (kh_avail h') \<le> 1) \<and>
    2048 * card (kh_avail h) + unat mapped \<le> 2048 * card (kh_avail h') + unat got"
  using assms
proof (induction "unat bytes - unat mapped" arbitrary: mapped h rule: less_induct)
  case less
  show ?case
  proof (cases "mapped < bytes")
    case False
    then show ?thesis using less.prems by (subst grow_loop.simps) (auto simp: not_less)
  next
    case True
    obtain phys h1 where al: "heap_alloc_frame h = (phys, h1)" by fastforce
    obtain r h2 where mp: "heap_map_page phys h1 = (r, h2)" by fastforce
    consider (none) "phys = 0" | (fail) "phys \<noteq> 0" "r \<noteq> 0" | (ok) "phys \<noteq> 0" "r = 0" by blast
    then show ?thesis
    proof cases
      case none
      have "grow_loop bytes mapped h = Some (mapped, h1)"
        using True none al by (subst grow_loop.simps) simp
      with grow_frame_none [OF less.prems(1)] al none less.prems show ?thesis by auto
    next
      case fail
      have "grow_loop bytes mapped h = Some (mapped, heap_free_frame phys h2)"
        using True fail al mp by (subst grow_loop.simps) simp
      with grow_frame_fail [OF less.prems(1) al fail(1) mp fail(2)] less.prems show ?thesis by auto
    next
      case ok
      define h3 where "h3 = h2\<lparr>heap_end := heap_end h2 + PAGE_SIZE\<rparr>"
      note g = grow_frame_ok [OF less.prems(1) al ok(1) mp [unfolded ok(2)], folded h3_def]
      have step: "grow_loop bytes mapped h = grow_loop bytes (mapped + PAGE_SIZE) h3"
        using True ok al mp by (subst grow_loop.simps) (simp add: h3_def)
      obtain i j where ij: "unat bytes = 4096 * i" "unat mapped = 4096 * j"
        using less.prems(2,3) by (auto elim!: dvdE)
      have lt: "unat mapped + 4096 \<le> unat bytes"
        using True ij by (simp add: word_less_nat_alt)
      have un: "unat (mapped + PAGE_SIZE) = unat mapped + 4096"
        using lt unat_less_pow [of bytes] by (simp add: PAGE_SIZE_def unat_plus_simple)
      have "\<exists>got h'. grow_loop bytes (mapped + PAGE_SIZE) h3 = Some (got, h') \<and> heap_backed h' \<and>
          mapped + PAGE_SIZE \<le> got \<and> got \<le> bytes \<and> 4096 dvd unat got \<and>
          unat (heap_end h') + unat (mapped + PAGE_SIZE) = unat (heap_end h3) + unat got \<and>
          head h' = head h3 \<and> hmem h' = hmem h3 \<and> heap_base h' = heap_base h3 \<and>
          kh_avail h' \<subseteq> kh_avail h3 \<and> (got < bytes \<longrightarrow> card (kh_avail h') \<le> 1) \<and>
          2048 * card (kh_avail h3) + unat (mapped + PAGE_SIZE) \<le> 2048 * card (kh_avail h') + unat got"
      proof (rule less.hyps)
        show "unat bytes - unat (mapped + PAGE_SIZE) < unat bytes - unat mapped" using un lt by simp
        show "heap_backed h3" by (rule g)
        show "4096 dvd unat bytes" by (rule less.prems)
        show "4096 dvd unat (mapped + PAGE_SIZE)" using un less.prems(3) by simp
        show "mapped + PAGE_SIZE \<le> bytes" using un lt by (simp add: word_le_nat_alt)
      qed
      then obtain got h' where r: "grow_loop bytes (mapped + PAGE_SIZE) h3 = Some (got, h')" "heap_backed h'"
          "unat mapped + 4096 \<le> unat got" "got \<le> bytes" "4096 dvd unat got"
          "unat (heap_end h') + unat mapped = unat (heap_end h) + unat got"
          "head h' = head h" "hmem h' = hmem h" "heap_base h' = heap_base h" "kh_avail h' \<subseteq> kh_avail h3"
          "got < bytes \<longrightarrow> card (kh_avail h') \<le> 1"
          "2048 * card (kh_avail h3) + (unat mapped + 4096) \<le> 2048 * card (kh_avail h') + unat got"
        unfolding word_le_nat_alt [of "mapped + PAGE_SIZE"] un g(3-6) by auto
      show ?thesis
        using r g(2,7) by (intro exI [of _ got] exI [of _ h']) (auto simp: step word_le_nat_alt)
    qed
  qed
qed

section \<open>Operations on the list of blocks\<close>

definition sizes_ok :: "hblock list \<Rightarrow> bool" where
  "sizes_ok bs \<longleftrightarrow> (\<forall>(a, n, u) \<in> set bs. 8 dvd n)"

definition no_adjacent_free :: "hblock list \<Rightarrow> bool" where
  "no_adjacent_free bs \<longleftrightarrow> successively (\<lambda>(a, n, u) (b, k, v). u \<or> v) bs"

definition live_of :: "hblock list \<Rightarrow> (u32 \<times> nat) list" where
  "live_of bs = map (\<lambda>(a, n, u). (a + 16, n)) (filter (\<lambda>(a, n, u). u) bs)"

definition carve :: "u32 \<Rightarrow> nat \<Rightarrow> u32 \<Rightarrow> hblock list" where
  "carve b n need =
     (if unat need + 24 \<le> n
      then [(b, unat need, True), (b + 16 + need, n - unat need - 16, False)]
      else [(b, n, True)])"

lemma live_of_append [simp]: "live_of (as @ bs) = live_of as @ live_of bs"
  by (simp add: live_of_def)

lemma live_of_Cons [simp]: "live_of ((a, n, u) # bs) = (if u then [(a + 16, n)] else []) @ live_of bs"
  by (simp add: live_of_def)

lemma live_of_Nil [simp]: "live_of [] = []"
  by (simp add: live_of_def)

lemma sizes_ok_simps [simp]:
  "sizes_ok []" "sizes_ok ((a, n, u) # bs) \<longleftrightarrow> 8 dvd n \<and> sizes_ok bs"
  "sizes_ok (as @ bs) \<longleftrightarrow> sizes_ok as \<and> sizes_ok bs"
  by (simp_all add: sizes_ok_def ball_Un)

lemma live_coalesce [simp]: "live_of (coalesce_l bs) = live_of bs"
  by (induction bs rule: coalesce_l.induct) auto

lemma sizes_coalesce: "sizes_ok bs \<Longrightarrow> sizes_ok (coalesce_l bs)"
  by (induction bs rule: coalesce_l.induct) auto

lemma coalesce_l_hd: "\<exists>n' bs'. coalesce_l ((a, n, u) # bs) = (a, n', u) # bs' \<and> n \<le> n'"
proof (induction bs arbitrary: n)
  case (Cons x bs)
  obtain b k v where x: "x = (b, k, v)" by (metis prod_cases3)
  show ?case
    using Cons.IH [of "n + (16 + k)"] by (auto simp: x)
qed simp

lemma no_adjacent_coalesce: "no_adjacent_free (coalesce_l bs)"
proof (induction bs rule: coalesce_l.induct)
  case (1 a n u b k v bs)
  obtain n' bs' where "coalesce_l ((b, k, v) # bs) = (b, n', v) # bs'" using coalesce_l_hd by blast
  with 1 show ?case by (auto simp: no_adjacent_free_def)
qed (auto simp: no_adjacent_free_def)

text \<open>Coalescing only grows free blocks.\<close>

lemma coalesce_free_grows:
  "(a, n, False) \<in> set bs \<Longrightarrow> \<exists>b k. (b, k, False) \<in> set (coalesce_l bs) \<and> n \<le> k"
proof (induction bs arbitrary: a n rule: coalesce_l.induct)
  case (1 x i u y j v bs)
  show ?case
  proof (cases "\<not> u \<and> \<not> v")
    case True
    have "n \<le> i + (16 + j) \<or> (a, n, False) \<in> set bs" using "1.prems" by auto
    then obtain c l where "(c, l, False) \<in> set ((x, i + (16 + j), False) # bs)" "n \<le> l"
      by (metis list.set_intros order_refl)
    from "1.IH"(1) [OF True this(1)] this(2) show ?thesis
      using True by (auto intro: le_trans)
  next
    case False
    have "a = x \<and> n = i \<and> \<not> u \<or> (a, n, False) \<in> set ((y, j, v) # bs)" using "1.prems" by auto
    then show ?thesis
    proof
      assume "(a, n, False) \<in> set ((y, j, v) # bs)"
      from "1.IH"(2) [OF False this] False show ?thesis by (auto simp del: coalesce_l.simps(2,3)) 
    qed (use False in \<open>auto intro: exI [of _ x]\<close>)
  qed
qed auto

lemma carve_ok:
  assumes "no_adjacent_free (as @ (b, n, False) # cs)" and "sizes_ok (as @ (b, n, False) # cs)"
    and "8 dvd unat need" and "unat need \<le> n"
  shows "no_adjacent_free (as @ carve b n need @ cs)" and "sizes_ok (as @ carve b n need @ cs)"
    and "\<exists>k \<ge> unat need. live_of (as @ carve b n need @ cs) = live_of as @ (b + 16, k) # live_of cs"
proof -
  show "no_adjacent_free (as @ carve b n need @ cs)"
    using assms(1) by (auto simp: no_adjacent_free_def successively_append_iff carve_def successively_Cons)
  show "sizes_ok (as @ carve b n need @ cs)"
    using assms(2-4) by (auto simp: carve_def dvd_diff_nat)
  show "\<exists>k \<ge> unat need. live_of (as @ carve b n need @ cs) = live_of as @ (b + 16, k) # live_of cs"
    using assms(4) by (auto simp: carve_def)
qed

section \<open>The pointer operations implement the list operations\<close>

lemma find_fit_seg:
  assumes "seg m p lo bs 0 hi"
  obtains (none) "find_fit p need m = Some 0" and "\<forall>(a, n, u) \<in> set bs. u \<or> n < unat need"
  | (fit) as b n cs where "find_fit p need m = Some b" and "b \<noteq> 0" and "bs = as @ (b, n, False) # cs"
      and "unat need \<le> n" and "\<forall>(a, n, u) \<in> set as. u \<or> n < unat need"
  using assms
proof (induction bs arbitrary: p lo thesis)
  case Nil
  then have "find_fit p need m = Some 0" by (subst find_fit.simps) simp
  then show ?case by (intro Nil(1)) auto
next
  case (Cons x bs)
  obtain a n u where x: "x = (a, n, u)" by (metis prod_cases3)
  have s: "p = a" "a \<noteq> 0" "unat (b_size (m a)) = n" "(used (m a) \<noteq> 0) = u"
    "seg m (nxt (m a)) (lo + 16 + n) bs 0 hi" using Cons.prems(3) by (auto simp: x)
  show ?case
  proof (cases "\<not> u \<and> unat need \<le> n")
    case True
    then have "find_fit p need m = Some a" using s by (subst find_fit.simps) (auto simp: word_le_nat_alt)
    with True s show ?thesis by (intro Cons.prems(2) [of a "[]" n bs]) (auto simp: x)
  next
    case False
    then have st: "find_fit p need m = find_fit (nxt (m a)) need m"
      using s by (subst find_fit.simps) (auto simp: word_le_nat_alt)
    show ?thesis
    proof (rule Cons.IH [OF _ _ s(5)])
      assume "find_fit (nxt (m a)) need m = Some 0" "\<forall>(a, n, u) \<in> set bs. u \<or> n < unat need"
      then show thesis using False by (intro Cons.prems(1)) (auto simp: st x)
    next
      fix as b k cs
      assume "find_fit (nxt (m a)) need m = Some b" "b \<noteq> 0" "bs = as @ (b, k, False) # cs"
        "unat need \<le> k" "\<forall>(a, n, u) \<in> set as. u \<or> n < unat need"
      then show thesis using False by (intro Cons.prems(2) [of b "x # as" k cs]) (auto simp: st x)
    qed
  qed
qed

lemma last_block_seg: "seg m p lo (bs @ [(a, n, u)]) 0 hi \<Longrightarrow> last_block p m = Some a"
proof (induction bs arbitrary: p lo)
  case Nil
  then show ?case by (subst last_block.simps) auto
next
  case (Cons x bs)
  obtain b k v where x: "x = (b, k, v)" by (metis prod_cases3)
  have s: "seg m (nxt (m b)) (lo + 16 + k) (bs @ [(a, n, u)]) 0 hi" and p: "p = b"
    using Cons.prems by (auto simp: x)
  from seg_end [OF s] Cons.IH [OF s] show ?case by (subst last_block.simps) (simp add: p)
qed

lemma seg_link:
  assumes "seg m p lo (bs @ [(a, n, u)]) 0 hi"
  shows "seg (m(a := (m a)\<lparr>nxt := q\<rparr>)) p lo (bs @ [(a, n, u)]) q hi"
proof -
  obtain mid where s: "seg m p lo bs a mid" and a: "a \<noteq> 0" "unat a = mid" "unat (b_size (m a)) = n"
      "(used (m a) \<noteq> 0) = u" "mid + 16 + n = hi"
    using assms by (auto simp: seg_append)
  have "seg (m(a := (m a)\<lparr>nxt := q\<rparr>)) p lo bs a mid"
    by (rule seg_frame [OF s]) (use a in auto)
  with a show ?thesis by (auto simp: seg_append)
qed

text \<open>Marking the fitting block used, after \<open>split\<close>.\<close>

lemma split_block_seg:
  assumes s: "seg m p lo (as @ (b, n, False) # cs) 0 hi" and lo: "2 ^ 31 \<le> lo" and hi: "hi \<le> 2 ^ 32"
    and need: "unat need \<le> n"
  shows "seg ((split_block b need m)(b := (split_block b need m b)\<lparr>used := 1\<rparr>)) p lo
    (as @ carve b n need @ cs) 0 hi"
proof -
  obtain mid where sa: "seg m p lo as b mid" and b: "b \<noteq> 0" "unat b = mid" "unat (b_size (m b)) = n"
      "used (m b) = 0" and sc: "seg m (nxt (m b)) (mid + 16 + n) cs 0 hi"
    using s by (auto simp: seg_append)
  have mid: "lo \<le> mid" "mid + 16 + n \<le> 2 ^ 32" using seg_le [OF sa] seg_le [OF sc] hi by auto
  have n24: "unat (need + HEADER_SIZE + MIN_SPLIT) = unat need + 24"
    using mid lo need by (simp add: kheap_consts unat_plus_simple add.assoc)
  show ?thesis
  proof (cases "unat need + 24 \<le> n")
    case True
    define c where "c = b + HEADER_SIZE + need"
    have c: "unat c = mid + 16 + unat need"
      using mid True b need by (simp add: c_def HEADER_SIZE_def unat_plus_simple)
    then have cb: "c \<noteq> b" using b by auto
    have sz: "unat (b_size (m b) - need - HEADER_SIZE) = n - unat need - 16"
      using True b by (simp add: HEADER_SIZE_def unat_minus_simple word_le_nat_alt)
    define m2 where "m2 = (split_block b need m)(b := (split_block b need m b)\<lparr>used := 1\<rparr>)"
    have m2: "m2 = m(c := (m c)\<lparr>b_size := b_size (m b) - need - HEADER_SIZE, used := 0, nxt := nxt (m b)\<rparr>,
        b := (m b)\<lparr>nxt := c, b_size := need, used := 1\<rparr>)"
      using True n24 b cb by (simp add: m2_def split_block_def word_le_nat_alt Let_def c_def)
    have "seg m2 p lo as b mid" by (rule seg_frame [OF sa]) (use b c in \<open>auto simp: m2\<close>)
    moreover have "seg m2 (nxt (m b)) (mid + 16 + n) cs 0 hi"
      by (rule seg_frame [OF sc]) (use b c True in \<open>auto simp: m2\<close>)
    moreover have "c \<noteq> 0" using c by auto
    moreover have "b + 16 + need = c" by (simp add: c_def HEADER_SIZE_def)
    ultimately show ?thesis
      unfolding m2_def [symmetric] using True b c cb sz
      by (auto simp: seg_append carve_def m2 add_ac intro!: exI [of _ b] exI [of _ mid])
  next
    case False
    define m2 where "m2 = (split_block b need m)(b := (split_block b need m b)\<lparr>used := 1\<rparr>)"
    have m2: "m2 = m(b := (m b)\<lparr>used := 1\<rparr>)"
      using False n24 b by (simp add: m2_def split_block_def word_le_nat_alt)
    have "seg m2 p lo as b mid" by (rule seg_frame [OF sa]) (use b in \<open>auto simp: m2\<close>)
    moreover have "seg m2 (nxt (m b)) (mid + 16 + n) cs 0 hi"
      by (rule seg_frame [OF sc]) (use b in \<open>auto simp: m2\<close>)
    ultimately show ?thesis
      unfolding m2_def [symmetric] using False b
      by (auto simp: seg_append carve_def m2 intro!: exI [of _ b] exI [of _ mid])
  qed
qed

section \<open>The invariant\<close>

definition block_list :: "kheap \<Rightarrow> hblock list" where
  "block_list h = the (heap_walk (head h) (hmem h))"

definition heap_list :: "kheap \<Rightarrow> hblock list \<Rightarrow> bool" where
  "heap_list h bs \<longleftrightarrow> seg (hmem h) (head h) 0xC0000000 bs 0 (unat (heap_end h))"

definition heap_inv :: "kheap \<Rightarrow> bool" where
  "heap_inv h \<longleftrightarrow> heap_backed h \<and> heap_base h = KHEAP_BASE \<and> heap_list h (block_list h) \<and>
     sizes_ok (block_list h) \<and> no_adjacent_free (block_list h)"

definition live :: "kheap \<Rightarrow> u32 \<Rightarrow> nat option" where
  "live h = map_of (live_of (block_list h))"

lemma heap_list_block_list: "heap_list h bs \<Longrightarrow> block_list h = bs"
  using seg_walk by (simp add: heap_list_def block_list_def)

lemma heap_invI:
  "heap_backed h \<Longrightarrow> heap_base h = KHEAP_BASE \<Longrightarrow> heap_list h bs \<Longrightarrow> sizes_ok bs \<Longrightarrow>
   no_adjacent_free bs \<Longrightarrow> heap_inv h \<and> block_list h = bs"
  using heap_list_block_list by (auto simp: heap_inv_def)

lemma heap_end_le: "heap_backed h \<Longrightarrow> unat (heap_end h) \<le> 2 ^ 32"
  using unat_less_pow [of "heap_end h"] by simp

lemma coalesce_spec:
  assumes "heap_list h bs" and "heap_backed h"
  shows "\<exists>m. coalesce h = Some (h\<lparr>hmem := m\<rparr>) \<and> heap_list (h\<lparr>hmem := m\<rparr>) (coalesce_l bs)"
  using coalesce_loop_seg [OF assms(1) [unfolded heap_list_def] heap_end_le [OF assms(2)]]
  by (auto simp: coalesce_def heap_list_def)

lemma heap_backed_hmem [simp]:
  "heap_backed (h\<lparr>hmem := m\<rparr>) = heap_backed h" "heap_backed (h\<lparr>head := p\<rparr>) = heap_backed h"
  by (simp_all add: heap_backed_def heap_page_def heap_frame_def inj_on_def)

text \<open>\<open>grow_heap\<close> appends one free block of whole pages, then coalesces.\<close>

definition round_page :: "u32 \<Rightarrow> u32" where
  "round_page n = (n + (PAGE_SIZE - 1)) AND NOT (PAGE_SIZE - 1)"

lemma round_page_dvd: "4096 dvd unat (round_page n)"
proof -
  have "PAGE_SIZE - 1 = mask 12" by (simp add: PAGE_SIZE_def mask_eq_exp_minus_1)
  then show ?thesis
    by (simp add: round_page_def unat_and_not_mask)
qed

lemma round_page_ge: "unat n + 4095 < 2 ^ 32 \<Longrightarrow> unat n \<le> unat (round_page n)"
proof -
  assume "unat n + 4095 < 2 ^ 32"
  then have "unat (n + (PAGE_SIZE - 1)) = unat n + 4095" by (simp add: PAGE_SIZE_def unat_plus_simple)
  moreover have "PAGE_SIZE - 1 = mask 12" by (simp add: PAGE_SIZE_def mask_eq_exp_minus_1)
  ultimately have "unat (round_page n) = (unat n + 4095) - (unat n + 4095) mod 4096"
    by (simp add: round_page_def unat_and_not_mask minus_mod_eq_mult_div)
  moreover have "(unat n + 4095) mod 4096 \<le> 4095" using pos_mod_bound [of 4096 "int (unat n + 4095)"]
    by (simp add: less_Suc_eq_le [symmetric])
  ultimately show ?thesis by linarith
qed

lemma grow_heap_spec:
  assumes bs: "heap_list h bs" and bk: "heap_backed h"
  obtains (fail) h' where "grow_heap n h = Some (-1, h')" and "heap_backed h'" and "heap_list h' bs"
      and "heap_base h' = heap_base h" and "round_page n = 0 \<or> card (kh_avail h') \<le> 1"
      and "kh_avail h' \<subseteq> kh_avail h" and "card (kh_avail h) \<le> card (kh_avail h')"
  | (grown) got h' where "grow_heap n h = Some (0, h')" and "heap_backed h'"
      and "heap_list h' (coalesce_l (bs @ [(heap_end h, got - 16, False)]))"
      and "heap_base h' = heap_base h" and "4096 dvd got" and "0 < got"
      and "got = unat (round_page n) \<or> card (kh_avail h') \<le> 1"
      and "kh_avail h' \<subseteq> kh_avail h" and "2048 * card (kh_avail h) \<le> 2048 * card (kh_avail h') + got"
      and "got \<le> unat (round_page n)"
proof -
  have "round_page n \<ge> 0" by simp
  from grow_loop_spec [OF bk round_page_dvd _ this]
  obtain got h1 where g: "grow_loop (round_page n) 0 h = Some (got, h1)" "heap_backed h1"
      "got \<le> round_page n" "4096 dvd unat got" "unat (heap_end h1) = unat (heap_end h) + unat got"
      "head h1 = head h" "hmem h1 = hmem h" "heap_base h1 = heap_base h"
      "got < round_page n \<longrightarrow> card (kh_avail h1) \<le> 1" "kh_avail h1 \<subseteq> kh_avail h"
      "2048 * card (kh_avail h) \<le> 2048 * card (kh_avail h1) + unat got" by auto
  have s: "seg (hmem h) (head h) 0xC0000000 bs 0 (unat (heap_end h))" using bs by (simp add: heap_list_def)
  show thesis
  proof (cases "got = 0")
    case True
    then have "grow_heap n h = Some (-1, h1)"
      using g(1) by (simp add: grow_heap_def round_page_def [symmetric])
    moreover have "heap_list h1 bs" using s g True by (simp add: heap_list_def)
    ultimately show thesis using g True by (intro fail [of h1]) (auto simp: word_gt_0)
  next
    case False
    then obtain k where k: "unat got = 4096 * Suc k"
      using g(4) by (metis dvdE mult_0_right not0_implies_Suc unat_eq_0)
    let ?st = "heap_end h"
    define m where "m = (hmem h)(?st := (hmem h ?st)\<lparr>b_size := got - HEADER_SIZE, used := 0, nxt := 0\<rparr>)"
    have sm: "seg m (head h) 0xC0000000 bs 0 (unat ?st)" by (rule seg_frame [OF s]) (auto simp: m_def)
    have st: "?st \<noteq> 0" using seg_le [OF s] by auto
    have sz: "unat (got - HEADER_SIZE) = unat got - 16"
      using k by (simp add: HEADER_SIZE_def unat_minus_simple word_le_nat_alt)
    have new: "seg m' ?st (unat ?st) [(?st, unat got - 16, False)] 0 (unat (heap_end h1))"
      if "m' ?st = m ?st" for m' using that st sz g(5) k by (simp add: m_def)
    have "\<exists>h2. heap_list h2 (bs @ [(?st, unat got - 16, False)]) \<and> heap_backed h2 \<and>
        heap_base h2 = heap_base h \<and> kh_avail h2 = kh_avail h1 \<and>
        grow_heap n h = map_option (Pair 0) (coalesce h2)"
    proof (cases bs rule: rev_cases)
      case Nil
      define h2 where "h2 = h1\<lparr>hmem := m, head := ?st\<rparr>"
      have "head h = 0" "unat ?st = 0xC0000000" using s Nil by auto
      then have "heap_list h2 (bs @ [(?st, unat got - 16, False)])"
        using new [of m] by (simp add: heap_list_def h2_def Nil)
      moreover have "grow_heap n h = map_option (Pair 0) (coalesce h2)"
        using g False \<open>head h = 0\<close> by (simp add: grow_heap_def round_page_def [symmetric] h2_def m_def Let_def)
      ultimately show ?thesis using g by (intro exI [of _ h2]) (simp add: h2_def)
    next
      case (snoc as x)
      obtain a i u where x: "x = (a, i, u)" by (metis prod_cases3)
      define m2 where "m2 = m(a := (m a)\<lparr>nxt := ?st\<rparr>)"
      define h2 where "h2 = h1\<lparr>hmem := m2\<rparr>"
      have sx: "seg m (head h) 0xC0000000 (as @ [(a, i, u)]) 0 (unat ?st)" using sm by (simp add: snoc x)
      have ast: "a \<noteq> ?st" using seg_addr [OF sx, of a i u] by auto
      have hd: "head h \<noteq> 0" using seg_end [OF sx] by simp
      have "seg m2 (head h) 0xC0000000 (as @ [(a, i, u)]) ?st (unat ?st)"
        unfolding m2_def by (rule seg_link [OF sx])
      moreover have "seg m2 ?st (unat ?st) [(?st, unat got - 16, False)] 0 (unat (heap_end h1))"
        using ast by (intro new) (simp add: m2_def)
      ultimately have "seg m2 (head h) 0xC0000000 ((as @ [(a, i, u)]) @ [(?st, unat got - 16, False)]) 0
          (unat (heap_end h1))" by (subst seg_append) blast
      then have "heap_list h2 (bs @ [(?st, unat got - 16, False)])"
        by (simp add: heap_list_def h2_def g snoc x)
      moreover have "grow_heap n h = map_option (Pair 0) (coalesce h2)"
        using g False hd last_block_seg [OF sx]
        by (simp add: grow_heap_def round_page_def [symmetric] h2_def m2_def m_def Let_def)
      ultimately show ?thesis using g by (intro exI [of _ h2]) (simp add: h2_def)
    qed
    then obtain h2 where h2: "heap_list h2 (bs @ [(?st, unat got - 16, False)])" "heap_backed h2"
        "heap_base h2 = heap_base h" "kh_avail h2 = kh_avail h1"
        "grow_heap n h = map_option (Pair 0) (coalesce h2)" by blast
    obtain m' where "coalesce h2 = Some (h2\<lparr>hmem := m'\<rparr>)"
      "heap_list (h2\<lparr>hmem := m'\<rparr>) (coalesce_l (bs @ [(?st, unat got - 16, False)]))"
      using coalesce_spec [OF h2(1,2)] by blast
    with h2 g k show thesis
      by (intro grown [of "h2\<lparr>hmem := m'\<rparr>" "unat got"]) (auto simp: word_less_nat_alt word_le_nat_alt)
  qed
qed

section \<open>\<open>kmalloc\<close> and \<open>kfree\<close>\<close>

lemma seg_apart:
  assumes "seg m p lo bs q hi" and "(a, n, u) \<in> set bs" and "(b, k, v) \<in> set bs" and "a \<noteq> b"
  shows "unat a + 16 + n \<le> unat b \<or> unat b + 16 + k \<le> unat a"
  using assms
proof (induction bs arbitrary: p lo)
  case (Cons x bs)
  obtain c l w where x: "x = (c, l, w)" by (metis prod_cases3)
  have s: "unat c = lo" "seg m (nxt (m c)) (lo + 16 + l) bs q hi" using Cons.prems(1) by (auto simp: x)
  show ?case
    using Cons.prems(2-4) Cons.IH [OF s(2)] seg_addr [OF s(2), of a n u] seg_addr [OF s(2), of b k v] s(1)
    by (auto simp: x)
qed simp

lemma seg_distinct: "seg m p lo bs q hi \<Longrightarrow> distinct (map fst bs)"
proof (induction bs arbitrary: p lo)
  case (Cons x bs)
  obtain c l w where x: "x = (c, l, w)" by (metis prod_cases3)
  have s: "unat c = lo" "seg m (nxt (m c)) (lo + 16 + l) bs q hi" using Cons.prems by (auto simp: x)
  have "c \<notin> fst ` set bs" using seg_addr [OF s(2)] s(1) by fastforce
  with Cons.IH [OF s(2)] show ?case by (simp add: x)
qed simp

lemma live_of_keys: "map fst (live_of bs) = map (\<lambda>a. a + 16) (map fst (filter (\<lambda>(a, n, u). u) bs))"
  by (induction bs) auto

lemma live_of_distinct:
  assumes "seg m p lo bs q hi"
  shows "distinct (map fst (live_of bs))"
proof -
  have "distinct (map fst (filter (\<lambda>(a, n, u). u) bs))"
    by (rule distinct_map_filter [OF seg_distinct [OF assms]])
  then show ?thesis unfolding live_of_keys by (subst distinct_map) (simp add: inj_on_def)
qed

lemma in_live_of: "(p, n) \<in> set (live_of bs) \<longleftrightarrow> (p - 16, n, True) \<in> set bs"
proof -
  have "(p, n) \<in> set (live_of bs) \<longleftrightarrow> (\<exists>a. (a, n, True) \<in> set bs \<and> p = a + 16)"
    by (auto simp: live_of_def image_iff)
  moreover have "p = a + 16 \<longleftrightarrow> a = p - 16" for a by (auto simp: algebra_simps)
  ultimately show ?thesis by simp
qed

lemma live_Some:
  assumes "heap_inv h"
  shows "live h p = Some n \<longleftrightarrow> (p - 16, n, True) \<in> set (block_list h)"
  using assms live_of_distinct in_live_of
  by (simp add: live_def heap_inv_def heap_list_def) (metis map_of_eq_Some_iff)

definition grants :: "u32 \<Rightarrow> kheap \<Rightarrow> u32 \<Rightarrow> kheap \<Rightarrow> bool" where
  "grants need h p h' \<longleftrightarrow> heap_inv h' \<and>
     (if p = 0 then live_of (block_list h') = live_of (block_list h)
      else \<exists>as n bs. live_of (block_list h) = as @ bs \<and>
        live_of (block_list h') = as @ (p, n) # bs \<and> unat need \<le> n)"

lemma heap_inv_grow:
  assumes inv: "heap_inv h" and g: "grow_heap n h = Some (r, h')"
  shows "heap_inv h'" and "live_of (block_list h') = live_of (block_list h)"
proof -
  have l: "heap_list h (block_list h)" and b: "heap_backed h" using inv by (auto simp: heap_inv_def)
  have "heap_inv h' \<and> live_of (block_list h') = live_of (block_list h)"
    using l b
  proof (cases rule: grow_heap_spec [where n = n])
    case (fail h2)
    have "heap_inv h2 \<and> block_list h2 = block_list h"
      using fail inv by (intro heap_invI) (auto simp: heap_inv_def)
    then show ?thesis using g fail(1) by simp
  next
    case (grown got h2)
    have "8 dvd got" using \<open>4096 dvd got\<close> by (rule dvd_trans [rotated]) simp
    then have "sizes_ok (block_list h @ [(heap_end h, got - 16, False)])"
      using inv by (simp add: heap_inv_def dvd_diff_nat)
    then have "heap_inv h2 \<and> block_list h2 = coalesce_l (block_list h @ [(heap_end h, got - 16, False)])"
      using grown inv by (intro heap_invI sizes_coalesce no_adjacent_coalesce) (auto simp: heap_inv_def)
    then show ?thesis using g grown(1) by simp
  qed
  then show "heap_inv h'" and "live_of (block_list h') = live_of (block_list h)" by auto
qed

lemma kmalloc_found:
  assumes inv: "heap_inv h" and need: "8 dvd unat need" "unat need \<le> n"
    and bl: "block_list h = as @ (b, n, False) # cs"
  defines "m \<equiv> split_block b need (hmem h)"
  shows "grants need h (b + HEADER_SIZE) (h\<lparr>hmem := m(b := (m b)\<lparr>used := 1\<rparr>)\<rparr>)" and "b + HEADER_SIZE \<noteq> 0"
    and "block_list (h\<lparr>hmem := m(b := (m b)\<lparr>used := 1\<rparr>)\<rparr>) = as @ carve b n need @ cs"
proof -
  have s: "seg (hmem h) (head h) 0xC0000000 (as @ (b, n, False) # cs) 0 (unat (heap_end h))"
    and bk: "heap_backed h"
    using inv bl by (auto simp: heap_inv_def heap_list_def)
  have "unat b + 16 + n \<le> unat (heap_end h)" using seg_addr [OF s, of b n False] by simp
  then have "unat (b + HEADER_SIZE) = unat b + 16"
    using unat_less_pow [of "heap_end h"] by (simp add: HEADER_SIZE_def unat_plus_simple)
  then show nz: "b + HEADER_SIZE \<noteq> 0" by auto
  define h' where "h' = h\<lparr>hmem := m(b := (m b)\<lparr>used := 1\<rparr>)\<rparr>"
  have hl: "heap_list h' (as @ carve b n need @ cs)"
    using split_block_seg [OF s _ heap_end_le [OF bk] need(2)] by (simp add: heap_list_def h'_def m_def)
  have f: "heap_backed h'" "heap_base h' = KHEAP_BASE" using inv by (simp_all add: h'_def heap_inv_def)
  have ok: "no_adjacent_free (as @ (b, n, False) # cs)" "sizes_ok (as @ (b, n, False) # cs)"
    using inv bl by (simp_all add: heap_inv_def)
  note c = carve_ok [OF ok need]
  have r: "heap_inv h' \<and> block_list h' = as @ carve b n need @ cs"
    by (rule heap_invI [OF f hl c(2,1)])
  then show "block_list (h\<lparr>hmem := m(b := (m b)\<lparr>used := 1\<rparr>)\<rparr>) = as @ carve b n need @ cs"
    by (simp add: h'_def)
  from r c(3) nz show "grants need h (b + HEADER_SIZE) (h\<lparr>hmem := m(b := (m b)\<lparr>used := 1\<rparr>)\<rparr>)"
    unfolding h'_def [symmetric] by (auto simp: grants_def bl HEADER_SIZE_def) blast
qed

lemma kmalloc_attempts_grants:
  assumes "heap_inv h" and "8 dvd unat need"
  shows "\<exists>p h'. kmalloc_attempts k need h = Some (p, h') \<and> grants need h p h'"
  using assms
proof (induction k arbitrary: h)
  case 0
  then show ?case by (simp add: grants_def)
next
  case (Suc k)
  have l: "heap_list h (block_list h)" and b: "heap_backed h" using Suc.prems by (auto simp: heap_inv_def)
  from l [unfolded heap_list_def] show ?case
  proof (cases rule: find_fit_seg [where need = need])
    case (fit as b n cs)
    from kmalloc_found [OF Suc.prems fit(4,3)] fit(1,2) show ?thesis by (auto simp: Let_def)
  next
    case none
    obtain r h1 where g: "grow_heap (need + HEADER_SIZE) h = Some (r, h1)"
      using l b by (cases rule: grow_heap_spec [where n = "need + HEADER_SIZE"]) blast+
    note i = heap_inv_grow [OF Suc.prems(1) g]
    show ?thesis
    proof (cases "r = 0")
      case True
      from Suc.IH [OF i(1) Suc.prems(2)] obtain p h' where "kmalloc_attempts k need h1 = Some (p, h')"
        "grants need h1 p h'" by blast
      moreover from this(2) have "grants need h p h'" unfolding grants_def i(2) .
      ultimately show ?thesis using none(1) g True by simp
    next
      case False
      then show ?thesis using none(1) g i by (simp add: grants_def)
    qed
  qed
qed

definition align8 :: "u32 \<Rightarrow> u32" where
  "align8 n = (n + 7) AND NOT 7"

lemma align8_dvd: "8 dvd unat (align8 n)"
proof -
  have "align8 n = (n + 7) AND NOT (mask 3)" by (simp add: align8_def mask_eq_exp_minus_1)
  then show ?thesis by (simp add: unat_and_not_mask)
qed

lemma align8_ge: "unat n + 8 \<le> 2 ^ 32 \<Longrightarrow> unat n \<le> unat (align8 n) \<and> unat (align8 n) \<le> unat n + 7"
proof -
  assume "unat n + 8 \<le> 2 ^ 32"
  then have "unat (n + 7) = unat n + 7" by (simp add: unat_plus_simple)
  moreover have "align8 n = (n + 7) AND NOT (mask 3)" by (simp add: align8_def mask_eq_exp_minus_1)
  ultimately have "unat (align8 n) = (unat n + 7) - (unat n + 7) mod 8"
    by (simp add: unat_and_not_mask minus_mod_eq_mult_div)
  moreover have "(unat n + 7) mod 8 < 8" by simp
  ultimately show ?thesis by linarith
qed

lemma kmalloc_align8: "kmalloc n h = (if n = 0 then Some (0, h) else kmalloc_attempts 2 (align8 n) h)"
  by (simp add: kmalloc_def align8_def)

lemma kmalloc_grants:
  assumes "heap_inv h"
  shows "\<exists>p h'. kmalloc n h = Some (p, h') \<and> grants (align8 n) h p h'"
proof (cases "n = 0")
  case True
  then show ?thesis using assms by (simp add: kmalloc_align8 grants_def)
next
  case False
  then show ?thesis using kmalloc_attempts_grants [OF assms align8_dvd] by (simp add: kmalloc_align8)
qed

text \<open>\<open>kfree\<close> of an allocation in use.\<close>

lemma kfree_blocks:
  assumes inv: "heap_inv h" and bl: "block_list h = as @ (b, n, True) # cs"
  shows "\<exists>h'. kfree (b + HEADER_SIZE) h = Some h' \<and> heap_inv h' \<and>
    block_list h' = coalesce_l (as @ (b, n, False) # cs)"
proof -
  have s: "seg (hmem h) (head h) 0xC0000000 (as @ (b, n, True) # cs) 0 (unat (heap_end h))"
    and bk: "heap_backed h"
    using inv bl by (auto simp: heap_inv_def heap_list_def)
  then obtain mid where sa: "seg (hmem h) (head h) 0xC0000000 as b mid" and b: "b \<noteq> 0" "unat b = mid"
      "unat (b_size (hmem h b)) = n" and sc: "seg (hmem h) (nxt (hmem h b)) (mid + 16 + n) cs 0 (unat (heap_end h))"
    by (auto simp: seg_append)
  define h1 where "h1 = h\<lparr>hmem := (hmem h)(b := (hmem h b)\<lparr>used := 0\<rparr>)\<rparr>"
  have "seg (hmem h1) (head h) 0xC0000000 as b mid" by (rule seg_frame [OF sa]) (use b in \<open>auto simp: h1_def\<close>)
  moreover have "seg (hmem h1) (nxt (hmem h b)) (mid + 16 + n) cs 0 (unat (heap_end h))"
    by (rule seg_frame [OF sc]) (use b in \<open>auto simp: h1_def\<close>)
  ultimately have hl: "heap_list h1 (as @ (b, n, False) # cs)"
    unfolding heap_list_def seg_append using b by (intro exI [of _ b] exI [of _ mid]) (simp add: h1_def)
  have bk1: "heap_backed h1" using bk by (simp add: h1_def)
  obtain m where m: "coalesce h1 = Some (h1\<lparr>hmem := m\<rparr>)"
      "heap_list (h1\<lparr>hmem := m\<rparr>) (coalesce_l (as @ (b, n, False) # cs))"
    using coalesce_spec [OF hl bk1] by blast
  have "unat b + 16 < 2 ^ 32"
    using seg_addr [OF s, of b n True] unat_less_pow [of "heap_end h"] by simp
  then have "unat (b + HEADER_SIZE) = unat b + 16" by (simp add: HEADER_SIZE_def unat_plus_simple)
  then have "b + HEADER_SIZE \<noteq> 0" by auto
  then have k: "kfree (b + HEADER_SIZE) h = Some (h1\<lparr>hmem := m\<rparr>)"
    using m(1) by (simp add: kfree_def h1_def)
  have "sizes_ok (as @ (b, n, False) # cs)" using inv bl by (simp add: heap_inv_def)
  then have "heap_inv (h1\<lparr>hmem := m\<rparr>) \<and>
      block_list (h1\<lparr>hmem := m\<rparr>) = coalesce_l (as @ (b, n, False) # cs)"
    using m(2) bk1 inv by (intro heap_invI sizes_coalesce no_adjacent_coalesce) (auto simp: heap_inv_def h1_def)
  with k show ?thesis by blast
qed

lemma kfree_spec:
  assumes inv: "heap_inv h" and lv: "live h p = Some n"
  shows "\<exists>h' as bs. kfree p h = Some h' \<and> heap_inv h' \<and>
    live_of (block_list h) = as @ (p, n) # bs \<and> live_of (block_list h') = as @ bs"
proof -
  have "(p - 16, n, True) \<in> set (block_list h)" using lv by (simp add: live_Some [OF inv])
  then obtain as cs where bl: "block_list h = as @ (p - 16, n, True) # cs" by (meson split_list)
  obtain h' where "kfree p h = Some h'" "heap_inv h'"
      "block_list h' = coalesce_l (as @ (p - 16, n, False) # cs)"
    using kfree_blocks [OF inv bl] by (auto simp: HEADER_SIZE_def)
  then show ?thesis
    by (intro exI [of _ h'] exI [of _ "live_of as"] exI [of _ "live_of cs"]) (simp add: bl)
qed

lemma heap_inv_live_distinct: "heap_inv h \<Longrightarrow> distinct (map fst (live_of (block_list h)))"
  using live_of_distinct by (auto simp: heap_inv_def heap_list_def)

lemma live_insert:
  assumes "distinct (map fst (as @ (p, n) # bs))"
  shows "map_of (as @ (p, n) # bs) = (map_of (as @ bs))(p \<mapsto> n)" and "map_of (as @ bs) p = None"
proof -
  have p: "p \<notin> fst ` set as" "p \<notin> fst ` set bs" using assms by auto
  then show "map_of (as @ bs) p = None" by (simp add: map_of_eq_None_iff image_Un)
  show "map_of (as @ (p, n) # bs) = (map_of (as @ bs))(p \<mapsto> n)"
    using p by (auto simp: fun_eq_iff map_add_def map_of_eq_None_iff [symmetric] split: option.splits)
qed

lemma kmalloc_fresh:
  assumes inv: "heap_inv s" and m: "kmalloc n s = Some (p, s')" "p \<noteq> 0"
  shows "live s p = None \<and> (\<exists>k. live s' = (live s)(p \<mapsto> k) \<and> (unat n + 8 \<le> 2 ^ 32 \<longrightarrow> unat n \<le> k))"
proof -
  obtain as k bs where g: "heap_inv s'" "live_of (block_list s) = as @ bs"
      "live_of (block_list s') = as @ (p, k) # bs" "unat (align8 n) \<le> k"
    using kmalloc_grants [OF inv, of n] m unfolding grants_def by auto
  note i = live_insert [OF heap_inv_live_distinct [OF g(1), unfolded g(3)]]
  have "live s p = None" "live s' = (live s)(p \<mapsto> k)" using i by (simp_all add: live_def g(2,3))
  moreover have "unat n + 8 \<le> 2 ^ 32 \<longrightarrow> unat n \<le> k" using align8_ge [of n] g(4) by linarith
  ultimately show ?thesis by blast
qed

lemma kfree_live:
  assumes inv: "heap_inv s" and n: "live s p = Some n"
  shows "\<exists>s'. kfree p s = Some s' \<and> heap_inv s' \<and> live s' = (live s)(p := None)"
proof -
  from kfree_spec [OF inv n] obtain h' as bs where r: "kfree p s = Some h'" "heap_inv h'"
      "live_of (block_list s) = as @ (p, n) # bs" "live_of (block_list h') = as @ bs" by blast
  note i = live_insert [OF heap_inv_live_distinct [OF inv, unfolded r(3)]]
  have "live h' = (live s)(p := None)" unfolding live_def r(3,4) i(1) fun_upd_upd
    using i(2) by (metis fun_upd_triv)
  with r show ?thesis by blast
qed

lemma block_payload:
  assumes inv: "heap_inv s" and m: "live s p = Some n"
  shows "unat p = unat (p - 16) + 16" and "0xC0000000 \<le> unat (p - 16)" and "unat p + n \<le> unat (heap_end s)"
    and "(p - 16, n, True) \<in> set (block_list s)"
proof -
  show b: "(p - 16, n, True) \<in> set (block_list s)" using m by (simp add: live_Some [OF inv])
  have s: "seg (hmem s) (head s) 0xC0000000 (block_list s) 0 (unat (heap_end s))"
    using inv by (simp add: heap_inv_def heap_list_def)
  note a = seg_addr [OF s b]
  then have "unat (p - 16) + 16 < 2 ^ 32" using unat_less_pow [of "heap_end s"] by simp
  then have "unat ((p - 16) + 16) = unat (p - 16) + 16" by (subst unat_plus_simple) auto
  then show p: "unat p = unat (p - 16) + 16" by simp
  from a show "0xC0000000 \<le> unat (p - 16)" "unat p + n \<le> unat (heap_end s)" using p by auto
qed

text \<open>Payloads are 8-byte aligned, since the base is and every size is a multiple of 8.\<close>

lemma seg_aligned:
  "seg m p lo bs q hi \<Longrightarrow> sizes_ok bs \<Longrightarrow> 8 dvd lo \<Longrightarrow> (a, n, u) \<in> set bs \<Longrightarrow> 8 dvd unat a"
proof (induction bs arbitrary: p lo)
  case (Cons x bs)
  obtain c l w where x: "x = (c, l, w)" by (metis prod_cases3)
  have s: "unat c = lo" "8 dvd l" "sizes_ok bs" "seg m (nxt (m c)) (lo + 16 + l) bs q hi"
    using Cons.prems by (auto simp: x)
  have "8 dvd lo + 16 + l" using s(2) Cons.prems(3) by (simp add: dvd_add)
  with Cons.IH [OF s(4) s(3)] Cons.prems(3,4) s(1) show ?case by (auto simp: x)
qed simp

lemma live_aligned:
  assumes inv: "heap_inv s" and m: "live s p = Some n"
  shows "8 dvd unat p"
proof -
  have s: "seg (hmem s) (head s) 0xC0000000 (block_list s) 0 (unat (heap_end s))" "sizes_ok (block_list s)"
    using inv by (simp_all add: heap_inv_def heap_list_def)
  note b = block_payload [OF inv m]
  have "8 dvd unat (p - 16)" by (rule seg_aligned [OF s _ b(4)]) simp
  then show ?thesis using b(1) by (simp add: dvd_add)
qed

lemma live_apart:
  assumes inv: "heap_inv s" and pq: "live s p = Some k" "live s q = Some l" "p \<noteq> q"
  shows "unat p + k \<le> unat q \<or> unat q + l \<le> unat p"
proof -
  have s: "seg (hmem s) (head s) 0xC0000000 (block_list s) 0 (unat (heap_end s))"
    using inv by (simp add: heap_inv_def heap_list_def)
  have ne: "p - 16 \<noteq> q - 16" using pq(3) by simp
  note p = block_payload [OF inv pq(1)] and q = block_payload [OF inv pq(2)]
  from seg_apart [OF s p(4) q(4) ne] p(1) q(1) show ?thesis by linarith
qed

interpretation kh: heap_allocator kmalloc kfree live heap_inv
proof
  fix s n
  assume "heap_inv s"
  from kmalloc_grants [OF this, of n] show "\<exists>p s'. kmalloc n s = Some (p, s') \<and> heap_inv s'"
    unfolding grants_def by blast
next
  fix s n s'
  assume "heap_inv s" and "kmalloc n s = Some (0, s')"
  with kmalloc_grants [OF this(1), of n] show "live s' = live s" by (simp add: grants_def live_def)
next
  fix s p
  assume "heap_inv s" and "live s p \<noteq> None"
  then show "\<exists>s'. kfree p s = Some s' \<and> heap_inv s' \<and> live s' = (live s)(p := None)"
    using kfree_live by blast
qed (rule kmalloc_fresh live_apart, assumption+)+

text \<open>\<open>kmalloc\<close> gives up only when at most one frame is left.\<close>

lemma kmalloc_null_frames:
  assumes inv: "heap_inv h" and n: "n \<noteq> 0" "unat n + 4118 < 2 ^ 32" and k: "kmalloc n h = Some (0, h')"
  shows "card (kh_avail h') \<le> 1"
proof -
  let ?need = "align8 n" and ?b = "align8 n + HEADER_SIZE"
  have a: "unat ?need \<le> unat n + 7" using align8_ge [of n] n by simp
  then have b: "unat ?b = unat ?need + 16" using n by (simp add: HEADER_SIZE_def unat_plus_simple)
  have r: "unat ?need + 16 \<le> unat (round_page ?b)" using round_page_ge [of ?b] a b n by simp
  then have r0: "round_page ?b \<noteq> 0" by auto
  have att: "kmalloc_attempts (Suc (Suc 0)) ?need h = Some (0, h')" using k n by (simp add: kmalloc_align8 numeral_2_eq_2)
  have search: "find_fit (head g) ?need (hmem g) = Some 0 \<and> (\<forall>(a, i, u) \<in> set (block_list g). u \<or> i < unat ?need)"
    if g: "heap_inv g" and at: "kmalloc_attempts (Suc j) ?need g = Some (0, h')" for g j
  proof -
    have "seg (hmem g) (head g) 0xC0000000 (block_list g) 0 (unat (heap_end g))"
      using g by (simp add: heap_inv_def heap_list_def)
    then show ?thesis
    proof (cases rule: find_fit_seg [where need = ?need])
      case (fit as b i cs)
      then show ?thesis using kmalloc_found(2) [OF g align8_dvd fit(4,3)] at by (simp add: Let_def)
    qed simp
  qed
  have grow: "\<exists>r g'. grow_heap ?b g = Some (r, g') \<and> heap_inv g' \<and> kh_avail g' \<subseteq> kh_avail g \<and>
      (r \<noteq> 0 \<longrightarrow> card (kh_avail g') \<le> 1) \<and>
      (r = 0 \<longrightarrow> card (kh_avail g') \<le> 1 \<or> (\<exists>(a, i, u) \<in> set (block_list g'). \<not> u \<and> unat ?need \<le> i))"
    if g: "heap_inv g" for g
  proof -
    have "heap_list g (block_list g)" "heap_backed g" using g by (auto simp: heap_inv_def)
    then show ?thesis
    proof (cases rule: grow_heap_spec [where n = ?b])
      case (fail g')
      then show ?thesis using heap_inv_grow(1) [OF g fail(1)] r0 by auto
    next
      case (grown got g')
      have "\<exists>(a, i, u) \<in> set (block_list g'). \<not> u \<and> unat ?need \<le> i" if "got = unat (round_page ?b)"
      proof -
        obtain c i where "(c, i, False) \<in> set (block_list g')" "got - 16 \<le> i"
          using coalesce_free_grows [of "heap_end g" "got - 16" "block_list g @ [(heap_end g, got - 16, False)]"]
            heap_list_block_list [OF grown(3)] by auto
        then show ?thesis using that r by (intro bexI [of _ "(c, i, False)"]) auto
      qed
      then show ?thesis using heap_inv_grow(1) [OF g grown(1)] grown by auto
    qed
  qed
  obtain r1 g1 where g1: "grow_heap ?b h = Some (r1, g1)" "heap_inv g1" "r1 \<noteq> 0 \<longrightarrow> card (kh_avail g1) \<le> 1"
      "r1 = 0 \<longrightarrow> card (kh_avail g1) \<le> 1 \<or> (\<exists>(a, i, u) \<in> set (block_list g1). \<not> u \<and> unat ?need \<le> i)"
    using grow [OF inv] by blast
  show ?thesis
  proof (cases "r1 = 0")
    case False
    then show ?thesis using search [OF inv att] att g1 by simp
  next
    case True
    then have at1: "kmalloc_attempts (Suc 0) ?need g1 = Some (0, h')" using search [OF inv att] att g1 by simp
    obtain r2 g2 where g2: "grow_heap ?b g1 = Some (r2, g2)" "kh_avail g2 \<subseteq> kh_avail g1"
      using grow [OF g1(2)] by blast
    then have "h' = g2" using search [OF g1(2) at1] at1 by (auto split: if_splits)
    moreover have "card (kh_avail g1) \<le> 1" using True g1(4) search [OF g1(2) at1] by fastforce
    ultimately show ?thesis using card_mono [OF finite_avail_frames g2(2)] by simp
  qed
qed

lemma kheap_init_ok:
  assumes "pg_inv (kh_pg h)" and "card (kh_avail h) < 2 ^ 18"
  shows "\<exists>h'. kheap_init h = Some h' \<and> heap_inv h' \<and> live h' = Map.empty"
proof -
  define h0 where "h0 = h\<lparr>heap_base := KHEAP_BASE, heap_end := KHEAP_BASE, head := 0\<rparr>"
  have "\<not> heap_page h0 q" for q by (simp add: heap_page_def h0_def KHEAP_BASE_def)
  then have bk: "heap_backed h0"
    using assms by (auto simp: heap_backed_def h0_def KHEAP_BASE_def intro!: exI [of _ 0])
  have l: "heap_list h0 []" by (simp add: heap_list_def h0_def KHEAP_BASE_def)
  have inv: "heap_inv h0 \<and> block_list h0 = []"
    using bk l by (intro heap_invI) (auto simp: h0_def no_adjacent_free_def)
  obtain r h' where g: "grow_heap KHEAP_INITIAL h0 = Some (r, h')"
    using l bk by (cases rule: grow_heap_spec [where n = KHEAP_INITIAL]) blast+
  with heap_inv_grow [of h0 _ r h'] inv show ?thesis
    by (intro exI [of _ h']) (simp add: kheap_init_def h0_def live_def)
qed

section \<open>Properties\<close>

text \<open>
  C6. From \<open>kheap_init\<close>, every sequence of \<open>kmalloc\<close> and \<open>kfree\<close> calls that releases each allocation
  at most once returns; the invariant holds at the end (contiguous blocks, sizes multiples of 8,
  no two free neighbours, every heap page mapped to a frame of its own); the allocations held are
  exactly the used blocks, lie inside the mapped heap, are 8-byte aligned and never overlap.
\<close>

theorem kheap_run_safe:
  assumes "pg_inv (kh_pg hb)" and "card (kh_avail hb) < 2 ^ 18"
  shows "\<exists>h0 h held. kheap_init hb = Some h0 \<and> heap_run kmalloc kfree ops (h0, []) = Some (h, held) \<and>
    heap_inv h \<and> distinct held \<and> set held = dom (live h) \<and>
    (\<forall>p k. live h p = Some k \<longrightarrow> unat KHEAP_BASE + 16 \<le> unat p \<and> unat p + k \<le> unat (heap_end h) \<and>
      8 dvd unat p \<and> (\<forall>q l. live h q = Some l \<and> q \<noteq> p \<longrightarrow> unat p + k \<le> unat q \<or> unat q + l \<le> unat p))"
proof -
  obtain h0 where h0: "kheap_init hb = Some h0" "heap_inv h0" "live h0 = Map.empty"
    using kheap_init_ok [OF assms] by blast
  then have "kh.holds (h0, [])" by (simp add: kh.holds_def)
  from kh.heap_run_holds [OF this, of ops] obtain h held where r: "heap_run kmalloc kfree ops (h0, []) = Some (h, held)"
      "heap_inv h" "distinct held" "set held = dom (live h)" by (auto simp: kh.holds_def)
  have "unat KHEAP_BASE + 16 \<le> unat p \<and> unat p + k \<le> unat (heap_end h) \<and> 8 dvd unat p"
    if "live h p = Some k" for p k
    using block_payload [OF r(2) that] live_aligned [OF r(2) that] by (simp add: KHEAP_BASE_def)
  with h0 r live_apart [OF r(2)] show ?thesis by blast
qed

definition boot_heap :: kheap where
  "boot_heap = \<lparr>kh_pg = paging_init small_boot, heap_base = 0, heap_end = 0, head = 0,
     hmem = (\<lambda>_. \<lparr>b_size = 0, nxt = 0, used = 0\<rparr>)\<rparr>"

lemma boot_heap_frames: "card (kh_avail boot_heap) = 253"
proof -
  have "card (avail_frames (pg_pmm (paging_init small_boot))) + 2 = 255"
    using paging_init_ok [OF small_boot_room(1,3,2)] small_map_card
    by (auto simp: identity_ok_def small_boot_def)
  then show ?thesis by (simp add: boot_heap_def)
qed

lemma boot_heap_ready: "pg_inv (kh_pg boot_heap)" "card (kh_avail boot_heap) < 2 ^ 18"
  by (simp_all add: boot_heap_frames) (simp add: boot_heap_def small_boot_pg_inv)

theorem kheap_run_safe_witness:
  "\<exists>h0 h held. kheap_init boot_heap = Some h0 \<and>
     heap_run kmalloc kfree [Malloc 100, Malloc 5000, Free 1, Malloc 8] (h0, []) = Some (h, held) \<and>
     heap_inv h \<and> set held = dom (live h)"
  using kheap_run_safe [OF boot_heap_ready, of "[Malloc 100, Malloc 5000, Free 1, Malloc 8]"] by blast


lemma boot_heap_init: "\<exists>h0. kheap_init boot_heap = Some h0 \<and> heap_inv h0"
  using kheap_init_ok [OF boot_heap_ready] by blast


text \<open>First fit: the search stops at the first free block that is large enough.\<close>

lemma find_fit_first:
  assumes "seg m p lo (as @ (b, n, False) # cs) 0 hi" and "unat need \<le> n"
    and "\<forall>(a, k, u) \<in> set as. u \<or> k < unat need"
  shows "find_fit p need m = Some b"
  using assms
proof (induction as arbitrary: p lo)
  case Nil
  then show ?case by (subst find_fit.simps) (auto simp: word_le_nat_alt)
next
  case (Cons x as)
  obtain c l w where x: "x = (c, l, w)" by (metis prod_cases3)
  have s: "seg m (nxt (m c)) (lo + 16 + l) (as @ (b, n, False) # cs) 0 hi" "p = c" "c \<noteq> 0"
      "unat (b_size (m c)) = l" "(used (m c) \<noteq> 0) = w"
    using Cons.prems(1) by (auto simp: x)
  have "w \<or> l < unat need" using Cons.prems(3) by (simp add: x)
  then have "find_fit p need m = find_fit (nxt (m c)) need m"
    using s by (subst find_fit.simps) (auto simp: word_le_nat_alt)
  with Cons.IH [OF s(1)] Cons.prems show ?case by simp
qed

lemma kmalloc_first_fit:
  assumes "heap_inv h" and "n \<noteq> 0" and "block_list h = as @ (b, k, False) # cs"
    and "unat (align8 n) \<le> k" and "\<forall>(a, i, u) \<in> set as. u \<or> i < unat (align8 n)"
  shows "\<exists>h1. kmalloc n h = Some (b + 16, h1) \<and> heap_inv h1 \<and> block_list h1 = as @ carve b k (align8 n) @ cs"
proof -
  let ?need = "align8 n"
  have s: "seg (hmem h) (head h) 0xC0000000 (as @ (b, k, False) # cs) 0 (unat (heap_end h))"
    using assms(1,3) by (simp_all add: heap_inv_def heap_list_def)
  have b: "b \<noteq> 0" using s by (auto simp: seg_append)
  define m where "m = split_block b ?need (hmem h)"
  define h1 where "h1 = h\<lparr>hmem := m(b := (m b)\<lparr>used := 1\<rparr>)\<rparr>"
  have "kmalloc n h = Some (b + 16, h1)"
    using find_fit_first [OF s assms(4,5)] b assms(2)
    by (simp add: kmalloc_align8 numeral_2_eq_2 m_def h1_def HEADER_SIZE_def Let_def)
  with kmalloc_found [OF assms(1) align8_dvd assms(4,3), folded m_def, folded h1_def] show ?thesis
    by (simp add: grants_def)
qed

lemma coalesce_l_id: "no_adjacent_free bs \<Longrightarrow> coalesce_l bs = bs"
  by (induction bs rule: coalesce_l.induct) (auto simp: no_adjacent_free_def)

lemma coalesce_l_pair:
  "no_adjacent_free (as @ (b, k + (16 + l), False) # cs) \<Longrightarrow>
   coalesce_l (as @ (b, k, False) # (c, l, False) # cs) = as @ (b, k + (16 + l), False) # cs"
proof (induction as rule: induct_list012)
  case 1
  then show ?case using coalesce_l_id by auto
next
  case (2 x)
  obtain a n u where x: "x = (a, n, u)" by (metis prod_cases3)
  have "u" "no_adjacent_free ((b, k + (16 + l), False) # cs)"
    using 2 by (auto simp: x no_adjacent_free_def)
  then show ?case using coalesce_l_id by (auto simp: x)
next
  case (3 x y zs)
  obtain a n u b' n' u' where x: "x = (a, n, u)" "y = (b', n', u')" by (metis prod_cases3)
  have "u \<or> u'" "no_adjacent_free (y # zs @ (b, k + (16 + l), False) # cs)"
    using 3 by (auto simp: x no_adjacent_free_def)
  then show ?case using 3 by (auto simp: x)
qed

text \<open>
  C8. When a free block fits, \<open>kmalloc\<close> takes the first one in address order and splits off the rest
  of it if that leaves room for a header and 8 bytes; \<open>kfree\<close> of the result then restores exactly
  the list of blocks there was before.
\<close>

theorem kmalloc_kfree_roundtrip:
  assumes "heap_inv h" and "n \<noteq> 0" and "block_list h = as @ (b, k, False) # cs"
    and "unat (align8 n) \<le> k" and "\<forall>(a, i, u) \<in> set as. u \<or> i < unat (align8 n)"
  shows "\<exists>h1 h2. kmalloc n h = Some (b + 16, h1) \<and> block_list h1 = as @ carve b k (align8 n) @ cs \<and>
    kfree (b + 16) h1 = Some h2 \<and> heap_inv h2 \<and> block_list h2 = block_list h"
proof -
  let ?need = "align8 n"
  have adj: "no_adjacent_free (as @ (b, k, False) # cs)" using assms(1,3) by (simp add: heap_inv_def)
  obtain h1 where h1: "kmalloc n h = Some (b + 16, h1)" "heap_inv h1" "block_list h1 = as @ carve b k ?need @ cs"
    using kmalloc_first_fit [OF assms] by blast
  obtain i cs' where c: "carve b k ?need @ cs = (b, i, True) # cs'"
    "coalesce_l (as @ (b, i, False) # cs') = as @ (b, k, False) # cs"
  proof (cases "unat ?need + 24 \<le> k")
    case True
    then have "k = unat ?need + (16 + (k - unat ?need - 16))" by simp
    then show ?thesis
      using that [of "unat ?need" "(b + 16 + ?need, k - unat ?need - 16, False) # cs"] True
        coalesce_l_pair [of as b "unat ?need" "k - unat ?need - 16" cs] adj by (simp add: carve_def)
  next
    case False
    then show ?thesis using that [of k cs] coalesce_l_id [OF adj] by (simp add: carve_def)
  qed
  from kfree_blocks [OF h1(2), of as b i cs'] h1 c assms(3) show ?thesis
    by (auto simp: HEADER_SIZE_def)
qed

lemma boot_heap_blocks:
  "\<exists>h0. kheap_init boot_heap = Some h0 \<and> heap_inv h0 \<and> block_list h0 = [(0xC0000000, 16368, False)]"
proof -
  define h where "h = boot_heap\<lparr>heap_base := KHEAP_BASE, heap_end := KHEAP_BASE, head := 0\<rparr>"
  have "\<not> heap_page h q" for q by (simp add: heap_page_def h_def KHEAP_BASE_def)
  moreover have av: "kh_avail h = kh_avail boot_heap" by (simp add: h_def)
  ultimately have bk: "heap_backed h"
    using boot_heap_ready by (auto simp: heap_backed_def h_def KHEAP_BASE_def intro!: exI [of _ 0])
  have l: "heap_list h []" by (simp add: heap_list_def h_def KHEAP_BASE_def)
  have r: "round_page KHEAP_INITIAL = 0x4000" by (simp add: round_page_def kheap_consts)
  have "\<exists>h'. grow_heap KHEAP_INITIAL h = Some (0, h') \<and> block_list h' = [(0xC0000000, 16368, False)]"
    using l bk
  proof (cases rule: grow_heap_spec [where n = KHEAP_INITIAL])
    case (fail h')
    then show ?thesis using boot_heap_frames av r by simp
  next
    case (grown got h')
    have "got = 0x4000" using grown(7,9,10) boot_heap_frames av r by auto
    then show ?thesis using grown(1,3) heap_list_block_list by (auto simp: h_def KHEAP_BASE_def)
  qed
  with kheap_init_ok [OF boot_heap_ready] show ?thesis by (auto simp: kheap_init_def h_def)
qed

theorem kmalloc_kfree_roundtrip_witness:
  "\<exists>h0 h1 h2. kheap_init boot_heap = Some h0 \<and> kmalloc 100 h0 = Some (0xC0000010, h1) \<and>
     block_list h1 = [(0xC0000000, 104, True), (0xC0000078, 16248, False)] \<and>
     kfree 0xC0000010 h1 = Some h2 \<and> block_list h2 = [(0xC0000000, 16368, False)]"
proof -
  obtain h0 where h0: "kheap_init boot_heap = Some h0" "heap_inv h0" "block_list h0 = [(0xC0000000, 16368, False)]"
    using boot_heap_blocks by blast
  have n: "align8 100 = 104" by (simp add: align8_def)
  from kmalloc_kfree_roundtrip [OF h0(2), of 100 "[]" "0xC0000000" 16368 "[]"] h0 n show ?thesis
    by (auto simp: carve_def)
qed

text \<open>
  The rounding \<open>size + 7\<close> wraps for the seven largest sizes: then \<open>kmalloc\<close> looks for a block of 0
  bytes and, if there is any free block, returns an allocation far smaller than the size asked for.
\<close>

theorem kmalloc_size_wrap:
  assumes "heap_inv h" and "2 ^ 32 - 8 < unat n" and "(b, k, False) \<in> set (block_list h)"
  shows "\<exists>p h' l. kmalloc n h = Some (p, h') \<and> p \<noteq> 0 \<and> live h' p = Some l \<and> l < 2 ^ 30"
proof -
  have "unat (n + 7) < 8" using assms(2) unat_less_pow [of n] by (simp add: unat_word_ariths mod_if) linarith
  moreover have "align8 n = (n + 7) AND NOT (mask 3)" by (simp add: align8_def mask_eq_exp_minus_1)
  ultimately have z: "align8 n = 0" by (simp add: unat_and_not_mask word_unat_eq_iff)
  have s: "seg (hmem h) (head h) 0xC0000000 (block_list h) 0 (unat (heap_end h))"
    using assms(1) by (simp add: heap_inv_def heap_list_def)
  then have "\<exists>p h'. kmalloc n h = Some (p, h') \<and> p \<noteq> 0"
  proof (cases rule: find_fit_seg [where need = 0])
    case none
    then show ?thesis using assms(3) by auto
  next
    case (fit as c i cs)
    have "n \<noteq> 0" using assms(2) by auto
    with fit kmalloc_found(2) [OF assms(1), of 0 i as c cs] show ?thesis
      by (simp add: kmalloc_align8 z numeral_2_eq_2 Let_def)
  qed
  then obtain p h' where p: "kmalloc n h = Some (p, h')" "p \<noteq> 0" by blast
  obtain l where "live h' p = Some l" using kh.malloc_fresh [OF assms(1) p] by auto
  moreover have "heap_inv h'" using kh.malloc_returns [OF assms(1), of n] p by auto
  ultimately have "unat p + l \<le> unat (heap_end h')" "0xC0000000 \<le> unat p" using block_payload [of h' p l] by auto
  then have "l < 2 ^ 30" using unat_less_pow [of "heap_end h'"] by simp
  with p \<open>live h' p = Some l\<close> show ?thesis by blast
qed

theorem kmalloc_size_wrap_witness:
  "\<exists>h0 p h' l. kheap_init boot_heap = Some h0 \<and> kmalloc 0xFFFFFFFF h0 = Some (p, h') \<and> p \<noteq> 0 \<and>
     live h' p = Some l \<and> l < 2 ^ 30"
proof -
  obtain h0 where h0: "kheap_init boot_heap = Some h0" "heap_inv h0" "block_list h0 = [(0xC0000000, 16368, False)]"
    using boot_heap_blocks by blast
  with kmalloc_size_wrap [OF h0(2), of "0xFFFFFFFF" "0xC0000000" 16368] show ?thesis by auto
qed

end
