(* ===== verification/Sched.thy ===== *)
theory Sched
  imports Kheap
begin

text \<open>
  The round-robin scheduler of \<open>sched/sched.c\<close> with the context switch of \<open>sched/switch.asm\<close> and
  \<open>tss_set_esp0\<close> of \<open>cpu/gdt.c\<close>. Task control blocks are a store from addresses to tasks, stacks a
  store of 32-bit words; both are allocated with \<open>kmalloc\<close>. The part of the processor that
  \<open>context_switch\<close> saves is the record \<open>cpu\<close>; \<open>eip\<close> is the address execution continues at after the
  current call. The ring of tasks is related to a list that starts with the running task.
\<close>

section \<open>State and operations\<close>

record task =
  t_esp :: u32
  t_id :: u32
  t_name :: string
  t_state :: int
  t_entry :: u32
  t_arg :: u32
  t_stack :: u32
  kstack_top :: u32
  t_counter :: u32
  t_next :: u32

record cpu =
  esp :: u32
  ebp :: u32
  ebx :: u32
  esi :: u32
  edi :: u32
  eflags :: u32
  eip :: u32

record sched =
  s_heap :: kheap
  current :: u32
  next_id :: u32
  ntasks :: u32
  tcb :: "u32 \<Rightarrow> task"
  tss_esp0 :: u32
  cpu :: cpu
  smem :: "u32 \<Rightarrow> u32"

definition STACK_SIZE :: u32 where "STACK_SIZE = 8192"
definition SIZEOF_TASK :: u32 where "SIZEOF_TASK = 40"

definition sched_current :: "sched \<Rightarrow> u32" where "sched_current s = current s"
definition sched_count :: "sched \<Rightarrow> u32" where "sched_count s = ntasks s"

definition irq_save :: "sched \<Rightarrow> u32 \<times> sched" where
  "irq_save s = (eflags (cpu s), s\<lparr>cpu := (cpu s)\<lparr>eflags := eflags (cpu s) AND NOT 0x200\<rparr>\<rparr>)"

definition irq_restore :: "u32 \<Rightarrow> sched \<Rightarrow> sched" where
  "irq_restore flags s = s\<lparr>cpu := (cpu s)\<lparr>eflags := flags\<rparr>\<rparr>"

definition tss_set_esp0 :: "u32 \<Rightarrow> sched \<Rightarrow> sched" where
  "tss_set_esp0 e s = s\<lparr>tss_esp0 := e\<rparr>"

definition push :: "u32 \<Rightarrow> sched \<Rightarrow> sched" where
  "push w s = (let e = esp (cpu s) - 4 in s\<lparr>cpu := (cpu s)\<lparr>esp := e\<rparr>, smem := (smem s)(e := w)\<rparr>)"

definition pop :: "sched \<Rightarrow> u32 \<times> sched" where
  "pop s = (smem s (esp (cpu s)), s\<lparr>cpu := (cpu s)\<lparr>esp := esp (cpu s) + 4\<rparr>\<rparr>)"

text \<open>
  The call pushes the arguments and the return address; the routine pushes the registers, stores
  the stack pointer in the task switched out (the field \<open>esp\<close>, whose address is the argument),
  loads the other stack pointer and pops.
\<close>

definition switch_out :: "u32 \<Rightarrow> u32 \<Rightarrow> sched \<Rightarrow> sched" where
  "switch_out prev new_esp s0 =
     (let s1 = push (eip (cpu s0)) (push prev (push new_esp s0));
          s2 = push (eflags (cpu s1)) (push (edi (cpu s1)) (push (esi (cpu s1))
                 (push (ebx (cpu s1)) (push (ebp (cpu s1)) s1))))
      in s2\<lparr>tcb := (tcb s2)(prev := (tcb s2 prev)\<lparr>t_esp := esp (cpu s2)\<rparr>)\<rparr>)"

definition switch_in :: "u32 \<Rightarrow> sched \<Rightarrow> sched" where
  "switch_in new_esp s0 =
     (let (fl, s1) = pop (s0\<lparr>cpu := (cpu s0)\<lparr>esp := new_esp\<rparr>\<rparr>);
          (di, s2) = pop s1;
          (si, s3) = pop s2;
          (bx, s4) = pop s3;
          (bp, s5) = pop s4;
          (ret, s6) = pop s5
      in s6\<lparr>cpu := (cpu s6)\<lparr>eflags := fl, edi := di, esi := si, ebx := bx, ebp := bp, eip := ret\<rparr>\<rparr>)"

definition context_switch :: "u32 \<Rightarrow> u32 \<Rightarrow> sched \<Rightarrow> sched" where
  "context_switch prev new_esp s = switch_in new_esp (switch_out prev new_esp s)"

definition sched_kmalloc :: "u32 \<Rightarrow> sched \<Rightarrow> (u32 \<times> sched) option" where
  "sched_kmalloc n s = map_option (\<lambda>(p, h). (p, s\<lparr>s_heap := h\<rparr>)) (kmalloc n (s_heap s))"

definition sched_init :: "sched \<Rightarrow> sched option" where
  "sched_init s = map_option (\<lambda>(t, s).
       s\<lparr>tcb := (tcb s)(t := \<lparr>t_esp = 0, t_id = next_id s, t_name = ''kmain'', t_state = 0, t_entry = 0,
             t_arg = 0, t_stack = 0, kstack_top = 0x90000, t_counter = 0, t_next = t\<rparr>),
         next_id := next_id s + 1, current := t, ntasks := 1\<rparr>)
     (sched_kmalloc SIZEOF_TASK s)"

text \<open>The stack of a new task, as \<open>context_switch\<close> will pop it.\<close>

definition craft_stack :: "u32 \<Rightarrow> u32 \<Rightarrow> (u32 \<Rightarrow> u32) \<Rightarrow> (u32 \<Rightarrow> u32)" where
  "craft_stack boot stop m =
     m(stop - 4 := boot, stop - 8 := 0, stop - 12 := 0, stop - 16 := 0, stop - 20 := 0, stop - 24 := 0x202)"

text \<open>\<open>boot\<close> is the address of \<open>task_bootstrap\<close>, fixed by the linker.\<close>

definition spawn_task :: "u32 \<Rightarrow> u32 \<Rightarrow> u32 \<Rightarrow> string \<Rightarrow> u32 \<Rightarrow> u32 \<Rightarrow> sched \<Rightarrow> sched" where
  "spawn_task boot entry arg name t stack s2 =
     (let stop = stack + STACK_SIZE;
          s3 = s2\<lparr>tcb := (tcb s2)(t := (tcb s2 t)\<lparr>t_id := next_id s2, t_name := name, t_state := 0,
                    t_entry := entry, t_arg := arg, t_stack := stack, kstack_top := stop, t_counter := 0\<rparr>),
                  next_id := next_id s2 + 1,
                  smem := craft_stack boot stop (smem s2)\<rparr>;
          s4 = s3\<lparr>tcb := (tcb s3)(t := (tcb s3 t)\<lparr>t_esp := stop - 24\<rparr>)\<rparr>;
          (flags, s5) = irq_save s4;
          s6 = s5\<lparr>tcb := (tcb s5)(t := (tcb s5 t)\<lparr>t_next := t_next (tcb s5 (current s5))\<rparr>)\<rparr>;
          s7 = s6\<lparr>tcb := (tcb s6)(current s6 := (tcb s6 (current s6))\<lparr>t_next := t\<rparr>),
                  ntasks := ntasks s6 + 1\<rparr>
      in irq_restore flags s7)"

definition task_spawn :: "u32 \<Rightarrow> u32 \<Rightarrow> u32 \<Rightarrow> string \<Rightarrow> sched \<Rightarrow> (u32 \<times> sched) option" where
  "task_spawn boot entry arg name s0 =
     Option.bind (sched_kmalloc SIZEOF_TASK s0) (\<lambda>(t, s1).
     Option.bind (sched_kmalloc STACK_SIZE s1) (\<lambda>(stack, s2).
       Some (t, spawn_task boot entry arg name t stack s2)))"

partial_function (option) pick_loop :: "u32 \<Rightarrow> u32 \<Rightarrow> (u32 \<Rightarrow> task) \<Rightarrow> u32 option" where
  "pick_loop cur t tk =
     (if t_state (tk t) \<noteq> 0 \<and> t \<noteq> cur then pick_loop cur (t_next (tk t)) tk else Some t)"

definition pick_next :: "sched \<Rightarrow> u32 option" where
  "pick_next s = pick_loop (current s) (t_next (tcb s (current s))) (tcb s)"

definition switch_to :: "u32 \<Rightarrow> sched \<Rightarrow> sched" where
  "switch_to nx s =
     (let prev = current s;
          s1 = tss_set_esp0 (kstack_top (tcb s nx)) (s\<lparr>current := nx\<rparr>)
      in context_switch prev (t_esp (tcb s1 nx)) s1)"

definition sched_tick :: "sched \<Rightarrow> sched option" where
  "sched_tick s =
     (if current s = 0 then Some s
      else map_option (\<lambda>nx. if nx \<noteq> current s then switch_to nx s else s) (pick_next s))"

text \<open>
  A task that yields and is switched out runs its \<open>irq_restore\<close> when it is switched back in, as
  part of what it does then; here \<open>irq_restore\<close> is applied when no switch takes place.
\<close>

definition task_yield :: "sched \<Rightarrow> sched option" where
  "task_yield s =
     (let (flags, s1) = irq_save s
      in map_option (\<lambda>nx. if nx \<noteq> current s1 then switch_to nx s1 else irq_restore flags s1) (pick_next s1))"

partial_function (option) unlink_loop :: "u32 \<Rightarrow> u32 \<Rightarrow> (u32 \<Rightarrow> task) \<Rightarrow> u32 option" where
  "unlink_loop cur p tk = (if t_next (tk p) \<noteq> cur then unlink_loop cur (t_next (tk p)) tk else Some p)"

definition task_exit :: "sched \<Rightarrow> sched option" where
  "task_exit s =
     (let s1 = snd (irq_save s);
          s2 = s1\<lparr>tcb := (tcb s1)(current s1 := (tcb s1 (current s1))\<lparr>t_state := 1\<rparr>)\<rparr>
      in map_option (\<lambda>p.
           let s3 = s2\<lparr>tcb := (tcb s2)(p := (tcb s2 p)\<lparr>t_next := t_next (tcb s2 (current s2))\<rparr>),
                       ntasks := ntasks s2 - 1\<rparr>;
               dead = current s3;
               s4 = s3\<lparr>current := t_next (tcb s3 dead)\<rparr>;
               s5 = tss_set_esp0 (kstack_top (tcb s4 (current s4))) s4
           in context_switch dead (t_esp (tcb s5 (current s5))) s5)
         (unlink_loop (current s2) (current s2) (tcb s2)))"

section \<open>The context switch\<close>

lemma push_simps [simp]:
  "cpu (push w s) = (cpu s)\<lparr>esp := esp (cpu s) - 4\<rparr>" "smem (push w s) = (smem s)(esp (cpu s) - 4 := w)"
  "tcb (push w s) = tcb s" "current (push w s) = current s" "ntasks (push w s) = ntasks s"
  "s_heap (push w s) = s_heap s" "next_id (push w s) = next_id s" "tss_esp0 (push w s) = tss_esp0 s"
  by (simp_all add: push_def Let_def)

text \<open>The eight words below the stack pointer after \<open>switch_out\<close>.\<close>

definition saved :: "u32 \<Rightarrow> u32 \<Rightarrow> cpu \<Rightarrow> (u32 \<Rightarrow> u32) \<Rightarrow> (u32 \<Rightarrow> u32)" where
  "saved prev n c m = m(esp c - 4 := n, esp c - 8 := prev, esp c - 12 := eip c, esp c - 16 := ebp c,
     esp c - 20 := ebx c, esp c - 24 := esi c, esp c - 28 := edi c, esp c - 32 := eflags c)"

definition resumed :: "u32 \<Rightarrow> (u32 \<Rightarrow> u32) \<Rightarrow> cpu" where
  "resumed n m = \<lparr>esp = n + 24, ebp = m (n + 16), ebx = m (n + 12), esi = m (n + 8), edi = m (n + 4),
     eflags = m n, eip = m (n + 20)\<rparr>"

lemma switch_out_simps [simp]:
  "smem (switch_out prev n s) = saved prev n (cpu s) (smem s)"
  "tcb (switch_out prev n s) = (tcb s)(prev := (tcb s prev)\<lparr>t_esp := esp (cpu s) - 32\<rparr>)"
  "current (switch_out prev n s) = current s" "ntasks (switch_out prev n s) = ntasks s"
  "s_heap (switch_out prev n s) = s_heap s" "next_id (switch_out prev n s) = next_id s"
  "tss_esp0 (switch_out prev n s) = tss_esp0 s"
  by (simp_all add: switch_out_def Let_def saved_def)

lemma switch_in_simps [simp]:
  "cpu (switch_in n s) = resumed n (smem s)" "smem (switch_in n s) = smem s" "tcb (switch_in n s) = tcb s"
  "current (switch_in n s) = current s" "ntasks (switch_in n s) = ntasks s"
  "s_heap (switch_in n s) = s_heap s" "next_id (switch_in n s) = next_id s"
  "tss_esp0 (switch_in n s) = tss_esp0 s"
  by (simp_all add: switch_in_def pop_def resumed_def add.assoc)

lemma context_switch_simps [simp]:
  "cpu (context_switch prev n s) = resumed n (saved prev n (cpu s) (smem s))"
  "smem (context_switch prev n s) = saved prev n (cpu s) (smem s)"
  "tcb (context_switch prev n s) = (tcb s)(prev := (tcb s prev)\<lparr>t_esp := esp (cpu s) - 32\<rparr>)"
  "current (context_switch prev n s) = current s" "ntasks (context_switch prev n s) = ntasks s"
  "s_heap (context_switch prev n s) = s_heap s" "next_id (context_switch prev n s) = next_id s"
  "tss_esp0 (context_switch prev n s) = tss_esp0 s"
  by (simp_all add: context_switch_def)

lemma switch_to_simps [simp]:
  "cpu (switch_to nx s) = resumed (t_esp (tcb s nx)) (saved (current s) (t_esp (tcb s nx)) (cpu s) (smem s))"
  "smem (switch_to nx s) = saved (current s) (t_esp (tcb s nx)) (cpu s) (smem s)"
  "tcb (switch_to nx s) = (tcb s)(current s := (tcb s (current s))\<lparr>t_esp := esp (cpu s) - 32\<rparr>)"
  "current (switch_to nx s) = nx" "ntasks (switch_to nx s) = ntasks s"
  "s_heap (switch_to nx s) = s_heap s" "next_id (switch_to nx s) = next_id s"
  "tss_esp0 (switch_to nx s) = kstack_top (tcb s nx)"
  by (simp_all add: switch_to_def tss_set_esp0_def Let_def)

text \<open>Popping what was pushed gives the registers back; the two arguments are still on the stack.\<close>

lemma resumed_saved: "resumed (esp c - 32) (saved prev n c m) = c\<lparr>esp := esp c - 8\<rparr>"
  by (simp add: resumed_def saved_def)

text \<open>The eight words a switch saves below stack pointer \<open>e\<close>.\<close>

definition frame_words :: "u32 \<Rightarrow> u32 set" where
  "frame_words e = {e - 4, e - 8, e - 12, e - 16, e - 20, e - 24, e - 28, e - 32}"

lemma saved_outside: "a \<notin> frame_words (esp c) \<Longrightarrow> saved prev n c m a = m a"
  by (simp add: saved_def frame_words_def)

lemma resumed_cong: "(\<And>a. a \<in> frame_words e \<Longrightarrow> m' a = m a) \<Longrightarrow> resumed (e - 32) m' = resumed (e - 32) m"
  by (simp add: resumed_def frame_words_def)

section \<open>The ring\<close>

fun links :: "(u32 \<Rightarrow> task) \<Rightarrow> u32 \<Rightarrow> u32 list \<Rightarrow> u32 \<Rightarrow> bool" where
  "links tk p [] q \<longleftrightarrow> p = q"
| "links tk p (x # xs) q \<longleftrightarrow> p = x \<and> links tk (t_next (tk x)) xs q"

definition ring :: "sched \<Rightarrow> u32 list \<Rightarrow> bool" where
  "ring s ts \<longleftrightarrow> ts \<noteq> [] \<and> distinct ts \<and> 0 \<notin> set ts \<and> links (tcb s) (current s) ts (current s)"

lemma links_append: "links tk p (xs @ ys) q \<longleftrightarrow> (\<exists>r. links tk p xs r \<and> links tk r ys q)"
  by (induction xs arbitrary: p) auto

lemma links_cong: "(\<And>x. x \<in> set xs \<Longrightarrow> t_next (tk' x) = t_next (tk x)) \<Longrightarrow> links tk' p xs q = links tk p xs q"
  by (induction xs arbitrary: p) auto

lemma links_upd: "x \<notin> set xs \<Longrightarrow> links (tk(x := v)) p xs q = links tk p xs q"
  by (rule links_cong) auto

lemma links_relink:
  assumes "links tk p (xs @ [l]) q" and "\<And>t. t \<in> set xs \<Longrightarrow> t_next (tk' t) = t_next (tk t)" and "t_next (tk' l) = q'"
  shows "links tk' p (xs @ [l]) q'"
proof -
  have "links tk p xs l" using assms(1) by (auto simp: links_append)
  then have "links tk' p xs l" using links_cong [of xs tk' tk p l] assms(2) by simp
  then show ?thesis using assms(3) by (auto simp: links_append)
qed

lemma ring_hd: "ring s ts \<Longrightarrow> \<exists>xs. ts = current s # xs"
  by (cases ts) (auto simp: ring_def)

lemma ring_rotate:
  assumes "ring s (c # xs)"
  shows "links (tcb s) (t_next (tcb s c)) (xs @ [c]) (t_next (tcb s c))"
  using assms by (auto simp: ring_def links_append)

text \<open>The search for the next task ends: it finds the first live task after the current one.\<close>

lemma pick_loop_links:
  assumes "links tk p (xs @ [cur]) q" and "cur \<notin> set xs"
  shows "pick_loop cur p tk = Some (hd (filter (\<lambda>t. t_state (tk t) = 0) xs @ [cur]))"
  using assms
proof (induction xs arbitrary: p)
  case Nil
  then show ?case by (subst pick_loop.simps) simp
next
  case (Cons x xs)
  then have x: "p = x" "x \<noteq> cur" and tl: "links tk (t_next (tk x)) (xs @ [cur]) q" "cur \<notin> set xs" by auto
  show ?case
    using Cons.IH [OF tl] x by (subst pick_loop.simps) simp
qed

lemma pick_next_ring:
  assumes "ring s (c # xs)"
  shows "pick_next s = Some (hd (filter (\<lambda>t. t_state (tcb s t) = 0) xs @ [c]))"
proof -
  have "current s = c" "c \<notin> set xs" using assms by (auto simp: ring_def)
  with pick_loop_links [OF ring_rotate [OF assms]] show ?thesis by (simp add: pick_next_def)
qed

text \<open>The unlink loop of \<open>task_exit\<close> stops at the predecessor of the current task.\<close>

lemma unlink_loop_links:
  assumes "links tk p xs cur" and "xs \<noteq> []" and "cur \<notin> set (tl xs)"
  shows "unlink_loop cur p tk = Some (last xs)"
  using assms
proof (induction xs arbitrary: p)
  case (Cons x xs)
  show ?case
  proof (cases xs)
    case Nil
    then show ?thesis using Cons.prems by (subst unlink_loop.simps) auto
  next
    case (Cons y ys)
    then have "t_next (tk x) = y" "y \<noteq> cur" "p = x" using Cons.prems by auto
    then show ?thesis using Cons.IH [of y] Cons.prems Cons by (subst unlink_loop.simps) auto
  qed
qed simp

section \<open>The invariant\<close>

definition task_mem :: "sched \<Rightarrow> u32 \<Rightarrow> bool" where
  "task_mem s t \<longleftrightarrow> (\<exists>n \<ge> 40. live (s_heap s) t = Some n) \<and>
     (t_stack (tcb s t) \<noteq> 0 \<longrightarrow> (\<exists>n \<ge> 8192. live (s_heap s) (t_stack (tcb s t)) = Some n) \<and>
        kstack_top (tcb s t) = t_stack (tcb s t) + STACK_SIZE)"

definition sched_inv :: "sched \<Rightarrow> u32 list \<Rightarrow> bool" where
  "sched_inv s ts \<longleftrightarrow> ring s ts \<and> heap_inv (s_heap s) \<and> ntasks s = word_of_nat (length ts) \<and>
     tss_esp0 s = kstack_top (tcb s (current s)) \<and>
     (\<forall>t \<in> set ts. t_state (tcb s t) = 0 \<and> task_mem s t) \<and>
     (\<forall>t \<in> set ts. \<forall>u \<in> set ts. t_stack (tcb s t) \<noteq> 0 \<longrightarrow> t_stack (tcb s t) \<noteq> u \<and>
        (t \<noteq> u \<longrightarrow> t_stack (tcb s t) \<noteq> t_stack (tcb s u)))"

lemma sched_inv_cong:
  assumes "sched_inv s ts" and "s_heap s' = s_heap s" and "ring s' ts'" and "set ts' \<subseteq> set ts"
    and "ntasks s' = word_of_nat (length ts')" and "tss_esp0 s' = kstack_top (tcb s' (current s'))"
    and "\<And>t. t \<in> set ts' \<Longrightarrow> t_state (tcb s' t) = t_state (tcb s t) \<and> t_stack (tcb s' t) = t_stack (tcb s t) \<and>
      kstack_top (tcb s' t) = kstack_top (tcb s t)"
  shows "sched_inv s' ts'"
  using assms unfolding sched_inv_def task_mem_def by (auto simp: subset_iff)

lemma sched_inv_ring: "sched_inv s ts \<Longrightarrow> ring s ts"
  by (simp only: sched_inv_def)

lemma sched_inv_heap: "sched_inv s ts \<Longrightarrow> heap_inv (s_heap s)"
  by (simp only: sched_inv_def)

lemma sched_inv_task: "sched_inv s ts \<Longrightarrow> t \<in> set ts \<Longrightarrow> t_state (tcb s t) = 0 \<and> task_mem s t"
  by (simp only: sched_inv_def)

lemma sched_inv_cur: "sched_inv s ts \<Longrightarrow> \<exists>xs. ts = current s # xs"
  using ring_hd by (auto simp: sched_inv_def)

lemma sched_inv_pick:
  assumes "sched_inv s (c # xs)"
  shows "pick_next s = Some (hd (xs @ [c]))" and "current s = c" and "current s \<noteq> 0"
proof -
  have "filter (\<lambda>t. t_state (tcb s t) = 0) xs = xs"
    using assms by (auto simp: sched_inv_def filter_id_conv)
  then show "pick_next s = Some (hd (xs @ [c]))"
    using assms pick_next_ring [of s c xs] by (simp add: sched_inv_def)
  show "current s = c" "current s \<noteq> 0" using assms by (auto simp: sched_inv_def ring_def)
qed

text \<open>Switching to the next task rotates the list.\<close>

lemma switch_to_inv:
  assumes inv: "sched_inv s (c # x # xs)"
  shows "sched_inv (switch_to x s) (x # xs @ [c])"
proof (rule sched_inv_cong [OF inv])
  have r: "ring s (c # x # xs)" using inv by (simp add: sched_inv_def)
  have c: "current s = c" "t_next (tcb s c) = x" using r by (auto simp: ring_def)
  have "links (tcb (switch_to x s)) x (x # xs @ [c]) x = links (tcb s) x ((x # xs) @ [c]) x"
    by (simp only: append_Cons) (rule links_cong, auto)
  then have "links (tcb (switch_to x s)) x (x # xs @ [c]) x" using ring_rotate [OF r] c by simp
  then show "ring (switch_to x s) (x # xs @ [c])" using r by (auto simp: ring_def)
  have "x \<noteq> c" using r by (auto simp: ring_def)
  then show "tss_esp0 (switch_to x s) = kstack_top (tcb (switch_to x s) (current (switch_to x s)))"
    using c by simp
qed (use inv in \<open>auto simp: sched_inv_def\<close>)

lemma sched_tick_inv:
  assumes inv: "sched_inv s (c # xs)"
  shows "\<exists>s'. sched_tick s = Some s' \<and> sched_inv s' (xs @ [c])"
proof (cases xs)
  case Nil
  then show ?thesis using inv sched_inv_pick [OF inv] by (simp add: sched_tick_def)
next
  case (Cons x ys)
  have "x \<noteq> c" using sched_inv_ring [OF inv] by (auto simp: ring_def Cons)
  then show ?thesis
    using switch_to_inv [of s c x ys] inv sched_inv_pick [OF inv] by (simp add: sched_tick_def Cons)
qed

lemma sched_inv_cpu:
  "sched_inv s ts \<Longrightarrow> sched_inv (s\<lparr>cpu := c, smem := m\<rparr>) ts"
  by (simp add: sched_inv_def ring_def task_mem_def)

lemma sched_inv_eflags: "sched_inv s ts \<Longrightarrow> sched_inv (irq_restore f s) ts" "sched_inv s ts \<Longrightarrow> sched_inv (snd (irq_save s)) ts"
  by (simp_all add: sched_inv_def ring_def task_mem_def irq_restore_def irq_save_def)

lemma task_yield_inv:
  assumes inv: "sched_inv s (c # xs)"
  shows "\<exists>s'. task_yield s = Some s' \<and> sched_inv s' (xs @ [c])"
proof -
  obtain f s1 where f: "irq_save s = (f, s1)" by fastforce
  then have inv1: "sched_inv s1 (c # xs)" using sched_inv_eflags(2) [OF inv] by simp
  note p = sched_inv_pick [OF inv1]
  show ?thesis
  proof (cases xs)
    case Nil
    then show ?thesis using inv1 p sched_inv_eflags(1) [OF inv1] by (simp add: task_yield_def f)
  next
    case (Cons x ys)
    have "x \<noteq> c" using sched_inv_ring [OF inv] by (auto simp: ring_def Cons)
    then show ?thesis using switch_to_inv [of s1 c x ys] inv1 p by (simp add: task_yield_def f Cons)
  qed
qed

text \<open>\<open>task_exit\<close> takes the current task out of the ring and continues with the next one.\<close>

lemma task_exit_inv:
  assumes inv: "sched_inv s (c # x # xs)"
  shows "\<exists>s'. task_exit s = Some s' \<and> sched_inv s' (x # xs) \<and> t_state (tcb s' c) = 1 \<and>
    cpu s' = resumed (t_esp (tcb s x)) (smem s')"
proof -
  define s1 where "s1 = snd (irq_save s)"
  have inv1: "sched_inv s1 (c # x # xs)" unfolding s1_def by (rule sched_inv_eflags(2) [OF inv])
  have r: "ring s1 (c # x # xs)" by (rule sched_inv_ring [OF inv1])
  then have c: "current s1 = c" "t_next (tcb s1 c) = x" "x \<noteq> c" "c \<notin> set (x # xs)"
    and ln: "links (tcb s1) x (x # xs) c" by (auto simp: ring_def)
  define s2 where "s2 = s1\<lparr>tcb := (tcb s1)(c := (tcb s1 c)\<lparr>t_state := 1\<rparr>)\<rparr>"
  obtain ys p where sp: "x # xs = ys @ [p]" by (metis rev_exhaust list.distinct(1))
  have s2n: "t_next (tcb s2 t) = t_next (tcb s1 t)" for t by (simp add: s2_def)
  have "links (tcb s2) c (c # x # xs) c = links (tcb s1) c (c # x # xs) c"
    by (rule links_cong) (rule s2n)
  then have ln2: "links (tcb s2) c (c # x # xs) c" using r c(1) by (simp only: ring_def)
  have "last (c # x # xs) = p" unfolding sp by simp
  then have u: "unlink_loop c c (tcb s2) = Some p"
    using unlink_loop_links [OF ln2 list.distinct(2)] c(4) by (simp only: list.sel simp_thms)
  have px: "p \<in> set (x # xs)" "p \<notin> set ys"
    using r unfolding ring_def sp by auto
  then have pc: "p \<noteq> c" using c(4) by blast
  define s3 where "s3 = s2\<lparr>tcb := (tcb s2)(p := (tcb s2 p)\<lparr>t_next := x\<rparr>), ntasks := ntasks s2 - 1\<rparr>"
  define s' where "s' = context_switch c (t_esp (tcb s3 x)) (tss_set_esp0 (kstack_top (tcb s3 x)) (s3\<lparr>current := x\<rparr>))"
  have cur2: "current s2 = c" "t_next (tcb s2 c) = x" using c by (simp_all add: s2_def)
  have cur3: "current s3 = c" "t_next (tcb s3 c) = x" using cur2 pc by (simp_all add: s3_def)
  have ex: "task_exit s = Some s'"
    unfolding task_exit_def Let_def s1_def [symmetric] c(1) s2_def [symmetric] cur2 u option.map(2)
      s3_def [symmetric] cur3 by (simp add: s'_def tss_set_esp0_def)
  have tk: "tcb s' t = (if t = c then (tcb s2 c)\<lparr>t_esp := esp (cpu s1) - 32\<rparr>
      else if t = p then (tcb s1 t)\<lparr>t_next := x\<rparr> else tcb s1 t)" for t
    using pc by (auto simp: s'_def s3_def s2_def tss_set_esp0_def)
  have "links (tcb s') x (x # xs) x"
    unfolding sp
  proof (rule links_relink)
    show "links (tcb s1) x (ys @ [p]) c" using ln unfolding sp .
    show "t_next (tcb s' p) = x" unfolding tk using pc by simp
    fix t assume "t \<in> set ys"
    then have "t \<noteq> p" "t \<noteq> c" using px(2) c(4) unfolding sp by auto
    then show "t_next (tcb s' t) = t_next (tcb s1 t)" unfolding tk by simp
  qed
  moreover have "current s' = x" by (simp add: s'_def tss_set_esp0_def)
  ultimately have rg: "ring s' (x # xs)" using r by (simp add: ring_def)
  have "sched_inv s' (x # xs)"
  proof (rule sched_inv_cong [OF inv1 _ rg])
    show "s_heap s' = s_heap s1" by (simp add: s'_def s3_def s2_def tss_set_esp0_def)
    have "ntasks s1 = word_of_nat (length (c # x # xs))" using inv1 by (simp only: sched_inv_def)
    then show "ntasks s' = word_of_nat (length (x # xs))" by (simp add: s'_def s3_def s2_def tss_set_esp0_def)
    have "tss_esp0 s' = kstack_top (tcb s3 x)" by (simp add: s'_def tss_set_esp0_def)
    then show "tss_esp0 s' = kstack_top (tcb s' (current s'))"
      using \<open>current s' = x\<close> c(3) tk [of x] by (simp add: s3_def s2_def)
    fix t assume "t \<in> set (x # xs)"
    then have "t \<noteq> c" using c(4) by blast
    then show "t_state (tcb s' t) = t_state (tcb s1 t) \<and> t_stack (tcb s' t) = t_stack (tcb s1 t) \<and>
        kstack_top (tcb s' t) = kstack_top (tcb s1 t)" unfolding tk by (cases "t = p") simp_all
  qed auto
  moreover have "t_state (tcb s' c) = 1" by (simp add: tk s2_def)
  moreover have "t_esp (tcb s3 x) = t_esp (tcb s x)"
    using c(3) by (simp add: s3_def s2_def s1_def irq_save_def)
  then have "cpu s' = resumed (t_esp (tcb s x)) (smem s')" by (simp add: s'_def)
  ultimately show ?thesis using ex by blast
qed

text \<open>\<open>task_spawn\<close>, when its two allocations succeed, puts the new task right after the current one.\<close>

lemma sched_kmalloc_fresh:
  assumes "heap_inv (s_heap s)" and "sched_kmalloc n s = Some (p, s')" and "p \<noteq> 0" and "unat n + 8 \<le> 2 ^ 32"
  shows "\<exists>h k. s' = s\<lparr>s_heap := h\<rparr> \<and> heap_inv h \<and> live (s_heap s) p = None \<and>
    live h = (live (s_heap s))(p \<mapsto> k) \<and> unat n \<le> k"
proof -
  obtain h where m: "kmalloc n (s_heap s) = Some (p, h)" and s': "s' = s\<lparr>s_heap := h\<rparr>"
    using assms(2) by (auto simp: sched_kmalloc_def)
  have "heap_inv h" using kh.malloc_returns [OF assms(1), of n] m by auto
  with kh.malloc_fresh [OF assms(1) m assms(3)] assms(4) s' show ?thesis by blast
qed

lemma spawn_task_simps:
  assumes "t \<noteq> current s"
  shows "tcb (spawn_task boot entry arg name t stack s) = (tcb s)
      (t := (tcb s t)\<lparr>t_id := next_id s, t_name := name, t_state := 0, t_entry := entry,
         t_arg := arg, t_stack := stack, kstack_top := stack + STACK_SIZE, t_counter := 0,
         t_esp := stack + STACK_SIZE - 24, t_next := t_next (tcb s (current s))\<rparr>,
       current s := (tcb s (current s))\<lparr>t_next := t\<rparr>)"
    and "s_heap (spawn_task boot entry arg name t stack s) = s_heap s"
    and "current (spawn_task boot entry arg name t stack s) = current s"
    and "ntasks (spawn_task boot entry arg name t stack s) = ntasks s + 1"
    and "next_id (spawn_task boot entry arg name t stack s) = next_id s + 1"
    and "tss_esp0 (spawn_task boot entry arg name t stack s) = tss_esp0 s"
    and "cpu (spawn_task boot entry arg name t stack s) = cpu s"
    and "smem (spawn_task boot entry arg name t stack s) = craft_stack boot (stack + STACK_SIZE) (smem s)"
  using assms by (simp_all add: spawn_task_def Let_def irq_save_def irq_restore_def fun_eq_iff)

lemma task_spawnE:
  assumes inv: "heap_inv (s_heap s)" and sp: "task_spawn boot entry arg name s = Some (t, s')" and t: "t \<noteq> 0"
    and st: "t_stack (tcb s' t) \<noteq> 0" and cur: "live (s_heap s) (current s) \<noteq> None"
  obtains stack h k l where "s' = spawn_task boot entry arg name t stack (s\<lparr>s_heap := h\<rparr>)" and "heap_inv h"
    and "stack \<noteq> 0" and "stack \<noteq> t" and "t \<noteq> current s"
    and "live (s_heap s) t = None" and "live (s_heap s) stack = None"
    and "live h = (live (s_heap s))(t \<mapsto> k, stack \<mapsto> l)" and "40 \<le> k" and "8192 \<le> l"
proof -
  obtain s1 stack s2 where m1: "sched_kmalloc SIZEOF_TASK s = Some (t, s1)"
    and m2: "sched_kmalloc STACK_SIZE s1 = Some (stack, s2)"
    and s': "s' = spawn_task boot entry arg name t stack s2"
    using sp by (auto simp: task_spawn_def Option.bind_eq_Some_conv)
  have "unat SIZEOF_TASK + 8 \<le> 2 ^ 32" by (simp add: SIZEOF_TASK_def)
  from sched_kmalloc_fresh [OF inv m1 t this]
  obtain h1 k where h1: "s1 = s\<lparr>s_heap := h1\<rparr>" "heap_inv h1" "live (s_heap s) t = None"
      "live h1 = (live (s_heap s))(t \<mapsto> k)" "40 \<le> k" by (auto simp: SIZEOF_TASK_def)
  have tc: "t \<noteq> current s" using h1(3) cur by auto
  have cs2: "current s2 = current s" using m2 by (auto simp: sched_kmalloc_def h1(1))
  have nz: "stack \<noteq> 0" using st tc cs2 unfolding s' by (subst (asm) spawn_task_simps) auto
  have "heap_inv (s_heap s1)" "unat STACK_SIZE + 8 \<le> 2 ^ 32" using h1 by (simp_all add: STACK_SIZE_def)
  from sched_kmalloc_fresh [OF this(1) m2 nz this(2)]
  obtain h l where h: "s2 = s1\<lparr>s_heap := h\<rparr>" "heap_inv h" "live h1 stack = None"
      "live h = (live h1)(stack \<mapsto> l)" "8192 \<le> l" using h1(1) by (auto simp: STACK_SIZE_def)
  have ns: "stack \<noteq> t" "live (s_heap s) stack = None" using h(3) unfolding h1(4) by (auto split: if_splits)
  show thesis
    by (rule that [of stack h k l]) (use s' h h1 nz ns tc in simp_all)
qed

lemma task_spawn_inv:
  assumes inv: "sched_inv s (c # xs)" and sp: "task_spawn boot entry arg name s = Some (t, s')"
    and t: "t \<noteq> 0" and st: "t_stack (tcb s' t) \<noteq> 0"
  shows "sched_inv s' (c # t # xs)"
proof -
  have r: "ring s (c # xs)" by (rule sched_inv_ring [OF inv])
  then have c: "current s = c" "c \<notin> set xs" by (auto simp: ring_def)
  have lv: "live (s_heap s) u \<noteq> None" if "u \<in> set (c # xs)" for u
    using sched_inv_task [OF inv that] by (auto simp: task_mem_def)
  have slv: "live (s_heap s) (t_stack (tcb s u)) \<noteq> None" if "u \<in> set (c # xs)" "t_stack (tcb s u) \<noteq> 0" for u
    using sched_inv_task [OF inv that(1)] that(2) by (auto simp: task_mem_def)
  have "live (s_heap s) (current s) \<noteq> None" unfolding c by (rule lv) simp
  from sched_inv_heap [OF inv] sp t st this obtain stack h k l
    where s': "s' = spawn_task boot entry arg name t stack (s\<lparr>s_heap := h\<rparr>)" and h: "heap_inv h"
      and nz: "stack \<noteq> 0" "stack \<noteq> t" "t \<noteq> current s"
      and fresh: "live (s_heap s) t = None" "live (s_heap s) stack = None"
      and l: "live h = (live (s_heap s))(t \<mapsto> k, stack \<mapsto> l)" "40 \<le> k" "8192 \<le> l"
    by (rule task_spawnE)
  have ne: "u \<noteq> t" "u \<noteq> stack" if "u \<in> set (c # xs)" for u using lv [OF that] fresh by auto
  note sim = spawn_task_simps [of t "s\<lparr>s_heap := h\<rparr>" boot entry arg name stack, folded s', simplified, OF nz(3)]
  have tk: "t_state (tcb s' u) = (if u = t then 0 else t_state (tcb s u)) \<and>
      t_stack (tcb s' u) = (if u = t then stack else t_stack (tcb s u)) \<and>
      kstack_top (tcb s' u) = (if u = t then stack + STACK_SIZE else kstack_top (tcb s u))" for u
    unfolding sim using nz(3) by simp
  have "links (tcb s') (t_next (tcb s c)) xs c = links (tcb s) (t_next (tcb s c)) xs c"
    by (rule links_cong) (use c ne in \<open>auto simp: sim\<close>)
  then have "ring s' (c # t # xs)"
    using r nz(3) t ne c by (auto simp: ring_def sim)
  moreover have "ntasks s' = word_of_nat (length (c # t # xs))"
    using inv unfolding sched_inv_def sim by simp
  moreover have "tss_esp0 s' = kstack_top (tcb s' (current s'))"
    using inv nz(3) unfolding sched_inv_def sim by simp
  moreover have "t_state (tcb s' u) = 0 \<and> task_mem s' u" if "u \<in> set (c # t # xs)" for u
  proof (cases "u = t")
    case True
    then show ?thesis using tk [of t] l nz by (simp add: task_mem_def sim(2))
  next
    case False
    then have u: "u \<in> set (c # xs)" using that by auto
    note o = sched_inv_task [OF inv u]
    have "live h u = live (s_heap s) u" using ne [OF u] by (simp add: l(1))
    moreover have "live h (t_stack (tcb s u)) = live (s_heap s) (t_stack (tcb s u))" if "t_stack (tcb s u) \<noteq> 0"
      using slv [OF u that] fresh by (auto simp: l(1))
    ultimately show ?thesis using o tk [of u] False by (simp add: task_mem_def sim(2))
  qed
  moreover have "t_stack (tcb s' a) \<noteq> b \<and> (a \<noteq> b \<longrightarrow> t_stack (tcb s' a) \<noteq> t_stack (tcb s' b))"
    if a: "a \<in> set (c # t # xs)" and b: "b \<in> set (c # t # xs)" and "t_stack (tcb s' a) \<noteq> 0" for a b
  proof -
    have old: "t_stack (tcb s a) \<noteq> b \<and> (a \<noteq> b \<longrightarrow> t_stack (tcb s a) \<noteq> t_stack (tcb s b))"
      if "a \<in> set (c # xs)" "b \<in> set (c # xs)" "t_stack (tcb s a) \<noteq> 0"
      using inv that unfolding sched_inv_def by blast
    have far: "t_stack (tcb s u) \<noteq> t \<and> t_stack (tcb s u) \<noteq> stack" if "u \<in> set (c # xs)" for u
      using slv [OF that] fresh nz(1) t by (cases "t_stack (tcb s u) = 0") auto
    show ?thesis
    proof (cases "a = t")
      case True
      then show ?thesis using tk [of a] tk [of b] nz ne [of b] far [of b] b by (cases "b = t") auto
    next
      case False
      then show ?thesis
        using tk [of a] tk [of b] ne [of a] far [of a] old that by (cases "b = t") auto
    qed
  qed
  ultimately show ?thesis using h unfolding sched_inv_def sim(2) by simp
qed

text \<open>The boot context becomes the first task.\<close>

lemma sched_init_inv:
  assumes "heap_inv (s_heap s)" and "sched_init s = Some s'" and "current s' \<noteq> 0" and "tss_esp0 s = 0x90000"
  shows "sched_inv s' [current s']"
proof -
  obtain t s1 where m: "sched_kmalloc SIZEOF_TASK s = Some (t, s1)"
    and s': "s' = s1\<lparr>tcb := (tcb s1)(t := \<lparr>t_esp = 0, t_id = next_id s1, t_name = ''kmain'', t_state = 0, t_entry = 0,
             t_arg = 0, t_stack = 0, kstack_top = 0x90000, t_counter = 0, t_next = t\<rparr>),
         next_id := next_id s1 + 1, current := t, ntasks := 1\<rparr>"
    using assms(2) by (auto simp: sched_init_def)
  have t: "t \<noteq> 0" using assms(3) s' by simp
  have "unat SIZEOF_TASK + 8 \<le> 2 ^ 32" by (simp add: SIZEOF_TASK_def)
  from sched_kmalloc_fresh [OF assms(1) m t this] obtain h k where "s1 = s\<lparr>s_heap := h\<rparr>" "heap_inv h"
    "live h t = Some k" "40 \<le> k" by (auto simp: SIZEOF_TASK_def)
  then show ?thesis using t assms(4) by (simp add: sched_inv_def ring_def task_mem_def s')
qed

section \<open>Runs\<close>

text \<open>
  The steps of the system as the scheduler sees them: the running task computes (any change of
  registers and stack words, and of its own counter), spawns a task, is preempted, yields or exits.
  The last task does not exit, and the allocations of \<open>task_spawn\<close> succeed.
\<close>

inductive sched_step :: "sched \<Rightarrow> sched \<Rightarrow> bool" where
  run: "sched_step s (s\<lparr>cpu := c, smem := m\<rparr>)"
| spawn: "task_spawn boot entry arg name s = Some (t, s') \<Longrightarrow> t \<noteq> 0 \<Longrightarrow> t_stack (tcb s' t) \<noteq> 0 \<Longrightarrow>
    sched_step s s'"
| tick: "sched_tick s = Some s' \<Longrightarrow> sched_step s s'"
| yield: "task_yield s = Some s' \<Longrightarrow> sched_step s s'"
| exit: "t_next (tcb s (current s)) \<noteq> current s \<Longrightarrow> task_exit s = Some s' \<Longrightarrow> sched_step s s'"

lemma sched_step_inv:
  assumes "sched_step s s'" and "sched_inv s ts"
  shows "\<exists>ts'. sched_inv s' ts'"
proof -
  obtain c xs where ts: "ts = c # xs" using sched_inv_cur [OF assms(2)] by blast
  note inv = assms(2) [unfolded ts]
  from assms(1) show ?thesis
  proof cases
    case (run c m)
    then show ?thesis using sched_inv_cpu [OF inv] by blast
  next
    case (spawn boot entry arg name t)
    then show ?thesis using task_spawn_inv [OF inv] by blast
  next
    case tick
    then show ?thesis using sched_tick_inv [OF inv] by auto
  next
    case yield
    then show ?thesis using task_yield_inv [OF inv] by auto
  next
    case exit
    have r: "ring s (c # xs)" by (rule sched_inv_ring [OF inv])
    obtain x ys where "xs = x # ys" using r exit(1) by (cases xs) (auto simp: ring_def)
    then show ?thesis using task_exit_inv [of s c x ys] inv exit(2) by auto
  qed
qed

lemma sched_steps_inv: "sched_step\<^sup>*\<^sup>* s s' \<Longrightarrow> sched_inv s ts \<Longrightarrow> \<exists>ts'. sched_inv s' ts'"
  by (induction rule: rtranclp_induct) (use sched_step_inv in blast)+

fun ticks :: "nat \<Rightarrow> sched \<Rightarrow> sched option" where
  "ticks 0 s = Some s"
| "ticks (Suc n) s = Option.bind (ticks n s) sched_tick"

lemma ticks_rotate: "sched_inv s ts \<Longrightarrow> \<exists>s'. ticks n s = Some s' \<and> sched_inv s' (rotate n ts)"
proof (induction n)
  case (Suc n)
  then obtain s1 where s1: "ticks n s = Some s1" "sched_inv s1 (rotate n ts)" by blast
  obtain c xs where ts: "rotate n ts = c # xs" using sched_inv_cur [OF s1(2)] by blast
  from sched_tick_inv [OF s1(2) [unfolded ts]] obtain s2 where "sched_tick s1 = Some s2" "sched_inv s2 (xs @ [c])"
    by blast
  then show ?case using s1(1) by (simp add: rotate_Suc ts)
qed simp

lemma live_regions_apart:
  assumes "heap_inv h" and "live h p = Some k" and "live h q = Some l" and "p \<noteq> q" and "a \<le> k" and "b \<le> l"
  shows "{unat p..<unat p + a} \<inter> {unat q..<unat q + b} = {}"
  using kh.live_disjoint [OF assms(1-4)] assms(5,6) by auto

section \<open>An example: the kernel just after boot\<close>

definition boot_sched :: "kheap \<Rightarrow> sched" where
  "boot_sched h = \<lparr>s_heap = h, current = 0, next_id = 0, ntasks = 0,
     tcb = (\<lambda>_. \<lparr>t_esp = 0, t_id = 0, t_name = [], t_state = 0, t_entry = 0, t_arg = 0, t_stack = 0,
       kstack_top = 0, t_counter = 0, t_next = 0\<rparr>),
     tss_esp0 = 0x90000,
     cpu = \<lparr>esp = 0x8FF00, ebp = 1, ebx = 2, esi = 3, edi = 4, eflags = 0x202, eip = 0x10500\<rparr>,
     smem = (\<lambda>_. 0)\<rparr>"

lemma boot_sched_init:
  "\<exists>h0 s1. kheap_init boot_heap = Some h0 \<and> heap_inv h0 \<and> sched_init (boot_sched h0) = Some s1 \<and>
     sched_inv s1 [0xC0000010] \<and> current s1 = 0xC0000010 \<and> esp (cpu s1) = 0x8FF00 \<and>
     block_list (s_heap s1) = [(0xC0000000, 40, True), (0xC0000038, 16312, False)]"
proof -
  obtain h0 where h0: "kheap_init boot_heap = Some h0" "heap_inv h0"
      "block_list h0 = [(0xC0000000, 16368, False)]" using boot_heap_blocks by blast
  have al: "align8 40 = 40" by (simp add: align8_def)
  obtain h1 where h1: "kmalloc 40 h0 = Some (0xC0000010, h1)"
      "block_list h1 = [(0xC0000000, 40, True), (0xC0000038, 16312, False)]"
    using kmalloc_first_fit [OF h0(2), of 40 "[]" "0xC0000000" 16368 "[]"] h0(3) by (auto simp: al carve_def)
  obtain s1 where s1: "sched_init (boot_sched h0) = Some s1"
    using h1(1) by (simp add: sched_init_def sched_kmalloc_def boot_sched_def SIZEOF_TASK_def)
  then have f: "current s1 = 0xC0000010" "esp (cpu s1) = 0x8FF00" "s_heap s1 = h1"
    using h1(1) by (auto simp: sched_init_def sched_kmalloc_def boot_sched_def SIZEOF_TASK_def)
  have "sched_inv s1 [current s1]"
    by (rule sched_init_inv [OF _ s1]) (use h0 f in \<open>simp_all add: boot_sched_def\<close>)
  with h0 h1 s1 f show ?thesis by auto
qed

lemma boot_sched_spawn:
  "\<exists>s1 s2. sched_inv s1 [0xC0000010] \<and> current s1 = 0xC0000010 \<and> esp (cpu s1) = 0x8FF00 \<and>
     task_spawn 0x11000 0x12000 7 ''worker'' s1 = Some (0xC0000048, s2) \<and>
     t_stack (tcb s2 0xC0000048) = 0xC0000080 \<and> sched_inv s2 [0xC0000010, 0xC0000048]"
proof -
  obtain s1 where s1: "sched_inv s1 [0xC0000010]" "current s1 = 0xC0000010" "esp (cpu s1) = 0x8FF00"
      "block_list (s_heap s1) = [(0xC0000000, 40, True), (0xC0000038, 16312, False)]"
    using boot_sched_init by blast
  have al: "align8 40 = 40" "align8 8192 = 8192" by (simp_all add: align8_def)
  obtain h1 where h1: "kmalloc 40 (s_heap s1) = Some (0xC0000048, h1)" "heap_inv h1"
      "block_list h1 = [(0xC0000000, 40, True), (0xC0000038, 40, True), (0xC0000070, 16256, False)]"
    using kmalloc_first_fit [OF sched_inv_heap [OF s1(1)], of 40 "[(0xC0000000, 40, True)]" "0xC0000038" 16312 "[]"] s1(4)
    by (auto simp: al carve_def)
  obtain h2 where h2: "kmalloc 8192 h1 = Some (0xC0000080, h2)"
    using kmalloc_first_fit [OF h1(2), of 8192 "[(0xC0000000, 40, True), (0xC0000038, 40, True)]" "0xC0000070" 16256 "[]"]
      h1(3) by (auto simp: al carve_def)
  define s2 where "s2 = spawn_task 0x11000 0x12000 7 ''worker'' 0xC0000048 0xC0000080 (s1\<lparr>s_heap := h2\<rparr>)"
  have sp: "task_spawn 0x11000 0x12000 7 ''worker'' s1 = Some (0xC0000048, s2)"
    using h1(1) h2 by (simp add: task_spawn_def sched_kmalloc_def SIZEOF_TASK_def STACK_SIZE_def s2_def)
  have st: "t_stack (tcb s2 0xC0000048) = 0xC0000080"
    unfolding s2_def by (subst spawn_task_simps) (simp_all add: s1(2))
  have "sched_inv s2 [0xC0000010, 0xC0000048]"
    by (rule task_spawn_inv [OF s1(1) sp]) (simp_all add: st)
  with s1 sp st show ?thesis by blast
qed

section \<open>Properties\<close>

text \<open>
  C10. Whatever sequence of computing, spawning, preemption, yielding and exiting follows
  \<open>sched_init\<close>, the tasks form one ring that starts at the running task: all of them are alive,
  \<open>ntasks\<close> counts them, the TSS holds the kernel stack of the running task, and no two tasks share
  a byte of their control blocks or of their stacks.
\<close>

theorem sched_run_safe:
  assumes "heap_inv (s_heap s0)" and "tss_esp0 s0 = 0x90000" and "sched_init s0 = Some s1"
    and "current s1 \<noteq> 0" and "sched_step\<^sup>*\<^sup>* s1 s"
  shows "\<exists>ts. ring s ts \<and> hd ts = sched_current s \<and> sched_count s = word_of_nat (length ts) \<and>
    tss_esp0 s = kstack_top (tcb s (current s)) \<and> (\<forall>t \<in> set ts. t_state (tcb s t) = 0) \<and>
    (\<forall>t \<in> set ts. \<forall>u \<in> set ts. t \<noteq> u \<longrightarrow> {unat t..<unat t + 40} \<inter> {unat u..<unat u + 40} = {}) \<and>
    (\<forall>t \<in> set ts. \<forall>u \<in> set ts. t_stack (tcb s t) \<noteq> 0 \<longrightarrow>
      {unat (t_stack (tcb s t))..<unat (t_stack (tcb s t)) + 8192} \<inter> {unat u..<unat u + 40} = {}) \<and>
    (\<forall>t \<in> set ts. \<forall>u \<in> set ts. t \<noteq> u \<and> t_stack (tcb s t) \<noteq> 0 \<and> t_stack (tcb s u) \<noteq> 0 \<longrightarrow>
      {unat (t_stack (tcb s t))..<unat (t_stack (tcb s t)) + 8192} \<inter>
      {unat (t_stack (tcb s u))..<unat (t_stack (tcb s u)) + 8192} = {})"
proof -
  obtain ts where inv: "sched_inv s ts"
    using sched_steps_inv [OF assms(5) sched_init_inv [OF assms(1,3,4,2)]] by blast
  have h: "heap_inv (s_heap s)" by (rule sched_inv_heap [OF inv])
  have m: "\<exists>n \<ge> 40. live (s_heap s) t = Some n" if "t \<in> set ts" for t
    using sched_inv_task [OF inv that] by (simp add: task_mem_def)
  have st: "\<exists>n \<ge> 8192. live (s_heap s) (t_stack (tcb s t)) = Some n"
    if "t \<in> set ts" "t_stack (tcb s t) \<noteq> 0" for t
    using sched_inv_task [OF inv that(1)] that(2) by (simp add: task_mem_def)
  have ne: "t_stack (tcb s t) \<noteq> u \<and> (t \<noteq> u \<longrightarrow> t_stack (tcb s t) \<noteq> t_stack (tcb s u))"
    if "t \<in> set ts" "u \<in> set ts" "t_stack (tcb s t) \<noteq> 0" for t u
    using inv that unfolding sched_inv_def by blast
  have "hd ts = sched_current s" using sched_inv_cur [OF inv] by (auto simp: sched_current_def)
  moreover have "sched_count s = word_of_nat (length ts)" "tss_esp0 s = kstack_top (tcb s (current s))"
    using inv unfolding sched_inv_def sched_count_def by blast+
  ultimately show ?thesis
    using sched_inv_ring [OF inv] sched_inv_task [OF inv]
    by (intro exI [of _ ts] conjI ballI impI) (use m st ne live_regions_apart [OF h] in \<open>meson\<close>)+
qed

theorem sched_run_safe_witness:
  "\<exists>h0 s1 s ts. kheap_init boot_heap = Some h0 \<and> sched_init (boot_sched h0) = Some s1 \<and>
     sched_tick s1 = Some s \<and> ring s ts \<and> hd ts = sched_current s"
proof -
  obtain h0 s1 where s1: "kheap_init boot_heap = Some h0" "heap_inv h0" "sched_init (boot_sched h0) = Some s1"
      "sched_inv s1 [0xC0000010]" "current s1 = 0xC0000010" using boot_sched_init by blast
  obtain s where s: "sched_tick s1 = Some s" using sched_tick_inv [OF s1(4)] by blast
  have h: "heap_inv (s_heap (boot_sched h0))" "tss_esp0 (boot_sched h0) = 0x90000" "current s1 \<noteq> 0"
    using s1 by (simp_all add: boot_sched_def)
  have "sched_step\<^sup>*\<^sup>* s1 s" using sched_step.tick [OF s] by blast
  from sched_run_safe [OF h(1,2) s1(3) h(3) this] obtain ts where ts: "ring s ts" "hd ts = sched_current s"
    by (elim exE conjE)
  show ?thesis
    by (rule exI [of _ h0], rule exI [of _ s1], rule exI [of _ s], rule exI [of _ ts]) (simp add: s1 s ts)
qed

text \<open>
  C11. Preemption is round robin: after \<open>n\<close> timer ticks the running task is the one \<open>n\<close> places further
  along the ring, so that every task of the ring runs once in as many ticks as there are tasks.
\<close>

theorem sched_round_robin:
  assumes "sched_inv s ts"
  shows "\<exists>s'. ticks n s = Some s' \<and> current s' = ts ! (n mod length ts) \<and>
    tss_esp0 s' = kstack_top (tcb s' (current s')) \<and> ntasks s' = ntasks s"
proof -
  obtain s' where s': "ticks n s = Some s'" "sched_inv s' (rotate n ts)" using ticks_rotate [OF assms] by blast
  obtain xs where xs: "rotate n ts = current s' # xs" using sched_inv_cur [OF s'(2)] by blast
  have "ts \<noteq> []" using assms by (auto simp: sched_inv_def ring_def)
  then have "current s' = ts ! (n mod length ts)"
    using xs by (metis hd_rotate_conv_nth list.sel(1))
  moreover have "tss_esp0 s' = kstack_top (tcb s' (current s'))" "ntasks s' = ntasks s"
    using s'(2) assms unfolding sched_inv_def by auto
  ultimately show ?thesis using s'(1) by blast
qed

theorem sched_round_robin_witness:
  "\<exists>s s'. sched_inv s [0xC0000010, 0xC0000048] \<and> ticks 5 s = Some s' \<and> current s' = 0xC0000048"
proof -
  obtain s where s: "sched_inv s [0xC0000010, 0xC0000048]" using boot_sched_spawn by blast
  have five: "5 mod length [0xC0000010, 0xC0000048 :: u32] = 1" by (simp flip: numeral_2_eq_2)
  from sched_round_robin [OF s, of 5, unfolded five] s show ?thesis by auto
qed

text \<open>
  C12. A task that is switched out finds its registers, flags and return address again when it is
  switched back in, whatever ran in between, if the words it had saved on its stack and the stack
  pointer in its control block are left alone.
\<close>

theorem context_switch_roundtrip:
  assumes "s1 = switch_to other s" and "current s = self" and "current s2 \<noteq> self"
    and "t_esp (tcb s2 self) = t_esp (tcb s1 self)" and "other \<noteq> self"
    and "\<forall>a \<in> frame_words (esp (cpu s)). smem s2 a = smem s1 a"
    and "frame_words (esp (cpu s2)) \<inter> frame_words (esp (cpu s)) = {}"
  shows "cpu (switch_to self s2) = (cpu s)\<lparr>esp := esp (cpu s) - 8\<rparr> \<and>
    current (switch_to self s2) = self \<and> tss_esp0 (switch_to self s2) = kstack_top (tcb s2 self)"
proof -
  let ?n = "esp (cpu s) - 32"
  have n: "t_esp (tcb s2 self) = ?n" using assms(1,2,4,5) by simp
  have "saved (current s2) ?n (cpu s2) (smem s2) a = smem s1 a" if "a \<in> frame_words (esp (cpu s))" for a
  proof -
    have "a \<notin> frame_words (esp (cpu s2))" using that assms(7) by blast
    then show ?thesis using that assms(6) by (simp add: saved_outside)
  qed
  then have "resumed ?n (saved (current s2) ?n (cpu s2) (smem s2)) = resumed ?n (smem s1)"
    by (rule resumed_cong)
  also have "\<dots> = (cpu s)\<lparr>esp := esp (cpu s) - 8\<rparr>"
    using resumed_saved [of "cpu s"] by (simp add: assms(1,2))
  finally show ?thesis by (simp add: n)
qed

text \<open>Two tasks on the stacks at \<open>0x8FF00\<close> and \<open>0x80000\<close>.\<close>

definition two_tasks :: sched where
  "two_tasks = (boot_sched boot_heap)\<lparr>current := 1\<rparr>"

definition other_task :: sched where
  "other_task = (switch_to 2 two_tasks)\<lparr>cpu := \<lparr>esp = 0x80000, ebp = 0, ebx = 0, esi = 0, edi = 0, eflags = 2, eip = 0\<rparr>\<rparr>"

theorem context_switch_roundtrip_witness:
  "current two_tasks = 1 \<and> current other_task \<noteq> 1 \<and> cpu (switch_to 1 other_task) = (cpu two_tasks)\<lparr>esp := 0x8FEF8\<rparr>"
proof -
  have "current two_tasks = 1" "current other_task \<noteq> 1"
    "t_esp (tcb other_task 1) = t_esp (tcb (switch_to 2 two_tasks) 1)"
    "\<forall>a \<in> frame_words (esp (cpu two_tasks)). smem other_task a = smem (switch_to 2 two_tasks) a"
    "frame_words (esp (cpu other_task)) \<inter> frame_words (esp (cpu two_tasks)) = {}"
    "esp (cpu two_tasks) = 0x8FF00"
    by (simp_all add: other_task_def two_tasks_def boot_sched_def frame_words_def)
  with context_switch_roundtrip [of "switch_to 2 two_tasks" 2 two_tasks 1 other_task] show ?thesis by simp
qed

text \<open>
  A spawned task is the next to run. Its first switch lands in \<open>task_bootstrap\<close> with interrupts
  enabled, an empty stack of its own and that stack in the TSS, if the task that spawned it does
  not itself run on the new stack.
\<close>

theorem task_spawn_first_run:
  assumes "sched_inv s ts" and "task_spawn boot entry arg name s = Some (t, s1)" and "t \<noteq> 0"
    and "stack = t_stack (tcb s1 t)" and "stack \<noteq> 0"
    and "frame_words (esp (cpu s)) \<inter> frame_words (stack + STACK_SIZE) = {}"
  shows "\<exists>s2. sched_tick s1 = Some s2 \<and> current s2 = t \<and> t_entry (tcb s2 t) = entry \<and> t_arg (tcb s2 t) = arg \<and>
    tss_esp0 s2 = stack + STACK_SIZE \<and>
    cpu s2 = \<lparr>esp = stack + STACK_SIZE, ebp = 0, ebx = 0, esi = 0, edi = 0, eflags = 0x202, eip = boot\<rparr>"
proof -
  obtain c xs where ts: "ts = c # xs" using sched_inv_cur [OF assms(1)] by blast
  note inv = assms(1) [unfolded ts]
  have cur: "current s = c" "live (s_heap s) c \<noteq> None"
    using sched_inv_pick(2) [OF inv] sched_inv_task [OF inv, of c] by (auto simp: task_mem_def)
  have inv1: "sched_inv s1 (c # t # xs)" using task_spawn_inv [OF inv assms(2,3)] assms(4,5) by simp
  from sched_inv_heap [OF inv] assms(2,3) obtain st h k l where
      s1: "s1 = spawn_task boot entry arg name t st (s\<lparr>s_heap := h\<rparr>)" and tc: "t \<noteq> current s"
    by (rule task_spawnE) (use assms(4,5) cur in auto)
  note sim = spawn_task_simps [of t "s\<lparr>s_heap := h\<rparr>" boot entry arg name st, folded s1, simplified, OF tc]
  have st: "st = stack" using assms(4) tc by (simp add: sim)
  define s2 where "s2 = switch_to t s1"
  have "sched_tick s1 = Some s2"
    using sched_inv_pick [OF inv1] tc cur by (simp add: sched_tick_def s2_def)
  moreover have esp: "t_esp (tcb s1 t) = stack + STACK_SIZE - 24" using tc by (simp add: sim st)
  moreover have "resumed (stack + STACK_SIZE - 24) (saved (current s1) (stack + STACK_SIZE - 24) (cpu s1) (smem s1)) =
      \<lparr>esp = stack + STACK_SIZE, ebp = 0, ebx = 0, esi = 0, edi = 0, eflags = 0x202, eip = boot\<rparr>"
  proof -
    have w: "saved (current s1) (stack + STACK_SIZE - 24) (cpu s1) (smem s1) a = craft_stack boot (stack + STACK_SIZE) (smem s) a"
      if "a \<in> frame_words (stack + STACK_SIZE)" for a
    proof -
      have "a \<notin> frame_words (esp (cpu s1))" using that assms(6) by (auto simp: sim)
      then show ?thesis by (simp add: saved_outside) (simp add: sim st)
    qed
    show ?thesis
      unfolding resumed_def by (simp add: w frame_words_def) (simp add: craft_stack_def)
  qed
  ultimately show ?thesis
    using tc by (intro exI [of _ s2]) (auto simp: s2_def sim st)
qed

theorem task_spawn_first_run_witness:
  "\<exists>s s1 s2. sched_inv s [0xC0000010] \<and> task_spawn 0x11000 0x12000 7 ''worker'' s = Some (0xC0000048, s1) \<and>
     sched_tick s1 = Some s2 \<and> eip (cpu s2) = 0x11000 \<and> esp (cpu s2) = 0xC0002080"
proof -
  obtain s s1 where s: "sched_inv s [0xC0000010]" "esp (cpu s) = 0x8FF00"
      "task_spawn 0x11000 0x12000 7 ''worker'' s = Some (0xC0000048, s1)" "t_stack (tcb s1 0xC0000048) = 0xC0000080"
    using boot_sched_spawn by blast
  have "frame_words (esp (cpu s)) \<inter> frame_words (0xC0000080 + STACK_SIZE) = {}"
    by (simp add: s frame_words_def STACK_SIZE_def)
  with task_spawn_first_run [OF s(1) s(3) _ s(4) [symmetric]] s show ?thesis by (auto simp: STACK_SIZE_def)
qed

text \<open>
  \<open>task_exit\<close> of a task that is not the last one ends: the task is marked dead and out of the
  ring, and the processor continues with the registers the next task had saved, on the next task's
  kernel stack.
\<close>

theorem task_exit_removes:
  assumes "sched_inv s (c # x # xs)"
  shows "\<exists>s'. task_exit s = Some s' \<and> sched_inv s' (x # xs) \<and> current s' = x \<and> t_state (tcb s' c) = 1 \<and>
    ntasks s' = ntasks s - 1 \<and> cpu s' = resumed (t_esp (tcb s x)) (smem s') \<and> tss_esp0 s' = kstack_top (tcb s' x)"
proof -
  obtain s' where s': "task_exit s = Some s'" "sched_inv s' (x # xs)" "t_state (tcb s' c) = 1"
      "cpu s' = resumed (t_esp (tcb s x)) (smem s')"
    using task_exit_inv [OF assms] by blast
  have "ntasks s = word_of_nat (length (c # x # xs))" using assms by (simp only: sched_inv_def)
  moreover have "ntasks s' = word_of_nat (length (x # xs))" "tss_esp0 s' = kstack_top (tcb s' (current s'))"
    using s'(2) by (simp_all only: sched_inv_def)
  ultimately show ?thesis using s' sched_inv_pick(2) [OF s'(2)] by simp
qed

theorem task_exit_removes_witness:
  "\<exists>s s'. sched_inv s [0xC0000010, 0xC0000048] \<and> task_exit s = Some s' \<and> sched_inv s' [0xC0000048]"
proof -
  obtain s where s: "sched_inv s [0xC0000010, 0xC0000048]" using boot_sched_spawn by blast
  from task_exit_removes [OF s] s show ?thesis by blast
qed

text \<open>
  The last task must not exit: \<open>task_exit\<close> then leaves an empty count, with the dead task still
  current, and resumes it from the stack pointer it had when it was last switched out.
\<close>

lemma task_exit_last:
  assumes "sched_inv s [c]"
  shows "\<exists>s'. task_exit s = Some s' \<and> current s' = c \<and> t_state (tcb s' c) = 1 \<and> ntasks s' = 0 \<and>
    esp (cpu s') = t_esp (tcb s c) + 24"
proof -
  have c: "current s = c" "t_next (tcb s c) = c" "ntasks s = 1"
    using sched_inv_ring [OF assms] assms by (simp_all add: ring_def) (simp only: sched_inv_def, simp)
  then show ?thesis
    by (simp add: task_exit_def irq_save_def unlink_loop.simps tss_set_esp0_def Let_def resumed_def)
qed

end
