(* ===== verification/Console.thy ===== *)
theory Console
  imports Prelude
begin

text \<open>
  Port input and output (\<open>cpu/io.h\<close>) and the text console of \<open>drivers/console.c\<close>: the 80 by 25 VGA
  text buffer with its hardware cursor, and the serial port that mirrors it. Reads of ports return
  what the environment of the state supplies for that read; writes are kept in a log. The wait for
  the serial transmitter is a partial function: it never returns if the transmitter never empties.
\<close>

section \<open>Ports\<close>

text \<open>\<open>inputs n p\<close> is the value that the \<open>n\<close>-th read of the run finds at port \<open>p\<close>.\<close>

record io =
  inputs :: "nat \<Rightarrow> u16 \<Rightarrow> u8"
  reads :: nat
  outs :: "(u16 \<times> u8) list"

definition inb :: "u16 \<Rightarrow> 'a io_scheme \<Rightarrow> u8 \<times> 'a io_scheme" where
  "inb port s = (inputs s (reads s) port, s\<lparr>reads := Suc (reads s)\<rparr>)"

definition outb :: "u16 \<Rightarrow> u8 \<Rightarrow> 'a io_scheme \<Rightarrow> 'a io_scheme" where
  "outb port v s = s\<lparr>outs := outs s @ [(port, v)]\<rparr>"

section \<open>Console state and operations\<close>

record console = io +
  vga :: "u16 list"
  cur_row :: nat
  cur_col :: nat
  cur_attr :: u8

abbreviation VGA_COLS :: nat where "VGA_COLS \<equiv> 80"
abbreviation VGA_ROWS :: nat where "VGA_ROWS \<equiv> 25"

definition vga_cell :: "char \<Rightarrow> u8 \<Rightarrow> u16" where
  "vga_cell c attr = of_char c OR push_bit 8 (ucast attr)"

definition console_set_color :: "u8 \<Rightarrow> u8 \<Rightarrow> console \<Rightarrow> console" where
  "console_set_color fg bg s = s\<lparr>cur_attr := fg OR push_bit 4 bg\<rparr>"

definition vga_move_cursor :: "console \<Rightarrow> console" where
  "vga_move_cursor s =
     (let pos = word_of_nat (cur_row s * VGA_COLS + cur_col s) :: u16
      in outb 0x3D5 (ucast (drop_bit 8 pos)) (outb 0x3D4 0x0E
           (outb 0x3D5 (ucast (pos AND 0xFF)) (outb 0x3D4 0x0F s))))"

definition console_clear :: "console \<Rightarrow> console" where
  "console_clear s =
     (let blank = vga_cell CHR '' '' (cur_attr s);
          m = fold (\<lambda>i m. m[i := blank]) [0..<VGA_COLS * VGA_ROWS] (vga s)
      in vga_move_cursor (s\<lparr>vga := m, cur_row := 0, cur_col := 0\<rparr>))"

definition scroll_row :: "nat \<Rightarrow> u16 list \<Rightarrow> u16 list" where
  "scroll_row r m = fold (\<lambda>c m. m[(r - 1) * VGA_COLS + c := m ! (r * VGA_COLS + c)]) [0..<VGA_COLS] m"

definition fill_row :: "nat \<Rightarrow> u16 \<Rightarrow> u16 list \<Rightarrow> u16 list" where
  "fill_row r v m = fold (\<lambda>c m. m[r * VGA_COLS + c := v]) [0..<VGA_COLS] m"

definition vga_scroll :: "console \<Rightarrow> console" where
  "vga_scroll s =
     s\<lparr>vga := fill_row (VGA_ROWS - 1) (vga_cell CHR '' '' (cur_attr s)) (fold scroll_row [1..<VGA_ROWS] (vga s)),
       cur_row := VGA_ROWS - 1\<rparr>"

definition put_cell :: "char \<Rightarrow> console \<Rightarrow> console" where
  "put_cell c s = s\<lparr>vga := (vga s)[cur_row s * VGA_COLS + cur_col s := vga_cell c (cur_attr s)]\<rparr>"

definition vga_putc :: "char \<Rightarrow> console \<Rightarrow> console" where
  "vga_putc c s =
     (let s1 =
        (if c = CHR 0x0A then s\<lparr>cur_col := 0, cur_row := cur_row s + 1\<rparr>
         else if c = CHR 0x0D then s\<lparr>cur_col := 0\<rparr>
         else if c = CHR 0x09 then s\<lparr>cur_col := (cur_col s + 4) div 4 * 4\<rparr>
         else if c = CHR 0x08 then
           (if cur_col s > 0 then put_cell CHR '' '' (s\<lparr>cur_col := cur_col s - 1\<rparr>) else s)
         else (put_cell c s)\<lparr>cur_col := cur_col s + 1\<rparr>);
          s2 = (if cur_col s1 \<ge> VGA_COLS then s1\<lparr>cur_col := 0, cur_row := cur_row s1 + 1\<rparr> else s1)
      in if cur_row s2 \<ge> VGA_ROWS then vga_scroll s2 else s2)"

definition COM1 :: u16 where "COM1 = 0x3F8"

definition serial_init :: "console \<Rightarrow> console" where
  "serial_init s = fold (\<lambda>(p, v). outb (COM1 + p) v)
     [(1, 0x00), (3, 0x80), (0, 0x03), (1, 0x00), (3, 0x03), (2, 0xC7), (4, 0x0B)] s"

partial_function (option) serial_wait :: "console \<Rightarrow> console option" where
  "serial_wait s = (if fst (inb (COM1 + 5) s) AND 0x20 = 0 then serial_wait (snd (inb (COM1 + 5) s))
     else Some (snd (inb (COM1 + 5) s)))"

definition serial_putc :: "char \<Rightarrow> console \<Rightarrow> console option" where
  "serial_putc c s = map_option (outb COM1 (of_char c)) (serial_wait s)"

definition console_init :: "console \<Rightarrow> console" where
  "console_init s = console_clear (console_set_color 7 0 (serial_init s))"

definition console_putc :: "char \<Rightarrow> console \<Rightarrow> console option" where
  "console_putc c s =
     Option.bind (if c = CHR 0x0A then serial_putc (CHR 0x0D) s else Some s) (\<lambda>s.
     Option.bind
       (if c = CHR 0x08
        then Option.bind (serial_putc (CHR 0x08) s) (\<lambda>s.
             Option.bind (serial_putc CHR '' '' s) (\<lambda>s. serial_putc (CHR 0x08) s))
        else serial_putc c s) (\<lambda>s.
     Some (vga_move_cursor (vga_putc c s))))"

fun console_write :: "string \<Rightarrow> console \<Rightarrow> console option" where
  "console_write [] s = Some s"
| "console_write (c # cs) s = Option.bind (console_putc c s) (console_write cs)"

text \<open>The digits of a number, least significant first, as \<open>console_write_dec\<close> fills its buffer.\<close>

function dec_buf :: "u32 \<Rightarrow> string" where
  "dec_buf value = (if value = 0 then [] else char_of (48 + unat (value mod 10)) # dec_buf (value div 10))"
  by auto
termination
  by (relation "measure unat") (auto simp: unat_div unat_gt_0 intro!: div_less_dividend)

declare dec_buf.simps [simp del]

definition console_write_dec :: "u32 \<Rightarrow> console \<Rightarrow> console option" where
  "console_write_dec value s =
     (if value = 0 then console_putc CHR ''0'' s else console_write (rev (dec_buf value)) s)"

definition hex_digit :: "u32 \<Rightarrow> char" where
  "hex_digit d = ''0123456789ABCDEF'' ! unat d"

definition console_write_hex :: "u32 \<Rightarrow> console \<Rightarrow> console option" where
  "console_write_hex value s =
     console_write (''0x'' @ map (\<lambda>sh. hex_digit (drop_bit sh value AND 0xF)) [28, 24, 20, 16, 12, 8, 4, 0]) s"

section \<open>The screen\<close>

definition con_inv :: "console \<Rightarrow> bool" where
  "con_inv s \<longleftrightarrow> length (vga s) = VGA_COLS * VGA_ROWS \<and> cur_row s < VGA_ROWS \<and> cur_col s < VGA_COLS"

lemma length_fold_update [simp]:
  "length (fold (\<lambda>i m. m[f i := g i m]) xs m) = length m"
  by (induction xs arbitrary: m) auto

lemma copy_row:
  assumes "a + n \<le> b" and "b + n \<le> length m" and "i < length m"
  shows "fold (\<lambda>c m. m[a + c := m ! (b + c)]) [0..<n] m ! i =
    (if a \<le> i \<and> i < a + n then m ! (b + (i - a)) else m ! i)"
  using assms
proof (induction n arbitrary: i)
  case (Suc n)
  let ?m = "fold (\<lambda>c m. m[a + c := m ! (b + c)]) [0..<n] m"
  have "?m ! (b + n) = m ! (b + n)" using Suc.prems Suc.IH [of "b + n"] by simp
  then show ?case using Suc.prems Suc.IH [of i] by (auto simp: nth_list_update)
qed auto

lemma length_rows [simp]:
  "length (scroll_row r m) = length m" "length (fill_row r v m) = length m"
  "length (fold scroll_row rs m) = length m"
proof -
  show l: "length (scroll_row r m) = length m" for r m by (simp add: scroll_row_def)
  show "length (fold scroll_row rs m) = length m" by (induction rs arbitrary: m) (auto simp: l)
qed (simp add: fill_row_def)

lemma nth_scroll_row:
  assumes "(r + 2) * 80 \<le> length m" and "i < length m"
  shows "scroll_row (Suc r) m ! i = (if r * 80 \<le> i \<and> i < r * 80 + 80 then m ! (i + 80) else m ! i)"
  using copy_row [of "r * 80" 80 "Suc r * 80" m i] assms by (simp add: scroll_row_def) (simp add: add.commute)

lemma nth_fill_row:
  assumes "i < length m"
  shows "fill_row r v m ! i = (if r * 80 \<le> i \<and> i < r * 80 + 80 then v else m ! i)"
proof -
  have "fold (\<lambda>c m. m[a + c := v]) [0..<n] m ! i = (if a \<le> i \<and> i < a + n then v else m ! i)" for a n
    using assms by (induction n) (auto simp: nth_list_update not_less less_Suc_eq)
  then show ?thesis by (simp add: fill_row_def)
qed

lemma nth_scroll_rows:
  assumes "80 * Suc k \<le> length m" and "i < length m"
  shows "fold scroll_row [1..<Suc k] m ! i = (if i < 80 * k then m ! (i + 80) else m ! i)"
  using assms
proof (induction k arbitrary: i)
  case (Suc k)
  define m1 where "m1 = fold scroll_row [1..<Suc k] m"
  have nth: "m1 ! j = (if j < 80 * k then m ! (j + 80) else m ! j)" if "j < length m" for j
    using that Suc.prems Suc.IH [of j] by (simp add: m1_def)
  have "fold scroll_row [1..<Suc (Suc k)] m = scroll_row (Suc k) m1"
    by (simp add: m1_def)
  moreover have "scroll_row (Suc k) m1 ! i = (if k * 80 \<le> i \<and> i < k * 80 + 80 then m1 ! (i + 80) else m1 ! i)"
    using nth_scroll_row [of k m1 i] Suc.prems by (simp add: m1_def)
  ultimately show ?case using nth [of i] nth [of "i + 80"] Suc.prems by auto
qed simp

lemma vga_scroll_rows:
  assumes "length (vga s) = 2000"
  shows "vga (vga_scroll s) = drop 80 (vga s) @ replicate 80 (vga_cell CHR '' '' (cur_attr s))"
proof (rule nth_equalityI)
  show "length (vga (vga_scroll s)) = length (drop 80 (vga s) @ replicate 80 (vga_cell CHR '' '' (cur_attr s)))"
    using assms by (simp add: vga_scroll_def del: upt_Suc)
  fix i assume "i < length (vga (vga_scroll s))"
  then have i: "i < 2000" using assms by (simp add: vga_scroll_def del: upt_Suc)
  have "fold scroll_row [1..<25] (vga s) ! i = (if i < 1920 then vga s ! (i + 80) else vga s ! i)"
    using nth_scroll_rows [of 24 "vga s" i] assms i by (simp del: upt_Suc)
  then show "vga (vga_scroll s) ! i = (drop 80 (vga s) @ replicate 80 (vga_cell CHR '' '' (cur_attr s))) ! i"
    using nth_fill_row [of i "fold scroll_row [1..<25] (vga s)" 24] assms i
    by (auto simp: vga_scroll_def nth_append add.commute simp del: upt_Suc)
qed

lemma length_vga_scroll [simp]: "length (vga s) = 2000 \<Longrightarrow> length (vga (vga_scroll s)) = 2000"
  by (simp add: vga_scroll_rows)

lemma vga_scroll_simps [simp]:
  "cur_row (vga_scroll s) = 24" "cur_col (vga_scroll s) = cur_col s" "cur_attr (vga_scroll s) = cur_attr s"
  "inputs (vga_scroll s) = inputs s" "reads (vga_scroll s) = reads s" "outs (vga_scroll s) = outs s"
  by (simp_all add: vga_scroll_def Let_def)

lemma put_cell_simps [simp]:
  "cur_row (put_cell c s) = cur_row s" "cur_col (put_cell c s) = cur_col s"
  "cur_attr (put_cell c s) = cur_attr s" "length (vga (put_cell c s)) = length (vga s)"
  "inputs (put_cell c s) = inputs s" "reads (put_cell c s) = reads s" "outs (put_cell c s) = outs s"
  by (simp_all add: put_cell_def)

lemma vga_putc_inv: "con_inv s \<Longrightarrow> con_inv (vga_putc c s)"
  unfolding con_inv_def vga_putc_def Let_def by auto

lemma vga_putc_io [simp]:
  "inputs (vga_putc c s) = inputs s" "reads (vga_putc c s) = reads s" "outs (vga_putc c s) = outs s"
  by (simp_all add: vga_putc_def Let_def)

section \<open>The serial line\<close>

text \<open>The transmitter becomes ready again and again.\<close>

definition uart_live :: "console \<Rightarrow> bool" where
  "uart_live s \<longleftrightarrow> (\<forall>n. \<exists>k \<ge> n. inputs s k (COM1 + 5) AND 0x20 \<noteq> 0)"

definition sent :: "console \<Rightarrow> u8 list" where
  "sent s = map snd (filter (\<lambda>(p, v). p = COM1) (outs s))"

lemma serial_wait_ready:
  assumes "inputs s (reads s + d) (COM1 + 5) AND 0x20 \<noteq> 0"
  shows "\<exists>k. serial_wait s = Some (s\<lparr>reads := k\<rparr>)"
  using assms
proof (induction d arbitrary: s)
  case 0
  then have "serial_wait s = Some (s\<lparr>reads := Suc (reads s)\<rparr>)"
    by (subst serial_wait.simps) (simp add: inb_def)
  then show ?case by blast
next
  case (Suc d)
  show ?case
  proof (cases "inputs s (reads s) (COM1 + 5) AND 0x20 = 0")
    case True
    then have "serial_wait s = serial_wait (s\<lparr>reads := Suc (reads s)\<rparr>)"
      by (subst serial_wait.simps) (simp add: inb_def)
    with Suc.IH [of "s\<lparr>reads := Suc (reads s)\<rparr>"] Suc.prems show ?thesis by auto
  next
    case False
    then have "serial_wait s = Some (s\<lparr>reads := Suc (reads s)\<rparr>)"
      by (subst serial_wait.simps) (simp add: inb_def)
    then show ?thesis by blast
  qed
qed

lemma serial_putc_ok:
  assumes "uart_live s"
  shows "\<exists>k. serial_putc c s = Some (s\<lparr>reads := k, outs := outs s @ [(COM1, of_char c)]\<rparr>)"
proof -
  obtain k where "reads s \<le> k" "inputs s k (COM1 + 5) AND 0x20 \<noteq> 0"
    using assms unfolding uart_live_def by blast
  with serial_wait_ready [of s "k - reads s"] show ?thesis by (auto simp: serial_putc_def outb_def)
qed

definition serial_form :: "char \<Rightarrow> u8 list" where
  "serial_form c = (if c = CHR 0x0A then [13, 10] else if c = CHR 0x08 then [8, 32, 8] else [of_char c])"

text \<open>What \<open>console_putc\<close> does, apart from how often the line status was read.\<close>

lemma console_putc_ok:
  assumes "uart_live s"
  shows "\<exists>k. console_putc c s = Some (vga_move_cursor (vga_putc c
    (s\<lparr>reads := k, outs := outs s @ map (Pair COM1) (serial_form c)\<rparr>)))"
proof -
  have lv: "uart_live (s\<lparr>reads := k, outs := xs\<rparr>)" for k xs using assms by (simp add: uart_live_def)
  have step: "\<exists>k. serial_putc d (s\<lparr>reads := j, outs := xs\<rparr>) = Some (s\<lparr>reads := k, outs := xs @ [(COM1, of_char d)]\<rparr>)"
    for d j xs using serial_putc_ok [OF lv [of xs j], of d] by simp
  show ?thesis
  proof (cases "c = CHR 0x08")
    case True
    obtain k1 where 1: "serial_putc (CHR 0x08) s = Some (s\<lparr>reads := k1, outs := outs s @ [(COM1, 8)]\<rparr>)"
      using serial_putc_ok [OF assms, of "CHR 0x08"] by auto
    obtain k2 where 2: "serial_putc CHR '' '' (s\<lparr>reads := k1, outs := outs s @ [(COM1, 8)]\<rparr>) =
        Some (s\<lparr>reads := k2, outs := outs s @ [(COM1, 8), (COM1, 32)]\<rparr>)"
      using step [where d = "CHR '' ''" and j = k1 and xs = "outs s @ [(COM1, 8)]"] by auto
    obtain k3 where 3: "serial_putc (CHR 0x08) (s\<lparr>reads := k2, outs := outs s @ [(COM1, 8), (COM1, 32)]\<rparr>) =
        Some (s\<lparr>reads := k3, outs := outs s @ [(COM1, 8), (COM1, 32), (COM1, 8)]\<rparr>)"
      using step [where d = "CHR 0x08" and j = k2 and xs = "outs s @ [(COM1, 8), (COM1, 32)]"] by auto
    show ?thesis using True 1 2 3 by (auto simp: console_putc_def serial_form_def)
  next
    case False
    show ?thesis
    proof (cases "c = CHR 0x0A")
      case True
      obtain k1 where 1: "serial_putc (CHR 0x0D) s = Some (s\<lparr>reads := k1, outs := outs s @ [(COM1, 13)]\<rparr>)"
        using serial_putc_ok [OF assms, of "CHR 0x0D"] by auto
      obtain k2 where 2: "serial_putc (CHR 0x0A) (s\<lparr>reads := k1, outs := outs s @ [(COM1, 13)]\<rparr>) =
          Some (s\<lparr>reads := k2, outs := outs s @ [(COM1, 13), (COM1, 10)]\<rparr>)"
        using step [where d = "CHR 0x0A" and j = k1 and xs = "outs s @ [(COM1, 13)]"] by auto
      show ?thesis using True 1 2 by (auto simp: console_putc_def serial_form_def)
    next
      case nl: False
      obtain k1 where "serial_putc c s = Some (s\<lparr>reads := k1, outs := outs s @ [(COM1, of_char c)]\<rparr>)"
        using serial_putc_ok [OF assms, of c] by auto
      then show ?thesis using False nl by (auto simp: console_putc_def serial_form_def)
    qed
  qed
qed

lemma vga_move_cursor_simps [simp]:
  "vga (vga_move_cursor s) = vga s" "cur_row (vga_move_cursor s) = cur_row s"
  "cur_col (vga_move_cursor s) = cur_col s" "cur_attr (vga_move_cursor s) = cur_attr s"
  "inputs (vga_move_cursor s) = inputs s" "sent (vga_move_cursor s) = sent s"
  by (simp_all add: vga_move_cursor_def outb_def sent_def COM1_def Let_def)

lemma vga_putc_sent [simp]: "sent (vga_putc c s) = sent s"
  by (simp add: sent_def)

text \<open>The screen part of the state alone: \<open>vga_putc\<close> does not look at the ports.\<close>

definition screen :: "console \<Rightarrow> u16 list \<times> nat \<times> nat" where
  "screen s = (vga s, cur_row s, cur_col s)"

lemma vga_putc_screen:
  "screen s = screen t \<Longrightarrow> cur_attr s = cur_attr t \<Longrightarrow>
   screen (vga_putc c s) = screen (vga_putc c t) \<and> cur_attr (vga_putc c s) = cur_attr (vga_putc c t)"
  unfolding screen_def vga_putc_def vga_scroll_def put_cell_def Let_def by simp

lemma cur_attr_putc [simp]: "cur_attr (vga_putc c s) = cur_attr s"
  by (simp add: vga_putc_def Let_def)

lemma fold_vga_putc_screen:
  "screen a = screen b \<Longrightarrow> cur_attr a = cur_attr b \<Longrightarrow> screen (fold vga_putc xs a) = screen (fold vga_putc xs b)"
proof (induction xs arbitrary: a b)
  case (Cons x xs)
  from Cons.IH [of "vga_putc x a" "vga_putc x b"] vga_putc_screen [OF Cons.prems, of x] show ?case by simp
qed simp

lemma sent_append: "outs s' = outs s @ map (Pair COM1) xs \<Longrightarrow> sent s' = sent s @ xs"
  by (simp add: sent_def filter_map comp_def)

lemma console_write_ok:
  assumes "uart_live s" and "con_inv s"
  shows "\<exists>s'. console_write cs s = Some s' \<and> con_inv s' \<and> uart_live s' \<and>
    sent s' = sent s @ concat (map serial_form cs) \<and>
    screen s' = screen (fold vga_putc cs s) \<and> cur_attr s' = cur_attr s"
  using assms
proof (induction cs arbitrary: s)
  case (Cons c cs)
  obtain k where k: "console_putc c s = Some (vga_move_cursor (vga_putc c
      (s\<lparr>reads := k, outs := outs s @ map (Pair COM1) (serial_form c)\<rparr>)))"
    using console_putc_ok [OF Cons.prems(1)] by blast
  define s0 where "s0 = s\<lparr>reads := k, outs := outs s @ map (Pair COM1) (serial_form c)\<rparr>"
  define s1 where "s1 = vga_move_cursor (vga_putc c s0)"
  have i0: "con_inv s0" "screen s0 = screen s" "cur_attr s0 = cur_attr s"
    using Cons.prems by (simp_all add: con_inv_def screen_def s0_def)
  have "con_inv s1" using vga_putc_inv [OF i0(1), of c] by (simp add: con_inv_def s1_def)
  moreover have "uart_live s1" using Cons.prems(1) by (simp add: uart_live_def s1_def s0_def)
  moreover have snt: "sent s1 = sent s @ serial_form c"
    by (simp add: s1_def) (rule sent_append, simp add: s0_def)
  moreover have sc: "screen s1 = screen (vga_putc c s)" "cur_attr s1 = cur_attr s"
    using vga_putc_screen [OF i0(2,3), of c] i0(3) by (simp_all add: s1_def screen_def)
  ultimately obtain s' where s': "console_write cs s1 = Some s'" "con_inv s'" "uart_live s'"
      "sent s' = sent s1 @ concat (map serial_form cs)" "screen s' = screen (fold vga_putc cs s1)"
      "cur_attr s' = cur_attr s1" using Cons.IH [of s1] by blast
  have "screen (fold vga_putc cs s1) = screen (fold vga_putc (c # cs) s)"
    using fold_vga_putc_screen [of s1 "vga_putc c s" cs] sc by simp
  moreover have "console_write (c # cs) s = Some s'" using k s'(1) by (simp add: s1_def s0_def)
  ultimately show ?case using s' sc(2) snt by (intro exI [of _ s']) simp
qed simp

section \<open>Numbers\<close>

definition digit_value :: "char \<Rightarrow> nat" where
  "digit_value c = of_char c - 48"

lemma digit_value_char [simp]: "d < 10 \<Longrightarrow> digit_value (char_of (48 + d)) = d"
  by (simp add: digit_value_def)

lemma dec_buf_value: "(\<Sum>i < length (dec_buf v). digit_value (dec_buf v ! i) * 10 ^ i) = unat v"
proof (induction v rule: dec_buf.induct)
  case (1 v)
  show ?case
  proof (cases "v = 0")
    case True
    then show ?thesis by (simp add: dec_buf.simps)
  next
    case False
    define w where "w = v div 10"
    have buf: "dec_buf v = char_of (48 + unat (v mod 10)) # dec_buf w"
      using False by (subst dec_buf.simps) (simp add: w_def)
    have ih: "(\<Sum>i < length (dec_buf w). digit_value (dec_buf w ! i) * 10 ^ i) = unat w"
      using 1 [OF False] by (simp add: w_def)
    have "unat (v mod 10) < 10" by (simp add: unat_mod)
    then have "(\<Sum>i < length (dec_buf v). digit_value (dec_buf v ! i) * 10 ^ i) = unat (v mod 10) + 10 * unat w"
      by (simp add: buf sum.lessThan_Suc_shift del: sum.lessThan_Suc)
        (simp add: ih [symmetric] sum_distrib_left algebra_simps)
    also have "\<dots> = unat v" by (simp add: w_def unat_mod unat_div)
    finally show ?thesis .
  qed
qed

lemma dec_buf_length: "unat v < 10 ^ n \<Longrightarrow> length (dec_buf v) \<le> n"
proof (induction n arbitrary: v)
  case 0
  then have "v = 0" by (simp add: unat_eq_0)
  then show ?case by (simp add: dec_buf.simps)
next
  case (Suc n)
  have "unat (v div 10) < 10 ^ n" using Suc.prems by (simp add: unat_div div_less_iff_less_mult mult.commute)
  from Suc.IH [OF this] show ?case by (subst dec_buf.simps) auto
qed

lemma dec_buf_last: "v \<noteq> 0 \<Longrightarrow> dec_buf v \<noteq> [] \<and> digit_value (last (dec_buf v)) \<noteq> 0"
proof (induction v rule: dec_buf.induct)
  case (1 v)
  have buf: "dec_buf v = char_of (48 + unat (v mod 10)) # dec_buf (v div 10)"
    using 1(2) by (subst dec_buf.simps) simp
  show ?case
  proof (cases "v div 10 = 0")
    case True
    then have "unat (v div 10) = 0" by simp
    then have "unat v div 10 = 0" by (simp add: unat_div)
    then have "unat (v mod 10) = unat v" "unat v < 10" by (simp_all add: unat_mod div_eq_0_iff)
    moreover have "unat v \<noteq> 0" using 1(2) by (simp add: unat_eq_0)
    ultimately show ?thesis using True by (simp add: buf dec_buf.simps [of 0])
  next
    case False
    then show ?thesis using 1(1) [OF 1(2) False] by (simp add: buf)
  qed
qed

section \<open>Properties\<close>

text \<open>
  If the serial transmitter keeps becoming ready, \<open>console_write\<close> returns for every text: the
  cursor stays on the screen, the serial line gets the text with each newline sent as CR LF and each
  backspace as an erase sequence, and the screen is what writing the characters one by one gives.
\<close>

theorem console_write_mirrors:
  assumes "uart_live s" and "con_inv s"
  shows "\<exists>s'. console_write cs s = Some s' \<and> con_inv s' \<and>
    sent s' = sent s @ concat (map serial_form cs) \<and> screen s' = screen (fold vga_putc cs s)"
  using console_write_ok [OF assms] by blast

definition blank_console :: console where
  "blank_console = \<lparr>inputs = (\<lambda>n p. if even n then 0x60 else 0), reads = 1, outs = [],
     vga = replicate 2000 0x0720, cur_row = 24, cur_col = 0, cur_attr = 7\<rparr>"

lemma blank_console_ready: "uart_live blank_console" "con_inv blank_console"
proof -
  have "\<exists>k \<ge> n. even k" for n :: nat by (rule exI [of _ "2 * n"]) simp
  then show "uart_live blank_console" by (auto simp: uart_live_def blank_console_def)
qed (simp add: con_inv_def blank_console_def)

theorem console_write_mirrors_witness:
  "\<exists>s'. console_write [CHR ''O'', CHR ''K'', CHR 0x0A] blank_console = Some s' \<and> sent s' = [79, 75, 13, 10]"
  using console_write_mirrors [OF blank_console_ready, of "[CHR ''O'', CHR ''K'', CHR 0x0A]"]
  by (auto simp: sent_def blank_console_def serial_form_def)

text \<open>
  A newline on the last row scrolls: every row moves up by one, the last row is blank in the
  current colour, and the cursor is at its start. On any other row nothing moves but the cursor.
\<close>

theorem vga_newline:
  assumes "con_inv s"
  shows "screen (vga_putc (CHR 0x0A) s) =
    (if cur_row s = 24
     then (drop 80 (vga s) @ replicate 80 (vga_cell CHR '' '' (cur_attr s)), 24, 0)
     else (vga s, cur_row s + 1, 0))"
  using assms vga_scroll_rows [of "s\<lparr>cur_col := 0, cur_row := 25\<rparr>"]
  by (auto simp: con_inv_def vga_putc_def screen_def)

theorem vga_newline_witness:
  "con_inv blank_console \<and> screen (vga_putc (CHR 0x0A) blank_console) = (replicate 2000 0x0720, 24, 0)"
  using vga_newline [of blank_console] blank_console_ready(2)
  by (simp add: blank_console_def vga_cell_def flip: replicate_add)

text \<open>
  C14. The buffer of \<open>console_write_dec\<close> is the decimal representation, least digit first: its value is the
  number, it has at most ten digits, so that it fits the eleven bytes of the buffer, and no leading zero.
\<close>

theorem dec_buf_correct:
  "(\<Sum>i < length (dec_buf v). digit_value (dec_buf v ! i) * 10 ^ i) = unat v \<and> length (dec_buf v) \<le> 10 \<and>
   (dec_buf v \<noteq> [] \<and> digit_value (last (dec_buf v)) \<noteq> 0) = (v \<noteq> 0)"
proof -
  have "unat v < 10 ^ 10" using unat_less_pow [of v] by simp
  moreover have "dec_buf 0 = []" by (simp add: dec_buf.simps)
  ultimately show ?thesis
    using dec_buf_value [of v] dec_buf_length [of v 10] dec_buf_last [of v] by (cases "v = 0") simp_all
qed

end
