(* ===== verification/Cpu.thy ===== *)
theory Cpu
  imports Console
begin

text \<open>
  The descriptor tables of \<open>cpu/gdt.c\<close> and \<open>cpu/idt.c\<close>, the interrupt controller of \<open>cpu/pic.c\<close> and the
  timer of \<open>drivers/timer.c\<close>. Descriptors are records with the fields of the packed structures; what
  the processor reads from them is defined beside them. The addresses of the stubs of \<open>cpu/isr.asm\<close>
  and of the tables are fixed by the linker and are parameters.
\<close>

section \<open>Segment descriptors\<close>

record gdt_entry =
  limit_low :: u16
  base_low :: u16
  base_mid :: u8
  access :: u8
  gran :: u8
  base_high :: u8

record tss_entry =
  prev_tss :: u32
  esp0 :: u32
  ss0 :: u32
  esp1 :: u32
  ss1 :: u32
  esp2 :: u32
  ss2 :: u32
  tss_cr3 :: u32
  tss_regs :: "u32 list"
  tss_segs :: "u32 list"
  ldt :: u32
  trap :: u16
  iomap_base :: u16

record gdt_state =
  gdt :: "gdt_entry list"
  gdtp :: "u16 \<times> u32"
  tss :: tss_entry
  seg_regs :: "u16 list"
  task_reg :: u16

definition KERNEL_CODE_SEL :: u16 where "KERNEL_CODE_SEL = 0x08"
definition KERNEL_DATA_SEL :: u16 where "KERNEL_DATA_SEL = 0x10"
definition USER_CODE_SEL :: u16 where "USER_CODE_SEL = 0x18"
definition USER_DATA_SEL :: u16 where "USER_DATA_SEL = 0x20"
definition TSS_SEL :: u16 where "TSS_SEL = 0x28"

definition SIZEOF_TSS :: u32 where "SIZEOF_TSS = 104"

definition set_gdt :: "nat \<Rightarrow> u32 \<Rightarrow> u32 \<Rightarrow> u8 \<Rightarrow> u8 \<Rightarrow> gdt_state \<Rightarrow> gdt_state" where
  "set_gdt i base limit acc gr s = s\<lparr>gdt := (gdt s)[i := \<lparr>
     limit_low = ucast (limit AND 0xFFFF),
     base_low = ucast (base AND 0xFFFF),
     base_mid = ucast (drop_bit 16 base AND 0xFF),
     access = acc,
     gran = ucast (drop_bit 16 limit AND 0x0F) OR (gr AND 0xF0),
     base_high = ucast (drop_bit 24 base AND 0xFF)\<rparr>]\<rparr>"

definition zero_tss :: tss_entry where
  "zero_tss = \<lparr>prev_tss = 0, esp0 = 0, ss0 = 0, esp1 = 0, ss1 = 0, esp2 = 0, ss2 = 0, tss_cr3 = 0,
     tss_regs = replicate 10 0, tss_segs = replicate 6 0, ldt = 0, trap = 0, iomap_base = 0\<rparr>"

text \<open>\<open>gdt_addr\<close> and \<open>tss_addr\<close> are the addresses of the two tables. The segment registers are
  \<open>ds, es, fs, gs, ss, cs\<close>.\<close>

definition gdt_init :: "u32 \<Rightarrow> u32 \<Rightarrow> gdt_state \<Rightarrow> gdt_state" where
  "gdt_init gdt_addr tss_addr s =
     (let s = s\<lparr>gdtp := (8 * 8 - 1, gdt_addr)\<rparr>;
          s = set_gdt 0 0 0 0 0 s;
          s = set_gdt 1 0 0xFFFFF 0x9A 0xC0 s;
          s = set_gdt 2 0 0xFFFFF 0x92 0xC0 s;
          s = set_gdt 3 0 0xFFFFF 0xFA 0xC0 s;
          s = set_gdt 4 0 0xFFFFF 0xF2 0xC0 s;
          s = s\<lparr>tss := zero_tss\<lparr>ss0 := ucast KERNEL_DATA_SEL, esp0 := 0x90000, iomap_base := ucast SIZEOF_TSS\<rparr>\<rparr>;
          s = set_gdt 5 tss_addr (SIZEOF_TSS - 1) 0x89 0x00 s;
          s = set_gdt 6 0 0xFFFF 0x9A 0x00 s;
          s = set_gdt 7 0 0xFFFF 0x92 0x00 s
      in s\<lparr>seg_regs := [0x10, 0x10, 0x10, 0x10, 0x10, 0x08], task_reg := TSS_SEL\<rparr>)"

text \<open>How the processor reads a descriptor.\<close>

definition desc_base :: "gdt_entry \<Rightarrow> u32" where
  "desc_base d = ucast (base_low d) OR push_bit 16 (ucast (base_mid d)) OR push_bit 24 (ucast (base_high d))"

definition desc_limit :: "gdt_entry \<Rightarrow> u32" where
  "desc_limit d =
     (let l = ucast (limit_low d) OR push_bit 16 (ucast (gran d AND 0x0F))
      in if bit (gran d) 7 then push_bit 12 l OR 0xFFF else l)"

definition desc_dpl :: "gdt_entry \<Rightarrow> u8" where
  "desc_dpl d = drop_bit 5 (access d) AND 3"

definition desc_code :: "gdt_entry \<Rightarrow> bool" where
  "desc_code d \<longleftrightarrow> bit (access d) 7 \<and> bit (access d) 4 \<and> bit (access d) 3"

definition desc_data :: "gdt_entry \<Rightarrow> bool" where
  "desc_data d \<longleftrightarrow> bit (access d) 7 \<and> bit (access d) 4 \<and> \<not> bit (access d) 3"

definition selected :: "u16 \<Rightarrow> gdt_state \<Rightarrow> gdt_entry" where
  "selected sel s = gdt s ! unat (drop_bit 3 sel)"

section \<open>Interrupt gates\<close>

record idt_entry =
  offset_low :: u16
  selector :: u16
  zero :: u8
  type_attr :: u8
  offset_high :: u16

record idt_state =
  idt :: "idt_entry list"
  idtp :: "u16 \<times> u32"
  idt_loaded :: "(u16 \<times> u32) option"

definition KERNEL_CS :: u16 where "KERNEL_CS = 0x08"
definition GATE_INT32 :: u8 where "GATE_INT32 = 0x8E"
definition GATE_SYS32 :: u8 where "GATE_SYS32 = 0xEE"

definition gate :: "u32 \<Rightarrow> u16 \<Rightarrow> u8 \<Rightarrow> idt_entry" where
  "gate handler sel flags = \<lparr>offset_low = ucast (handler AND 0xFFFF), selector = sel, zero = 0,
     type_attr = flags, offset_high = ucast (drop_bit 16 handler AND 0xFFFF)\<rparr>"

definition idt_set_gate :: "nat \<Rightarrow> u32 \<Rightarrow> u16 \<Rightarrow> u8 \<Rightarrow> idt_state \<Rightarrow> idt_state" where
  "idt_set_gate n handler sel flags s = s\<lparr>idt := (idt s)[n := gate handler sel flags]\<rparr>"

definition idt_init :: "u32 \<Rightarrow> (nat \<Rightarrow> u32) \<Rightarrow> (nat \<Rightarrow> u32) \<Rightarrow> u32 \<Rightarrow> idt_state \<Rightarrow> idt_state" where
  "idt_init idt_addr isr_stubs irq_stubs isr128 s =
     (let s = s\<lparr>idtp := (256 * 8 - 1, idt_addr)\<rparr>;
          s = fold (\<lambda>i. idt_set_gate i 0 0 0) [0..<256] s;
          s = fold (\<lambda>i. idt_set_gate i (isr_stubs i) KERNEL_CS GATE_INT32) [0..<32] s;
          s = fold (\<lambda>i. idt_set_gate (32 + i) (irq_stubs i) KERNEL_CS GATE_INT32) [0..<16] s;
          s = idt_set_gate 128 isr128 KERNEL_CS GATE_SYS32 s
      in s\<lparr>idt_loaded := Some (idtp s)\<rparr>)"

text \<open>What the processor does on a vector, raised by software at privilege \<open>cpl\<close> (3 for user code).\<close>

definition gate_target :: "u8 \<Rightarrow> idt_entry \<Rightarrow> (u16 \<times> u32) option" where
  "gate_target cpl g =
     (if bit (type_attr g) 7 \<and> cpl \<le> drop_bit 5 (type_attr g) AND 3
      then Some (selector g, ucast (offset_low g) OR push_bit 16 (ucast (offset_high g))) else None)"

section \<open>Interrupt controller\<close>

definition PIC1_CMD :: u16 where "PIC1_CMD = 0x20"
definition PIC1_DATA :: u16 where "PIC1_DATA = 0x21"
definition PIC2_CMD :: u16 where "PIC2_CMD = 0xA0"
definition PIC2_DATA :: u16 where "PIC2_DATA = 0xA1"
definition PIC_EOI :: u8 where "PIC_EOI = 0x20"

definition io_wait :: "'a io_scheme \<Rightarrow> 'a io_scheme" where
  "io_wait s = outb 0x80 0 s"

definition pic_remap :: "'a io_scheme \<Rightarrow> 'a io_scheme" where
  "pic_remap s =
     (let (mask1, s) = inb PIC1_DATA s;
          (mask2, s) = inb PIC2_DATA s;
          s = fold (\<lambda>(p, v) s. io_wait (outb p v s))
                [(PIC1_CMD, 0x11), (PIC2_CMD, 0x11), (PIC1_DATA, 0x20), (PIC2_DATA, 0x28),
                 (PIC1_DATA, 0x04), (PIC2_DATA, 0x02), (PIC1_DATA, 0x01), (PIC2_DATA, 0x01)] s
      in outb PIC2_DATA mask2 (outb PIC1_DATA mask1 s))"

definition pic_send_eoi :: "int \<Rightarrow> 'a io_scheme \<Rightarrow> 'a io_scheme" where
  "pic_send_eoi irq s = outb PIC1_CMD PIC_EOI (if irq \<ge> 8 then outb PIC2_CMD PIC_EOI s else s)"

definition pic_port :: "nat \<Rightarrow> u16" where
  "pic_port irq = (if irq < 8 then PIC1_DATA else PIC2_DATA)"

definition pic_bit :: "nat \<Rightarrow> nat" where
  "pic_bit irq = (if irq < 8 then irq else irq - 8)"

definition pic_unmask :: "nat \<Rightarrow> 'a io_scheme \<Rightarrow> 'a io_scheme" where
  "pic_unmask irq s = (let (v, s) = inb (pic_port irq) s in outb (pic_port irq) (v AND NOT (push_bit (pic_bit irq) 1)) s)"

definition pic_mask :: "nat \<Rightarrow> 'a io_scheme \<Rightarrow> 'a io_scheme" where
  "pic_mask irq s = (let (v, s) = inb (pic_port irq) s in outb (pic_port irq) (v OR push_bit (pic_bit irq) 1) s)"

section \<open>Timer\<close>

record timer =
  ticks :: u32
  frequency :: u32

definition PIT_CHANNEL0 :: u16 where "PIT_CHANNEL0 = 0x40"
definition PIT_COMMAND :: u16 where "PIT_COMMAND = 0x43"
definition PIT_BASE_FREQ :: u32 where "PIT_BASE_FREQ = 1193182"

definition pit_divisor :: "u32 \<Rightarrow> u32" where
  "pit_divisor frequency_hz =
     (let divisor = PIT_BASE_FREQ div frequency_hz;
          divisor = (if divisor = 0 then 1 else divisor)
      in if divisor > 0xFFFF then 0xFFFF else divisor)"

definition timer_init :: "u32 \<Rightarrow> timer \<Rightarrow> 'a io_scheme \<Rightarrow> timer \<times> 'a io_scheme" where
  "timer_init frequency_hz t s =
     (let frequency_hz = (if frequency_hz = 0 then 100 else frequency_hz);
          divisor = pit_divisor frequency_hz;
          s = outb PIT_COMMAND 0x36 s;
          s = outb PIT_CHANNEL0 (ucast (divisor AND 0xFF)) s;
          s = outb PIT_CHANNEL0 (ucast (drop_bit 8 divisor AND 0xFF)) s
      in (t\<lparr>frequency := frequency_hz\<rparr>, pic_unmask 0 s))"

definition timer_irq :: "timer \<Rightarrow> timer" where
  "timer_irq t = t\<lparr>ticks := ticks t + 1\<rparr>"

definition timer_ticks :: "timer \<Rightarrow> u32" where "timer_ticks t = ticks t"
definition timer_hz :: "timer \<Rightarrow> u32" where "timer_hz t = frequency t"

text \<open>The processor sleeps until the next tick; interrupts that are not ticks leave the loop where it is.\<close>

partial_function (option) sleep_loop :: "u32 \<Rightarrow> timer \<Rightarrow> timer option" where
  "sleep_loop target t = (if ticks t < target then sleep_loop target (timer_irq t) else Some t)"

definition ticks_for :: "u32 \<Rightarrow> timer \<Rightarrow> u32" where
  "ticks_for ms t = (let needed = ms * frequency t div 1000 in if needed = 0 then 1 else needed)"

definition timer_sleep :: "u32 \<Rightarrow> timer \<Rightarrow> timer option" where
  "timer_sleep ms t = (if frequency t = 0 then Some t else sleep_loop (ticks t + ticks_for ms t) t)"

section \<open>Facts\<close>

lemma and_mask_take:
  "(w :: u32) AND 0xFFFF = take_bit 16 w" "(w :: u32) AND 0xFF = take_bit 8 w" "(w :: u32) AND 0xF = take_bit 4 w"
  "(v :: u8) AND 0xF = take_bit 4 v"
  by (simp_all add: take_bit_eq_mask mask_eq_exp_minus_1)

lemma desc_base_set:
  fixes base :: u32
  shows "(ucast (ucast (base AND 0xFFFF) :: u16) :: u32) OR push_bit 16 (ucast (ucast (drop_bit 16 base AND 0xFF) :: u8)) OR
    push_bit 24 (ucast (ucast (drop_bit 24 base AND 0xFF) :: u8)) = base"
proof (rule bit_word_eqI)
  fix n assume "n < LENGTH(32)"
  then consider "n < 16" | "16 \<le> n" "n < 24" | "24 \<le> n" "n < 32" by fastforce
  then show "bit ((ucast (ucast (base AND 0xFFFF) :: u16) :: u32) OR push_bit 16 (ucast (ucast (drop_bit 16 base AND 0xFF) :: u8)) OR
    push_bit 24 (ucast (ucast (drop_bit 24 base AND 0xFF) :: u8))) n = bit base n"
    unfolding and_mask_take by cases (auto simp: bit_simps)
qed

lemma gate_offset:
  fixes h :: u32
  shows "(ucast (ucast (h AND 0xFFFF) :: u16) :: u32) OR push_bit 16 (ucast (ucast (drop_bit 16 h AND 0xFFFF) :: u16)) = h"
proof (rule bit_word_eqI)
  fix n assume "n < LENGTH(32)"
  then consider "n < 16" | "16 \<le> n" "n < 32" by fastforce
  then show "bit ((ucast (ucast (h AND 0xFFFF) :: u16) :: u32) OR push_bit 16 (ucast (ucast (drop_bit 16 h AND 0xFFFF) :: u16))) n = bit h n"
    unfolding and_mask_take by cases (auto simp: bit_simps)
qed

lemma fold_set_gate:
  "idt (fold (\<lambda>i. idt_set_gate (k + i) (h i) sel fl) [0..<n] s) =
     fold (\<lambda>i xs. xs[k + i := gate (h i) sel fl]) [0..<n] (idt s)"
  "idtp (fold (\<lambda>i. idt_set_gate (k + i) (h i) sel fl) [0..<n] s) = idtp s"
  by (induction n) (simp_all add: idt_set_gate_def)

lemma fold_update_nth:
  "k + n \<le> length xs \<Longrightarrow> j < length xs \<Longrightarrow>
   fold (\<lambda>i xs. xs[k + i := f i]) [0..<n] xs ! j = (if k \<le> j \<and> j < k + n then f (j - k) else xs ! j)"
  "length (fold (\<lambda>i xs. xs[k + i := f i]) [0..<n] xs) = length xs"
  by (induction n) (auto simp: nth_list_update)

lemma gate_target_gate:
  "gate_target cpl (gate h sel fl) = (if bit fl 7 \<and> cpl \<le> drop_bit 5 fl AND 3 then Some (sel, h) else None)"
  by (simp add: gate_target_def gate_def gate_offset)

lemma gate_kinds:
  "bit GATE_INT32 7" "drop_bit 5 GATE_INT32 AND 3 = 0" "bit GATE_SYS32 7" "drop_bit 5 GATE_SYS32 AND 3 = 3" "\<not> bit (0 :: u8) 7"
  by (simp_all add: GATE_INT32_def GATE_SYS32_def)

lemma idt_init_nth:
  assumes "length (idt s) = 256" and "n < 256"
  shows "idt (idt_init a isrs irqs sys s) ! n =
    (if n < 32 then gate (isrs n) KERNEL_CS GATE_INT32
     else if n < 48 then gate (irqs (n - 32)) KERNEL_CS GATE_INT32
     else if n = 128 then gate sys KERNEL_CS GATE_SYS32 else gate 0 0 0)"
proof -
  define f where "f k h sel fl m = fold (\<lambda>i xs. xs[k + i := gate (h i) sel fl]) [0..<m]" for k h sel fl and m :: nat
  have fl: "length (f k h sel g m xs) = length xs" for k h sel g m xs by (simp add: f_def fold_update_nth(2))
  have fn: "k + m \<le> length xs \<Longrightarrow> j < length xs \<Longrightarrow>
      f k h sel g m xs ! j = (if k \<le> j \<and> j < k + m then gate (h (j - k)) sel g else xs ! j)" for k h sel g m xs j
    by (simp add: f_def fold_update_nth(1))
  have "idt (idt_init a isrs irqs sys s) =
      (f 32 irqs KERNEL_CS GATE_INT32 16 (f 0 isrs KERNEL_CS GATE_INT32 32 (f 0 (\<lambda>_. 0) 0 0 256 (idt s))))
        [128 := gate sys KERNEL_CS GATE_SYS32]"
    using fold_set_gate(1) [of 0 isrs KERNEL_CS GATE_INT32 32] fold_set_gate(1) [of 0 "\<lambda>_. 0" 0 0 256]
      fold_set_gate(1) [of 32 irqs KERNEL_CS GATE_INT32 16]
    by (simp add: idt_init_def Let_def idt_set_gate_def [of 128] f_def)
  then show ?thesis using assms by (auto simp: nth_list_update fl fn)
qed

lemma sleep_loop_waits:
  "ticks t \<le> target \<Longrightarrow> sleep_loop target t = Some (t\<lparr>ticks := target\<rparr>)"
proof (induction "unat target - unat (ticks t)" arbitrary: t)
  case 0
  then have "ticks t = target" by (simp add: word_le_nat_alt word_unat_eq_iff)
  then show ?case by (subst sleep_loop.simps) auto
next
  case (Suc k)
  then have lt: "ticks t < target" by (simp add: word_less_nat_alt)
  then have u: "unat (ticks t + 1) = Suc (unat (ticks t))" by (rule unat_Suc_less)
  have "sleep_loop target (timer_irq t) = Some ((timer_irq t)\<lparr>ticks := target\<rparr>)"
    using Suc.hyps(2) lt u by (intro Suc.hyps(1)) (simp_all add: timer_irq_def word_le_nat_alt)
  then show ?case using lt by (subst sleep_loop.simps) (simp add: timer_irq_def)
qed

lemma sleep_loop_past: "\<not> ticks t < target \<Longrightarrow> sleep_loop target t = Some t"
  by (subst sleep_loop.simps) simp

section \<open>Properties\<close>

text \<open>
  After \<open>gdt_init\<close> the kernel and user selectors describe flat segments of 4 GiB, code or data as
  their name says, with privilege 0 for the kernel and 3 for the user; the task register selects the
  task state segment, whose ring-0 stack segment is the kernel's data segment.
\<close>

theorem gdt_init_segments:
  assumes "length (gdt s) = 8"
  shows "(\<forall>sel \<in> {KERNEL_CODE_SEL, KERNEL_DATA_SEL, USER_CODE_SEL, USER_DATA_SEL}.
      desc_base (selected sel (gdt_init ga ta s)) = 0 \<and> desc_limit (selected sel (gdt_init ga ta s)) = 0xFFFFFFFF) \<and>
    desc_code (selected KERNEL_CODE_SEL (gdt_init ga ta s)) \<and> desc_data (selected KERNEL_DATA_SEL (gdt_init ga ta s)) \<and>
    desc_code (selected USER_CODE_SEL (gdt_init ga ta s)) \<and> desc_data (selected USER_DATA_SEL (gdt_init ga ta s)) \<and>
    desc_dpl (selected KERNEL_CODE_SEL (gdt_init ga ta s)) = 0 \<and> desc_dpl (selected KERNEL_DATA_SEL (gdt_init ga ta s)) = 0 \<and>
    desc_dpl (selected USER_CODE_SEL (gdt_init ga ta s)) = 3 \<and> desc_dpl (selected USER_DATA_SEL (gdt_init ga ta s)) = 3 \<and>
    desc_base (selected (task_reg (gdt_init ga ta s)) (gdt_init ga ta s)) = ta \<and>
    desc_limit (selected (task_reg (gdt_init ga ta s)) (gdt_init ga ta s)) = SIZEOF_TSS - 1 \<and>
    ss0 (tss (gdt_init ga ta s)) = ucast KERNEL_DATA_SEL"
  using assms
  by (simp add: gdt_init_def Let_def set_gdt_def selected_def KERNEL_CODE_SEL_def KERNEL_DATA_SEL_def USER_CODE_SEL_def
      USER_DATA_SEL_def TSS_SEL_def desc_base_def desc_limit_def desc_code_def desc_data_def desc_dpl_def SIZEOF_TSS_def desc_base_set)

theorem gdt_init_segments_witness:
  "desc_dpl (selected USER_CODE_SEL (gdt_init 0x20000 0x20100
     \<lparr>gdt = replicate 8 \<lparr>limit_low = 0, base_low = 0, base_mid = 0, access = 0, gran = 0, base_high = 0\<rparr>,
      gdtp = (0, 0), tss = zero_tss, seg_regs = [], task_reg = 0\<rparr>)) = 3"
  using gdt_init_segments [of "\<lparr>gdt = replicate 8 \<lparr>limit_low = 0, base_low = 0, base_mid = 0, access = 0, gran = 0, base_high = 0\<rparr>,
      gdtp = (0, 0), tss = zero_tss, seg_regs = [], task_reg = 0\<rparr>" "0x20000" "0x20100"] by simp

text \<open>
  After \<open>idt_init\<close> every exception and interrupt vector leads to its own stub in the kernel's code
  segment, and the only vector that user code can raise itself is the system call gate 128.
\<close>

theorem idt_init_gates:
  assumes "length (idt s) = 256" and "n < 256"
  shows "gate_target 0 (idt (idt_init a isrs irqs sys s) ! n) =
      (if n < 32 then Some (KERNEL_CS, isrs n) else if n < 48 then Some (KERNEL_CS, irqs (n - 32))
       else if n = 128 then Some (KERNEL_CS, sys) else None) \<and>
    gate_target 3 (idt (idt_init a isrs irqs sys s) ! n) = (if n = 128 then Some (KERNEL_CS, sys) else None)"
  by (simp add: idt_init_nth [OF assms] gate_target_gate gate_kinds)

theorem idt_init_gates_witness:
  "gate_target 3 (idt (idt_init 0 (\<lambda>_. 1) (\<lambda>_. 2) 0x12345 \<lparr>idt = replicate 256 (gate 0 0 0), idtp = (0, 0), idt_loaded = None\<rparr>) ! 128)
    = Some (KERNEL_CS, 0x12345)"
  using idt_init_gates [of "\<lparr>idt = replicate 256 (gate 0 0 0), idtp = (0, 0), idt_loaded = None\<rparr>" 128 0 "\<lambda>_. 1" "\<lambda>_. 2" "0x12345"]
  by simp

text \<open>
  \<open>timer_sleep\<close> returns after exactly the number of ticks the delay amounts to, at least one; but when
  the sum wraps around the 32-bit tick counter it returns at once.
\<close>

theorem timer_sleep_ticks:
  assumes "frequency t \<noteq> 0"
  shows "timer_sleep ms t = Some (t\<lparr>ticks :=
    (if unat (ticks t) + unat (ticks_for ms t) < 2 ^ 32 then ticks t + ticks_for ms t else ticks t)\<rparr>)"
proof (cases "unat (ticks t) + unat (ticks_for ms t) < 2 ^ 32")
  case True
  then have "ticks t \<le> ticks t + ticks_for ms t" by (simp add: word_le_nat_alt unat_plus_simple)
  then show ?thesis using True assms by (simp add: timer_sleep_def sleep_loop_waits)
next
  case False
  then have "unat (ticks t + ticks_for ms t) = unat (ticks t) + unat (ticks_for ms t) - 2 ^ 32"
    using unat_less_pow [of "ticks t"] unat_less_pow [of "ticks_for ms t"]
    by (simp add: unat_word_ariths le_mod_geq)
  then have "\<not> ticks t < ticks t + ticks_for ms t"
    using unat_less_pow [of "ticks_for ms t"] False by (simp add: word_less_nat_alt)
  then show ?thesis using False assms by (simp add: timer_sleep_def sleep_loop_past)
qed

theorem timer_sleep_ticks_witness:
  "timer_sleep 250 \<lparr>ticks = 7, frequency = 100\<rparr> = Some \<lparr>ticks = 32, frequency = 100\<rparr>"
  using timer_sleep_ticks [of "\<lparr>ticks = 7, frequency = 100\<rparr>" 250] by (simp add: ticks_for_def Let_def)

end
