(* ===== verification/Input.thy ===== *)
theory Input
  imports Cpu Interfaces
begin

text \<open>
  The keyboard of \<open>drivers/keyboard.c\<close> and the mouse of \<open>drivers/mouse.c\<close>. The drivers' own state is
  passed beside the state of the ports. The keyboard's ring buffer is an instance of the bounded queue;
  waiting for a key is a partial function in which every sleep is ended by one keyboard interrupt.
\<close>

section \<open>Keyboard\<close>

definition PS2_DATA :: u16 where "PS2_DATA = 0x60"
definition PS2_STATUS :: u16 where "PS2_STATUS = 0x64"
definition PS2_CMD :: u16 where "PS2_CMD = 0x64"

text \<open>The two translation tables, as runs of characters for consecutive scan codes.\<close>

definition keymap_rows :: "(nat \<times> string) list" where
  "keymap_rows = [(0x01, [CHR 0x1B]), (0x02, ''1234567890-='' @ [CHR 0x08, CHR 0x09]),
     (0x10, ''qwertyuiop[]'' @ [CHR 0x0A]), (0x1E, ''asdfghjkl;'' @ [CHR 0x27, CHR 0x60]),
     (0x2B, CHR 0x5C # ''zxcvbnm,./''), (0x37, ''*''), (0x39, '' ''), (0x47, ''789-456+1230.'')]"

definition keymap_shift_rows :: "(nat \<times> string) list" where
  "keymap_shift_rows = [(0x01, [CHR 0x1B]), (0x02, ''!@#$%^&*()_+'' @ [CHR 0x08, CHR 0x09]),
     (0x10, ''QWERTYUIOP{}'' @ [CHR 0x0A]), (0x1E, ''ASDFGHJKL:'' @ [CHR 0x22, CHR 0x7E]),
     (0x2B, ''|ZXCVBNM<>?''), (0x37, ''*''), (0x39, '' '')]"

fun row_char :: "(nat \<times> string) list \<Rightarrow> nat \<Rightarrow> char" where
  "row_char [] sc = CHR 0x00"
| "row_char ((start, cs) # rows) sc =
     (if start \<le> sc \<and> sc < start + length cs then cs ! (sc - start) else row_char rows sc)"

definition keymap :: "u8 \<Rightarrow> char" where "keymap sc = row_char keymap_rows (unat sc)"
definition keymap_shift :: "u8 \<Rightarrow> char" where "keymap_shift sc = row_char keymap_shift_rows (unat sc)"

record kbd =
  shift_down :: bool
  caps_lock :: bool
  extended :: bool
  kbd_buf :: "char list"
  kbd_head :: u32
  kbd_tail :: u32

definition KBD_BUF_SIZE :: u32 where "KBD_BUF_SIZE = 128"

definition kbd_enqueue :: "char \<Rightarrow> kbd \<Rightarrow> kbd" where
  "kbd_enqueue c k =
     (let nxt = (kbd_head k + 1) mod KBD_BUF_SIZE
      in if nxt \<noteq> kbd_tail k then k\<lparr>kbd_buf := (kbd_buf k)[unat (kbd_head k) := c], kbd_head := nxt\<rparr> else k)"

partial_function (option) drain_loop :: "'a io_scheme \<Rightarrow> 'a io_scheme option" where
  "drain_loop s =
     (if fst (inb PS2_STATUS s) AND 0x01 \<noteq> 0 then drain_loop (snd (inb PS2_DATA (snd (inb PS2_STATUS s))))
      else Some (snd (inb PS2_STATUS s)))"

definition keyboard_init :: "'a io_scheme \<Rightarrow> 'a io_scheme option" where
  "keyboard_init s = map_option (pic_unmask 1) (drain_loop s)"

definition extended_key :: "u8 \<Rightarrow> char option" where
  "extended_key sc = map_of
     [(0x48, CHR 0x11), (0x50, CHR 0x12), (0x4B, CHR 0x13), (0x4D, CHR 0x14), (0x47, CHR 0x15),
      (0x4F, CHR 0x16), (0x49, CHR 0x17), (0x51, CHR 0x18), (0x53, CHR 0x19)] sc"

definition flip_case :: "char \<Rightarrow> char" where
  "flip_case c =
     (let b = of_char c :: u8
      in if 0x61 \<le> b \<and> b \<le> 0x7A then byte_chr (b - 32)
         else if 0x41 \<le> b \<and> b \<le> 0x5A then byte_chr (b + 32) else c)"

text \<open>The part of \<open>keyboard_irq\<close> after the scan code has been read.\<close>

definition key_event :: "u8 \<Rightarrow> kbd \<Rightarrow> kbd" where
  "key_event sc k =
     (if sc = 0xE0 then k\<lparr>extended := True\<rparr>
      else if extended k then
        (let k = k\<lparr>extended := False\<rparr>
         in if sc AND 0x80 = 0 then (case extended_key sc of Some c \<Rightarrow> kbd_enqueue c k | None \<Rightarrow> k) else k)
      else if sc AND 0x80 \<noteq> 0 then
        (if sc AND 0x7F = 0x2A \<or> sc AND 0x7F = 0x36 then k\<lparr>shift_down := False\<rparr> else k)
      else if sc = 0x2A \<or> sc = 0x36 then k\<lparr>shift_down := True\<rparr>
      else if sc = 0x3A then k\<lparr>caps_lock := \<not> caps_lock k\<rparr>
      else let c = (if shift_down k then keymap_shift sc else keymap sc)
           in if c = CHR 0x00 then k
              else kbd_enqueue (if caps_lock k then flip_case c else c) k)"

definition keyboard_irq :: "kbd \<Rightarrow> 'a io_scheme \<Rightarrow> kbd \<times> 'a io_scheme" where
  "keyboard_irq k s = (let (sc, s) = inb PS2_DATA s in (key_event sc k, s))"

definition keyboard_haschar :: "kbd \<Rightarrow> bool" where
  "keyboard_haschar k \<longleftrightarrow> kbd_head k \<noteq> kbd_tail k"

definition take_char :: "kbd \<Rightarrow> char \<times> kbd" where
  "take_char k = (kbd_buf k ! unat (kbd_tail k), k\<lparr>kbd_tail := (kbd_tail k + 1) mod KBD_BUF_SIZE\<rparr>)"

partial_function (option) wait_key :: "kbd \<Rightarrow> 'a io_scheme \<Rightarrow> (kbd \<times> 'a io_scheme) option" where
  "wait_key k s =
     (if kbd_head k = kbd_tail k then (let r = keyboard_irq k s in wait_key (fst r) (snd r)) else Some (k, s))"

definition keyboard_getchar :: "kbd \<Rightarrow> 'a io_scheme \<Rightarrow> (char \<times> kbd \<times> 'a io_scheme) option" where
  "keyboard_getchar k s = map_option (\<lambda>(k, s). let (c, k) = take_char k in (c, k, s)) (wait_key k s)"

section \<open>Mouse\<close>

record mouse =
  bound_w :: int
  bound_h :: int
  mx :: int
  my :: int
  buttons :: u8
  seq :: u32
  packet :: "u8 list"
  phase :: nat

definition mouse_boot :: mouse where
  "mouse_boot = \<lparr>bound_w = 320, bound_h = 200, mx = 160, my = 100, buttons = 0, seq = 0, packet = [0, 0, 0], phase = 0\<rparr>"

text \<open>The quotient of C truncates; for the non-negative sizes it is given, it is \<open>div\<close>.\<close>

definition mouse_set_bounds :: "nat \<Rightarrow> nat \<Rightarrow> mouse \<Rightarrow> mouse" where
  "mouse_set_bounds w h m = m\<lparr>bound_w := int w, bound_h := int h, mx := int (w div 2), my := int (h div 2)\<rparr>"

fun wait_status :: "nat \<Rightarrow> u8 \<Rightarrow> bool \<Rightarrow> 'a io_scheme \<Rightarrow> 'a io_scheme" where
  "wait_status 0 b want s = s"
| "wait_status (Suc n) b want s =
     (let (v, s) = inb PS2_STATUS s in if (v AND b \<noteq> 0) = want then s else wait_status n b want s)"

definition wait_write :: "'a io_scheme \<Rightarrow> 'a io_scheme" where "wait_write s = wait_status 100000 0x02 False s"
definition wait_read :: "'a io_scheme \<Rightarrow> 'a io_scheme" where "wait_read s = wait_status 100000 0x01 True s"

definition mouse_command :: "u8 \<Rightarrow> 'a io_scheme \<Rightarrow> 'a io_scheme" where
  "mouse_command cmd s =
     snd (inb PS2_DATA (wait_read (outb PS2_DATA cmd (wait_write (outb PS2_CMD 0xD4 (wait_write s))))))"

definition mouse_init :: "'a io_scheme \<Rightarrow> 'a io_scheme" where
  "mouse_init s =
     (let s = outb PS2_CMD 0xA8 (wait_write s);
          s = wait_read (outb PS2_CMD 0x20 (wait_write s));
          (status, s) = inb PS2_DATA s;
          status = (status OR 0x02) AND NOT 0x20;
          s = outb PS2_CMD 0x60 (wait_write s);
          s = outb PS2_DATA status (wait_write s);
          s = mouse_command 0xF4 (mouse_command 0xF6 s)
      in pic_unmask 12 (pic_unmask 2 s))"

definition accel :: "int \<Rightarrow> int" where
  "accel d = d * (if \<bar>d\<bar> > 5 then 4 else 2)"

definition clamp :: "int \<Rightarrow> int \<Rightarrow> int" where
  "clamp b v = (if v < 0 then 0 else if v \<ge> b then b - 1 else v)"

definition move :: "u8 list \<Rightarrow> mouse \<Rightarrow> mouse" where
  "move p m =
     (let dx = uint (p ! 1) - (if p ! 0 AND 0x10 \<noteq> 0 then 256 else 0);
          dy = uint (p ! 2) - (if p ! 0 AND 0x20 \<noteq> 0 then 256 else 0);
          (dx, dy) = (if bound_w m \<ge> 640 then (accel dx, accel dy) else (dx, dy))
      in m\<lparr>mx := clamp (bound_w m) (mx m + dx), my := clamp (bound_h m) (my m - dy),
           buttons := p ! 0 AND 0x07, seq := seq m + 1\<rparr>)"

definition feed :: "u8 \<Rightarrow> mouse \<Rightarrow> mouse" where
  "feed dat m =
     (if phase m = 0 then (if dat AND 0x08 = 0 then m else m\<lparr>packet := (packet m)[0 := dat], phase := 1\<rparr>)
      else if phase m = 1 then m\<lparr>packet := (packet m)[1 := dat], phase := 2\<rparr>
      else if phase m = 2 then
        (let m = m\<lparr>packet := (packet m)[2 := dat], phase := 0\<rparr>
         in if packet m ! 0 AND 0xC0 \<noteq> 0 then m else move (packet m) m)
      else m)"

partial_function (option) mouse_irq :: "mouse \<Rightarrow> 'a io_scheme \<Rightarrow> (mouse \<times> 'a io_scheme) option" where
  "mouse_irq m s =
     (let r1 = inb PS2_STATUS s
      in if fst r1 AND 0x01 = 0 then Some (m, snd r1)
         else let r2 = inb PS2_STATUS (snd r1)
         in if fst r2 AND 0x20 = 0 then Some (m, snd r2)
            else let r3 = inb PS2_DATA (snd r2) in mouse_irq (feed (fst r3) m) (snd r3))"

definition mouse_x :: "mouse \<Rightarrow> int" where "mouse_x m = mx m"
definition mouse_y :: "mouse \<Rightarrow> int" where "mouse_y m = my m"
definition mouse_buttons :: "mouse \<Rightarrow> u8" where "mouse_buttons m = buttons m"
definition mouse_seq :: "mouse \<Rightarrow> u32" where "mouse_seq m = seq m"

section \<open>The ring buffer as a queue\<close>

definition kbd_wf :: "kbd \<Rightarrow> bool" where
  "kbd_wf k \<longleftrightarrow> length (kbd_buf k) = 128 \<and> unat (kbd_head k) < 128 \<and> unat (kbd_tail k) < 128"

definition kbd_count :: "kbd \<Rightarrow> nat" where
  "kbd_count k = (unat (kbd_head k) + 128 - unat (kbd_tail k)) mod 128"

definition kbd_contents :: "kbd \<Rightarrow> string" where
  "kbd_contents k = map (\<lambda>i. kbd_buf k ! ((unat (kbd_tail k) + i) mod 128)) [0..<kbd_count k]"

lemma mod_128: "x < 256 \<Longrightarrow> x mod 128 = (if x < 128 then x else x - 128)" for x :: nat
  by (simp add: mod_if)

lemma unat_succ_128: "unat w < 128 \<Longrightarrow> unat ((w + 1) mod KBD_BUF_SIZE) = (unat w + 1) mod 128"
  by (simp add: unat_mod KBD_BUF_SIZE_def unat_plus_simple)

lemma kbd_count_range:
  assumes "kbd_wf k"
  shows "kbd_count k = (if unat (kbd_tail k) \<le> unat (kbd_head k) then unat (kbd_head k) - unat (kbd_tail k)
    else unat (kbd_head k) + 128 - unat (kbd_tail k))"
  using assms by (auto simp: kbd_count_def kbd_wf_def mod_128)

lemma kbd_slot:
  assumes "kbd_wf k"
  shows "i < kbd_count k \<Longrightarrow> (unat (kbd_tail k) + i) mod 128 \<noteq> unat (kbd_head k)"
    and "(unat (kbd_tail k) + kbd_count k) mod 128 = unat (kbd_head k)"
  using assms kbd_count_range [OF assms] by (auto simp: kbd_wf_def mod_128 split: if_splits)

lemma kbd_full_iff:
  assumes "kbd_wf k"
  shows "(kbd_head k + 1) mod KBD_BUF_SIZE = kbd_tail k \<longleftrightarrow> \<not> kbd_count k < 127"
proof -
  have "unat ((kbd_head k + 1) mod KBD_BUF_SIZE) = (unat (kbd_head k) + 1) mod 128"
    using assms by (intro unat_succ_128) (simp add: kbd_wf_def)
  then have "(kbd_head k + 1) mod KBD_BUF_SIZE = kbd_tail k \<longleftrightarrow> (unat (kbd_head k) + 1) mod 128 = unat (kbd_tail k)"
    by (simp add: word_unat_eq_iff)
  also have "\<dots> \<longleftrightarrow> \<not> kbd_count k < 127"
    using assms kbd_count_range [OF assms] by (auto simp: kbd_wf_def mod_128 split: if_splits)
  finally show ?thesis .
qed

lemma kbd_enqueue_wf: "kbd_wf k \<Longrightarrow> kbd_wf (kbd_enqueue c k)"
  by (auto simp: kbd_enqueue_def kbd_wf_def Let_def unat_succ_128)

lemma kbd_enqueue_contents:
  assumes "kbd_wf k"
  shows "kbd_contents (kbd_enqueue c k) = list_put 127 c (kbd_contents k)"
proof (cases "kbd_count k < 127")
  case True
  define k1 where "k1 = kbd_enqueue c k"
  have k1: "kbd_buf k1 = (kbd_buf k)[unat (kbd_head k) := c]" "kbd_tail k1 = kbd_tail k"
      "kbd_head k1 = (kbd_head k + 1) mod KBD_BUF_SIZE"
    using True kbd_full_iff [OF assms] by (simp_all add: k1_def kbd_enqueue_def Let_def)
  have wf1: "kbd_wf k1" unfolding k1_def by (rule kbd_enqueue_wf [OF assms])
  have h1: "unat (kbd_head k1) = (unat (kbd_head k) + 1) mod 128"
    using assms by (simp add: k1 unat_succ_128 kbd_wf_def)
  have n1: "kbd_count k1 = Suc (kbd_count k)"
    using assms True kbd_count_range [OF assms] kbd_count_range [OF wf1] h1 k1(2)
    by (auto simp: kbd_wf_def mod_128 split: if_splits)
  have "kbd_buf k1 ! ((unat (kbd_tail k) + i) mod 128) = kbd_buf k ! ((unat (kbd_tail k) + i) mod 128)"
    if "i < kbd_count k" for i
    using kbd_slot(1) [OF assms that] by (simp add: k1)
  moreover have "kbd_buf k1 ! unat (kbd_head k) = c" using assms by (simp add: k1 kbd_wf_def)
  ultimately have "kbd_contents k1 = kbd_contents k @ [c]"
    using kbd_slot(2) [OF assms] by (simp add: kbd_contents_def n1 k1(2))
  then show ?thesis using True by (simp add: list_put_def k1_def kbd_contents_def)
next
  case False
  then show ?thesis using kbd_full_iff [OF assms] by (simp add: kbd_enqueue_def list_put_def kbd_contents_def)
qed

lemma kbd_has_iff: "kbd_wf k \<Longrightarrow> keyboard_haschar k \<longleftrightarrow> kbd_contents k \<noteq> []"
  using kbd_count_range [of k] by (auto simp: keyboard_haschar_def kbd_contents_def kbd_wf_def word_unat_eq_iff split: if_splits)

lemma take_char_wf: "kbd_wf k \<Longrightarrow> kbd_wf (snd (take_char k))"
  by (simp add: take_char_def kbd_wf_def unat_succ_128)

lemma take_char_contents:
  assumes "kbd_wf k" and "kbd_contents k \<noteq> []"
  shows "kbd_contents k = fst (take_char k) # kbd_contents (snd (take_char k))"
proof -
  define k1 where "k1 = snd (take_char k)"
  have k1: "kbd_buf k1 = kbd_buf k" "kbd_head k1 = kbd_head k" "unat (kbd_tail k1) = (unat (kbd_tail k) + 1) mod 128"
    using assms(1) by (simp_all add: k1_def take_char_def unat_succ_128 kbd_wf_def)
  have wf1: "kbd_wf k1" unfolding k1_def by (rule take_char_wf [OF assms(1)])
  have n: "kbd_count k = Suc (kbd_count k1)"
    using assms kbd_count_range [OF assms(1)] kbd_count_range [OF wf1] k1
    by (auto simp: kbd_wf_def mod_128 kbd_contents_def split: if_splits)
  have "(unat (kbd_tail k1) + i) mod 128 = (unat (kbd_tail k) + Suc i) mod 128" for i
    unfolding k1(3) by (simp add: mod_add_left_eq)
  moreover have "unat (kbd_tail k) mod 128 = unat (kbd_tail k)" using assms(1) by (simp add: kbd_wf_def)
  ultimately have "kbd_contents k = kbd_buf k ! unat (kbd_tail k) # kbd_contents k1"
    by (simp add: kbd_contents_def n k1(1) upt_conv_Cons map_Suc_upt [symmetric] del: upt_Suc)
  then show ?thesis by (simp add: k1_def) (simp add: take_char_def)
qed

interpretation kq: bounded_queue kbd_wf kbd_contents 127 kbd_enqueue take_char keyboard_haschar
  by unfold_locales
    (simp_all add: kbd_enqueue_wf kbd_enqueue_contents kbd_has_iff take_char_wf take_char_contents [symmetric])

section \<open>Waiting for a key\<close>

text \<open>A key that types a character with and without shift.\<close>

definition plain_key :: "u8 \<Rightarrow> bool" where
  "plain_key sc \<longleftrightarrow> keymap sc \<noteq> CHR 0x00 \<and> keymap_shift sc \<noteq> CHR 0x00"

lemma row_char_none: "\<forall>(start, cs) \<in> set rows. start + length cs \<le> sc \<Longrightarrow> row_char rows sc = CHR 0x00"
  by (induction rows) auto

lemma plain_key_code:
  assumes "plain_key sc"
  shows "sc AND 0x80 = 0" "sc \<noteq> 0xE0" "sc \<noteq> 0x2A" "sc \<noteq> 0x36" "sc \<noteq> 0x3A"
proof -
  have "\<not> 0x54 \<le> unat sc"
  proof
    assume "0x54 \<le> unat sc"
    then have "keymap sc = CHR 0x00" unfolding keymap_def by (intro row_char_none) (auto simp: keymap_rows_def)
    then show False using assms by (simp add: plain_key_def)
  qed
  then have lt: "unat sc < 2 ^ 7" by simp
  then have "sc = sc AND mask 7" using unat_and_mask [of sc 7] by (simp add: word_unat_eq_iff)
  then have "sc AND 0x80 = (sc AND mask 7) AND 0x80" by simp
  also have "\<dots> = 0" by (simp add: and.assoc mask_eq_exp_minus_1)
  finally show "sc AND 0x80 = 0" .
  show "sc \<noteq> 0xE0" using lt by auto
  have "\<not> plain_key 0x2A" "\<not> plain_key 0x36" "\<not> plain_key 0x3A" by code_simp+
  then show "sc \<noteq> 0x2A" "sc \<noteq> 0x36" "sc \<noteq> 0x3A" using assms by auto
qed

lemma kbd_wf_flags [simp]:
  "kbd_wf (k\<lparr>extended := b\<rparr>) = kbd_wf k" "kbd_wf (k\<lparr>shift_down := b\<rparr>) = kbd_wf k" "kbd_wf (k\<lparr>caps_lock := b\<rparr>) = kbd_wf k"
  by (simp_all add: kbd_wf_def)

lemma key_event_wf: "kbd_wf k \<Longrightarrow> kbd_wf (key_event sc k)"
  by (auto simp: key_event_def Let_def kbd_enqueue_wf split: option.split)

lemma extended_enqueue [simp]: "extended (kbd_enqueue c k) = extended k"
  by (simp add: kbd_enqueue_def Let_def)

lemma plain_key_clears: "plain_key sc \<Longrightarrow> \<not> extended (key_event sc k)"
  using plain_key_code [of sc] by (auto simp: key_event_def Let_def split: option.split)

lemma plain_key_types:
  assumes "plain_key sc" and "\<not> extended k" and "kbd_wf k" and "\<not> keyboard_haschar k"
  shows "keyboard_haschar (key_event sc k)"
proof -
  define c0 where "c0 = (if shift_down k then keymap_shift sc else keymap sc)"
  define c where "c = (if caps_lock k then flip_case c0 else c0)"
  have "c0 \<noteq> CHR 0x00" using assms(1) by (simp add: c0_def plain_key_def)
  then have "key_event sc k = kbd_enqueue c k"
    using plain_key_code [OF assms(1)] assms(2) by (simp add: key_event_def Let_def c_def flip: c0_def)
  moreover have "kbd_contents (kbd_enqueue c k) = [c]"
    using kbd_enqueue_contents [OF assms(3)] kbd_has_iff [OF assms(3)] assms(4) by (simp add: list_put_def)
  ultimately show ?thesis using kbd_has_iff [OF kbd_enqueue_wf [OF assms(3)]] by simp
qed

lemma wait_key_has: "keyboard_haschar k \<Longrightarrow> wait_key k s = Some (k, s)"
  by (subst wait_key.simps) (simp add: keyboard_haschar_def)

lemma wait_key_step:
  "\<not> keyboard_haschar k \<Longrightarrow>
   wait_key k s = wait_key (key_event (inputs s (reads s) PS2_DATA) k) (s\<lparr>reads := Suc (reads s)\<rparr>)"
  by (subst wait_key.simps) (simp add: keyboard_haschar_def keyboard_irq_def inb_def)

lemma wait_key_returns:
  assumes "kbd_wf k" and "reads s + d = n" and "plain_key (inputs s n PS2_DATA)" and "plain_key (inputs s (Suc n) PS2_DATA)"
  shows "\<exists>k1 s1. wait_key k s = Some (k1, s1) \<and> keyboard_haschar k1 \<and> kbd_wf k1"
  using assms
proof (induction d arbitrary: k s)
  case 0
  let ?k1 = "key_event (inputs s (reads s) PS2_DATA) k" and ?s1 = "s\<lparr>reads := Suc (reads s)\<rparr>"
  let ?k2 = "key_event (inputs s (Suc (reads s)) PS2_DATA) ?k1"
  have wf: "kbd_wf ?k1" "kbd_wf ?k2" using 0 by (simp_all add: key_event_wf)
  consider "keyboard_haschar k" | "\<not> keyboard_haschar k" "keyboard_haschar ?k1"
    | "\<not> keyboard_haschar k" "\<not> keyboard_haschar ?k1" by blast
  then show ?case
  proof cases
    case 1
    then show ?thesis using 0 by (simp add: wait_key_has)
  next
    case 2
    then show ?thesis using wf by (simp add: wait_key_step wait_key_has)
  next
    case 3
    have "\<not> extended ?k1" using 0 by (simp add: plain_key_clears)
    then have "keyboard_haschar ?k2" using 0 3 wf by (intro plain_key_types) simp_all
    then show ?thesis using 3 wf wait_key_step [of ?k1 ?s1] by (simp add: wait_key_step [of k] wait_key_has)
  qed
next
  case (Suc d)
  show ?case
  proof (cases "keyboard_haschar k")
    case True
    then show ?thesis using Suc.prems by (simp add: wait_key_has)
  next
    case False
    then show ?thesis
      using Suc.IH [of "key_event (inputs s (reads s) PS2_DATA) k" "s\<lparr>reads := Suc (reads s)\<rparr>"] Suc.prems
      by (simp add: wait_key_step key_event_wf)
  qed
qed

section \<open>The pointer\<close>

definition mouse_ok :: "mouse \<Rightarrow> bool" where
  "mouse_ok m \<longleftrightarrow> 0 \<le> mx m \<and> mx m < bound_w m \<and> 0 \<le> my m \<and> my m < bound_h m \<and>
     phase m \<le> 2 \<and> length (packet m) = 3"

lemma clamp_range: "0 < b \<Longrightarrow> 0 \<le> clamp b v \<and> clamp b v < b"
  by (simp add: clamp_def)

lemma move_ok: "mouse_ok m \<Longrightarrow> mouse_ok (move p m)"
  using clamp_range [of "bound_w m"] clamp_range [of "bound_h m"]
  by (auto simp: mouse_ok_def move_def Let_def split: prod.splits)

lemma move_frame [simp]: "bound_w (move p m) = bound_w m" "bound_h (move p m) = bound_h m" "phase (move p m) = phase m"
  by (simp_all add: move_def Let_def split: prod.splits)

lemma feed_ok: "mouse_ok m \<Longrightarrow> mouse_ok (feed b m)"
proof -
  assume ok: "mouse_ok m"
  have "mouse_ok (m\<lparr>packet := (packet m)[2 := b], phase := 0\<rparr>)" using ok by (simp add: mouse_ok_def)
  from move_ok [OF this] this ok show ?thesis by (simp add: feed_def Let_def) (auto simp: mouse_ok_def)
qed

section \<open>Properties\<close>

text \<open>
  C18. The ring buffer between the keyboard interrupt and its readers is a first-in first-out queue of
  127 characters: under every interleaving of arriving and taken characters, what is taken is what a
  list with that capacity gives, and a character that arrives when it is full is dropped.
\<close>

theorem keyboard_fifo:
  assumes "kbd_wf k" and "queue_run kbd_enqueue take_char keyboard_haschar ops k = (xs, k1)"
  shows "kbd_wf k1 \<and> queue_run (list_put 127) list_get (\<lambda>l. l \<noteq> []) ops (kbd_contents k) = (xs, kbd_contents k1)"
  by (rule kq.run_refines [OF assms])

definition kbd_boot :: kbd where
  "kbd_boot = \<lparr>shift_down = False, caps_lock = False, extended = False, kbd_buf = replicate 128 CHR 0x00,
     kbd_head = 0, kbd_tail = 0\<rparr>"

lemma kbd_boot_ok: "kbd_wf kbd_boot" "kbd_contents kbd_boot = []"
  by (simp_all add: kbd_boot_def kbd_wf_def kbd_contents_def kbd_count_def)

theorem keyboard_fifo_witness:
  "fst (queue_run kbd_enqueue take_char keyboard_haschar [Put CHR ''l'', Put CHR ''s'', Get, Get, Get] kbd_boot) = ''ls''"
proof -
  obtain xs k1 where r: "queue_run kbd_enqueue take_char keyboard_haschar [Put CHR ''l'', Put CHR ''s'', Get, Get, Get] kbd_boot = (xs, k1)"
    by fastforce
  show ?thesis using keyboard_fifo [OF kbd_boot_ok(1) r] r by (simp add: kbd_boot_ok(2) list_put_def list_get_def)
qed



text \<open>
  C20. Whatever bytes the mouse sends, in whatever phase, the pointer stays on the screen and the packet
  machine in one of its three phases; and changing the bounds puts the pointer inside them.
\<close>

theorem mouse_on_screen:
  assumes "mouse_ok m" and "0 < w" and "0 < h"
  shows "mouse_ok (fold feed bs m) \<and> bound_w (fold feed bs m) = bound_w m \<and> bound_h (fold feed bs m) = bound_h m \<and>
    mouse_ok (mouse_set_bounds w h (fold feed bs m))"
proof -
  have "mouse_ok (fold feed bs m) \<and> bound_w (fold feed bs m) = bound_w m \<and> bound_h (fold feed bs m) = bound_h m"
    using assms(1) by (induction bs arbitrary: m) (auto simp: feed_ok, auto simp: feed_def Let_def)
  then show ?thesis using assms(2,3) by (auto simp: mouse_set_bounds_def mouse_ok_def)
qed

theorem mouse_on_screen_witness: "mouse_ok (fold feed [0x38, 0x01, 0xFF, 0x00, 0x28, 0x80, 0x80] mouse_boot)"
proof -
  have "mouse_ok mouse_boot" by (simp add: mouse_boot_def mouse_ok_def)
  from mouse_on_screen [OF this, of 1 1] show ?thesis by (simp only: less_numeral_extra)
qed

text \<open>The three bytes the device sends for a movement.\<close>

definition mouse_packet :: "int \<Rightarrow> int \<Rightarrow> u8 \<Rightarrow> u8 list" where
  "mouse_packet dx dy b = [0x08 OR (b AND 0x07) OR (if dx < 0 then 0x10 else 0) OR (if dy < 0 then 0x20 else 0),
     word_of_int dx, word_of_int dy]"

lemma packet_header:
  fixes b :: u8
  assumes "h = 0x08 OR (b AND 0x07) OR (if x then 0x10 else 0) OR (if y then 0x20 else 0)"
  shows "h AND 0x08 \<noteq> 0" "(h AND 0x10 \<noteq> 0) = x" "(h AND 0x20 \<noteq> 0) = y" "h AND 0xC0 = 0" "h AND 0x07 = b AND 0x07"
proof -
  have "list_all (\<lambda>n. list_all (\<lambda>(x, y).
      let c = word_of_nat n :: u8; h = 0x08 OR c OR (if x then 0x10 else 0) OR (if y then 0x20 else 0)
      in h AND 0x08 \<noteq> 0 \<and> (h AND 0x10 \<noteq> 0) = x \<and> (h AND 0x20 \<noteq> 0) = y \<and> h AND 0xC0 = 0 \<and> h AND 0x07 = c)
      [(False, False), (False, True), (True, False), (True, True)]) [0..<8]"
    by code_simp
  moreover have "unat (b AND 0x07) < 8" using unat_and_mask [of b 3] by (simp add: mask_eq_exp_minus_1)
  ultimately have "list_all (\<lambda>(x, y).
      let c = b AND 0x07; h = 0x08 OR c OR (if x then 0x10 else 0) OR (if y then 0x20 else 0)
      in h AND 0x08 \<noteq> 0 \<and> (h AND 0x10 \<noteq> 0) = x \<and> (h AND 0x20 \<noteq> 0) = y \<and> h AND 0xC0 = 0 \<and> h AND 0x07 = c)
      [(False, False), (False, True), (True, False), (True, True)]"
    by (auto simp only: list_all_iff set_upt atLeastLessThan_iff dest!: bspec [where x = "unat (b AND 0x07)"]) simp_all
  then show "h AND 0x08 \<noteq> 0" "(h AND 0x10 \<noteq> 0) = x" "(h AND 0x20 \<noteq> 0) = y" "h AND 0xC0 = 0" "h AND 0x07 = b AND 0x07"
    unfolding assms by (cases x; cases y; simp only: list.pred_inject prod.case Let_def if_True if_False simp_thms)+
qed

lemma packet_delta:
  assumes "-256 \<le> d" and "d < 256"
  shows "uint (word_of_int d :: u8) - (if d < 0 then 256 else 0) = d"
proof (cases "d < 0")
  case True
  then have "(d + 256) mod 256 = d + 256" using assms by (intro mod_pos_pos_trivial) simp_all
  then have "d mod 256 = d + 256" by simp
  then show ?thesis using True by (simp add: uint_word_of_int)
next
  case False
  then show ?thesis using assms by (simp add: uint_word_of_int)
qed

text \<open>
  A packet that the device sends for a movement is understood as that movement: between packets, the
  three bytes for \<open>(dx, dy)\<close> and the buttons move the pointer by \<open>dx\<close> to the right and \<open>dy\<close> up, cut at
  the edges of the screen and scaled on large screens, and the machine is ready for the next packet.
\<close>

theorem mouse_packet_moves:
  assumes "phase m = 0" and "length (packet m) = 3" and "-256 \<le> dx" and "dx < 256" and "-256 \<le> dy" and "dy < 256"
  shows "fold feed (mouse_packet dx dy b) m = m\<lparr>packet := mouse_packet dx dy b,
    mx := clamp (bound_w m) (mx m + (if bound_w m \<ge> 640 then accel dx else dx)),
    my := clamp (bound_h m) (my m - (if bound_w m \<ge> 640 then accel dy else dy)),
    buttons := b AND 0x07, seq := seq m + 1\<rparr>"
proof -
  define h where "h = 0x08 OR (b AND 0x07) OR (if dx < 0 then 0x10 else 0) OR (if dy < 0 then 0x20 else 0)"
  note hd = packet_header [OF h_def]
  have pk: "mouse_packet dx dy b = [h, word_of_int dx, word_of_int dy]" by (simp add: mouse_packet_def h_def)
  obtain a0 a1 a2 where p: "packet m = [a0, a1, a2]"
    using assms(2) by (metis (no_types) length_0_conv length_Suc_conv numeral_3_eq_3)
  have "fold feed [h, word_of_int dx, word_of_int dy] m =
      move [h, word_of_int dx, word_of_int dy] (m\<lparr>packet := [h, word_of_int dx, word_of_int dy], phase := 0\<rparr>)"
    using assms(1) hd(1,4) by (simp add: feed_def p Let_def)
  also have "\<dots> = m\<lparr>packet := [h, word_of_int dx, word_of_int dy],
    mx := clamp (bound_w m) (mx m + (if bound_w m \<ge> 640 then accel dx else dx)),
    my := clamp (bound_h m) (my m - (if bound_w m \<ge> 640 then accel dy else dy)),
    buttons := b AND 0x07, seq := seq m + 1\<rparr>"
    using assms(1) packet_delta [OF assms(3,4)] packet_delta [OF assms(5,6)] by (simp add: move_def hd Let_def)
  finally show ?thesis unfolding pk .
qed

theorem mouse_packet_moves_witness:
  "mx (fold feed (mouse_packet (-20) 7 1) mouse_boot) = 140 \<and> my (fold feed (mouse_packet (-20) 7 1) mouse_boot) = 93"
  using mouse_packet_moves [of mouse_boot "-20" 7 1] by (simp add: mouse_boot_def clamp_def)

end
