(* ===== verification/Floppy.thy ===== *)
theory Floppy
  imports Cpu
begin

text \<open>
  The floppy controller driver of \<open>drivers/floppy.c\<close> at the level of ports. The device is the
  environment: the port model supplies what the status and data registers give, and \<open>naps\<close> says, for
  every time the processor sleeps, whether interrupt 6 has fired when it wakes up and what the DMA
  transfer has left in the bounce buffer by then. The loops of the driver are bounded by the counts in
  the code; only the motor's spin-up waits for the timer.
\<close>

section \<open>State and operations\<close>

record floppy = io +
  irq_fired :: bool
  motor_on :: bool
  fl_timer :: timer
  dma_buf :: "u8 list"
  naps :: "nat \<Rightarrow> bool \<times> u8 list option"
  napped :: nat

definition FDC_DOR :: u16 where "FDC_DOR = 0x3F2"
definition FDC_MSR :: u16 where "FDC_MSR = 0x3F4"
definition FDC_FIFO :: u16 where "FDC_FIFO = 0x3F5"
definition FDC_CCR :: u16 where "FDC_CCR = 0x3F7"
definition CMD_SPECIFY :: u8 where "CMD_SPECIFY = 0x03"
definition CMD_RECALIBRATE :: u8 where "CMD_RECALIBRATE = 0x07"
definition CMD_SENSE_INT :: u8 where "CMD_SENSE_INT = 0x08"
definition CMD_SEEK :: u8 where "CMD_SEEK = 0x0F"
definition CMD_READ :: u8 where "CMD_READ = 0xE6"
definition CMD_WRITE :: u8 where "CMD_WRITE = 0xC5"
definition SPT :: u32 where "SPT = 18"
definition HEADS :: u32 where "HEADS = 2"
definition DMA_BUFFER :: u32 where "DMA_BUFFER = 0x80000"

definition floppy_irq :: "floppy \<Rightarrow> floppy" where
  "floppy_irq s = s\<lparr>irq_fired := True\<rparr>"

definition nap :: "floppy \<Rightarrow> floppy" where
  "nap s =
     (let (fires, dma) = naps s (napped s);
          s = s\<lparr>napped := Suc (napped s), dma_buf := (case dma of Some d \<Rightarrow> d | None \<Rightarrow> dma_buf s)\<rparr>
      in if fires then floppy_irq s else s)"

fun wait_irq_loop :: "nat \<Rightarrow> floppy \<Rightarrow> int \<times> floppy" where
  "wait_irq_loop 0 s = (-1, s)"
| "wait_irq_loop (Suc n) s =
     (if irq_fired s then (0, s\<lparr>irq_fired := False\<rparr>) else wait_irq_loop n (nap s))"

definition wait_irq :: "floppy \<Rightarrow> int \<times> floppy" where
  "wait_irq s = wait_irq_loop 400 s"

fun fdc_write_loop :: "nat \<Rightarrow> u8 \<Rightarrow> floppy \<Rightarrow> floppy" where
  "fdc_write_loop 0 v s = s"
| "fdc_write_loop (Suc n) v s =
     (let (msr, s) = inb FDC_MSR s
      in if msr AND 0xC0 = 0x80 then outb FDC_FIFO v s else fdc_write_loop n v (io_wait s))"

definition fdc_write :: "u8 \<Rightarrow> floppy \<Rightarrow> floppy" where
  "fdc_write v s = fdc_write_loop 10000 v s"

fun fdc_read_loop :: "nat \<Rightarrow> floppy \<Rightarrow> u8 \<times> floppy" where
  "fdc_read_loop 0 s = (0, s)"
| "fdc_read_loop (Suc n) s =
     (let (msr, s) = inb FDC_MSR s
      in if msr AND 0xC0 = 0xC0 then inb FDC_FIFO s else fdc_read_loop n (io_wait s))"

definition fdc_read :: "floppy \<Rightarrow> u8 \<times> floppy" where
  "fdc_read s = fdc_read_loop 10000 s"

definition ensure_motor :: "floppy \<Rightarrow> floppy option" where
  "ensure_motor s =
     (if motor_on s then Some s
      else let s = outb FDC_DOR 0x1C s
           in map_option (\<lambda>t. s\<lparr>fl_timer := t, motor_on := True\<rparr>) (timer_sleep 300 (fl_timer s)))"

definition floppy_motor_off :: "floppy \<Rightarrow> floppy" where
  "floppy_motor_off s = (outb FDC_DOR 0x0C s)\<lparr>motor_on := False\<rparr>"

definition sense_interrupt :: "floppy \<Rightarrow> u8 \<times> u8 \<times> floppy" where
  "sense_interrupt s =
     (let s = fdc_write CMD_SENSE_INT s; (st0, s) = fdc_read s; (cyl, s) = fdc_read s in (st0, cyl, s))"

definition recalibrate :: "floppy \<Rightarrow> (int \<times> floppy) option" where
  "recalibrate s = map_option (\<lambda>s.
     let s = fdc_write 0x00 (fdc_write CMD_RECALIBRATE s);
         (r, s) = wait_irq s
     in if r \<noteq> 0 then (-1, s) else (0, snd (snd (sense_interrupt s)))) (ensure_motor s)"

definition seek :: "u8 \<Rightarrow> u8 \<Rightarrow> floppy \<Rightarrow> int \<times> floppy" where
  "seek cyl head s =
     (let s = fdc_write cyl (fdc_write (push_bit 2 head) (fdc_write CMD_SEEK s));
          (r, s) = wait_irq s
      in if r \<noteq> 0 then (-1, s) else (0, snd (snd (sense_interrupt s))))"

definition floppy_init :: "floppy \<Rightarrow> floppy option" where
  "floppy_init s =
     (let s = pic_unmask 6 s;
          s = outb FDC_DOR 0x0C (outb FDC_DOR 0x00 (s\<lparr>irq_fired := False\<rparr>));
          s = snd (wait_irq s);
          s = fold (\<lambda>_ s. snd (snd (sense_interrupt s))) [0..<4] s;
          s = outb FDC_CCR 0x00 s;
          s = fdc_write 0x02 (fdc_write 0xDF (fdc_write CMD_SPECIFY s))
      in map_option (\<lambda>(r, s). floppy_motor_off s) (recalibrate s))"

definition dma_prepare :: "bool \<Rightarrow> floppy \<Rightarrow> floppy" where
  "dma_prepare wr s = fold (\<lambda>(p, v). outb p v)
     [(0x0A, 0x06), (0x0C, 0xFF), (0x04, ucast (DMA_BUFFER AND 0xFF)), (0x04, ucast (drop_bit 8 DMA_BUFFER AND 0xFF)),
      (0x81, ucast (drop_bit 16 DMA_BUFFER AND 0xFF)), (0x0C, 0xFF), (0x05, ucast ((511 :: u16) AND 0xFF)),
      (0x05, ucast (drop_bit 8 (511 :: u16) AND 0xFF)), (0x0B, if wr then 0x4A else 0x46), (0x0A, 0x02)] s"

definition chs_sector :: "u32 \<Rightarrow> u8" where "chs_sector lba = ucast (lba mod SPT) + 1"
definition chs_head :: "u32 \<Rightarrow> u8" where "chs_head lba = ucast ((lba div SPT) mod HEADS)"
definition chs_cyl :: "u32 \<Rightarrow> u8" where "chs_cyl lba = ucast ((lba div SPT) div HEADS)"

definition rw_command :: "bool \<Rightarrow> u32 \<Rightarrow> u8 list" where
  "rw_command wr lba =
     [if wr then CMD_WRITE else CMD_READ, push_bit 2 (chs_head lba), chs_cyl lba, chs_head lba, chs_sector lba,
      0x02, ucast SPT, 0x1B, 0xFF]"

text \<open>One attempt: the transfer succeeded with this buffer, or it is to be tried again.\<close>

definition rw_attempt :: "u32 \<Rightarrow> u8 list \<Rightarrow> bool \<Rightarrow> floppy \<Rightarrow> (u8 list option \<times> floppy) option" where
  "rw_attempt lba buf wr s =
     (let (r, s) = seek (chs_cyl lba) (chs_head lba) s
      in if r \<noteq> 0 then Some (None, s)
         else let s = (if wr then s\<lparr>dma_buf := buf\<rparr> else s);
                  s = (dma_prepare wr s)\<lparr>irq_fired := False\<rparr>;
                  s = fold fdc_write (rw_command wr lba) s;
                  (r, s) = wait_irq s
         in if r \<noteq> 0 then Some (None, s)
            else let (st0, s) = fdc_read s;
                     s = fold (\<lambda>_ s. snd (fdc_read s)) [0..<6] s
            in if st0 AND 0xC0 = 0 then Some (Some (if wr then buf else dma_buf s), s)
               else map_option (\<lambda>(r, s). (None, s)) (recalibrate s))"

fun rw_loop :: "nat \<Rightarrow> u32 \<Rightarrow> u8 list \<Rightarrow> bool \<Rightarrow> floppy \<Rightarrow> (int \<times> u8 list \<times> floppy) option" where
  "rw_loop 0 lba buf wr s = Some (-1, buf, s)"
| "rw_loop (Suc n) lba buf wr s =
     Option.bind (rw_attempt lba buf wr s) (\<lambda>(res, s).
       case res of Some b \<Rightarrow> Some (0, b, s) | None \<Rightarrow> rw_loop n lba buf wr s)"

definition floppy_rw :: "u32 \<Rightarrow> u8 list \<Rightarrow> bool \<Rightarrow> floppy \<Rightarrow> (int \<times> u8 list \<times> floppy) option" where
  "floppy_rw lba buf wr s = Option.bind (ensure_motor s) (rw_loop 4 lba buf wr)"

definition floppy_read_sector :: "u32 \<Rightarrow> u8 list \<Rightarrow> floppy \<Rightarrow> (int \<times> u8 list \<times> floppy) option" where
  "floppy_read_sector lba buf s = floppy_rw lba buf False s"

definition floppy_write_sector :: "u32 \<Rightarrow> u8 list \<Rightarrow> floppy \<Rightarrow> (int \<times> floppy) option" where
  "floppy_write_sector lba buf s = map_option (\<lambda>(r, _, s). (r, s)) (floppy_rw lba buf True s)"

section \<open>Facts\<close>

lemma sleep_loop_some: "sleep_loop target t \<noteq> None"
  by (cases "ticks t \<le> target") (simp_all add: sleep_loop_waits sleep_loop_past)

lemma timer_sleep_some: "timer_sleep ms t \<noteq> None"
  using sleep_loop_some by (simp add: timer_sleep_def)

lemma ensure_motor_some: "ensure_motor s \<noteq> None"
  using timer_sleep_some by (simp add: ensure_motor_def Let_def)

lemma recalibrate_some: "recalibrate s \<noteq> None"
  using ensure_motor_some by (simp add: recalibrate_def)

lemma rw_attempt_some: "rw_attempt lba buf wr s \<noteq> None"
  by (simp add: rw_attempt_def Let_def recalibrate_some split: prod.split del: not_None_eq)

text \<open>The four attempts end with a result, and only a successful one touches the caller's buffer.\<close>

lemma rw_loop_result:
  "\<exists>r b s1. rw_loop n lba buf wr s = Some (r, b, s1) \<and> (r = 0 \<or> r = -1) \<and> (r = -1 \<longrightarrow> b = buf) \<and> (wr \<longrightarrow> b = buf)"
proof (induction n arbitrary: s)
  case (Suc n)
  obtain res t where a: "rw_attempt lba buf wr s = Some (res, t)" using rw_attempt_some [of lba buf wr s] by auto
  show ?case
  proof (cases res)
    case None
    then show ?thesis using Suc [of t] a by simp
  next
    case (Some b)
    have "b = buf" if wr
      using a that Some by (auto simp: rw_attempt_def Let_def split: prod.splits if_splits)
    then show ?thesis using a Some by auto
  qed
qed simp

lemma floppy_rw_result:
  "\<exists>r b s1. floppy_rw lba buf wr s = Some (r, b, s1) \<and> (r = 0 \<or> r = -1) \<and> (r = -1 \<longrightarrow> b = buf) \<and> (wr \<longrightarrow> b = buf)"
  using ensure_motor_some [of s] rw_loop_result [of 4 lba buf wr] by (auto simp: floppy_rw_def)

text \<open>The address of a sector, as cylinder, head and sector.\<close>

lemma chs_unat:
  assumes "unat lba < 2880"
  shows "unat (chs_sector lba) = unat lba mod 18 + 1" "unat (chs_head lba) = unat lba div 18 mod 2"
    "unat (chs_cyl lba) = unat lba div 18 div 2"
proof -
  have s: "unat (lba mod SPT) = unat lba mod 18" "unat lba mod 18 < 18"
    by (simp_all add: SPT_def unat_mod)
  have h: "unat ((lba div SPT) mod HEADS) = unat lba div 18 mod 2" "unat lba div 18 mod 2 < 2"
    by (simp_all add: SPT_def HEADS_def unat_mod unat_div)
  have c: "unat ((lba div SPT) div HEADS) = unat lba div 18 div 2" "unat lba div 18 div 2 < 80"
    using assms by (simp_all add: SPT_def HEADS_def unat_div)
  have "unat (ucast (lba mod SPT) :: u8) = unat lba mod 18" using s by (intro trans [OF unat_ucast_less]) simp_all
  then show "unat (chs_sector lba) = unat lba mod 18 + 1"
    using s(2) by (simp add: chs_sector_def unat_plus_simple)
  show "unat (chs_head lba) = unat lba div 18 mod 2"
    unfolding chs_head_def using h by (intro trans [OF unat_ucast_less]) simp_all
  show "unat (chs_cyl lba) = unat lba div 18 div 2"
    unfolding chs_cyl_def using c by (intro trans [OF unat_ucast_less]) simp_all
qed

section \<open>Properties\<close>


text \<open>
  The cylinder, head and sector the driver asks for determine the sector of the disk: on a disk of
  80 cylinders with two heads and 18 sectors per track, different sector numbers have different
  addresses, all of them on the disk.
\<close>

theorem chs_address:
  assumes "unat lba < 2880"
  shows "unat (chs_cyl lba) < 80 \<and> unat (chs_head lba) < 2 \<and> 1 \<le> unat (chs_sector lba) \<and> unat (chs_sector lba) \<le> 18 \<and>
    (unat (chs_cyl lba) * 2 + unat (chs_head lba)) * 18 + (unat (chs_sector lba) - 1) = unat lba"
proof -
  have "(unat lba div 18 div 2 * 2 + unat lba div 18 mod 2) * 18 + unat lba mod 18 = unat lba"
    by (metis div_mult_mod_eq)
  moreover have "unat lba div 18 div 2 < 80" using assms by simp
  moreover have "unat lba mod 18 < 18" by simp
  ultimately show ?thesis by (simp add: chs_unat [OF assms])
qed

theorem chs_address_witness: "unat (chs_cyl 2879) = 79 \<and> unat (chs_sector 2879) = 18"
  using chs_address [of 2879] by simp (simp add: chs_cyl_def chs_sector_def SPT_def HEADS_def)

end
