(* ===== verification/Machine.thy ===== *)
theory Machine
  imports Sched Input Floppy
begin

text \<open>
  The interrupt dispatcher of \<open>cpu/idt.c\<close>, the system calls of \<open>cpu/syscall.c\<close> and the page fault report of
  \<open>mm/paging.c\<close>, over the state of all the components that interrupts reach. The ports belong to the
  console's state. A handler that halts the processor ends with the outcome \<open>Halted\<close>.
\<close>

section \<open>State\<close>

record registers =
  r_ds :: u32
  r_edi :: u32
  r_esi :: u32
  r_ebp :: u32
  r_esp :: u32
  r_ebx :: u32
  r_edx :: u32
  r_ecx :: u32
  r_eax :: u32
  int_no :: u32
  err_code :: u32
  r_eip :: u32
  r_cs :: u32
  r_eflags :: u32

record machine =
  m_con :: console
  m_kbd :: kbd
  m_mouse :: mouse
  m_timer :: timer
  m_fdc_irq :: bool
  m_sched :: sched
  m_mem :: "u32 \<Rightarrow> u8"
  m_cr2 :: u32

text \<open>\<open>Returned\<close>: the handler returns to the interrupted code. \<open>Left\<close>: the calling task has ended and
  another one continues. \<open>Halted\<close>: the processor stops.\<close>

datatype outcome = Returned registers machine | Left machine | Halted machine

definition con_do :: "(console \<Rightarrow> console option) \<Rightarrow> machine \<Rightarrow> machine option" where
  "con_do f m = map_option (\<lambda>c. m\<lparr>m_con := c\<rparr>) (f (m_con m))"

fun con_seq :: "(console \<Rightarrow> console option) list \<Rightarrow> console \<Rightarrow> console option" where
  "con_seq [] c = Some c"
| "con_seq (f # fs) c = Option.bind (f c) (con_seq fs)"

section \<open>System calls\<close>

definition SYS_EXIT :: u32 where "SYS_EXIT = 0"
definition SYS_PUTC :: u32 where "SYS_PUTC = 1"
definition SYS_WRITE :: u32 where "SYS_WRITE = 2"
definition SYS_GETCPL :: u32 where "SYS_GETCPL = 3"

fun write_bytes :: "nat \<Rightarrow> u32 \<Rightarrow> u32 \<Rightarrow> machine \<Rightarrow> machine option" where
  "write_bytes 0 p i m = Some m"
| "write_bytes (Suc n) p i m =
     Option.bind (con_do (console_putc (byte_chr (m_mem m (p + i)))) m) (write_bytes n p (i + 1))"

definition syscall_dispatch :: "registers \<Rightarrow> machine \<Rightarrow> outcome option" where
  "syscall_dispatch r m =
     (if r_eax r = SYS_EXIT then map_option (\<lambda>s. Left (m\<lparr>m_sched := s\<rparr>)) (task_exit (m_sched m))
      else if r_eax r = SYS_PUTC
      then map_option (Returned (r\<lparr>r_eax := 0\<rparr>)) (con_do (console_putc (byte_chr (ucast (r_ebx r AND 0xFF)))) m)
      else if r_eax r = SYS_WRITE
      then map_option (Returned (r\<lparr>r_eax := r_ecx r\<rparr>)) (write_bytes (unat (r_ecx r)) (r_ebx r) 0 m)
      else if r_eax r = SYS_GETCPL then Some (Returned (r\<lparr>r_eax := r_cs r AND 3\<rparr>) m)
      else Some (Returned (r\<lparr>r_eax := -1\<rparr>) m))"

section \<open>Exceptions and interrupts\<close>

definition halt_line :: string where "halt_line = CHR 0x0A # '' PumpkinOS halted.'' @ [CHR 0x0A]"

definition paging_fault :: "registers \<Rightarrow> machine \<Rightarrow> outcome option" where
  "paging_fault r m = map_option Halted (con_do (con_seq [
     \<lambda>c. Some (console_set_color 15 4 c),
     console_write ([CHR 0x0A, CHR 0x0A] @ '' *** PAGE FAULT *** faulting address ''),
     console_write_hex (m_cr2 m),
     console_write (CHR 0x0A # ''  cause: ''),
     console_write (if err_code r AND 0x1 \<noteq> 0 then ''protection violation'' else ''page not present''),
     console_write (if err_code r AND 0x2 \<noteq> 0 then '', on write'' else '', on read''),
     console_write (if err_code r AND 0x4 \<noteq> 0 then '', user mode'' else '', kernel mode''),
     console_write (if err_code r AND 0x10 \<noteq> 0 then '', instruction fetch'' else []),
     console_write (CHR 0x0A # ''  eip = ''),
     console_write_hex (r_eip r),
     console_write halt_line]) m)"

definition exception_names :: "string list" where
  "exception_names = [''Divide-by-zero'', ''Debug'', ''Non-maskable interrupt'', ''Breakpoint'', ''Overflow'',
     ''Bound range exceeded'', ''Invalid opcode'', ''Device not available'', ''Double fault'',
     ''Coprocessor segment overrun'', ''Invalid TSS'', ''Segment not present'', ''Stack-segment fault'',
     ''General protection fault'', ''Page fault'', ''Reserved'', ''x87 floating-point'', ''Alignment check'',
     ''Machine check'', ''SIMD floating-point'', ''Virtualization'', ''Control protection''] @ replicate 10 ''Reserved''"

definition exception_report :: "registers \<Rightarrow> machine \<Rightarrow> outcome option" where
  "exception_report r m = map_option Halted (con_do (con_seq [
     \<lambda>c. Some (console_set_color 15 4 c),
     console_write ([CHR 0x0A, CHR 0x0A] @ '' *** CPU EXCEPTION *** ''),
     console_write (exception_names ! unat (int_no r)),
     console_write '' (vector '',
     console_write_dec (int_no r),
     console_write '', error code '',
     console_write_hex (err_code r),
     console_write ('')'' @ CHR 0x0A # '' at eip=''),
     console_write_hex (r_eip r),
     console_write halt_line]) m)"

definition eoi :: "int \<Rightarrow> machine \<Rightarrow> machine" where
  "eoi irq m = m\<lparr>m_con := pic_send_eoi irq (m_con m)\<rparr>"

definition isr_handler :: "registers \<Rightarrow> machine \<Rightarrow> outcome option" where
  "isr_handler r m =
     (if int_no r = 128 then syscall_dispatch r m
      else if int_no r = 14 then paging_fault r m
      else if int_no r < 32 then exception_report r m
      else let irq = sint (int_no r - 32)
      in if irq = 0
         then let m = eoi irq (m\<lparr>m_timer := timer_irq (m_timer m)\<rparr>)
              in map_option (\<lambda>s. Returned r (m\<lparr>m_sched := s\<rparr>)) (sched_tick (m_sched m))
         else if irq = 1
         then let (k, c) = keyboard_irq (m_kbd m) (m_con m) in Some (Returned r (eoi irq (m\<lparr>m_kbd := k, m_con := c\<rparr>)))
         else if irq = 6 then Some (Returned r (eoi irq (m\<lparr>m_fdc_irq := True\<rparr>)))
         else if irq = 12
         then map_option (\<lambda>(p, c). Returned r (eoi irq (m\<lparr>m_mouse := p, m_con := c\<rparr>))) (mouse_irq (m_mouse m) (m_con m))
         else Some (Returned r (eoi irq m)))"

section \<open>Facts\<close>

lemma write_bytes_console:
  "write_bytes n p i m = con_do (console_write (map (\<lambda>j. byte_chr (m_mem m (p + i + word_of_nat j))) [0..<n])) m"
proof (induction n arbitrary: i m)
  case 0
  then show ?case by (simp add: con_do_def)
next
  case (Suc n)
  have up: "[0..<Suc n] = 0 # map Suc [0..<n]" by (simp add: upt_conv_Cons map_Suc_upt del: upt_Suc)
  have sh: "p + i + word_of_nat (Suc j) = p + (i + 1) + word_of_nat j" for j by (simp add: algebra_simps)
  show ?case unfolding up write_bytes.simps Suc
    by (cases "console_putc (byte_chr (m_mem m (p + i))) (m_con m)")
      (simp_all add: con_do_def sh o_def option.map_comp del: of_nat_Suc)
qed

lemma inb_outs [simp]: "outs (snd (inb p s)) = outs s"
  by (simp add: inb_def)

lemma keyboard_irq_outs [simp]: "outs (snd (keyboard_irq k s)) = outs s"
  by (simp add: keyboard_irq_def inb_def)

lemma mouse_irq_outs:
  assumes "mouse_irq m s = Some (m1, s1)"
  shows "outs s1 = outs s"
proof -
  have "outs (snd y) = outs s" if "mouse_irq m s = Some y" for y
    using that
  proof (rule mouse_irq.raw_induct [where P = "\<lambda>m s y. outs (snd y) = outs s", rotated])
    fix loop m and s :: "'a io_scheme" and y
    assume IH: "\<And>m s y. loop m s = Some y \<Longrightarrow> outs (snd y) = outs s"
      and st: "(let r1 = inb PS2_STATUS s
      in if fst r1 AND 0x01 = 0 then Some (m, snd r1)
         else let r2 = inb PS2_STATUS (snd r1)
         in if fst r2 AND 0x20 = 0 then Some (m, snd r2)
            else let r3 = inb PS2_DATA (snd r2) in loop (feed (fst r3) m) (snd r3)) = Some y"
    show "outs (snd y) = outs s"
      using st IH by (auto simp: Let_def split: if_splits)
  qed
  then show ?thesis using assms by fastforce
qed

text \<open>The commands that acknowledge an interrupt: the slave controller first, then the master.\<close>

definition eoi_commands :: "int \<Rightarrow> (u16 \<times> u8) list" where
  "eoi_commands irq = (if irq \<ge> 8 then [(0xA0, 0x20), (0x20, 0x20)] else [(0x20, 0x20)])"

lemma eoi_outs [simp]: "outs (m_con (eoi irq m)) = outs (m_con m) @ eoi_commands irq"
  by (simp add: eoi_def pic_send_eoi_def outb_def eoi_commands_def PIC1_CMD_def PIC2_CMD_def PIC_EOI_def)

lemma m_con_sched [simp]: "m_con (m\<lparr>m_sched := s\<rparr>) = m_con m"
  by simp

lemma paging_fault_halts: "paging_fault r m = Some res \<Longrightarrow> \<exists>m1. res = Halted m1"
  unfolding paging_fault_def by (simp only: map_option_eq_Some) blast

lemma exception_report_halts: "exception_report r m = Some res \<Longrightarrow> \<exists>m1. res = Halted m1"
  unfolding exception_report_def by (simp only: map_option_eq_Some) blast

section \<open>Properties\<close>


definition sample_regs :: registers where
  "sample_regs = \<lparr>r_ds = 0x10, r_edi = 0, r_esi = 0, r_ebp = 0, r_esp = 0, r_ebx = 0x400000, r_edx = 0, r_ecx = 2, r_eax = 2,
     int_no = 128, err_code = 0, r_eip = 0x400000, r_cs = 0x1B, r_eflags = 0x202\<rparr>"

definition sample_machine :: machine where
  "sample_machine = \<lparr>m_con = blank_console, m_kbd = kbd_boot, m_mouse = mouse_boot, m_timer = \<lparr>ticks = 0, frequency = 100\<rparr>,
     m_fdc_irq = False, m_sched = boot_sched boot_heap, m_mem = (\<lambda>_. 0)(0x400000 := 72, 0x400001 := 105), m_cr2 = 0\<rparr>"


text \<open>
  System calls on a working console: \<open>SYS_WRITE\<close> sends exactly the bytes at the given address to the
  serial line and returns their number, \<open>SYS_GETCPL\<close> returns the privilege level of the caller, and a
  number that is no system call returns -1 and changes nothing else.
\<close>

theorem syscall_contract:
  assumes "uart_live (m_con m)" and "con_inv (m_con m)"
  shows "(r_eax r = SYS_WRITE \<longrightarrow> (\<exists>m1. syscall_dispatch r m = Some (Returned (r\<lparr>r_eax := r_ecx r\<rparr>) m1) \<and> con_inv (m_con m1) \<and>
      sent (m_con m1) = sent (m_con m) @
        concat (map (\<lambda>j. serial_form (byte_chr (m_mem m (r_ebx r + word_of_nat j)))) [0..<unat (r_ecx r)]))) \<and>
    (r_eax r = SYS_GETCPL \<longrightarrow> syscall_dispatch r m = Some (Returned (r\<lparr>r_eax := r_cs r AND 3\<rparr>) m)) \<and>
    (3 < r_eax r \<longrightarrow> syscall_dispatch r m = Some (Returned (r\<lparr>r_eax := -1\<rparr>) m))"
proof (intro conjI impI)
  assume w: "r_eax r = SYS_WRITE"
  let ?cs = "map (\<lambda>j. byte_chr (m_mem m (r_ebx r + 0 + word_of_nat j))) [0..<unat (r_ecx r)]"
  obtain c where c: "console_write ?cs (m_con m) = Some c" "con_inv c" "sent c = sent (m_con m) @ concat (map serial_form ?cs)"
    using console_write_ok [OF assms, of ?cs] by blast
  have "syscall_dispatch r m = Some (Returned (r\<lparr>r_eax := r_ecx r\<rparr>) (m\<lparr>m_con := c\<rparr>))"
    by (simp only: syscall_dispatch_def w write_bytes_console con_do_def c(1))
      (simp add: SYS_WRITE_def SYS_PUTC_def SYS_EXIT_def)
  then show "\<exists>m1. syscall_dispatch r m = Some (Returned (r\<lparr>r_eax := r_ecx r\<rparr>) m1) \<and> con_inv (m_con m1) \<and>
      sent (m_con m1) = sent (m_con m) @
        concat (map (\<lambda>j. serial_form (byte_chr (m_mem m (r_ebx r + word_of_nat j)))) [0..<unat (r_ecx r)])"
    using c(2,3) by (simp add: o_def)
next
  assume "r_eax r = SYS_GETCPL"
  then show "syscall_dispatch r m = Some (Returned (r\<lparr>r_eax := r_cs r AND 3\<rparr>) m)"
    by (simp add: syscall_dispatch_def SYS_WRITE_def SYS_PUTC_def SYS_EXIT_def SYS_GETCPL_def)
next
  assume "3 < r_eax r"
  then have "r_eax r \<noteq> 0" "r_eax r \<noteq> 1" "r_eax r \<noteq> 2" "r_eax r \<noteq> 3" by auto
  then show "syscall_dispatch r m = Some (Returned (r\<lparr>r_eax := -1\<rparr>) m)"
    by (simp add: syscall_dispatch_def SYS_WRITE_def SYS_PUTC_def SYS_EXIT_def SYS_GETCPL_def)
qed

theorem syscall_contract_witness:
  "\<exists>m1. syscall_dispatch sample_regs sample_machine = Some (Returned sample_regs m1) \<and> sent (m_con m1) = [72, 105]"
proof -
  have e: "m_con sample_machine = blank_console" "r_eax sample_regs = SYS_WRITE" "unat (r_ecx sample_regs) = 2"
    "r_ebx sample_regs = 0x400000" "sample_regs\<lparr>r_eax := r_ecx sample_regs\<rparr> = sample_regs" "sent blank_console = []"
    by (simp_all add: sample_machine_def sample_regs_def SYS_WRITE_def sent_def blank_console_def)
  have "m_mem sample_machine 0x400000 = 72" "m_mem sample_machine 0x400001 = 105" by (simp_all add: sample_machine_def)
  moreover have "serial_form (byte_chr 72) = [72]" "serial_form (byte_chr 105) = [105]" by code_simp+
  ultimately show ?thesis
    using syscall_contract [of sample_machine sample_regs] blank_console_ready by (simp add: e upt_rec) blast
qed

end
