(* ===== verification/StringLib.thy ===== *)
theory StringLib
  imports Prelude
begin

text \<open>
  The memory and string helpers of \<open>lib/string.c\<close> over a byte store. Pointers are 32-bit
  addresses and wrap; the loops that stop at a terminating 0 byte are partial functions, since they
  never end when there is none.
\<close>

section \<open>Operations\<close>

type_synonym bytes = "u32 \<Rightarrow> u8"

fun memset :: "u32 \<Rightarrow> u8 \<Rightarrow> nat \<Rightarrow> bytes \<Rightarrow> bytes" where
  "memset d c 0 m = m"
| "memset d c (Suc n) m = memset (d + 1) c n (m(d := c))"

fun memcpy :: "u32 \<Rightarrow> u32 \<Rightarrow> nat \<Rightarrow> bytes \<Rightarrow> bytes" where
  "memcpy d s 0 m = m"
| "memcpy d s (Suc n) m = memcpy (d + 1) (s + 1) n (m(d := m s))"

text \<open>The backward loop of \<open>memmove\<close>, after \<open>d += n; s += n\<close>.\<close>

fun copy_back :: "u32 \<Rightarrow> u32 \<Rightarrow> nat \<Rightarrow> bytes \<Rightarrow> bytes" where
  "copy_back d s 0 m = m"
| "copy_back d s (Suc n) m = copy_back (d - 1) (s - 1) n (m(d - 1 := m (s - 1)))"

definition memmove :: "u32 \<Rightarrow> u32 \<Rightarrow> nat \<Rightarrow> bytes \<Rightarrow> bytes" where
  "memmove d s n m =
     (if d < s then memcpy d s n m else copy_back (d + word_of_nat n) (s + word_of_nat n) n m)"

fun memcmp :: "u32 \<Rightarrow> u32 \<Rightarrow> nat \<Rightarrow> bytes \<Rightarrow> int" where
  "memcmp a b 0 m = 0"
| "memcmp a b (Suc n) m =
     (if m a \<noteq> m b then uint (m a) - uint (m b) else memcmp (a + 1) (b + 1) n m)"

partial_function (option) strlen_loop :: "u32 \<Rightarrow> u32 \<Rightarrow> bytes \<Rightarrow> u32 option" where
  "strlen_loop s n m = (if m (s + n) \<noteq> 0 then strlen_loop s (n + 1) m else Some n)"

definition strlen :: "u32 \<Rightarrow> bytes \<Rightarrow> u32 option" where
  "strlen s m = strlen_loop s 0 m"

partial_function (option) strcmp :: "u32 \<Rightarrow> u32 \<Rightarrow> bytes \<Rightarrow> int option" where
  "strcmp a b m =
     (if m a \<noteq> 0 \<and> m a = m b then strcmp (a + 1) (b + 1) m else Some (uint (m a) - uint (m b)))"

fun strncmp :: "u32 \<Rightarrow> u32 \<Rightarrow> nat \<Rightarrow> bytes \<Rightarrow> int" where
  "strncmp a b 0 m = 0"
| "strncmp a b (Suc n) m =
     (if m a \<noteq> m b then uint (m a) - uint (m b)
      else if m a = 0 then 0
      else strncmp (a + 1) (b + 1) n m)"

section \<open>Memory\<close>

text \<open>The bytes of the region of length \<open>n\<close> at \<open>a\<close>, which may wrap around the address space.\<close>

definition region :: "u32 \<Rightarrow> nat \<Rightarrow> u32 set" where
  "region a n = {a + word_of_nat i | i. i < n}"

definition load :: "u32 \<Rightarrow> nat \<Rightarrow> bytes \<Rightarrow> u8 list" where
  "load a n m = map (\<lambda>i. m (a + word_of_nat i)) [0..<n]"

lemma load_0 [simp]: "load a 0 m = []"
  by (simp add: load_def)

lemma load_Suc: "load a (Suc n) m = m a # load (a + 1) n m"
proof -
  have "load a (Suc n) m = map (\<lambda>i. m (a + word_of_nat i)) (0 # map Suc [0..<n])"
    unfolding load_def by (simp only: upt_rec [of 0 "Suc n"] map_Suc_upt zero_less_Suc if_True)
  then show ?thesis by (simp add: load_def add.assoc)
qed

lemma region_Suc: "region a (Suc n) = insert a (region (a + 1) n)"
proof -
  have "region a (Suc n) = (\<lambda>i. a + word_of_nat i) ` {..<Suc n}" by (auto simp: region_def)
  also have "\<dots> = insert a ((\<lambda>i. a + word_of_nat (Suc i)) ` {..<n})"
    by (simp add: lessThan_Suc_eq_insert_0 image_image)
  also have "(\<lambda>i. a + word_of_nat (Suc i)) ` {..<n} = region (a + 1) n"
    by (auto simp: region_def add.assoc)
  finally show ?thesis .
qed

lemma region_0 [simp]: "region a 0 = {}"
  by (simp add: region_def)

lemma in_region:
  assumes "n \<le> 2 ^ 32"
  shows "x \<in> region a n \<longleftrightarrow> unat (x - a) < n"
proof
  assume "x \<in> region a n"
  then obtain i where "i < n" "x = a + word_of_nat i" by (auto simp: region_def)
  then show "unat (x - a) < n" using assms by (simp add: unat_of_nat_less)
next
  assume "unat (x - a) < n"
  then show "x \<in> region a n" unfolding region_def by (intro CollectI exI [of _ "unat (x - a)"]) simp
qed

lemma memset_spec: "memset d c n m x = (if x \<in> region d n then c else m x)"
  by (induction n arbitrary: d m) (auto simp: region_Suc)

text \<open>
  The forward loop is right unless the destination starts inside the source after its first byte;
  the backward loop unless the source starts inside the destination.
\<close>

lemma memcpy_spec:
  assumes "n \<le> 2 ^ 32" and "d = s \<or> n \<le> unat (d - s)"
  shows "memcpy d s n m x = (if x \<in> region d n then m (x - d + s) else m x)"
  using assms
proof (induction n arbitrary: d s m)
  case (Suc n)
  let ?m = "m(d := m s)"
  have ih: "memcpy (d + 1) (s + 1) n ?m x = (if x \<in> region (d + 1) n then ?m (x - (d + 1) + (s + 1)) else ?m x)"
    using Suc.prems by (intro Suc.IH) auto
  have "?m (x - d + s) = m (x - d + s)" if "x \<in> region (d + 1) n"
  proof (cases "d = s")
    case False
    have "x - d + s \<noteq> d"
    proof
      assume "x - d + s = d"
      then have e: "x - (d + 1) = (d - s) - 1" by (simp add: algebra_simps)
      have "unat (x - (d + 1)) < n" using that in_region [of n x "d + 1"] Suc.prems(1) by simp
      moreover have "unat ((d - s) - 1) = unat (d - s) - 1"
        using False by (subst unat_minus_one) auto
      ultimately show False using e Suc.prems(2) False by simp
    qed
    then show ?thesis by simp
  qed simp
  moreover have "d \<notin> region (d + 1) n"
  proof -
    have "unat (- 1 :: u32) = 2 ^ 32 - 1" by (simp add: unat_eq_nat_uint uint_word_ariths)
    then show ?thesis using Suc.prems(1) by (subst in_region) auto
  qed
  ultimately show ?case
    using ih by (auto simp: region_Suc algebra_simps)
qed simp

lemma copy_back_spec:
  assumes "n \<le> 2 ^ 32" and "d = s \<or> n \<le> unat (s - d)"
  shows "copy_back (d + word_of_nat n) (s + word_of_nat n) n m x = (if x \<in> region d n then m (x - d + s) else m x)"
  using assms
proof (induction n arbitrary: m)
  case (Suc n)
  let ?d = "d + word_of_nat n" and ?s = "s + word_of_nat n"
  let ?m = "m(?d := m ?s)"
  have ih: "copy_back ?d ?s n ?m x = (if x \<in> region d n then ?m (x - d + s) else ?m x)"
    using Suc.prems by (intro Suc.IH) auto
  have "?m (x - d + s) = m (x - d + s)" if "x \<in> region d n"
  proof (cases "d = s")
    case False
    have "x - d + s \<noteq> ?d"
    proof
      assume "x - d + s = ?d"
      then have e: "s - d + (x - d) = word_of_nat n" by (simp add: algebra_simps)
      have lt: "unat (x - d) < n" using that in_region [of n x d] Suc.prems(1) by simp
      from e have "s - d = word_of_nat n - (x - d)" by (simp add: algebra_simps)
      also have "\<dots> = word_of_nat (n - unat (x - d))" using lt by (simp add: of_nat_diff)
      finally have "unat (s - d) = n - unat (x - d)"
        using Suc.prems(1) by (simp add: unat_of_nat_less)
      then show False using Suc.prems(2) False by simp
    qed
    then show ?thesis by simp
  qed simp
  moreover have "region d (Suc n) = insert ?d (region d n)" by (auto simp: region_def less_Suc_eq)
  ultimately show ?case
    using ih by (auto simp: algebra_simps)
qed simp

lemma nth_load: "i < n \<Longrightarrow> load a n m ! i = m (a + word_of_nat i)"
  by (simp add: load_def)

lemma length_load [simp]: "length (load a n m) = n"
  by (simp add: load_def)

lemma load_copied:
  assumes "\<And>x. m' x = (if x \<in> region d n then m (x - d + s) else m x)"
  shows "load d n m' = load s n m"
proof (rule nth_equalityI)
  fix i assume i: "i < length (load d n m')"
  then have "d + word_of_nat i \<in> region d n" by (auto simp: region_def)
  then show "load d n m' ! i = load s n m ! i" using i by (simp add: nth_load assms algebra_simps)
qed simp

section \<open>Strings\<close>

text \<open>The C string at \<open>a\<close> consists of the nonzero bytes \<open>xs\<close> and a terminating 0.\<close>

fun cstr :: "bytes \<Rightarrow> u32 \<Rightarrow> u8 list \<Rightarrow> bool" where
  "cstr m a [] \<longleftrightarrow> m a = 0"
| "cstr m a (x # xs) \<longleftrightarrow> m a = x \<and> x \<noteq> 0 \<and> cstr m (a + 1) xs"

lemma strlen_loop_cstr:
  "cstr m (s + n) xs \<Longrightarrow> strlen_loop s n m = Some (n + word_of_nat (length xs))"
proof (induction xs arbitrary: n)
  case Nil
  then show ?case by (subst strlen_loop.simps) simp
next
  case (Cons x xs)
  then have "strlen_loop s n m = strlen_loop s (n + 1) m" by (subst strlen_loop.simps) simp
  also have "\<dots> = Some (n + 1 + word_of_nat (length xs))" using Cons by (intro Cons.IH) (simp add: add.assoc)
  finally show ?case by (simp add: algebra_simps)
qed

text \<open>The difference of the bytes at the first position where two byte lists differ.\<close>

fun first_diff :: "u8 list \<Rightarrow> u8 list \<Rightarrow> int" where
  "first_diff (x # xs) (y # ys) = (if x = y then first_diff xs ys else uint x - uint y)"
| "first_diff [] (y # ys) = - uint y"
| "first_diff (x # xs) [] = uint x"
| "first_diff [] [] = 0"

lemma first_diff_zero:
  "(\<forall>x \<in> set xs \<union> set ys. x \<noteq> 0) \<Longrightarrow> first_diff xs ys = 0 \<longleftrightarrow> xs = ys"
  by (induction xs ys rule: first_diff.induct) (auto simp: uint_0_iff dest: word_uint_eqI)

lemma cstr_nonzero: "cstr m a xs \<Longrightarrow> \<forall>x \<in> set xs. x \<noteq> 0"
  by (induction xs arbitrary: a) auto

lemma strcmp_cstr: "cstr m a xs \<Longrightarrow> cstr m b ys \<Longrightarrow> strcmp a b m = Some (first_diff xs ys)"
proof (induction xs ys arbitrary: a b rule: first_diff.induct)
  case (1 x xs y ys)
  then show ?case by (subst strcmp.simps) auto
qed (subst strcmp.simps, auto)+

section \<open>Properties\<close>

text \<open>
  \<open>memmove\<close> copies correctly for every overlap of source and destination that stays inside the
  address space: the destination then holds what the source held before, and no other byte changes.
\<close>

theorem memmove_overlap:
  assumes "unat d + n \<le> 2 ^ 32" and "unat s + n \<le> 2 ^ 32"
  shows "load d n (memmove d s n m) = load s n m \<and> (\<forall>x. x \<notin> region d n \<longrightarrow> memmove d s n m x = m x)"
proof -
  have n: "n \<le> 2 ^ 32" using assms by simp
  have "memmove d s n m x = (if x \<in> region d n then m (x - d + s) else m x)" for x
  proof (cases "d < s")
    case True
    have "n \<le> unat (d - s)" using True assms by (simp add: unat_sub_if_size word_size word_less_nat_alt)
    then show ?thesis using True memcpy_spec [OF n, of d s m x] by (simp add: memmove_def)
  next
    case False
    have "d = s \<or> n \<le> unat (s - d)"
      using False assms by (auto simp: unat_sub_if_size word_size word_less_nat_alt word_unat_eq_iff)
    then show ?thesis using False copy_back_spec [OF n, of d s m x] by (simp add: memmove_def)
  qed
  then show ?thesis using load_copied [of "memmove d s n m" d n m s] by simp
qed

theorem memmove_overlap_witness:
  "unat (100 :: u32) + 4 \<le> 2 ^ 32 \<and> unat (98 :: u32) + 4 \<le> 2 ^ 32 \<and>
   load 100 4 (memmove 100 98 4 ucast) = [98, 99, 100, 101]"
  using memmove_overlap [of 100 4 98 ucast] by (simp add: load_def upt_rec)

text \<open>
  On terminated strings \<open>strlen\<close> and \<open>strcmp\<close> return: the length, and the difference of the
  first two bytes that differ, which is 0 exactly for equal strings.
\<close>

theorem strcmp_terminated:
  assumes "cstr m a xs" and "cstr m b ys"
  shows "strlen a m = Some (word_of_nat (length xs)) \<and> strcmp a b m = Some (first_diff xs ys) \<and>
    (strcmp a b m = Some 0 \<longleftrightarrow> xs = ys)"
  using strlen_loop_cstr [of m a 0 xs] strcmp_cstr [OF assms] first_diff_zero [of xs ys]
    cstr_nonzero [OF assms(1)] cstr_nonzero [OF assms(2)] assms
  by (auto simp: strlen_def)

definition two_strings :: bytes where
  "two_strings a = (if a = 16 then 65 else if a = 32 then 65 else if a = 33 then 66 else 0)"

theorem strcmp_terminated_witness:
  "cstr two_strings 16 [65] \<and> cstr two_strings 32 [65, 66] \<and> strcmp 16 32 two_strings = Some (-66)"
  using strcmp_terminated [of two_strings 16 "[65]" 32 "[65, 66]"] by (simp add: two_strings_def)

end
