(* ===== verification/Rtc.thy ===== *)
theory Rtc
  imports Console
begin

text \<open>
  The real-time clock of \<open>drivers/rtc.c\<close>: waiting for the end of an update, reading until two reads
  agree, and decoding BCD and 12-hour registers. Reading is over the port model of \<open>Console\<close>; the
  two loops are partial functions.
\<close>

section \<open>Data and operations\<close>

record rtc_time =
  year :: u16
  month :: u8
  day :: u8
  hour :: u8
  minute :: u8
  second :: u8

definition CMOS_ADDR :: u16 where "CMOS_ADDR = 0x70"
definition CMOS_DATA :: u16 where "CMOS_DATA = 0x71"

definition cmos_read :: "u8 \<Rightarrow> 'a io_scheme \<Rightarrow> u8 \<times> 'a io_scheme" where
  "cmos_read reg s = inb CMOS_DATA (outb CMOS_ADDR reg s)"

definition update_in_progress :: "'a io_scheme \<Rightarrow> bool \<times> 'a io_scheme" where
  "update_in_progress s = (let (v, s) = inb CMOS_DATA (outb CMOS_ADDR 0x0A s) in (v AND 0x80 \<noteq> 0, s))"

definition bcd2bin :: "u8 \<Rightarrow> u8" where
  "bcd2bin v = (v AND 0x0F) + drop_bit 4 v * 10"

partial_function (option) rtc_wait :: "'a io_scheme \<Rightarrow> 'a io_scheme option" where
  "rtc_wait s = (if fst (update_in_progress s) then rtc_wait (snd (update_in_progress s))
     else Some (snd (update_in_progress s)))"

type_synonym rtc_raw = "u8 \<times> u8 \<times> u8 \<times> u8 \<times> u8 \<times> u8"

definition read_raw :: "'a io_scheme \<Rightarrow> (rtc_raw \<times> 'a io_scheme) option" where
  "read_raw s = map_option (\<lambda>s.
     let (sec, s) = cmos_read 0x00 s;
         (mi, s) = cmos_read 0x02 s;
         (h, s) = cmos_read 0x04 s;
         (d, s) = cmos_read 0x07 s;
         (mo, s) = cmos_read 0x08 s;
         (y, s) = cmos_read 0x09 s
     in ((sec, mi, h, d, mo, y), s)) (rtc_wait s)"

partial_function (option) rtc_agree :: "rtc_raw \<Rightarrow> 'a io_scheme \<Rightarrow> (rtc_raw \<times> 'a io_scheme) option" where
  "rtc_agree prev s = Option.bind (read_raw s) (\<lambda>(raw, s). if raw \<noteq> prev then rtc_agree raw s else Some (raw, s))"

definition rtc_decode :: "rtc_raw \<Rightarrow> u8 \<Rightarrow> rtc_time" where
  "rtc_decode raw regb =
     (let (s, m, h, d, mo, y) = raw;
          is_bcd = (regb AND 0x04 = 0);
          is_12h = (regb AND 0x02 = 0);
          pm = (h AND 0x80 \<noteq> 0);
          h = h AND 0x7F;
          (s, m, h, d, mo, y) =
            (if is_bcd then (bcd2bin s, bcd2bin m, bcd2bin h, bcd2bin d, bcd2bin mo, bcd2bin y)
             else (s, m, h, d, mo, y));
          h = (if is_12h then (let h = (if h = 12 then 0 else h) in if pm then h + 12 else h) else h)
      in \<lparr>year = 2000 + ucast y, month = mo, day = d, hour = h, minute = m, second = s\<rparr>)"

definition rtc_read :: "'a io_scheme \<Rightarrow> (rtc_time \<times> 'a io_scheme) option" where
  "rtc_read s =
     Option.bind (read_raw s) (\<lambda>(raw, s).
     Option.bind (rtc_agree raw s) (\<lambda>(raw, s).
       let (regb, s) = cmos_read 0x0B s in Some (rtc_decode raw regb, s)))"

section \<open>Decoding\<close>

text \<open>What a clock chip holds in its registers in each of its four modes.\<close>

definition bin2bcd :: "nat \<Rightarrow> u8" where
  "bin2bcd n = word_of_nat (16 * (n div 10) + n mod 10)"

definition rtc_encode_hour :: "(nat \<Rightarrow> u8) \<Rightarrow> bool \<Rightarrow> nat \<Rightarrow> u8" where
  "rtc_encode_hour f h12 h =
     (if h12 then f (if h mod 12 = 0 then 12 else h mod 12) OR (if h < 12 then 0 else 0x80) else f h)"

definition rtc_encode :: "u8 \<Rightarrow> nat \<Rightarrow> nat \<Rightarrow> nat \<Rightarrow> nat \<Rightarrow> nat \<Rightarrow> nat \<Rightarrow> rtc_raw" where
  "rtc_encode regb y mo d h m s =
     (let f = (if regb AND 0x04 = 0 then bin2bcd else word_of_nat)
      in (f s, f m, rtc_encode_hour f (regb AND 0x02 = 0) h, f d, f mo, f y))"

lemma bcd_roundtrip: "n < 100 \<Longrightarrow> bcd2bin (bin2bcd n) = word_of_nat n"
proof -
  assume n: "n < 100"
  have "list_all (\<lambda>n. bcd2bin (bin2bcd n) = word_of_nat n) [0..<100]" by code_simp
  then show ?thesis using n by (simp add: list_all_iff)
qed

lemma hour_roundtrip:
  assumes "h < 24"
  shows "rtc_encode_hour word_of_nat False h AND 0x7F = word_of_nat h"
    and "bcd2bin (rtc_encode_hour bin2bcd False h AND 0x7F) = word_of_nat h"
    and "(let x = rtc_encode_hour word_of_nat True h AND 0x7F; y = (if x = 12 then 0 else x)
          in if rtc_encode_hour word_of_nat True h AND 0x80 \<noteq> 0 then y + 12 else y) = (word_of_nat h :: u8)"
    and "(let x = bcd2bin (rtc_encode_hour bin2bcd True h AND 0x7F); y = (if x = 12 then 0 else x)
          in if rtc_encode_hour bin2bcd True h AND 0x80 \<noteq> 0 then y + 12 else y) = word_of_nat h"
proof -
  have "list_all (\<lambda>h. rtc_encode_hour word_of_nat False h AND 0x7F = word_of_nat h) [0..<24]" by code_simp
  then show "rtc_encode_hour word_of_nat False h AND 0x7F = word_of_nat h"
    using assms by (simp only: list_all_iff set_upt atLeastLessThan_iff) simp
  have "list_all (\<lambda>h. bcd2bin (rtc_encode_hour bin2bcd False h AND 0x7F) = word_of_nat h) [0..<24]" by code_simp
  then show "bcd2bin (rtc_encode_hour bin2bcd False h AND 0x7F) = word_of_nat h"
    using assms by (simp only: list_all_iff set_upt atLeastLessThan_iff) simp
  have "list_all (\<lambda>h. (let x = rtc_encode_hour word_of_nat True h AND 0x7F; y = (if x = 12 then 0 else x)
          in if rtc_encode_hour word_of_nat True h AND 0x80 \<noteq> 0 then y + 12 else y) = (word_of_nat h :: u8)) [0..<24]"
    by code_simp
  then show "(let x = rtc_encode_hour word_of_nat True h AND 0x7F; y = (if x = 12 then 0 else x)
          in if rtc_encode_hour word_of_nat True h AND 0x80 \<noteq> 0 then y + 12 else y) = (word_of_nat h :: u8)"
    using assms by (simp only: list_all_iff set_upt atLeastLessThan_iff) simp
  have "list_all (\<lambda>h. (let x = bcd2bin (rtc_encode_hour bin2bcd True h AND 0x7F); y = (if x = 12 then 0 else x)
          in if rtc_encode_hour bin2bcd True h AND 0x80 \<noteq> 0 then y + 12 else y) = word_of_nat h) [0..<24]"
    by code_simp
  then show "(let x = bcd2bin (rtc_encode_hour bin2bcd True h AND 0x7F); y = (if x = 12 then 0 else x)
          in if rtc_encode_hour bin2bcd True h AND 0x80 \<noteq> 0 then y + 12 else y) = word_of_nat h"
    using assms by (simp only: list_all_iff set_upt atLeastLessThan_iff) simp
qed

section \<open>Properties\<close>

text \<open>
  \<open>rtc_read\<close> decodes the registers of the chip correctly in all four of its modes: whether register
  B says binary or BCD and 24-hour or 12-hour, every time of the 21st century is read back as it is.
\<close>

theorem rtc_decode_roundtrip:
  assumes "y < 100" and "mo < 100" and "d < 100" and "h < 24" and "m < 60" and "s < 60"
  shows "rtc_decode (rtc_encode regb y mo d h m s) regb =
    \<lparr>year = 2000 + word_of_nat y, month = word_of_nat mo, day = word_of_nat d, hour = word_of_nat h,
      minute = word_of_nat m, second = word_of_nat s\<rparr>"
proof -
  have y: "(ucast (word_of_nat y :: u8) :: u16) = word_of_nat y"
    using assms(1) by (simp add: word_unat_eq_iff unat_of_nat_less unat_ucast_up)
  show ?thesis
    using assms bcd_roundtrip [of y] bcd_roundtrip [of mo] bcd_roundtrip [of d] bcd_roundtrip [of m]
      bcd_roundtrip [of s] hour_roundtrip [OF assms(4)] y
    by (cases "regb AND 0x04 = 0"; cases "regb AND 0x02 = 0") (simp_all add: rtc_decode_def rtc_encode_def Let_def)
qed

theorem rtc_decode_roundtrip_witness:
  "rtc_encode 0 26 7 4 23 59 30 = (0x30, 0x59, 0x91, 0x04, 0x07, 0x26) \<and>
   hour (rtc_decode (rtc_encode 0 26 7 4 23 59 30) 0) = 23"
  using rtc_decode_roundtrip [of 26 7 4 23 59 30 0]
  by (simp add: rtc_encode_def rtc_encode_hour_def bin2bcd_def)

end
