(* ===== verification/Fat12.thy ===== *)
theory Fat12
  imports Rtc Kheap
begin

text \<open>
  The first half of \<open>fs/fat12.c\<close>: the state of the file system, sector transfers through the floppy
  driver, and the cached file allocation table with its 12-bit entries. The floppy is modelled at
  the interface of \<open>drivers/floppy.h\<close>: a store of 512-byte sectors in which any transfer may fail; a
  failed write may leave anything in its sector. A cluster chain is related to a list of clusters.
\<close>

section \<open>State\<close>

text \<open>
  \<open>fault n\<close> says whether the \<open>n\<close>-th transfer fails, and what a failing write leaves in the sector.
  \<open>con\<close> is the log of what was written to the console, \<open>clock\<close> the time \<open>rtc_read\<close> returns, \<open>stale n\<close> what
  \<open>n\<close> bytes of an uninitialised buffer hold. \<open>cwd_path\<close> holds the 128 bytes of the array and
  the byte after it, so that a write past the end is visible.
\<close>

datatype con_event = Putc char | Set_color u8 u8

record fatfs =
  media :: "u32 \<Rightarrow> u8 list"
  fault :: "nat \<Rightarrow> u8 list option"
  xfers :: nat
  motor :: bool
  con :: "con_event list"
  clock :: rtc_time
  stale :: "nat \<Rightarrow> u8 list"
  fs_heap :: kheap
  bytes_per_sector :: u16
  sectors_per_cluster :: u8
  reserved_sectors :: u16
  num_fats :: u8
  root_entries :: u16
  sectors_per_fat :: u16
  total_secs :: u16
  fat_start :: u32
  root_start :: u32
  root_sectors :: u32
  data_start :: u32
  cluster_count :: u32
  fat_cache :: "u8 list"
  mounted :: bool
  cwd_cluster :: u16
  cwd_path :: "char list"

definition ATTR_LFN :: u8 where "ATTR_LFN = 0x0F"
definition ATTR_VOLUME :: u8 where "ATTR_VOLUME = 0x08"
definition ATTR_DIR :: u8 where "ATTR_DIR = 0x10"
definition ATTR_FILE :: u8 where "ATTR_FILE = 0x20"
definition EOC :: u16 where "EOC = 0x0FF8"

section \<open>Sectors\<close>

definition disk_motor_off :: "fatfs \<Rightarrow> fatfs" where
  "disk_motor_off s = s\<lparr>motor := False\<rparr>"

definition disk_read_sector :: "u32 \<Rightarrow> u8 list \<Rightarrow> fatfs \<Rightarrow> int \<times> u8 list \<times> fatfs" where
  "disk_read_sector lba buf s =
     (let s1 = s\<lparr>xfers := Suc (xfers s), motor := True\<rparr>
      in if fault s (xfers s) = None then (0, media s lba, s1) else (-1, buf, s1))"

definition disk_write_sector :: "u32 \<Rightarrow> u8 list \<Rightarrow> fatfs \<Rightarrow> int \<times> fatfs" where
  "disk_write_sector lba dat s =
     (let s1 = s\<lparr>xfers := Suc (xfers s), motor := True\<rparr>
      in case fault s (xfers s) of
           None \<Rightarrow> (0, s1\<lparr>media := (media s)(lba := dat)\<rparr>)
         | Some junk \<Rightarrow> (-1, s1\<lparr>media := (media s)(lba := junk)\<rparr>))"

fun read_loop :: "nat \<Rightarrow> nat \<Rightarrow> u32 \<Rightarrow> u8 list \<Rightarrow> fatfs \<Rightarrow> int \<times> u8 list \<times> fatfs" where
  "read_loop 0 i lba buf s = (0, buf, s)"
| "read_loop (Suc n) i lba buf s =
     (let (r, sec, s1) = disk_read_sector (lba + word_of_nat i) (take 512 (drop (i * 512) buf)) s;
          buf1 = overwrite (i * 512) sec buf
      in if r \<noteq> 0 then (-1, buf1, s1) else read_loop n (Suc i) lba buf1 s1)"

definition read_fs :: "u32 \<Rightarrow> nat \<Rightarrow> u8 list \<Rightarrow> fatfs \<Rightarrow> int \<times> u8 list \<times> fatfs" where
  "read_fs lba count buf s = read_loop count 0 lba buf s"

fun write_loop :: "nat \<Rightarrow> nat \<Rightarrow> u32 \<Rightarrow> u8 list \<Rightarrow> fatfs \<Rightarrow> int \<times> fatfs" where
  "write_loop 0 i lba buf s = (0, s)"
| "write_loop (Suc n) i lba buf s =
     (let (r, s1) = disk_write_sector (lba + word_of_nat i) (take 512 (drop (i * 512) buf)) s
      in if r \<noteq> 0 then (-1, s1) else write_loop n (Suc i) lba buf s1)"

definition write_fs :: "u32 \<Rightarrow> nat \<Rightarrow> u8 list \<Rightarrow> fatfs \<Rightarrow> int \<times> fatfs" where
  "write_fs lba count buf s = write_loop count 0 lba buf s"

section \<open>The file allocation table\<close>

definition fat_off :: "u16 \<Rightarrow> nat" where
  "fat_off cluster = unat cluster + unat cluster div 2"

definition fat_get :: "u16 \<Rightarrow> u8 list \<Rightarrow> u16" where
  "fat_get cluster fat =
     (let off = fat_off cluster;
          v = le16 (fat ! off) (fat ! (off + 1))
      in if cluster AND 1 \<noteq> 0 then drop_bit 4 v else v AND 0x0FFF)"

definition fat_put :: "u16 \<Rightarrow> u16 \<Rightarrow> u8 list \<Rightarrow> u8 list" where
  "fat_put cluster val fat =
     (let off = fat_off cluster;
          v0 = le16 (fat ! off) (fat ! (off + 1));
          v = (if cluster AND 1 \<noteq> 0 then (v0 AND 0x000F) OR push_bit 4 val
               else (v0 AND 0xF000) OR (val AND 0x0FFF))
      in (fat[off := ucast (v AND 0xFF)])[off + 1 := ucast (drop_bit 8 v)])"

definition fat_flush :: "fatfs \<Rightarrow> fatfs" where
  "fat_flush s = fold (\<lambda>i s. snd (write_fs (ucast (reserved_sectors s) + word_of_nat i * ucast (sectors_per_fat s))
     (unat (sectors_per_fat s)) (fat_cache s) s)) [0..<unat (num_fats s)] s"

partial_function (option) alloc_loop :: "u32 \<Rightarrow> u16 \<Rightarrow> u8 list \<Rightarrow> (u16 \<times> u8 list) option" where
  "alloc_loop count c fat =
     (if \<not> ucast c < count + 2 then Some (0, fat)
      else if fat_get c fat = 0 then Some (c, fat_put c 0xFFF fat)
      else alloc_loop count (c + 1) fat)"

definition alloc_cluster :: "fatfs \<Rightarrow> (u16 \<times> fatfs) option" where
  "alloc_cluster s = map_option (\<lambda>(c, fat). (c, s\<lparr>fat_cache := fat\<rparr>)) (alloc_loop (cluster_count s) 2 (fat_cache s))"

partial_function (option) free_loop :: "u16 \<Rightarrow> u8 list \<Rightarrow> u8 list option" where
  "free_loop c fat = (if 2 \<le> c \<and> c < EOC then free_loop (fat_get c fat) (fat_put c 0 fat) else Some fat)"

definition free_chain :: "u16 \<Rightarrow> fatfs \<Rightarrow> fatfs option" where
  "free_chain c s = map_option (\<lambda>fat. s\<lparr>fat_cache := fat\<rparr>) (free_loop c (fat_cache s))"

definition cluster_lba :: "u16 \<Rightarrow> fatfs \<Rightarrow> u32" where
  "cluster_lba c s = data_start s + (ucast c - 2) * ucast (sectors_per_cluster s)"

fun walk_chain :: "nat \<Rightarrow> u16 \<Rightarrow> u8 list \<Rightarrow> u16 option" where
  "walk_chain 0 c fat = Some c"
| "walk_chain (Suc n) c fat =
     (let c = fat_get c fat in if c < 2 \<or> c \<ge> EOC then None else walk_chain n c fat)"

definition dir_sector_lba :: "u16 \<Rightarrow> u32 \<Rightarrow> fatfs \<Rightarrow> u32" where
  "dir_sector_lba dir idx s =
     (if dir = 0 then (if idx \<ge> root_sectors s then 0 else root_start s + idx)
      else let ci = idx div ucast (sectors_per_cluster s);
               si = idx mod ucast (sectors_per_cluster s)
           in case walk_chain (unat ci) dir (fat_cache s) of
                None \<Rightarrow> 0
              | Some c \<Rightarrow> cluster_lba c s + si)"

section \<open>Twelve-bit entries\<close>

text \<open>Cluster \<open>c\<close> has its one and a half bytes inside the table.\<close>

definition in_fat :: "u16 \<Rightarrow> u8 list \<Rightarrow> bool" where
  "in_fat c fat \<longleftrightarrow> fat_off c + 1 < length fat"

lemma length_fat_put [simp]: "length (fat_put c v fat) = length fat"
  by (simp add: fat_put_def Let_def)

lemma in_fat_put [simp]: "in_fat d (fat_put c v fat) = in_fat d fat"
  by (simp add: in_fat_def)

lemma odd_and_1: "(c AND 1 \<noteq> 0) = odd (unat c)" for c :: u16
proof -
  have "unat (c AND 1) = unat c mod 2" using unat_and_mask [of c 1] by simp
  then show ?thesis by (simp add: word_unat_eq_iff odd_iff_mod_2_eq_one)
qed

text \<open>The table as a stream of bits: entry \<open>c\<close> is bits \<open>12 * c\<close> to \<open>12 * c + 11\<close>.\<close>

definition tbit :: "u8 list \<Rightarrow> nat \<Rightarrow> bool" where
  "tbit fat n = bit (fat ! (n div 8)) (n mod 8)"

definition entry_word :: "u16 \<Rightarrow> u8 list \<Rightarrow> u16" where
  "entry_word c fat = le16 (fat ! fat_off c) (fat ! (fat_off c + 1))"

lemma bit_entry_word:
  "n < 16 \<Longrightarrow> bit (entry_word c fat) n = tbit fat (8 * fat_off c + n)"
  by (auto simp: entry_word_def bit_le16 tbit_def div_add1_eq mod_add_eq le_div_geq le_mod_geq)

lemma fat_off_even: "even (unat c) \<Longrightarrow> 8 * fat_off c = 12 * unat c"
  by (auto simp: fat_off_def elim!: evenE)

lemma fat_off_odd: "odd (unat c) \<Longrightarrow> 8 * fat_off c + 4 = 12 * unat c"
  by (auto simp: fat_off_def elim!: oddE)

lemma bit_fat_get: "bit (fat_get c fat) j = (j < 12 \<and> tbit fat (12 * unat c + j))"
proof (cases "odd (unat c)")
  case True
  have "fat_get c fat = drop_bit 4 (entry_word c fat)"
    using True by (simp add: fat_get_def odd_and_1 entry_word_def Let_def)
  moreover have "bit (drop_bit 4 (entry_word c fat)) j = (j < 12 \<and> bit (entry_word c fat) (4 + j))"
    by (auto simp: bit_simps dest: bit_imp_le_length)
  moreover have e: "8 * fat_off c + (4 + j) = 12 * unat c + j" using fat_off_odd [OF True] by simp
  have "bit (entry_word c fat) (4 + j) = tbit fat (12 * unat c + j)" if "j < 12"
    using bit_entry_word [of "4 + j" c fat] that unfolding e by simp
  ultimately show ?thesis by auto
next
  case False
  have "fat_get c fat = take_bit 12 (entry_word c fat)"
    using False by (simp add: fat_get_def odd_and_1 entry_word_def Let_def take_bit_eq_mask mask_eq_exp_minus_1)
  then show ?thesis
    using bit_entry_word [of j c fat] fat_off_even [of c] False by (auto simp: bit_simps)
qed

lemma tbit_put_bytes:
  fixes v :: u16
  assumes "off + 1 < length fat" and "n div 8 < length fat"
  shows "tbit ((fat[off := ucast (v AND 0xFF)])[off + 1 := ucast (drop_bit 8 v)]) n =
    (if 8 * off \<le> n \<and> n < 8 * off + 16 then bit v (n - 8 * off) else tbit fat n)"
proof -
  have m: "v AND 0xFF = take_bit 8 v" by (simp add: take_bit_eq_mask mask_eq_exp_minus_1)
  obtain q r where n: "n = 8 * q + r" and r: "r < 8" by (metis mod_less_divisor mult_div_mod_eq zero_less_numeral)
  then have qr: "n div 8 = q" "n mod 8 = r" by auto
  consider "q = off" | "q = off + 1" | "q < off" | "off + 1 < q" by linarith
  then show ?thesis
  proof cases
    case 1
    then show ?thesis using assms r n qr by (auto simp: tbit_def m bit_simps)
  next
    case 2
    then have "n - 8 * off = 8 + r" using n by simp
    then show ?thesis using 2 assms r n qr by (auto simp: tbit_def bit_simps)
  next
    case 3
    then show ?thesis using assms r n qr by (auto simp: tbit_def)
  next
    case 4
    then show ?thesis using assms r n qr by (auto simp: tbit_def)
  qed
qed

lemma tbit_fat_put:
  assumes "in_fat c fat" and "n div 8 < length fat"
  shows "tbit (fat_put c v fat) n =
    (if 12 * unat c \<le> n \<and> n < 12 * unat c + 12 then bit v (n - 12 * unat c) else tbit fat n)"
proof -
  let ?w = "entry_word c fat"
  define x where "x = (if odd (unat c) then (?w AND 0x000F) OR push_bit 4 v else (?w AND 0xF000) OR (v AND 0x0FFF))"
  have put: "tbit (fat_put c v fat) n = (if 8 * fat_off c \<le> n \<and> n < 8 * fat_off c + 16
      then bit x (n - 8 * fat_off c) else tbit fat n)"
  proof -
    have "fat_put c v fat = (fat[fat_off c := ucast (x AND 0xFF)])[fat_off c + 1 := ucast (drop_bit 8 x)]"
      by (simp only: fat_put_def x_def entry_word_def odd_and_1 Let_def)
    then show ?thesis using tbit_put_bytes [of "fat_off c" fat n x] assms by (simp only: in_fat_def)
  qed
  have wn: "tbit fat n = bit ?w (n - 8 * fat_off c)" if "8 * fat_off c \<le> n" "n < 8 * fat_off c + 16"
    using bit_entry_word [of "n - 8 * fat_off c" c fat] that by simp
  show ?thesis
  proof (cases "odd (unat c)")
    case True
    have "x = take_bit 4 ?w OR push_bit 4 v"
      using True by (simp add: x_def take_bit_eq_mask mask_eq_exp_minus_1)
    then have "bit x j = (if j < 4 then bit ?w j else j < 16 \<and> bit v (j - 4))" for j
      by (auto simp: bit_simps dest: bit_imp_le_length)
    then show ?thesis
      using put wn fat_off_odd [OF True] by (auto simp: not_le)
  next
    case False
    have "0xF000 = NOT (mask 12 :: u16)" by (simp add: mask_eq_exp_minus_1)
    then have "x = (?w AND NOT (mask 12)) OR take_bit 12 v"
      using False by (simp add: x_def take_bit_eq_mask) (simp add: mask_eq_exp_minus_1)
    then have "bit x j = (if j < 12 then bit v j else bit ?w j)" for j
      by (auto simp: bit_simps dest: bit_imp_le_length)
    then show ?thesis
      using put wn fat_off_even [of c] False by auto
  qed
qed

lemma in_fat_bits: "in_fat c fat \<Longrightarrow> j < 12 \<Longrightarrow> (12 * unat c + j) div 8 < length fat"
proof -
  assume "in_fat c fat" "j < 12"
  moreover have "(12 * unat c + j) div 8 \<le> fat_off c + 1"
    using fat_off_even [of c] fat_off_odd [of c] \<open>j < 12\<close> by (cases "even (unat c)") auto
  ultimately show ?thesis by (simp add: in_fat_def)
qed

lemma fat_get_put:
  assumes "in_fat c fat" and "in_fat d fat"
  shows "fat_get d (fat_put c v fat) = (if d = c then v AND 0xFFF else fat_get d fat)"
proof (rule bit_word_eqI)
  fix j
  have m: "v AND 0xFFF = take_bit 12 v" by (simp add: take_bit_eq_mask mask_eq_exp_minus_1)
  have "12 * unat c \<le> 12 * unat d + j \<and> 12 * unat d + j < 12 * unat c + 12 \<longleftrightarrow> d = c" if "j < 12"
    using that by (auto simp: word_unat_eq_iff)
  then show "bit (fat_get d (fat_put c v fat)) j = bit (if d = c then v AND 0xFFF else fat_get d fat) j"
    using tbit_fat_put [OF assms(1) in_fat_bits [OF assms(2)]] by (auto simp: bit_fat_get m bit_simps)
qed

section \<open>Allocation\<close>

text \<open>
  Clusters are the numbers from 2 up to the limit \<open>n\<close>; the limit is at most \<open>0xFF8\<close>, as in every FAT12
  volume, and the table is long enough to hold all their entries.
\<close>

definition fat_ok :: "nat \<Rightarrow> u8 list \<Rightarrow> bool" where
  "fat_ok n fat \<longleftrightarrow> n \<le> 0xFF8 \<and> (3 * n + 1) div 2 \<le> length fat"

lemma fat_ok_in: "fat_ok n fat \<Longrightarrow> unat c < n \<Longrightarrow> in_fat c fat"
proof -
  assume ok: "fat_ok n fat" and c: "unat c < n"
  have "fat_off c + 1 < (3 * (unat c + 1) + 1) div 2"
    by (cases "even (unat c)") (auto simp: fat_off_def elim!: evenE oddE)
  also have "\<dots> \<le> (3 * n + 1) div 2" using c by (intro div_le_mono) simp
  finally show ?thesis using ok by (simp add: in_fat_def fat_ok_def)
qed

lemma fat_ok_put [simp]: "fat_ok n (fat_put c v fat) = fat_ok n fat"
  by (simp add: fat_ok_def)

lemma fat_get_put_ok:
  "fat_ok n fat \<Longrightarrow> unat c < n \<Longrightarrow> unat d < n \<Longrightarrow>
   fat_get d (fat_put c v fat) = (if d = c then v AND 0xFFF else fat_get d fat)"
  by (intro fat_get_put fat_ok_in)

text \<open>The lowest free cluster from \<open>c\<close> on, as a search through a list.\<close>

definition first_free :: "nat \<Rightarrow> u16 \<Rightarrow> u8 list \<Rightarrow> u16 option" where
  "first_free n c fat = find (\<lambda>d. fat_get d fat = 0) (map word_of_nat [unat c..<n])"

lemma first_free_end: "n \<le> unat c \<Longrightarrow> first_free n c fat = None"
  by (simp add: first_free_def)

lemma first_free_step:
  assumes "unat c < n" and "unat (c + 1) = unat c + 1"
  shows "first_free n c fat = (if fat_get c fat = 0 then Some c else first_free n (c + 1) fat)"
  using assms by (simp add: first_free_def upt_conv_Cons)

lemma alloc_loop_first_free:
  assumes "fat_ok (unat count + 2) fat" and "unat c \<le> unat count + 2"
  shows "alloc_loop count c fat =
    Some (case first_free (unat count + 2) c fat of None \<Rightarrow> (0, fat) | Some r \<Rightarrow> (r, fat_put r 0xFFF fat))"
  using assms
proof (induction "unat count + 2 - unat c" arbitrary: c)
  case 0
  then have "\<not> ucast c < count + 2"
    by (simp add: word_less_nat_alt unat_plus_simple fat_ok_def unat_ucast_up)
  then have "alloc_loop count c fat = Some (0, fat)" by (subst alloc_loop.simps) simp
  moreover have "first_free (unat count + 2) c fat = None" using 0 by (intro first_free_end) simp
  ultimately show ?case by simp
next
  case (Suc k)
  have lt: "ucast c < count + 2"
    using Suc.prems Suc.hyps(2) by (simp add: word_less_nat_alt unat_plus_simple fat_ok_def unat_ucast_up)
  have c1: "unat (c + 1) = unat c + 1"
    using Suc.prems Suc.hyps(2) by (simp add: unat_plus_simple fat_ok_def)
  have cn: "unat c < unat count + 2" using Suc.hyps(2) by simp
  have "k = unat count + 2 - unat (c + 1)" "unat (c + 1) \<le> unat count + 2"
    using Suc.hyps(2) c1 by simp_all
  note IH = Suc.hyps(1) [OF this(1) Suc.prems(1) this(2)]
  show ?case
    using lt by (subst alloc_loop.simps) (simp add: first_free_step [OF cn c1] IH del: add_2_eq_Suc')
qed

lemma first_free_Some:
  assumes "first_free n c fat = Some r" and "n \<le> 0x10000"
  shows "c \<le> r \<and> unat r < n \<and> fat_get r fat = 0 \<and> (\<forall>d. c \<le> d \<and> d < r \<longrightarrow> fat_get d fat \<noteq> 0)"
proof -
  obtain i where i: "i < n - unat c" "r = word_of_nat (unat c + i)" "fat_get r fat = 0"
    "\<forall>j<i. fat_get (word_of_nat (unat c + j)) fat \<noteq> 0"
    using assms(1) by (auto simp: first_free_def find_Some_iff)
  have r: "unat r = unat c + i" using i(1,2) assms(2) by (simp add: unat_word_ariths unsigned_of_nat take_bit_nat_eq_self del: of_nat_add)
  have "fat_get d fat \<noteq> 0" if d: "c \<le> d" "d < r" for d
  proof -
    have "word_of_nat (unat c + (unat d - unat c)) = d" using d(1) by (simp add: word_le_nat_alt del: of_nat_add)
    moreover have "unat d - unat c < i" using d r by (simp add: word_le_nat_alt word_less_nat_alt)
    ultimately show ?thesis using i(4) by metis
  qed
  then show ?thesis using i(1,3) r by (auto simp: word_le_nat_alt)
qed

lemma first_free_None:
  assumes "first_free n c fat = None" and "c \<le> d" and "unat d < n"
  shows "fat_get d fat \<noteq> 0"
proof -
  have "unat d \<in> {unat c..<n}" using assms(2,3) by (simp add: word_le_nat_alt)
  then have "fat_get (word_of_nat (unat d)) fat \<noteq> 0"
    using assms(1) by (simp only: first_free_def find_None_iff set_map set_upt) blast
  then show ?thesis by simp
qed

section \<open>Chains\<close>

text \<open>From \<open>c\<close> the table links the clusters \<open>xs\<close> and then an end mark.\<close>

fun chain :: "nat \<Rightarrow> u8 list \<Rightarrow> u16 \<Rightarrow> u16 list \<Rightarrow> bool" where
  "chain n fat c [] \<longleftrightarrow> c < 2 \<or> EOC \<le> c"
| "chain n fat c (x # xs) \<longleftrightarrow> c = x \<and> 2 \<le> x \<and> unat x < n \<and> chain n fat (fat_get x fat) xs"

lemma chain_limit: "chain n fat c xs \<Longrightarrow> x \<in> set xs \<Longrightarrow> 2 \<le> x \<and> unat x < n"
  by (induction xs arbitrary: c) auto

lemma chain_cong:
  "(\<And>x. x \<in> set xs \<Longrightarrow> fat_get x fat' = fat_get x fat) \<Longrightarrow> chain n fat' c xs = chain n fat c xs"
  by (induction xs arbitrary: c) auto

lemma free_loop_chain:
  assumes "fat_ok n fat" and "chain n fat c xs" and "distinct xs"
  shows "\<exists>fat'. free_loop c fat = Some fat' \<and> length fat' = length fat \<and>
    (\<forall>d. unat d < n \<longrightarrow> fat_get d fat' = (if d \<in> set xs then 0 else fat_get d fat))"
  using assms
proof (induction xs arbitrary: c fat)
  case Nil
  then have "free_loop c fat = Some fat" by (subst free_loop.simps) auto
  then show ?case by simp
next
  case (Cons x xs)
  let ?f = "fat_put x 0 fat"
  have x: "c = x" "2 \<le> x" "unat x < n" "chain n fat (fat_get x fat) xs" "x \<notin> set xs" "distinct xs"
    using Cons.prems by auto
  have "x < EOC" using x(3) Cons.prems(1) by (simp add: fat_ok_def EOC_def word_less_nat_alt)
  then have st: "free_loop c fat = free_loop (fat_get x fat) ?f" using x by (subst free_loop.simps) simp
  have "chain n ?f (fat_get x fat) xs = chain n fat (fat_get x fat) xs"
    using Cons.prems(1) x chain_limit [OF x(4)] by (intro chain_cong) (auto simp: fat_get_put_ok)
  with Cons.IH [of ?f "fat_get x fat"] Cons.prems(1) x
  obtain fat' where f: "free_loop (fat_get x fat) ?f = Some fat'" "length fat' = length fat"
      "\<forall>d. unat d < n \<longrightarrow> fat_get d fat' = (if d \<in> set xs then 0 else fat_get d ?f)" by auto
  have "\<forall>d. unat d < n \<longrightarrow> fat_get d fat' = (if d \<in> set (x # xs) then 0 else fat_get d fat)"
    using f(3) Cons.prems(1) x(3) by (auto simp: fat_get_put_ok)
  with f st show ?case by auto
qed

text \<open>
  \<open>free_chain\<close> returns on every table whose entries from 2 on point at clusters of the volume, even when the
  chain runs into a loop: it stops at the first entry that is already 0.
\<close>

definition valid_link :: "nat \<Rightarrow> u16 \<Rightarrow> bool" where
  "valid_link n c \<longleftrightarrow> c < 2 \<or> EOC \<le> c \<or> unat c < n"

lemma free_loop_returns:
  assumes "fat_ok n fat" and "\<And>d. 2 \<le> d \<Longrightarrow> unat d < n \<Longrightarrow> valid_link n (fat_get d fat)" and "valid_link n c"
  shows "\<exists>fat'. free_loop c fat = Some fat'"
  using assms
proof (induction "card {d. unat d < n \<and> fat_get d fat \<noteq> 0}" arbitrary: c fat rule: less_induct)
  case less
  show ?case
  proof (cases "2 \<le> c \<and> c < EOC")
    case False
    then show ?thesis by (subst free_loop.simps) auto
  next
    case True
    let ?f = "fat_put c 0 fat"
    have c2: "2 \<le> c" using True by simp
    have cn: "unat c < n" using True less.prems(3) by (auto simp: valid_link_def word_le_nat_alt word_less_nat_alt)
    have get: "fat_get d ?f = (if d = c then 0 else fat_get d fat)" if "unat d < n" for d
      using fat_get_put_ok [OF less.prems(1) cn that] by simp
    have st: "free_loop c fat = free_loop (fat_get c fat) ?f" using True by (subst free_loop.simps) simp
    show ?thesis
    proof (cases "fat_get c fat = 0")
      case True
      then show ?thesis unfolding st by (subst free_loop.simps) simp
    next
      case False
      have "{d. unat d < n \<and> fat_get d ?f \<noteq> 0} \<subset> {d. unat d < n \<and> fat_get d fat \<noteq> 0}"
      proof (rule psubsetI)
        show "{d. unat d < n \<and> fat_get d ?f \<noteq> 0} \<subseteq> {d. unat d < n \<and> fat_get d fat \<noteq> 0}"
          using get by (auto split: if_splits)
        have "c \<in> {d. unat d < n \<and> fat_get d fat \<noteq> 0}" "c \<notin> {d. unat d < n \<and> fat_get d ?f \<noteq> 0}"
          using cn False get [OF cn] by auto
        then show "{d. unat d < n \<and> fat_get d ?f \<noteq> 0} \<noteq> {d. unat d < n \<and> fat_get d fat \<noteq> 0}" by blast
      qed
      then have "card {d. unat d < n \<and> fat_get d ?f \<noteq> 0} < card {d. unat d < n \<and> fat_get d fat \<noteq> 0}"
        by (intro psubset_card_mono) auto
      moreover have "valid_link n (fat_get d ?f)" if "2 \<le> d" "unat d < n" for d
        using get [OF that(2)] less.prems(2) [OF that] by (simp add: valid_link_def)
      moreover have "valid_link n (fat_get c fat)" using c2 cn by (rule less.prems(2))
      ultimately show ?thesis unfolding st using less.prems(1) by (intro less.hyps) auto
    qed
  qed
qed

section \<open>Properties\<close>

text \<open>
  C13. Entries of the table are independent twelve-bit cells, although neighbours share a byte:
  reading an entry after writing one gives the value written, cut to twelve bits, or the entry's
  old value.
\<close>

theorem fat_entry_roundtrip:
  assumes "in_fat c fat" and "in_fat d fat"
  shows "fat_get d (fat_put c v fat) = (if d = c then v AND 0xFFF else fat_get d fat) \<and>
    length (fat_put c v fat) = length fat"
  using fat_get_put [OF assms] by simp

theorem fat_entry_roundtrip_witness:
  "in_fat 2 [0xF0, 0xFF, 0xFF, 0x34, 0x12, 0x56] \<and> in_fat 3 [0xF0, 0xFF, 0xFF, 0x34, 0x12, 0x56] \<and>
   fat_get 3 (fat_put 2 0xABC [0xF0, 0xFF, 0xFF, 0x34, 0x12, 0x56]) = 0x561"
  using fat_entry_roundtrip [of 2 "[0xF0, 0xFF, 0xFF, 0x34, 0x12, 0x56]" 3 "0xABC"]
  by (simp add: in_fat_def fat_off_def fat_get_def le16_def Let_def)

text \<open>A volume with the given table, in which transfers succeed, used as a concrete state.\<close>

definition sample_fs :: "u8 list \<Rightarrow> u32 \<Rightarrow> fatfs" where
  "sample_fs fat n = \<lparr>media = (\<lambda>_. replicate 512 0), fault = (\<lambda>_. None), xfers = 0, motor = False, con = [],
     clock = \<lparr>year = 2026, month = 7, day = 4, hour = 12, minute = 30, second = 10\<rparr>,
     stale = (\<lambda>n. replicate n 0), fs_heap = boot_heap, bytes_per_sector = 512, sectors_per_cluster = 1,
     reserved_sectors = 1, num_fats = 1, root_entries = 16, sectors_per_fat = 1, total_secs = 3 + ucast n,
     fat_start = 1, root_start = 2, root_sectors = 1, data_start = 3, cluster_count = n,
     fat_cache = fat, mounted = True, cwd_cluster = 0, cwd_path = CHR ''/'' # replicate 128 CHR 0x00\<rparr>"

lemma sample_fs_simps [simp]:
  "fat_cache (sample_fs fat n) = fat" "cluster_count (sample_fs fat n) = n"
  by (simp_all add: sample_fs_def)

text \<open>Cluster 2 is the end of a chain and cluster 3 is free; or clusters 2 and 3 form a loop.\<close>

lemma sample_table:
  "fat_get 2 [0xF0, 0xFF, 0xFF, 0xFF, 0x0F, 0x00] = 0xFFF" "fat_get 3 [0xF0, 0xFF, 0xFF, 0xFF, 0x0F, 0x00] = 0"
  by (simp_all add: fat_get_def fat_off_def le16_def Let_def)

text \<open>
  \<open>alloc_cluster\<close> returns: it takes the lowest free cluster of the volume and marks it as the end of
  a chain, changing no other entry, or reports a full disk with 0 exactly when no cluster is free.
\<close>

theorem alloc_cluster_first_free:
  assumes "fat_ok (unat (cluster_count s) + 2) (fat_cache s)"
  shows "\<exists>c s'. alloc_cluster s = Some (c, s') \<and>
    (if \<forall>d. 2 \<le> d \<and> unat d < unat (cluster_count s) + 2 \<longrightarrow> fat_get d (fat_cache s) \<noteq> 0
     then c = 0 \<and> s' = s
     else 2 \<le> c \<and> unat c < unat (cluster_count s) + 2 \<and> fat_get c (fat_cache s) = 0 \<and>
       (\<forall>d. 2 \<le> d \<and> d < c \<longrightarrow> fat_get d (fat_cache s) \<noteq> 0) \<and>
       (\<forall>d. unat d < unat (cluster_count s) + 2 \<longrightarrow>
          fat_get d (fat_cache s') = (if d = c then 0xFFF else fat_get d (fat_cache s))))"
proof -
  let ?n = "unat (cluster_count s) + 2" and ?fat = "fat_cache s"
  have a: "alloc_loop (cluster_count s) 2 ?fat =
      Some (case first_free ?n 2 ?fat of None \<Rightarrow> (0, ?fat) | Some r \<Rightarrow> (r, fat_put r 0xFFF ?fat))"
    by (rule alloc_loop_first_free [OF assms]) simp
  show ?thesis
  proof (cases "first_free ?n 2 ?fat")
    case None
    then have full: "(\<forall>d. 2 \<le> d \<and> unat d < ?n \<longrightarrow> fat_get d ?fat \<noteq> 0) = True" using first_free_None by blast
    moreover have "alloc_cluster s = Some (0, s)" by (simp add: alloc_cluster_def a None del: add_2_eq_Suc')
    ultimately show ?thesis by (intro exI [of _ 0] exI [of _ s]) (simp only: full if_True simp_thms)
  next
    case (Some r)
    have al: "alloc_cluster s = Some (r, s\<lparr>fat_cache := fat_put r 0xFFF ?fat\<rparr>)"
      by (simp add: alloc_cluster_def a Some del: add_2_eq_Suc')
    have n: "?n \<le> 0x10000" using assms by (simp add: fat_ok_def)
    note r = first_free_Some [OF Some n]
    have "fat_get d (fat_put r 0xFFF ?fat) = (if d = r then 0xFFF else fat_get d ?fat)" if "unat d < ?n" for d
      using fat_get_put_ok [OF assms _ that, of r "0xFFF"] r by simp
    moreover have "(\<forall>d. 2 \<le> d \<and> unat d < ?n \<longrightarrow> fat_get d ?fat \<noteq> 0) = False" using r by blast
    ultimately show ?thesis using al r
      by (intro exI [of _ r] exI [of _ "s\<lparr>fat_cache := fat_put r 0xFFF ?fat\<rparr>"]) (simp only: if_False simp_thms, simp)
  qed
qed

theorem alloc_cluster_first_free_witness:
  "\<exists>s'. alloc_cluster (sample_fs [0xF0, 0xFF, 0xFF, 0xFF, 0x0F, 0x00] 2) = Some (3, s') \<and>
    fat_get 3 (fat_cache s') = 0xFFF"
proof -
  let ?fat = "[0xF0, 0xFF, 0xFF, 0xFF, 0x0F, 0x00] :: u8 list"
  have ok: "fat_ok (unat (cluster_count (sample_fs ?fat 2)) + 2) (fat_cache (sample_fs ?fat 2))" by (simp add: fat_ok_def)
  have free: "\<not> (\<forall>d :: u16. 2 \<le> d \<and> unat d < unat (2 :: u32) + 2 \<longrightarrow> fat_get d ?fat \<noteq> 0)"
    using sample_table by (intro notI) (erule allE [of _ 3], simp)
  obtain c s' where c: "alloc_cluster (sample_fs ?fat 2) = Some (c, s')" "2 \<le> c" "unat c < 4" "fat_get c ?fat = 0"
      "fat_get c (fat_cache s') = 0xFFF"
    using alloc_cluster_first_free [OF ok] unfolding sample_fs_simps if_not_P [OF free] by auto
  have "unat c = 2 \<or> unat c = 3" using c(2,3) by (simp add: word_le_nat_alt) linarith
  then have "c = 2 \<or> c = 3" by (auto simp: word_unat_eq_iff)
  then show ?thesis using c sample_table by auto
qed

text \<open>
  \<open>free_chain\<close> of a chain without a loop returns and frees exactly the clusters of the
  chain: their entries become 0 and every other entry of the volume keeps its value.
\<close>

theorem free_chain_frees:
  assumes "fat_ok n (fat_cache s)" and "chain n (fat_cache s) c xs" and "distinct xs"
  shows "\<exists>s'. free_chain c s = Some s' \<and>
    (\<forall>d. unat d < n \<longrightarrow> fat_get d (fat_cache s') = (if d \<in> set xs then 0 else fat_get d (fat_cache s)))"
  using free_loop_chain [OF assms] by (auto simp: free_chain_def)

theorem free_chain_frees_witness:
  "\<exists>s'. free_chain 2 (sample_fs [0xF0, 0xFF, 0xFF, 0x03, 0xF0, 0xFF] 2) = Some s' \<and>
    fat_get 2 (fat_cache s') = 0 \<and> fat_get 3 (fat_cache s') = 0 \<and> fat_get 0 (fat_cache s') = 0xFF0"
proof -
  let ?fat = "[0xF0, 0xFF, 0xFF, 0x03, 0xF0, 0xFF] :: u8 list"
  have "fat_ok 4 (fat_cache (sample_fs ?fat 2))" "chain 4 (fat_cache (sample_fs ?fat 2)) 2 [2, 3]" "distinct [2, 3 :: u16]"
    by (simp_all add: fat_ok_def fat_get_def fat_off_def le16_def Let_def EOC_def)
  note f = free_chain_frees [OF this]
  have "fat_get 0 ?fat = 0xFF0" by (simp add: fat_get_def fat_off_def le16_def Let_def)
  with f show ?thesis by auto
qed

text \<open>
  \<open>free_chain\<close> cannot hang: on any table whose links stay inside the volume it returns, even when
  the chain has been corrupted into a loop.
\<close>

theorem free_chain_returns:
  assumes "fat_ok n (fat_cache s)" and "\<forall>d. 2 \<le> d \<and> unat d < n \<longrightarrow> valid_link n (fat_get d (fat_cache s))"
    and "valid_link n c"
  shows "free_chain c s \<noteq> None"
  using free_loop_returns [of n "fat_cache s" c] assms by (auto simp: free_chain_def)

theorem free_chain_returns_witness:
  "fat_get 2 [0xF0, 0xFF, 0xFF, 0x03, 0x20, 0x00] = 3 \<and> fat_get 3 [0xF0, 0xFF, 0xFF, 0x03, 0x20, 0x00] = 2 \<and>
   free_chain 2 (sample_fs [0xF0, 0xFF, 0xFF, 0x03, 0x20, 0x00] 2) \<noteq> None"
proof -
  let ?fat = "[0xF0, 0xFF, 0xFF, 0x03, 0x20, 0x00] :: u8 list"
  have g: "fat_get 2 ?fat = 3" "fat_get 3 ?fat = 2"
    by (simp_all add: fat_get_def fat_off_def le16_def Let_def)
  have "valid_link 4 (fat_get d ?fat)" if "2 \<le> d" "unat d < 4" for d
  proof -
    have "unat d = 2 \<or> unat d = 3" using that by (simp add: word_le_nat_alt) linarith
    then have "d = 2 \<or> d = 3" by (auto simp: word_unat_eq_iff)
    then show ?thesis using g by (auto simp: valid_link_def)
  qed
  moreover have "fat_ok 4 (fat_cache (sample_fs ?fat 2))" "valid_link 4 2" by (simp_all add: fat_ok_def valid_link_def)
  ultimately show ?thesis using g free_chain_returns [of 4 "sample_fs ?fat 2" 2] by simp
qed

end
