(* ===== verification/FatDir.thy ===== *)
theory FatDir
  imports Fat12
begin

text \<open>
  The second part of \<open>fs/fat12.c\<close>: names in 8.3 form, directory entries, the operations on
  directories (mount, search, insert, listing, completion) and the working directory. A C string is
  the list of its characters before the terminator. Every operation that walks a directory goes over
  its sectors and over the sixteen entries of each sector; these two loops are written once, with the
  body of the loop as an argument.
\<close>

section \<open>Names\<close>

definition upper_byte :: "char \<Rightarrow> u8" where
  "upper_byte c = (let b = of_char c in if 0x61 \<le> b \<and> b \<le> 0x7A then b - 32 else b)"

fun name_loop :: "nat \<Rightarrow> u8 list \<Rightarrow> string \<Rightarrow> u8 list \<times> string" where
  "name_loop i out [] = (out, [])"
| "name_loop i out (c # cs) =
     (if c \<noteq> CHR ''.'' \<and> i < 8 then name_loop (Suc i) (out[i := upper_byte c]) cs else (out, c # cs))"

fun ext_loop :: "nat \<Rightarrow> u8 list \<Rightarrow> string \<Rightarrow> u8 list" where
  "ext_loop j out [] = out"
| "ext_loop j out (c # cs) = (if j < 11 then ext_loop (Suc j) (out[j := upper_byte c]) cs else out)"

definition to_83 :: "string \<Rightarrow> u8 list" where
  "to_83 name =
     (let (out, rest) = name_loop 0 (replicate 11 0x20) name
      in case dropWhile (\<lambda>c. c \<noteq> CHR ''.'') rest of [] \<Rightarrow> out | _ # ext \<Rightarrow> ext_loop 8 out ext)"

definition format_name :: "u8 list \<Rightarrow> string" where
  "format_name e =
     map byte_chr (takeWhile (\<lambda>b. b \<noteq> 0x20) (take 8 e)) @
     (if e ! 8 \<noteq> 0x20 then CHR ''.'' # map byte_chr (takeWhile (\<lambda>b. b \<noteq> 0x20) (take 3 (drop 8 e))) else [])"

section \<open>Directory entries\<close>

definition fat_now :: "rtc_time \<Rightarrow> u16 \<times> u16" where
  "fat_now t =
     (let y = (if year t \<ge> 1980 then year t - 1980 else 0)
      in (push_bit 9 y OR push_bit 5 (ucast (month t AND 0x0F)) OR ucast (day t AND 0x1F),
          push_bit 11 (ucast (hour t AND 0x1F)) OR push_bit 5 (ucast (minute t AND 0x3F)) OR
            ucast ((second t div 2) AND 0x1F)))"

text \<open>The 32 bytes of an entry, in their order.\<close>

definition make_entry :: "u8 list \<Rightarrow> u8 \<Rightarrow> u16 \<Rightarrow> u32 \<Rightarrow> rtc_time \<Rightarrow> u8 list" where
  "make_entry name83 attr first_cluster sz t =
     (let (fdate, ftime) = fat_now t
      in take 11 name83 @ [attr, 0, 0, lo8 ftime, hi8 ftime, lo8 fdate, hi8 fdate, lo8 fdate, hi8 fdate,
           0, 0, lo8 ftime, hi8 ftime, lo8 fdate, hi8 fdate, lo8 first_cluster, hi8 first_cluster,
           ucast (sz AND 0xFF), ucast (drop_bit 8 sz), ucast (drop_bit 16 sz), ucast (drop_bit 24 sz)])"

definition ent_cluster :: "u8 list \<Rightarrow> u16" where
  "ent_cluster ent = le16 (ent ! 26) (ent ! 27)"

definition ent_size :: "u8 list \<Rightarrow> u32" where
  "ent_size ent = ucast (ent ! 28) OR push_bit 8 (ucast (ent ! 29)) OR push_bit 16 (ucast (ent ! 30)) OR
     push_bit 24 (ucast (ent ! 31))"

definition is_dir_ent :: "u8 list \<Rightarrow> bool" where
  "is_dir_ent ent = (ent ! 11 AND ATTR_DIR \<noteq> 0)"

section \<open>Walking a directory\<close>

definition ent_at :: "nat \<Rightarrow> u8 list \<Rightarrow> u8 list" where
  "ent_at e sec = take 32 (drop (e * 32) sec)"

text \<open>
  \<open>for (int e = 0; e < 16; e++)\<close> over a sector; the body says whether the walk ends here, which is a
  \<open>return\<close> or a \<open>goto\<close> of the code.
\<close>

fun ent_loop :: "(nat \<Rightarrow> u8 list \<Rightarrow> 'a \<Rightarrow> fatfs \<Rightarrow> (bool \<times> 'a \<times> fatfs) option) \<Rightarrow> nat list \<Rightarrow> u8 list \<Rightarrow> 'a \<Rightarrow>
    fatfs \<Rightarrow> (bool \<times> 'a \<times> fatfs) option" where
  "ent_loop f [] sec a s = Some (False, a, s)"
| "ent_loop f (e # es) sec a s =
     Option.bind (f e sec a s) (\<lambda>(stop, a, s). if stop then Some (True, a, s) else ent_loop f es sec a s)"

text \<open>
  \<open>for (uint32_t idx = 0; ; idx++)\<close> over the sectors of a directory. The loop ends when there is no
  further sector, when a sector cannot be read, or when the body ends it.
\<close>

datatype walk_end = No_sector | Bad_read | Stopped

partial_function (option) dir_loop ::
  "u16 \<Rightarrow> (u32 \<Rightarrow> u8 list \<Rightarrow> 'a \<Rightarrow> fatfs \<Rightarrow> (bool \<times> 'a \<times> fatfs) option) \<Rightarrow> u32 \<Rightarrow> u8 list \<Rightarrow> 'a \<Rightarrow> fatfs \<Rightarrow>
   (walk_end \<times> 'a \<times> u8 list \<times> fatfs) option" where
  "dir_loop dir body idx sec a s =
     (let lba = dir_sector_lba dir idx s
      in if lba = 0 then Some (No_sector, a, sec, s)
         else let rd = read_fs lba 1 sec s; sec1 = fst (snd rd); s1 = snd (snd rd)
         in if fst rd \<noteq> 0 then Some (Bad_read, a, sec1, s1)
            else Option.bind (body lba sec1 a s1) (\<lambda>(stop, a2, s2).
                   if stop then Some (Stopped, a2, sec1, s2) else dir_loop dir body (idx + 1) sec1 a2 s2))"

definition dir_walk :: "u16 \<Rightarrow> (u32 \<Rightarrow> nat \<Rightarrow> u8 list \<Rightarrow> 'a \<Rightarrow> fatfs \<Rightarrow> (bool \<times> 'a \<times> fatfs) option) \<Rightarrow> 'a \<Rightarrow> fatfs \<Rightarrow>
    (walk_end \<times> 'a \<times> u8 list \<times> fatfs) option" where
  "dir_walk dir f a s = dir_loop dir (\<lambda>lba. ent_loop (f lba) [0..<16]) 0 (stale s 512) a s"

section \<open>Search and insertion\<close>

type_synonym dir_hit = "u32 \<times> nat \<times> u8 list"

definition find_entry :: "u8 list \<Rightarrow> u32 \<Rightarrow> nat \<Rightarrow> u8 list \<Rightarrow> dir_hit option \<Rightarrow> fatfs \<Rightarrow>
    (bool \<times> dir_hit option \<times> fatfs) option" where
  "find_entry name83 lba e sec hit s =
     (let ent = ent_at e sec
      in if ent ! 0 = 0x00 then Some (True, None, s)
         else if ent ! 0 = 0xE5 \<or> ent ! 11 = ATTR_LFN then Some (False, hit, s)
         else if take 11 ent = name83 then Some (True, Some (lba, e * 32, ent), s)
         else Some (False, hit, s))"

definition dir_find :: "u16 \<Rightarrow> u8 list \<Rightarrow> fatfs \<Rightarrow> (dir_hit option \<times> fatfs) option" where
  "dir_find dir name83 s = map_option (\<lambda>(_, hit, _, s). (hit, s)) (dir_walk dir (find_entry name83) None s)"

definition add_entry :: "u8 list \<Rightarrow> u32 \<Rightarrow> nat \<Rightarrow> u8 list \<Rightarrow> int \<Rightarrow> fatfs \<Rightarrow> (bool \<times> int \<times> fatfs) option" where
  "add_entry entry lba e sec r s =
     (let ent = ent_at e sec
      in if ent ! 0 = 0x00 \<or> ent ! 0 = 0xE5
         then let (r, s) = write_fs lba 1 (overwrite (e * 32) entry sec) s in Some (True, r, s)
         else Some (False, r, s))"

partial_function (option) last_cluster :: "u16 \<Rightarrow> u8 list \<Rightarrow> u16 option" where
  "last_cluster c fat =
     (if fat_get c fat \<ge> 2 \<and> fat_get c fat < EOC then last_cluster (fat_get c fat) fat else Some c)"

definition clear_sectors :: "u16 \<Rightarrow> nat \<Rightarrow> fatfs \<Rightarrow> fatfs" where
  "clear_sectors c from s =
     fold (\<lambda>i s. snd (write_fs (cluster_lba c s + word_of_nat i) 1 (replicate 512 0) s))
       [from..<unat (sectors_per_cluster s)] s"

definition dir_grow :: "u16 \<Rightarrow> u8 list \<Rightarrow> fatfs \<Rightarrow> (int \<times> fatfs) option" where
  "dir_grow dir entry s =
     (if dir = 0 then Some (-1, s)
      else Option.bind (last_cluster dir (fat_cache s)) (\<lambda>c.
           Option.bind (alloc_cluster s) (\<lambda>(nc, s).
             if nc = 0 then Some (-1, s)
             else let s = fat_flush (s\<lparr>fat_cache := fat_put c nc (fat_cache s)\<rparr>);
                      s = clear_sectors nc 0 s
                  in Some (0, snd (write_fs (cluster_lba nc s) 1 (overwrite 0 entry (replicate 512 0)) s)))))"

definition dir_add :: "u16 \<Rightarrow> u8 list \<Rightarrow> fatfs \<Rightarrow> (int \<times> fatfs) option" where
  "dir_add dir entry s =
     Option.bind (dir_walk dir (add_entry entry) 0 s) (\<lambda>(x, r, sec, s).
       case x of No_sector \<Rightarrow> dir_grow dir entry s
       | Bad_read \<Rightarrow> Some (-1, s)
       | Stopped \<Rightarrow> Some (r, s))"

section \<open>Mounting\<close>

definition skipped :: "u8 list \<Rightarrow> bool" where
  "skipped ent \<longleftrightarrow> ent ! 0 = 0xE5 \<or> ent ! 11 = ATTR_LFN \<or> ent ! 11 AND ATTR_VOLUME \<noteq> 0"

definition count_entry :: "u32 \<Rightarrow> nat \<Rightarrow> u8 list \<Rightarrow> int \<Rightarrow> fatfs \<Rightarrow> (bool \<times> int \<times> fatfs) option" where
  "count_entry lba e sec files s =
     (let ent = ent_at e sec
      in if ent ! 0 = 0x00 then Some (True, files, s)
         else if skipped ent then Some (False, files, s)
         else Some (False, files + 1, s))"

definition read_bpb :: "u8 list \<Rightarrow> fatfs \<Rightarrow> fatfs" where
  "read_bpb bpb s = s\<lparr>
     bytes_per_sector := le16 (bpb ! 11) (bpb ! 12),
     sectors_per_cluster := bpb ! 13,
     reserved_sectors := le16 (bpb ! 14) (bpb ! 15),
     num_fats := bpb ! 16,
     root_entries := le16 (bpb ! 17) (bpb ! 18),
     total_secs := le16 (bpb ! 19) (bpb ! 20),
     sectors_per_fat := le16 (bpb ! 22) (bpb ! 23)\<rparr>"

definition set_layout :: "fatfs \<Rightarrow> fatfs" where
  "set_layout s =
     (let rs = ucast (reserved_sectors s) + ucast (num_fats s) * ucast (sectors_per_fat s);
          rn = (ucast (root_entries s) * 32 + 511) div 512;
          ds = rs + rn
      in s\<lparr>fat_start := ucast (reserved_sectors s), root_start := rs, root_sectors := rn, data_start := ds,
           cluster_count := (ucast (total_secs s) - ds) div ucast (sectors_per_cluster s)\<rparr>)"

definition fs_init :: "fatfs \<Rightarrow> (int \<times> fatfs) option" where
  "fs_init s =
     (let s = s\<lparr>mounted := False\<rparr>;
          (r, bpb, s) = disk_read_sector 0 (stale s 512) s
      in if r \<noteq> 0 then Some (-1, disk_motor_off s)
         else let s = read_bpb bpb s
         in if bytes_per_sector s \<noteq> 512 \<or> sectors_per_cluster s = 0 \<or> num_fats s = 0 \<or> num_fats s > 2
            then Some (-1, disk_motor_off s)
            else let s = set_layout s
            in Option.bind (kmalloc (ucast (sectors_per_fat s) * 512) (fs_heap s)) (\<lambda>(p, h).
               let s = s\<lparr>fs_heap := h\<rparr>; n = unat (sectors_per_fat s)
               in if p = 0 then Some (-1, disk_motor_off s)
                  else let (r, fat, s) = read_fs (fat_start s) n (stale s (n * 512)) s;
                           s = disk_motor_off (s\<lparr>fat_cache := fat\<rparr>)
                  in if r \<noteq> 0 then Some (-1, s)
                     else let s = s\<lparr>mounted := True, cwd_cluster := 0,
                                    cwd_path := (cwd_path s)[0 := CHR ''/'', 1 := CHR 0x00]\<rparr>
                     in map_option (\<lambda>(_, files, _, s). (files, disk_motor_off s)) (dir_walk 0 count_entry 0 s)))"

definition fs_mounted :: "fatfs \<Rightarrow> bool" where "fs_mounted s = mounted s"

section \<open>Listing and completion\<close>

definition cstring :: "char list \<Rightarrow> string" where
  "cstring xs = takeWhile (\<lambda>c. c \<noteq> CHR 0x00) xs"

definition fs_cwd :: "fatfs \<Rightarrow> string" where "fs_cwd s = cstring (cwd_path s)"

definition fs_root_cluster :: u16 where "fs_root_cluster = 0"

record fs_dirent =
  d_name :: string
  d_is_dir :: bool
  d_size :: u32
  d_cluster :: u16

definition hidden :: "u8 list \<Rightarrow> bool" where
  "hidden ent \<longleftrightarrow> skipped ent \<or> ent ! 0 = 0x2E"

definition read_entry :: "int \<Rightarrow> u32 \<Rightarrow> nat \<Rightarrow> u8 list \<Rightarrow> fs_dirent list \<Rightarrow> fatfs \<Rightarrow>
    (bool \<times> fs_dirent list \<times> fatfs) option" where
  "read_entry mx lba e sec out s =
     (let ent = ent_at e sec
      in if \<not> int (length out) < mx then Some (True, out, s)
         else if ent ! 0 = 0x00 then Some (True, out, s)
         else if hidden ent then Some (False, out, s)
         else Some (int (length out) + 1 = mx, out @ [\<lparr>d_name = format_name ent, d_is_dir = is_dir_ent ent,
                      d_size = ent_size ent, d_cluster = ent_cluster ent\<rparr>], s))"

definition fs_readdir :: "u16 \<Rightarrow> int \<Rightarrow> fatfs \<Rightarrow> (fs_dirent list \<times> fatfs) option" where
  "fs_readdir cluster mx s =
     (if \<not> mounted s \<or> mx \<le> 0 then Some ([], s)
      else map_option (\<lambda>(_, out, _, s). (out, disk_motor_off s)) (dir_walk cluster (read_entry mx) [] s))"

definition say :: "string \<Rightarrow> fatfs \<Rightarrow> fatfs" where
  "say cs s = s\<lparr>con := con s @ map Putc cs\<rparr>"

definition say_color :: "u8 \<Rightarrow> u8 \<Rightarrow> fatfs \<Rightarrow> fatfs" where
  "say_color fg bg s = s\<lparr>con := con s @ [Set_color fg bg]\<rparr>"

definition say_dec :: "u32 \<Rightarrow> fatfs \<Rightarrow> fatfs" where
  "say_dec v s = say (if v = 0 then ''0'' else rev (dec_buf v)) s"

definition list_entry :: "u32 \<Rightarrow> nat \<Rightarrow> u8 list \<Rightarrow> u32 \<Rightarrow> fatfs \<Rightarrow> (bool \<times> u32 \<times> fatfs) option" where
  "list_entry lba e sec count s =
     (let ent = ent_at e sec
      in if ent ! 0 = 0x00 then Some (True, count, s)
         else if hidden ent then Some (False, count, s)
         else let name = cstring (format_name ent);
                  s = say_color 11 0 (say ''  '' s);
                  s = say_color 7 0 (say name s);
                  s = say (replicate (14 - length name) CHR '' '') s;
                  s = (if is_dir_ent ent then say ''<DIR>'' s else say '' bytes'' (say_dec (ent_size ent) s));
                  s = say [CHR 0x0A] s
              in Some (False, count + 1, s))"

definition fs_list :: "fatfs \<Rightarrow> fatfs option" where
  "fs_list s =
     (if \<not> mounted s then Some (say (''ls: no filesystem mounted'' @ [CHR 0x0A]) s)
      else map_option (\<lambda>(_, count, _, s).
             let s = say_dec count (say ''  '' (disk_motor_off s))
             in say ((if count = 1 then '' entry'' else '' entries'') @ [CHR 0x0A]) s)
           (dir_walk (cwd_cluster s) list_entry 0 s))"

definition upper :: "char \<Rightarrow> char" where
  "upper c = byte_chr (upper_byte c)"

definition prefix_ok :: "string \<Rightarrow> string \<Rightarrow> bool" where
  "prefix_ok up name = list_all (\<lambda>i. i < length name \<and> upper (name ! i) = up ! i) [0..<length up]"

fun common_len :: "string \<Rightarrow> string \<Rightarrow> nat" where
  "common_len (x # xs) (y # ys) = (if upper x = upper y then Suc (common_len xs ys) else 0)"
| "common_len _ _ = 0"

definition complete_entry :: "string \<Rightarrow> u32 \<Rightarrow> u32 \<Rightarrow> nat \<Rightarrow> u8 list \<Rightarrow> int \<times> string \<Rightarrow> fatfs \<Rightarrow>
    (bool \<times> (int \<times> string) \<times> fatfs) option" where
  "complete_entry up outsize lba e sec mo s =
     (let ent = ent_at e sec; (matches, out) = mo
      in if ent ! 0 = 0x00 then Some (True, mo, s)
         else if hidden ent then Some (False, mo, s)
         else let name = cstring (format_name ent)
         in if \<not> prefix_ok up name then Some (False, mo, s)
            else if matches = 0 then Some (False, (1, take (unat (outsize - 1)) name), s)
            else Some (False, (matches + 1, take (common_len out name) out), s))"

definition fs_complete :: "string \<Rightarrow> u32 \<Rightarrow> fatfs \<Rightarrow> (int \<times> string \<times> fatfs) option" where
  "fs_complete prefix outsize s =
     map_option (\<lambda>(_, (matches, out), _, s). (matches, out, disk_motor_off s))
       (dir_walk (cwd_cluster s) (complete_entry (map upper (take 12 prefix)) outsize) (0, []) s)"

section \<open>The working directory\<close>

fun push_loop :: "string \<Rightarrow> nat \<Rightarrow> char list \<Rightarrow> nat \<times> char list" where
  "push_loop [] l path = (l, path)"
| "push_loop (c # cs) l path = (if l < 127 then push_loop cs (l + 1) (path[l := c]) else (l, path))"

definition path_push :: "string \<Rightarrow> char list \<Rightarrow> char list" where
  "path_push name path =
     (let l = length (cstring path);
          (l, path) = (if l \<noteq> 1 then (l + 1, path[l := CHR ''/'']) else (l, path));
          (l, path) = push_loop name l path
      in path[l := CHR 0x00])"

fun pop_loop :: "nat \<Rightarrow> char list \<Rightarrow> nat" where
  "pop_loop l path = (if l > 1 \<and> path ! (l - 1) \<noteq> CHR ''/'' then pop_loop (l - 1) path else l)"

declare pop_loop.simps [simp del]

definition path_pop :: "char list \<Rightarrow> char list" where
  "path_pop path =
     (let l = pop_loop (length (cstring path)) path;
          l = (if l > 1 then l - 1 else l);
          l = (if l = 0 then 1 else l)
      in path[l := CHR 0x00, 0 := CHR ''/''])"

definition DOTDOT :: "u8 list" where
  "DOTDOT = [0x2E, 0x2E] @ replicate 9 0x20"

definition cd_one :: "string \<Rightarrow> fatfs \<Rightarrow> (int \<times> fatfs) option" where
  "cd_one cmp s =
     (if cmp = [] \<or> cmp = ''.'' then Some (0, s)
      else if cmp = ''..'' then
        (if cwd_cluster s = 0 then Some (0, s)
         else map_option (\<lambda>(hit, s). case hit of
                  None \<Rightarrow> (-1, s)
                | Some (_, _, ent) \<Rightarrow> (0, s\<lparr>cwd_cluster := ent_cluster ent, cwd_path := path_pop (cwd_path s)\<rparr>))
              (dir_find (cwd_cluster s) DOTDOT s))
      else map_option (\<lambda>(hit, s). case hit of
               None \<Rightarrow> (-1, s)
             | Some (_, _, ent) \<Rightarrow>
                 if \<not> is_dir_ent ent then (-1, s)
                 else (0, s\<lparr>cwd_cluster := ent_cluster ent, cwd_path := path_push cmp (cwd_path s)\<rparr>))
           (dir_find (cwd_cluster s) (to_83 cmp) s))"

abbreviation not_slash :: "char \<Rightarrow> bool" where "not_slash c \<equiv> c \<noteq> CHR ''/''"

partial_function (option) cd_loop :: "string \<Rightarrow> fatfs \<Rightarrow> (int \<times> fatfs) option" where
  "cd_loop p s =
     (if p = [] then Some (0, s)
      else let cmp = take 12 (takeWhile not_slash p);
               p1 = dropWhile (\<lambda>c. \<not> not_slash c) (dropWhile not_slash p)
      in if cmp = [] then cd_loop p1 s
         else Option.bind (cd_one cmp s) (\<lambda>(r, s). if r \<noteq> 0 then Some (-1, s) else cd_loop p1 s))"

definition fs_cd :: "string \<Rightarrow> fatfs \<Rightarrow> (int \<times> fatfs) option" where
  "fs_cd path s =
     (if \<not> mounted s then Some (-1, s)
      else if path = [] then Some (0, s)
      else let save_cluster = cwd_cluster s; save_path = take 128 (cwd_path s);
               (p, s) = (if \<not> not_slash (hd path)
                 then (dropWhile (\<lambda>c. \<not> not_slash c) path,
                       s\<lparr>cwd_cluster := 0, cwd_path := (cwd_path s)[0 := CHR ''/'', 1 := CHR 0x00]\<rparr>)
                 else (path, s))
      in map_option (\<lambda>(r, s).
           if r \<noteq> 0 then
             (let s = s\<lparr>cwd_cluster := save_cluster, cwd_path := overwrite 0 save_path (cwd_path s)\<rparr>;
                  s = say (''cd: no such directory: '' @ path @ [CHR 0x0A]) s
              in (-1, disk_motor_off s))
           else (0, disk_motor_off s)) (cd_loop p s))"

definition fs_pwd :: "fatfs \<Rightarrow> fatfs" where
  "fs_pwd s = say (fs_cwd s @ [CHR 0x0A]) s"

section \<open>Names: facts\<close>

definition padded :: "nat \<Rightarrow> u8 list \<Rightarrow> u8 list" where
  "padded n xs = xs @ replicate (n - length xs) 0x20"

definition joined :: "string \<Rightarrow> string \<Rightarrow> string" where
  "joined base ext = base @ (if ext = [] then [] else CHR ''.'' # ext)"

definition plain :: "string \<Rightarrow> bool" where
  "plain cs \<longleftrightarrow> CHR ''.'' \<notin> set cs \<and> CHR '' '' \<notin> set cs"

lemma name_loop_spec:
  assumes "CHR ''.'' \<notin> set base" and "i + length base \<le> 8" and "length out = 11"
    and "rest = [] \<or> hd rest = CHR ''.''"
  shows "name_loop i out (base @ rest) = (overwrite i (map upper_byte base) out, rest)"
  using assms
proof (induction base arbitrary: i out)
  case Nil
  then show ?case by (cases rest) auto
next
  case (Cons c cs)
  then show ?case by (auto simp: overwrite_upd)
qed

lemma ext_loop_spec:
  assumes "j + length ext \<le> 11" and "length out = 11"
  shows "ext_loop j out ext = overwrite j (map upper_byte ext) out"
  using assms by (induction ext arbitrary: j out) (simp_all add: overwrite_upd)

lemma to_83_joined:
  assumes "plain base" and "length base \<le> 8" and "length ext \<le> 3"
  shows "to_83 (joined base ext) = padded 8 (map upper_byte base) @ padded 3 (map upper_byte ext)"
proof -
  let ?rest = "if ext = [] then [] else CHR ''.'' # ext"
  have "name_loop 0 (replicate 11 0x20) (joined base ext) =
      (overwrite 0 (map upper_byte base) (replicate 11 0x20), ?rest)"
    unfolding joined_def using assms by (intro name_loop_spec) (auto simp: plain_def)
  moreover have "replicate (11 - length base) (0x20 :: u8) = replicate (8 - length base) 0x20 @ replicate 3 0x20"
    using assms(2) by (simp flip: replicate_add)
  ultimately show ?thesis
    using assms by (auto simp: to_83_def ext_loop_spec overwrite_def padded_def)
qed

lemma of_char_eq_byte: "of_char c = b \<longleftrightarrow> c = byte_chr b" for b :: u8
  by (metis byte_chr_of_char of_char_byte_chr)

lemma byte_chr_space: "byte_chr 0x20 = CHR '' ''"
  by code_simp

lemma upper_byte_space: "upper_byte c = 0x20 \<longleftrightarrow> c = CHR '' ''"
proof -
  have "b - 32 = 0x20 \<longleftrightarrow> b = 0x40" for b :: u8 by (auto simp: diff_eq_eq)
  then show ?thesis by (auto simp: upper_byte_def Let_def of_char_eq_byte byte_chr_space)
qed

lemma upper_byte_dot: "byte_chr (upper_byte CHR ''.'') = CHR ''.''"
  by code_simp

lemma takeWhile_padded:
  assumes "CHR '' '' \<notin> set cs"
  shows "takeWhile (\<lambda>b. b \<noteq> 0x20) (padded n (map upper_byte cs)) = map upper_byte cs"
proof -
  have "takeWhile (\<lambda>b. b \<noteq> 0x20) (map upper_byte cs @ replicate m 0x20) = map upper_byte cs" for m
    using assms by (subst takeWhile_append2) (auto simp: upper_byte_space)
  then show ?thesis by (simp add: padded_def)
qed

lemma length_padded [simp]: "length xs \<le> n \<Longrightarrow> length (padded n xs) = n"
  by (simp add: padded_def)

lemma format_name_padded:
  assumes "plain base" and "plain ext" and "length base \<le> 8" and "length ext \<le> 3"
  shows "format_name (padded 8 (map upper_byte base) @ padded 3 (map upper_byte ext) @ rest) = map upper (joined base ext)"
proof -
  have "(padded 8 (map upper_byte base) @ padded 3 (map upper_byte ext) @ rest) ! 8 \<noteq> 0x20 \<longleftrightarrow> ext \<noteq> []"
    using assms by (cases ext) (auto simp: nth_append padded_def plain_def upper_byte_space nth_Cons')
  then show ?thesis
    using assms by (auto simp: format_name_def takeWhile_padded plain_def joined_def upper_byte_dot upper_def)
qed


section \<open>Entries: facts\<close>

lemma make_entry_fields:
  assumes "length name83 = 11"
  shows "length (make_entry name83 attr c sz t) = 32" "take 11 (make_entry name83 attr c sz t) = name83"
    "make_entry name83 attr c sz t ! 11 = attr" "ent_cluster (make_entry name83 attr c sz t) = c"
    "ent_size (make_entry name83 attr c sz t) = sz"
proof -
  let ?e = "make_entry name83 attr c sz t"
  obtain d f where df: "fat_now t = (d, f)" by fastforce
  show "length ?e = 32" "take 11 ?e = name83" "?e ! 11 = attr"
    using assms by (simp_all add: make_entry_def df nth_append)
  have "?e ! 26 = lo8 c" "?e ! 27 = hi8 c" using assms by (simp_all add: make_entry_def df nth_append)
  then show "ent_cluster ?e = c" by (simp add: ent_cluster_def)
  have "?e ! 28 = ucast (sz AND 0xFF)" "?e ! 29 = ucast (drop_bit 8 sz)" "?e ! 30 = ucast (drop_bit 16 sz)"
    "?e ! 31 = ucast (drop_bit 24 sz)"
    using assms by (simp_all add: make_entry_def df nth_append)
  then show "ent_size ?e = sz" by (simp add: ent_size_def le32_bytes)
qed

section \<open>The entries of a directory\<close>

text \<open>The directory \<open>dir\<close> occupies the sectors \<open>ls\<close>, in this order.\<close>

definition dir_lbas :: "u16 \<Rightarrow> fatfs \<Rightarrow> u32 list \<Rightarrow> bool" where
  "dir_lbas dir s ls \<longleftrightarrow> length ls < 2 ^ 32 \<and> (\<forall>i < length ls. dir_sector_lba dir (word_of_nat i) s = ls ! i \<and> ls ! i \<noteq> 0) \<and>
     dir_sector_lba dir (word_of_nat (length ls)) s = 0"

definition no_faults :: "fatfs \<Rightarrow> bool" where
  "no_faults s \<longleftrightarrow> (\<forall>n. fault s n = None)"

definition entries :: "fatfs \<Rightarrow> u32 list \<Rightarrow> (u32 \<times> nat \<times> u8 list) list" where
  "entries s ls = concat (map (\<lambda>lba. map (\<lambda>e. (lba, e, media s lba)) [0..<16]) ls)"

text \<open>What is left of a state when the transfer counter and the motor are disregarded.\<close>

definition idle :: "fatfs \<Rightarrow> fatfs" where
  "idle s = s\<lparr>xfers := 0, motor := False\<rparr>"

text \<open>A body that only looks at the entry.\<close>

fun scan_list :: "(u32 \<Rightarrow> nat \<Rightarrow> u8 list \<Rightarrow> 'a \<Rightarrow> bool \<times> 'a) \<Rightarrow> (u32 \<times> nat \<times> u8 list) list \<Rightarrow> 'a \<Rightarrow> bool \<times> 'a" where
  "scan_list g [] a = (False, a)"
| "scan_list g ((lba, e, sec) # r) a =
     (let (stop, a) = g lba e sec a in if stop then (True, a) else scan_list g r a)"

lemma scan_list_append:
  "scan_list g (xs @ ys) a = (let (stop, b) = scan_list g xs a in if stop then (True, b) else scan_list g ys b)"
  by (induction g xs a rule: scan_list.induct) (auto simp: Let_def split: prod.splits)

lemma read_one_idle:
  assumes "read_fs lba 1 sec s = (r, sec1, s1)"
  shows "idle s1 = idle s"
  using assms by (auto simp: read_fs_def disk_read_sector_def idle_def Let_def split: if_splits)

lemma read_one_good:
  assumes "no_faults s"
  shows "fst (read_fs lba 1 sec s) = 0"
    and "length sec = 512 \<Longrightarrow> length (media s lba) = 512 \<Longrightarrow> fst (snd (read_fs lba 1 sec s)) = media s lba"
  using assms by (simp_all add: read_fs_def disk_read_sector_def no_faults_def Let_def overwrite_def)

lemma idle_cong:
  assumes "idle s1 = idle s"
  shows "media s1 = media s" "fault s1 = fault s" "dir_sector_lba dir idx s1 = dir_sector_lba dir idx s"
    "stale s1 = stale s" "fat_cache s1 = fat_cache s" "cluster_lba c s1 = cluster_lba c s"
    "cwd_cluster s1 = cwd_cluster s" "cwd_path s1 = cwd_path s" "mounted s1 = mounted s" "con s1 = con s"
    "sectors_per_cluster s1 = sectors_per_cluster s" "clock s1 = clock s" "fs_heap s1 = fs_heap s"
proof -
  have e: "s1 = s\<lparr>xfers := xfers s1, motor := motor s1\<rparr>" using assms by (cases s; cases s1) (simp add: idle_def)
  show "media s1 = media s" "fault s1 = fault s" "dir_sector_lba dir idx s1 = dir_sector_lba dir idx s"
    "stale s1 = stale s" "fat_cache s1 = fat_cache s" "cluster_lba c s1 = cluster_lba c s"
    "cwd_cluster s1 = cwd_cluster s" "cwd_path s1 = cwd_path s" "mounted s1 = mounted s" "con s1 = con s"
    "sectors_per_cluster s1 = sectors_per_cluster s" "clock s1 = clock s" "fs_heap s1 = fs_heap s"
    by (subst e, simp add: dir_sector_lba_def cluster_lba_def Let_def cong: option.case_cong)+
qed

definition pure_body :: "(u32 \<Rightarrow> nat \<Rightarrow> u8 list \<Rightarrow> 'a \<Rightarrow> fatfs \<Rightarrow> (bool \<times> 'a \<times> fatfs) option) \<Rightarrow>
    (u32 \<Rightarrow> nat \<Rightarrow> u8 list \<Rightarrow> 'a \<Rightarrow> bool \<times> 'a) \<Rightarrow> bool" where
  "pure_body f g \<longleftrightarrow> (\<forall>lba e sec a s. f lba e sec a s = (let (stop, b) = g lba e sec a in Some (stop, b, s)))"

lemma ent_loop_pure:
  assumes "pure_body f g"
  shows "ent_loop (f lba) es sec a s =
    (let (stop, b) = scan_list g (map (\<lambda>e. (lba, e, sec)) es) a in Some (stop, b, s))"
  using assms by (induction es arbitrary: a) (auto simp: pure_body_def Let_def split: prod.splits)

lemma entries_Cons: "entries s (l # ls) = map (\<lambda>e. (l, e, media s l)) [0..<16] @ entries s ls"
  by (simp add: entries_def)

definition walk_gives :: "(walk_end \<times> 'a \<times> u8 list \<times> fatfs) option \<Rightarrow> bool \<times> 'a \<Rightarrow> fatfs \<Rightarrow> bool" where
  "walk_gives w sb s \<longleftrightarrow> (\<exists>sec s1. w = Some (if fst sb then Stopped else No_sector, snd sb, sec, s1) \<and> idle s1 = idle s)"

lemma dir_loop_pure:
  assumes "pure_body f g" and "dir_lbas dir s ls" and "no_faults s" and "\<forall>l \<in> set ls. length (media s l) = 512"
    and "i \<le> length ls" and "idle t = idle s" and "length sec = 512"
  shows "walk_gives (dir_loop dir (\<lambda>lba. ent_loop (f lba) [0..<16]) (word_of_nat i) sec a t)
    (scan_list g (entries s (drop i ls)) a) s"
  using assms(5-)
proof (induction "length ls - i" arbitrary: i sec a t)
  case 0
  then have "dir_sector_lba dir (word_of_nat i) t = 0"
    using assms(2) by (simp add: dir_lbas_def idle_cong [OF "0.prems"(2)])
  then show ?case
    using "0.prems" "0.hyps" by (subst dir_loop.simps) (simp add: walk_gives_def entries_def)
next
  case (Suc k)
  have i: "i < length ls" and i1: "(word_of_nat i :: u32) + 1 = word_of_nat (Suc i)"
    using Suc.hyps(2) by simp_all
  have l: "dir_sector_lba dir (word_of_nat i) t = ls ! i" "ls ! i \<noteq> 0"
    using assms(2) i by (simp_all add: dir_lbas_def idle_cong [OF Suc.prems(2)])
  obtain r sec1 t1 where rd: "read_fs (ls ! i) 1 sec t = (r, sec1, t1)" by (metis prod_cases3)
  have "no_faults t" using assms(3) by (simp add: no_faults_def idle_cong [OF Suc.prems(2)])
  from read_one_good [OF this, where lba = "ls ! i" and sec = sec] have r: "r = 0" "sec1 = media s (ls ! i)"
    using rd Suc.prems(3) assms(4) i by (simp_all add: idle_cong [OF Suc.prems(2)])
  have t1: "idle t1 = idle s" using read_one_idle [OF rd] Suc.prems(2) by simp
  have sec1: "length sec1 = 512" using assms(4) i r by simp
  obtain stop b where sc: "scan_list g (map (\<lambda>e. (ls ! i, e, sec1)) [0..<16]) a = (stop, b)" by fastforce
  have step: "dir_loop dir (\<lambda>lba. ent_loop (f lba) [0..<16]) (word_of_nat i) sec a t =
      (if stop then Some (Stopped, b, sec1, t1)
       else dir_loop dir (\<lambda>lba. ent_loop (f lba) [0..<16]) (word_of_nat (Suc i)) sec1 b t1)"
    by (subst dir_loop.simps) (simp only: l rd r(1) Let_def fst_conv snd_conv ent_loop_pure [OF assms(1)] sc prod.case
        bind.bind_lunit i1 if_False simp_thms Option.bind.simps)
  have dr: "entries s (drop i ls) = map (\<lambda>e. (ls ! i, e, sec1)) [0..<16] @ entries s (drop (Suc i) ls)"
    using i by (simp only: Cons_nth_drop_Suc [symmetric] entries_Cons r(2))
  have tot: "scan_list g (entries s (drop i ls)) a = (if stop then (True, b) else scan_list g (entries s (drop (Suc i) ls)) b)"
    by (simp only: dr scan_list_append sc Let_def prod.case)
  show ?case
  proof (cases stop)
    case True
    then show ?thesis using t1 by (simp add: step tot walk_gives_def)
  next
    case False
    have "walk_gives (dir_loop dir (\<lambda>lba. ent_loop (f lba) [0..<16]) (word_of_nat (Suc i)) sec1 b t1)
      (scan_list g (entries s (drop (Suc i) ls)) b) s"
      by (rule Suc.hyps(1)) (use Suc.hyps(2) i t1 sec1 in simp_all)
    with False show ?thesis by (simp only: step tot if_False)
  qed
qed


lemma dir_walk_pure:
  assumes "pure_body f g" and "dir_lbas dir s ls" and "no_faults s" and "\<forall>l \<in> set ls. length (media s l) = 512"
    and "length (stale s 512) = 512"
  shows "walk_gives (dir_walk dir f a s) (scan_list g (entries s ls) a) s"
  using dir_loop_pure [OF assms(1-4), of 0 s "stale s 512" a] assms(5) by (simp add: dir_walk_def)

lemma dir_lbas_root:
  assumes "unat (root_start s) + unat (root_sectors s) < 2 ^ 32" and "root_start s \<noteq> 0"
  shows "dir_lbas 0 s (map (\<lambda>i. root_start s + word_of_nat i) [0..<unat (root_sectors s)])"
proof -
  have n: "unat (root_sectors s) < 2 ^ 32" using unat_less_pow [of "root_sectors s"] by simp
  have "\<not> root_sectors s \<le> word_of_nat i" "root_start s + word_of_nat i \<noteq> 0" if "i < unat (root_sectors s)" for i
  proof -
    have i: "unat (word_of_nat i :: u32) = i" using that n by (simp add: unat_of_nat_less)
    then have "unat (root_start s + word_of_nat i) = unat (root_start s) + i"
      using that assms(1) by (simp add: unat_plus_simple)
    then show "root_start s + word_of_nat i \<noteq> 0" using assms(2) by (auto simp: word_unat_eq_iff)
    show "\<not> root_sectors s \<le> word_of_nat i" using that i by (simp add: word_le_nat_alt)
  qed
  then show ?thesis using n by (simp add: dir_lbas_def dir_sector_lba_def)
qed

text \<open>The sectors of a chain of clusters.\<close>

definition cluster_sectors :: "fatfs \<Rightarrow> u16 \<Rightarrow> u32 list" where
  "cluster_sectors s c = map (\<lambda>i. cluster_lba c s + word_of_nat i) [0..<unat (sectors_per_cluster s)]"

lemma walk_chain_nth:
  assumes "chain n fat c xs" and "fat_ok n fat" and "xs \<noteq> []"
  shows "walk_chain k c fat = (if k < length xs then Some (xs ! k) else None)"
  using assms
proof (induction k arbitrary: c xs)
  case 0
  then show ?case by (cases xs) auto
next
  case (Suc k)
  then obtain ys where xs: "xs = c # ys" and ys: "chain n fat (fat_get c fat) ys" by (cases xs) auto
  show ?case
  proof (cases ys)
    case Nil
    then show ?thesis using ys xs by (auto simp: Let_def)
  next
    case (Cons y zs)
    then have y: "fat_get c fat = y" "2 \<le> y" "unat y < n" using ys by auto
    then have "y < EOC" using Suc.prems(2) by (simp add: fat_ok_def EOC_def word_less_nat_alt)
    then show ?thesis using Suc.IH [OF ys Suc.prems(2)] y(1,2) xs Cons by (simp add: Let_def not_less [symmetric])
  qed
qed

lemma concat_blocks_nth:
  assumes "\<forall>b \<in> set bs. length b = m" and "0 < m" and "i < length bs * m"
  shows "concat bs ! i = bs ! (i div m) ! (i mod m)"
  using assms
proof (induction bs arbitrary: i)
  case (Cons b bs)
  then show ?case
  proof (cases "i < m")
    case True
    then show ?thesis using Cons.prems by (simp add: nth_append)
  next
    case False
    then have "concat bs ! (i - m) = bs ! ((i - m) div m) ! ((i - m) mod m)"
      using Cons.prems by (intro Cons.IH) auto
    then show ?thesis using False Cons.prems by (simp add: nth_append le_div_geq le_mod_geq)
  qed
qed simp

lemma length_concat_blocks: "\<forall>b \<in> set bs. length b = m \<Longrightarrow> length (concat bs) = length bs * m"
  by (induction bs) auto

lemma dir_lbas_chain:
  assumes "chain n (fat_cache s) c xs" and "fat_ok n (fat_cache s)" and "xs \<noteq> []" and "c \<noteq> 0"
    and "sectors_per_cluster s \<noteq> 0" and "length xs \<le> 0x1000"
    and "\<forall>x \<in> set xs. 0 \<notin> set (cluster_sectors s x)"
  shows "dir_lbas c s (concat (map (cluster_sectors s) xs))"
proof -
  let ?m = "unat (sectors_per_cluster s)" and ?bs = "map (cluster_sectors s) xs"
  have m: "0 < ?m" "?m < 256" using assms(5) unat_less_pow [of "sectors_per_cluster s"] by (simp_all add: unat_gt_0)
  have bl: "\<forall>b \<in> set ?bs. length b = ?m" by (simp add: cluster_sectors_def)
  have len: "length (concat ?bs) = length xs * ?m" using length_concat_blocks [OF bl] by simp
  have lt: "length xs * ?m \<le> 0x1000 * 255" using assms(6) m(2) by (intro mult_le_mono) auto
  have sp: "unat (ucast (sectors_per_cluster s) :: u32) = ?m" by (simp add: unat_ucast_up)
  have look: "dir_sector_lba c (word_of_nat i) s =
      (if i div ?m < length xs then cluster_lba (xs ! (i div ?m)) s + word_of_nat (i mod ?m) else 0)"
    if "i \<le> length xs * ?m" for i
  proof -
    have "i < 2 ^ 32" using that lt by simp
    then have u: "unat (word_of_nat i :: u32) = i" by (simp add: unat_of_nat_less)
    have d: "unat ((word_of_nat i :: u32) div ucast (sectors_per_cluster s)) = i div ?m"
      by (simp add: unat_div u sp)
    have "unat ((word_of_nat i :: u32) mod ucast (sectors_per_cluster s)) = i mod ?m"
      by (simp add: unat_mod u sp)
    then have "(word_of_nat i :: u32) mod ucast (sectors_per_cluster s) = word_of_nat (i mod ?m)"
      using \<open>i < 2 ^ 32\<close> by (simp add: word_unat_eq_iff unat_of_nat_less le_less_trans [OF mod_less_eq_dividend])
    then show ?thesis
      using assms(4) walk_chain_nth [OF assms(1-3), of "i div ?m"]
      by (simp add: dir_sector_lba_def Let_def d)
  qed
  have "dir_sector_lba c (word_of_nat i) s = concat ?bs ! i \<and> concat ?bs ! i \<noteq> 0" if "i < length xs * ?m" for i
  proof -
    have q: "i div ?m < length xs" using that m(1) by (simp add: less_mult_imp_div_less)
    have "concat ?bs ! i = ?bs ! (i div ?m) ! (i mod ?m)"
      using concat_blocks_nth [OF bl m(1)] that by simp
    also have "\<dots> = cluster_lba (xs ! (i div ?m)) s + word_of_nat (i mod ?m)"
      using q m(1) by (simp add: cluster_sectors_def)
    finally have e: "concat ?bs ! i = cluster_lba (xs ! (i div ?m)) s + word_of_nat (i mod ?m)" .
    have "concat ?bs ! i \<in> set (cluster_sectors s (xs ! (i div ?m)))"
      unfolding e using m(1) by (simp add: cluster_sectors_def)
    then have "concat ?bs ! i \<noteq> 0" using assms(7) q by (metis nth_mem)
    then show ?thesis using look [of i] that q e by simp
  qed
  then show ?thesis using look [of "length xs * ?m"] m(1) len lt by (simp add: dir_lbas_def)
qed


section \<open>Search: facts\<close>

definition end_mark :: "u32 \<times> nat \<times> u8 list \<Rightarrow> bool" where
  "end_mark x = (case x of (lba, e, sec) \<Rightarrow> ent_at e sec ! 0 = 0)"

definition named :: "u8 list \<Rightarrow> u32 \<times> nat \<times> u8 list \<Rightarrow> bool" where
  "named name83 x = (case x of (lba, e, sec) \<Rightarrow>
     ent_at e sec ! 0 \<noteq> 0xE5 \<and> ent_at e sec ! 11 \<noteq> ATTR_LFN \<and> take 11 (ent_at e sec) = name83)"

text \<open>The entry a directory holds under a name: the first one before the end mark.\<close>

definition lookup :: "u8 list \<Rightarrow> (u32 \<times> nat \<times> u8 list) list \<Rightarrow> dir_hit option" where
  "lookup name83 es = map_option (\<lambda>(lba, e, sec). (lba, e * 32, ent_at e sec))
     (find (named name83) (takeWhile (\<lambda>x. \<not> end_mark x) es))"

definition find_pure :: "u8 list \<Rightarrow> u32 \<Rightarrow> nat \<Rightarrow> u8 list \<Rightarrow> dir_hit option \<Rightarrow> bool \<times> dir_hit option" where
  "find_pure name83 lba e sec hit =
     (if end_mark (lba, e, sec) then (True, None)
      else if named name83 (lba, e, sec) then (True, Some (lba, e * 32, ent_at e sec))
      else (False, hit))"

lemma find_entry_pure: "pure_body (find_entry name83) (find_pure name83)"
  by (auto simp: pure_body_def find_entry_def find_pure_def end_mark_def named_def Let_def)

lemma scan_find: "snd (scan_list (find_pure name83) es None) = lookup name83 es"
  by (induction es) (auto simp: find_pure_def lookup_def Let_def)

lemma dir_find_lookup:
  assumes "dir_lbas dir s ls" and "no_faults s" and "\<forall>l \<in> set ls. length (media s l) = 512"
    and "length (stale s 512) = 512"
  obtains s1 where "dir_find dir name83 s = Some (lookup name83 (entries s ls), s1)" and "idle s1 = idle s"
proof -
  have "walk_gives (dir_walk dir (find_entry name83) None s) (scan_list (find_pure name83) (entries s ls) None) s"
    by (rule dir_walk_pure [OF find_entry_pure assms])
  then show thesis using that by (auto simp: walk_gives_def dir_find_def scan_find)
qed


section \<open>Walks with transfer errors\<close>

text \<open>A walk whose body only looks at the entries changes nothing, whatever transfers fail.\<close>

lemma dir_loop_idle_raw:
  assumes p: "pure_body f g" and w: "dir_loop dir body idx sec a s = Some y"
  shows "body = (\<lambda>lba. ent_loop (f lba) [0..<16]) \<longrightarrow> idle (snd (snd (snd y))) = idle s"
proof (rule dir_loop.raw_induct [OF _ w])
  fix loop dir body idx sec a s y
  assume IH: "\<And>dir body idx sec a s y. loop dir body idx sec a s = Some y \<Longrightarrow>
      body = (\<lambda>lba. ent_loop (f lba) [0..<16]) \<longrightarrow> idle (snd (snd (snd y))) = idle s"
    and st: "(let lba = dir_sector_lba dir idx s
      in if lba = 0 then Some (No_sector, a, sec, s)
         else let rd = read_fs lba 1 sec s; sec1 = fst (snd rd); s1 = snd (snd rd)
         in if fst rd \<noteq> 0 then Some (Bad_read, a, sec1, s1)
            else Option.bind (body lba sec1 a s1) (\<lambda>(stop, a2, s2).
                   if stop then Some (Stopped, a2, sec1, s2) else loop dir body (idx + 1) sec1 a2 s2)) = Some y"
  show "body = (\<lambda>lba. ent_loop (f lba) [0..<16]) \<longrightarrow> idle (snd (snd (snd y))) = idle s"
  proof
    assume body: "body = (\<lambda>lba. ent_loop (f lba) [0..<16])"
    let ?lba = "dir_sector_lba dir idx s"
    obtain r sec2 s2 where rd: "read_fs ?lba 1 sec s = (r, sec2, s2)" by (metis prod_cases3)
    note s2 = read_one_idle [OF rd]
    obtain stop c where sc: "scan_list g (map (\<lambda>e. (?lba, e, sec2)) [0..<16]) a = (stop, c)" by fastforce
    consider "y = (No_sector, a, sec, s)" | "y = (Bad_read, a, sec2, s2)" | "y = (Stopped, c, sec2, s2)"
      | "loop dir body (idx + 1) sec2 c s2 = Some y"
      using st by (cases "?lba = 0"; cases "r = 0"; cases stop)
        (simp_all add: Let_def rd body ent_loop_pure [OF p] sc del: One_nat_def)
    then show "idle (snd (snd (snd y))) = idle s"
    proof cases
      case 4
      then show ?thesis using IH [OF 4] s2 body by simp
    qed (simp_all add: s2)
  qed
qed

lemma dir_loop_idle:
  assumes "pure_body f g" and "dir_loop dir (\<lambda>lba. ent_loop (f lba) [0..<16]) idx sec a s = Some (x, b, sec1, s1)"
  shows "idle s1 = idle s"
  using dir_loop_idle_raw [OF assms] by simp

lemma dir_find_idle: "dir_find dir name83 s = Some (hit, s1) \<Longrightarrow> idle s1 = idle s"
  using dir_loop_idle [OF find_entry_pure] by (auto simp: dir_find_def dir_walk_def)

text \<open>On a directory with finitely many sectors the search returns, whatever transfers fail.\<close>

lemma dir_loop_returns:
  assumes "pure_body f g" and "dir_lbas dir s ls" and "i \<le> length ls" and "idle t = idle s"
  shows "dir_loop dir (\<lambda>lba. ent_loop (f lba) [0..<16]) (word_of_nat i) sec a t \<noteq> None"
  using assms(3-)
proof (induction "length ls - i" arbitrary: i sec a t)
  case 0
  then show ?case using assms(2)
    by (subst dir_loop.simps) (simp add: dir_lbas_def idle_cong [OF "0.prems"(2)])
next
  case (Suc k)
  obtain r sec1 t1 where rd: "read_fs (dir_sector_lba dir (word_of_nat i) t) 1 sec t = (r, sec1, t1)"
    by (metis prod_cases3)
  have i1: "(word_of_nat i :: u32) + 1 = word_of_nat (Suc i)" by simp
  have "dir_loop dir (\<lambda>lba. ent_loop (f lba) [0..<16]) (word_of_nat (Suc i)) sec1 b t1 \<noteq> None" for b
    by (rule Suc.hyps(1)) (use Suc.hyps(2) Suc.prems read_one_idle [OF rd] in simp_all)
  then show ?case
    by (subst dir_loop.simps)
      (simp add: Let_def rd ent_loop_pure [OF assms(1)] i1 del: of_nat_Suc One_nat_def split: prod.split)
qed

lemma dir_find_returns:
  assumes "dir_lbas dir s ls"
  shows "dir_find dir name83 s \<noteq> None"
  using dir_loop_returns [OF find_entry_pure assms, of 0 s] by (simp add: dir_find_def dir_walk_def)

section \<open>The working directory: facts\<close>

lemma length_push_loop [simp]: "length (snd (push_loop cs l path)) = length path"
  by (induction cs l path rule: push_loop.induct) auto

lemma length_path_push [simp]: "length (path_push name path) = length path"
  by (simp add: path_push_def Let_def split: prod.split) (metis length_list_update length_push_loop snd_conv)

lemma length_path_pop [simp]: "length (path_pop path) = length path"
  by (simp add: path_pop_def Let_def)

text \<open>Only the working directory differs.\<close>

definition moved :: "fatfs \<Rightarrow> fatfs \<Rightarrow> bool" where
  "moved s s1 \<longleftrightarrow> idle s1 = idle (s\<lparr>cwd_cluster := cwd_cluster s1, cwd_path := cwd_path s1\<rparr>) \<and>
     length (cwd_path s1) = length (cwd_path s)"

lemma moved_idle: "idle s1 = idle s \<Longrightarrow> moved s s1"
  by (cases s; cases s1) (simp add: moved_def idle_def)

lemma moved_trans: "moved s s1 \<Longrightarrow> moved s1 s2 \<Longrightarrow> moved s s2"
  by (cases s; cases s1; cases s2) (simp add: moved_def idle_def)

lemma moved_cwd: "moved s s1 \<Longrightarrow> length p = length (cwd_path s1) \<Longrightarrow> moved s (s1\<lparr>cwd_cluster := c, cwd_path := p\<rparr>)"
  by (cases s; cases s1) (simp add: moved_def idle_def)

lemma cd_one_moved:
  assumes "cd_one cmp s = Some (r, s1)"
  shows "moved s s1"
proof -
  have up: "moved s s1" if "map_option (\<lambda>(hit, s). case hit of None \<Rightarrow> (-1, s) | Some (_, _, ent) \<Rightarrow>
      (0, s\<lparr>cwd_cluster := ent_cluster ent, cwd_path := path_pop (cwd_path s)\<rparr>)) (dir_find d n s) = Some (r, s1)" for d n
    using that by (auto dest!: dir_find_idle moved_idle intro!: moved_cwd split: option.splits)
  have down: "moved s s1" if w: "map_option (\<lambda>(hit, s). case hit of None \<Rightarrow> (-1, s) | Some (_, _, ent) \<Rightarrow>
      if \<not> is_dir_ent ent then (-1, s)
      else (0, s\<lparr>cwd_cluster := ent_cluster ent, cwd_path := path_push cmp (cwd_path s)\<rparr>)) (dir_find d n s) = Some (r, s1)" for d n
  proof -
    obtain hit s2 where f: "dir_find d n s = Some (hit, s2)" using w by (cases "dir_find d n s") auto
    show ?thesis using w moved_idle [OF dir_find_idle [OF f]]
      by (cases hit) (auto simp: f intro!: moved_cwd split: if_splits)
  qed
  show ?thesis using assms up down unfolding cd_one_def by (auto simp: moved_idle split: if_splits)
qed

lemma cd_rest_shorter: "p \<noteq> [] \<Longrightarrow> length (dropWhile (\<lambda>c. \<not> not_slash c) (dropWhile not_slash p)) < length p"
proof (cases p)
  case (Cons c cs)
  have "length (dropWhile P xs) \<le> length xs" for P and xs :: string by (rule length_dropWhile_le)
  then show ?thesis using Cons by (cases "not_slash c") (auto intro: le_less_trans le_trans simp: less_Suc_eq_le)
qed simp

lemma cd_loop_moved: "cd_loop p s = Some (r, s1) \<Longrightarrow> moved s s1"
proof (induction "length p" arbitrary: p s rule: less_induct)
  case less
  let ?c = "take 12 (takeWhile not_slash p)" and ?p = "dropWhile (\<lambda>c. \<not> not_slash c) (dropWhile not_slash p)"
  show ?case
  proof (cases "p = []")
    case True
    then show ?thesis using less.prems by (subst (asm) cd_loop.simps) (simp add: moved_idle)
  next
    case False
    have IH: "cd_loop ?p s' = Some (r, s1) \<Longrightarrow> moved s' s1" for s'
      by (rule less.hyps [OF cd_rest_shorter [OF False]])
    consider "cd_loop ?p s = Some (r, s1)"
      | r' s' where "cd_one ?c s = Some (r', s')" "s1 = s'"
      | r' s' where "cd_one ?c s = Some (r', s')" "cd_loop ?p s' = Some (r, s1)"
      using less.prems False by (subst (asm) cd_loop.simps) (auto simp: Let_def bind_eq_Some_conv split: if_splits)
    then show ?thesis by cases (blast dest: IH cd_one_moved intro: moved_trans)+
  qed
qed


text \<open>A path buffer, with the byte after it, holds the string \<open>p\<close>.\<close>

definition holds_path :: "char list \<Rightarrow> string \<Rightarrow> bool" where
  "holds_path buf p \<longleftrightarrow> length buf = 129 \<and> length p \<le> 127 \<and> CHR 0x00 \<notin> set p \<and>
     (\<exists>rest. buf = p @ CHR 0x00 # rest)"

lemma cstring_holds: "CHR 0x00 \<notin> set p \<Longrightarrow> cstring (p @ CHR 0x00 # rest) = p"
  by (induction p) (auto simp: cstring_def)

lemma push_loop_spec:
  assumes "l + length cs \<le> 127" and "length path = 129"
  shows "push_loop cs l path = (l + length cs, overwrite l cs path)"
  using assms by (induction cs arbitrary: l path) (simp_all add: overwrite_upd)

definition sep_for :: "string \<Rightarrow> string" where
  "sep_for p = (if length p = 1 then [] else ''/'')"

lemma path_push_holds:
  assumes "CHR 0x00 \<notin> set p" and "length (p @ CHR 0x00 # rest) = 129"
    and "length p + length (sep_for p) + length c \<le> 127"
  shows "path_push c (p @ CHR 0x00 # rest) =
    p @ sep_for p @ c @ CHR 0x00 # drop (length (sep_for p) + length c) rest"
proof (cases "length p = 1")
  case True
  then have "path_push c (p @ CHR 0x00 # rest) = (overwrite (length p) c (p @ CHR 0x00 # rest))[length p + length c := CHR 0x00]"
    using assms by (simp add: path_push_def cstring_holds push_loop_spec)
  then show ?thesis
    using True assms by (cases c) (simp_all add: overwrite_def list_update_append sep_for_def drop_Cons' upd_conv_take_nth_drop)
next
  case False
  then have "path_push c (p @ CHR 0x00 # rest) =
      (overwrite (length p + 1) c (p @ CHR ''/'' # rest))[length p + 1 + length c := CHR 0x00]"
    using assms by (simp add: path_push_def cstring_holds push_loop_spec sep_for_def list_update_append Let_def)
  then show ?thesis
    using False assms by (simp add: overwrite_def list_update_append sep_for_def upd_conv_take_nth_drop)
qed

lemma pop_loop_last:
  assumes "CHR ''/'' \<notin> set c" and "length p \<ge> 1" and "\<not> not_slash (last p)"
  shows "pop_loop (length p + length c) (p @ c @ rest) = length p"
  using assms
proof (induction c arbitrary: rest rule: rev_induct)
  case Nil
  have "(p @ rest) ! (length p - 1) = last p" using Nil.prems(2) by (cases "p = []") (simp_all add: nth_append last_conv_nth)
  then show ?case using Nil by (subst pop_loop.simps) simp
next
  case (snoc x xs)
  have "(p @ (xs @ [x]) @ rest) ! (length p + length xs) = x" by (simp add: nth_append)
  moreover have "pop_loop (length p + length xs) (p @ xs @ (x # rest)) = length p" using snoc.prems by (intro snoc.IH) auto
  ultimately show ?case using snoc.prems by (subst pop_loop.simps) auto
qed

text \<open>Absolute paths as the code keeps them.\<close>

definition abs_path :: "string \<Rightarrow> bool" where
  "abs_path p \<longleftrightarrow> p \<noteq> [] \<and> hd p = CHR ''/'' \<and> CHR 0x00 \<notin> set p"

lemma path_pop_push:
  assumes "abs_path p" and "length (p @ CHR 0x00 # rest) = 129" and "CHR ''/'' \<notin> set c" and "CHR 0x00 \<notin> set c"
    and "length p + length (sep_for p) + length c \<le> 127"
  shows "cstring (path_pop (path_push c (p @ CHR 0x00 # rest))) = p"
proof -
  let ?q = "p @ sep_for p" and ?rest = "CHR 0x00 # drop (length (sep_for p) + length c) rest"
  have push: "path_push c (p @ CHR 0x00 # rest) = ?q @ c @ ?rest"
    using path_push_holds [OF _ assms(2,5)] assms(1) by (simp add: abs_path_def)
  have "CHR 0x00 \<notin> set (?q @ c)" using assms(1,4) by (auto simp: abs_path_def sep_for_def)
  then have cs: "cstring (?q @ c @ ?rest) = ?q @ c" using cstring_holds by (metis append.assoc)
  have "last ?q = CHR ''/''" "1 \<le> length ?q"
    using assms(1) by (cases p; auto simp: sep_for_def abs_path_def)+
  then have pl: "pop_loop (length (?q @ c)) (?q @ c @ ?rest) = length ?q"
    using pop_loop_last [OF assms(3), of ?q ?rest] by (simp add: add.assoc)
  have "path_pop (?q @ c @ ?rest) = (?q @ c @ ?rest)[length p := CHR 0x00, 0 := CHR ''/'']"
    using assms(1) by (simp only: path_pop_def cs pl Let_def) (auto simp: sep_for_def abs_path_def)
  also have "\<dots> = p @ (sep_for p @ c @ ?rest)[0 := CHR 0x00]"
    using assms(1) by (cases p) (auto simp: list_update_append abs_path_def)
  also have "\<dots> = p @ CHR 0x00 # tl (sep_for p @ c @ ?rest)"
    by (cases "sep_for p @ c @ ?rest") auto
  finally show ?thesis using cstring_holds assms(1) push by (simp add: abs_path_def)
qed

lemma fs_cd_moved:
  assumes "fs_cd path s = Some (r, s1)" and "length (cwd_path s) = 129"
  shows "media s1 = media s \<and> fat_cache s1 = fat_cache s \<and> mounted s1 = mounted s \<and> length (cwd_path s1) = 129 \<and>
    (r \<noteq> 0 \<longrightarrow> r = -1 \<and> cwd_cluster s1 = cwd_cluster s \<and> take 128 (cwd_path s1) = take 128 (cwd_path s))"
proof -
  define s0 where "s0 = (if \<not> not_slash (hd path) then s\<lparr>cwd_cluster := 0, cwd_path := (cwd_path s)[0 := CHR ''/'', 1 := CHR 0x00]\<rparr> else s)"
  define p where "p = (if \<not> not_slash (hd path) then dropWhile (\<lambda>c. \<not> not_slash c) path else path)"
  show ?thesis
  proof (cases "\<not> mounted s \<or> path = []")
    case True
    then show ?thesis using assms by (auto simp: fs_cd_def split: if_splits)
  next
    case False
    have m0: "moved s s0" by (simp add: s0_def moved_def idle_def)
    obtain r' t where t: "cd_loop p s0 = Some (r', t)" and
      rt: "if r' \<noteq> 0 then r = -1 \<and> s1 = disk_motor_off (say (''cd: no such directory: '' @ path @ [CHR 0x0A])
             (t\<lparr>cwd_cluster := cwd_cluster s, cwd_path := overwrite 0 (take 128 (cwd_path s)) (cwd_path t)\<rparr>))
           else r = 0 \<and> s1 = disk_motor_off t"
      using assms(1) False by (auto simp: fs_cd_def s0_def p_def Let_def split: if_splits)
    have mt: "moved s t" using moved_trans [OF m0 cd_loop_moved [OF t]] .
    then have "media t = media s" "fat_cache t = fat_cache s" "mounted t = mounted s" "length (cwd_path t) = 129"
      using assms(2) idle_cong [of t "s\<lparr>cwd_cluster := cwd_cluster t, cwd_path := cwd_path t\<rparr>"]
      by (simp_all add: moved_def)
    then show ?thesis using rt assms(2)
      by (auto simp: disk_motor_off_def say_def overwrite_def split: if_splits)
  qed
qed

section \<open>Case of names\<close>

lemma upper_byte_is_dot: "upper_byte c = 0x2E \<longleftrightarrow> c = CHR ''.''"
proof -
  have "b - 32 = 0x2E \<longleftrightarrow> b = 0x4E" for b :: u8 by (auto simp: diff_eq_eq)
  moreover have "byte_chr 0x2E = CHR ''.''" by code_simp
  ultimately show ?thesis by (auto simp: upper_byte_def Let_def of_char_eq_byte)
qed

lemma upper_byte_idem: "upper_byte (byte_chr (upper_byte c)) = upper_byte c"
proof -
  have "\<not> 0x61 \<le> b - 32" if "0x61 \<le> b" "b \<le> 0x7A" for b :: u8
  proof -
    have "32 \<le> b" using that(1) by (simp add: word_le_nat_alt)
    then show ?thesis using that by (simp add: word_le_nat_alt unat_minus_simple)
  qed
  then show ?thesis by (auto simp: upper_byte_def Let_def)
qed

lemma upper_is_dot: "upper c = CHR ''.'' \<longleftrightarrow> c = CHR ''.''"
  using upper_byte_is_dot [of c] upper_byte_is_dot [of "upper c"] upper_byte_idem [of c] by (simp add: upper_def)

lemma upper_is_space: "upper c = CHR '' '' \<longleftrightarrow> c = CHR '' ''"
  using upper_byte_space [of c] upper_byte_space [of "upper c"] upper_byte_idem [of c] by (simp add: upper_def)

lemma upper_plain:
  assumes "plain cs"
  shows "plain (map upper cs)"
proof -
  have "\<forall>c \<in> set cs. upper c \<noteq> CHR ''.'' \<and> upper c \<noteq> CHR '' ''"
    using assms by (auto simp only: plain_def upper_is_dot upper_is_space)
  then show ?thesis by (force simp only: plain_def set_map image_iff)
qed

section \<open>Properties\<close>

text \<open>
  A name in 8.3 form that is stored in a directory entry and printed again is the name in upper case,
  and looking the printed name up finds the same entry.
\<close>

theorem name_roundtrip:
  assumes "plain base" and "plain ext" and "length base \<le> 8" and "length ext \<le> 3"
  shows "format_name (to_83 (joined base ext)) = map upper (joined base ext) \<and>
    to_83 (map upper (joined base ext)) = to_83 (joined base ext) \<and> length (to_83 (joined base ext)) = 11"
proof -
  have up: "map upper (joined base ext) = joined (map upper base) (map upper ext)"
    by (simp add: joined_def upper_def upper_byte_dot)
  have b: "map upper_byte (map upper cs) = map upper_byte cs" for cs by (simp add: upper_def upper_byte_idem)
  have "to_83 (joined base ext) = padded 8 (map upper_byte base) @ padded 3 (map upper_byte ext)"
    by (rule to_83_joined) (use assms in simp_all)
  moreover have "to_83 (joined (map upper base) (map upper ext)) = padded 8 (map upper_byte base) @ padded 3 (map upper_byte ext)"
    using to_83_joined [OF upper_plain [OF assms(1)], of "map upper ext"] assms(3,4) by (simp only: b length_map)
  ultimately show ?thesis
    using format_name_padded [OF assms, of "[]"] assms(3,4) by (simp add: up)
qed

theorem name_roundtrip_witness:
  "to_83 ''readme.txt'' = map of_char ''README  TXT'' \<and> format_name (to_83 ''readme.txt'') = ''README.TXT''"
proof -
  have j: "joined ''readme'' ''txt'' = ''readme.txt''" by (simp add: joined_def)
  have "map upper ''readme.txt'' = ''README.TXT''" "to_83 ''readme.txt'' = map of_char ''README  TXT''" by code_simp+
  then show ?thesis using name_roundtrip [of "''readme''" "''txt''"] by (simp add: j plain_def)
qed

text \<open>
  \<open>make_entry\<close> lays an entry out so that the readers of the module find again what was put in: the
  name, the attributes, the first cluster and the size; and it has the 32 bytes of a directory slot.
\<close>

theorem make_entry_roundtrip:
  assumes "length name83 = 11"
  shows "length (make_entry name83 attr c sz t) = 32 \<and> take 11 (make_entry name83 attr c sz t) = name83 \<and>
    make_entry name83 attr c sz t ! 11 = attr \<and> ent_cluster (make_entry name83 attr c sz t) = c \<and>
    ent_size (make_entry name83 attr c sz t) = sz"
  using make_entry_fields [OF assms] by simp

theorem make_entry_roundtrip_witness:
  "ent_size (make_entry (to_83 ''a.txt'') ATTR_FILE 3 0x12345 (clock (sample_fs [] 0))) = 0x12345"
proof -
  have "length (to_83 ''a.txt'') = 11" by code_simp
  then show ?thesis using make_entry_roundtrip by blast
qed

text \<open>A volume whose root directory holds a directory and a file.\<close>

definition sample_root :: "u8 list" where
  "sample_root = make_entry (to_83 ''sub'') ATTR_DIR 2 0 (clock (sample_fs [] 0)) @
     make_entry (to_83 ''a.txt'') ATTR_FILE 3 5 (clock (sample_fs [] 0)) @ replicate 448 0"

definition sample_dir :: fatfs where
  "sample_dir = (sample_fs [0xF0, 0xFF, 0xFF, 0xFF, 0xFF, 0xFF] 2)\<lparr>media := (\<lambda>_. replicate 512 0)(2 := sample_root)\<rparr>"

lemma sample_entry:
  "make_entry n a c sz (clock (sample_fs [] 0)) =
    take 11 n @ [a, 0, 0, 0xC5, 0x63, 0xE4, 0x5C, 0xE4, 0x5C, 0, 0, 0xC5, 0x63, 0xE4, 0x5C, lo8 c, hi8 c,
      ucast (sz AND 0xFF), ucast (drop_bit 8 sz), ucast (drop_bit 16 sz), ucast (drop_bit 24 sz)]"
proof -
  have "fat_now (clock (sample_fs [] 0)) = (0x5CE4, 0x63C5)" by (simp add: fat_now_def sample_fs_def)
  then show ?thesis by (simp add: make_entry_def lo8_def hi8_def)
qed

lemma sample_dir_ok:
  "dir_lbas 0 sample_dir [2]" "no_faults sample_dir" "\<forall>l \<in> set [2]. length (media sample_dir l) = 512"
  "length (stale sample_dir 512) = 512"
proof -
  show "dir_lbas 0 sample_dir [2]"
    using dir_lbas_root [of sample_dir] by (simp add: sample_dir_def sample_fs_def)
  have "length (to_83 ''sub'') = 11" "length (to_83 ''a.txt'') = 11" by code_simp+
  then have "length sample_root = 512" by (simp add: sample_root_def make_entry_fields)
  then show "\<forall>l \<in> set [2]. length (media sample_dir l) = 512" by (simp add: sample_dir_def)
  show "no_faults sample_dir" "length (stale sample_dir 512) = 512"
    by (simp_all add: no_faults_def sample_dir_def sample_fs_def)
qed

lemma sample_lookup:
  "lookup (to_83 ''a.txt'') (entries sample_dir [2]) =
    Some (2, 32, make_entry (to_83 ''a.txt'') ATTR_FILE 3 5 (clock (sample_fs [] 0)))"
proof -
  have "lookup (to_83 ''a.txt'') (map (\<lambda>e. (2, e, sample_root)) [0..<16]) =
      Some (2, 32, make_entry (to_83 ''a.txt'') ATTR_FILE 3 5 (clock (sample_fs [] 0)))"
    unfolding sample_root_def sample_entry by code_simp
  then show ?thesis by (simp add: entries_def sample_dir_def)
qed

text \<open>
  C15. \<open>dir_find\<close> finds what the directory holds: when no transfer fails, the result is the first entry
  before the end mark, over all sectors of the directory in order, that is neither deleted nor part of
  a long name and carries the name. Neither the disk nor the state of the module changes.
\<close>

theorem dir_find_refines:
  assumes "dir_lbas dir s ls" and "no_faults s" and "\<forall>l \<in> set ls. length (media s l) = 512"
    and "length (stale s 512) = 512"
  shows "\<exists>s1. dir_find dir name83 s = Some (lookup name83 (entries s ls), s1) \<and> idle s1 = idle s"
  using dir_find_lookup [OF assms] by metis

theorem dir_find_refines_witness:
  "\<exists>s1. dir_find 0 (to_83 ''a.txt'') sample_dir = Some (Some (2, 32, make_entry (to_83 ''a.txt'') ATTR_FILE 3 5 (clock (sample_fs [] 0))), s1)"
  using dir_find_refines [OF sample_dir_ok, of "to_83 ''a.txt''"] by (auto simp: sample_lookup)

text \<open>
  \<open>dir_find\<close> returns on the root directory and on every directory that is a chain of clusters,
  whatever transfers fail, and changes nothing.
\<close>

theorem dir_find_total:
  assumes "dir = 0 \<and> root_start s \<noteq> 0 \<and> unat (root_start s) + unat (root_sectors s) < 2 ^ 32 \<or>
    dir \<noteq> 0 \<and> chain n (fat_cache s) dir xs \<and> xs \<noteq> [] \<and> fat_ok n (fat_cache s) \<and> length xs \<le> 0x1000 \<and>
      sectors_per_cluster s \<noteq> 0 \<and> (\<forall>x \<in> set xs. 0 \<notin> set (cluster_sectors s x))"
  shows "\<exists>hit s1. dir_find dir name83 s = Some (hit, s1) \<and> idle s1 = idle s"
proof -
  have "\<exists>ls. dir_lbas dir s ls" using assms dir_lbas_root dir_lbas_chain by blast
  then obtain hit s1 where "dir_find dir name83 s = Some (hit, s1)" using dir_find_returns by fastforce
  then show ?thesis using dir_find_idle by blast
qed

theorem dir_find_total_witness:
  "\<exists>hit s1. dir_find 0 (to_83 ''nope'') (sample_dir\<lparr>fault := (\<lambda>_. Some [])\<rparr>) = Some (hit, s1)"
  using dir_find_total [of 0 "sample_dir\<lparr>fault := (\<lambda>_. Some [])\<rparr>"] by (simp add: sample_dir_def sample_fs_def) blast

text \<open>
  C16. A failed \<open>fs_cd\<close> leaves the working directory as it was, and no \<open>fs_cd\<close> changes the disk or the table,
  at whichever component of the path it fails.
\<close>

theorem fs_cd_rollback:
  assumes "fs_cd path s = Some (r, s1)" and "length (cwd_path s) = 129"
  shows "media s1 = media s \<and> fat_cache s1 = fat_cache s \<and> mounted s1 = mounted s \<and> length (cwd_path s1) = 129 \<and>
    (r \<noteq> 0 \<longrightarrow> r = -1 \<and> cwd_cluster s1 = cwd_cluster s \<and> take 128 (cwd_path s1) = take 128 (cwd_path s))"
  by (rule fs_cd_moved [OF assms])

theorem fs_cd_rollback_witness:
  "\<exists>s1. fs_cd ''/a.txt'' sample_dir = Some (-1, s1) \<and> cwd_cluster s1 = 0 \<and>
    take 128 (cwd_path s1) = CHR ''/'' # replicate 127 CHR 0x00"
proof -
  let ?ent = "make_entry (to_83 ''a.txt'') ATTR_FILE 3 5 (clock (sample_fs [] 0))"
  have s0: "sample_dir\<lparr>cwd_cluster := 0, cwd_path := (cwd_path sample_dir)[0 := CHR ''/'', 1 := CHR 0x00]\<rparr> = sample_dir"
    "cwd_cluster sample_dir = 0" "mounted sample_dir" "length (cwd_path sample_dir) = 129"
    "take 128 (cwd_path sample_dir) = CHR ''/'' # replicate 127 CHR 0x00"
    by (simp_all add: sample_dir_def sample_fs_def list_update_same_conv)
  obtain t where t: "dir_find 0 (to_83 ''a.txt'') sample_dir = Some (Some (2, 32, ?ent), t)"
    using dir_find_lookup [OF sample_dir_ok, of "to_83 ''a.txt''"] sample_lookup by metis
  have "length (to_83 ''a.txt'') = 11" by code_simp
  then have "\<not> is_dir_ent ?ent" by (simp add: is_dir_ent_def make_entry_fields ATTR_DIR_def ATTR_FILE_def)
  then have "cd_one ''a.txt'' sample_dir = Some (-1, t)" by (simp add: cd_one_def s0(2) t)
  then have "cd_loop ''a.txt'' sample_dir = Some (-1, t)" by (subst cd_loop.simps) simp
  then obtain s1 where s1: "fs_cd ''/a.txt'' sample_dir = Some (-1, s1)" using s0 by (simp add: fs_cd_def Let_def)
  show ?thesis using fs_cd_rollback [OF s1 s0(4)] s1 s0(2,5) by simp
qed

text \<open>
  Entering a directory and going back up restores the path, as long as the path fits its buffer:
  \<open>path_pop\<close> undoes \<open>path_push\<close>, and no byte after the buffer is written.
\<close>

theorem path_push_pop:
  assumes "abs_path p" and "length p + length rest = 128" and "CHR ''/'' \<notin> set c" and "CHR 0x00 \<notin> set c"
    and "length p + length (sep_for p) + length c \<le> 127"
  shows "cstring (path_push c (p @ CHR 0x00 # rest)) = p @ sep_for p @ c \<and>
    path_push c (p @ CHR 0x00 # rest) ! 128 = (p @ CHR 0x00 # rest) ! 128 \<and>
    cstring (path_pop (path_push c (p @ CHR 0x00 # rest))) = p"
proof -
  have len: "length (p @ CHR 0x00 # rest) = 129" using assms(2) by simp
  have ps: "path_push c (p @ CHR 0x00 # rest) = p @ sep_for p @ c @ CHR 0x00 # drop (length (sep_for p) + length c) rest"
    using path_push_holds [OF _ len assms(5)] assms(1) by (simp add: abs_path_def)
  have "CHR 0x00 \<notin> set (p @ sep_for p @ c)" using assms(1,4) by (auto simp: abs_path_def sep_for_def)
  then have "cstring (path_push c (p @ CHR 0x00 # rest)) = p @ sep_for p @ c"
    unfolding ps using cstring_holds [of "p @ sep_for p @ c"] by simp
  moreover have "path_push c (p @ CHR 0x00 # rest) ! 128 = (p @ CHR 0x00 # rest) ! 128"
    unfolding ps using assms(2,5) by (auto simp: nth_append nth_Cons')
  ultimately show ?thesis using path_pop_push [OF assms(1) len assms(3-5)] by simp
qed

theorem path_push_pop_witness:
  "cstring (path_pop (path_push ''sub'' (''/docs'' @ CHR 0x00 # replicate 123 CHR 0x00))) = ''/docs''"
  using path_push_pop [of "''/docs''" "replicate 123 CHR 0x00" "''sub''"] by (simp add: abs_path_def sep_for_def)

text \<open>
  When the path has filled its 128-byte buffer, the next \<open>path_push\<close> replaces the terminator by a
  slash and writes the new terminator one byte past the end of the buffer.
\<close>

theorem path_push_overflow:
  assumes "length p = 127" and "CHR 0x00 \<notin> set p"
  shows "path_push c (p @ CHR 0x00 # [x]) = p @ ''/'' @ [CHR 0x00]"
proof -
  have "push_loop c 128 path = (128, path)" for path by (cases c) simp_all
  then show ?thesis using assms by (simp add: path_push_def cstring_holds list_update_append Let_def)
qed

theorem path_push_overflow_witness:
  "path_push ''docs'' (replicate 127 CHR ''a'' @ CHR 0x00 # [CHR 0xFF]) = replicate 127 CHR ''a'' @ ''/'' @ [CHR 0x00]"
  by (rule path_push_overflow) simp_all


end
