(* ===== verification/FatFile.thy ===== *)
theory FatFile
  imports FatDir
begin

text \<open>
  The third part of \<open>fs/fat12.c\<close>: reading files, creating and overwriting them, and removing files and
  directories. The loops of \<open>fs_cat\<close> and \<open>fs_read\<close> over the sectors of a file are the same and are
  written once; they give the bytes that were read.
\<close>

section \<open>Reading\<close>

text \<open>The sectors of one cluster, until \<open>remaining\<close> bytes have been read or a transfer fails.\<close>

fun file_sectors :: "nat \<Rightarrow> nat \<Rightarrow> u16 \<Rightarrow> u32 \<Rightarrow> u8 list \<Rightarrow> u8 list \<Rightarrow> fatfs \<Rightarrow> bool \<times> u32 \<times> u8 list \<times> u8 list \<times> fatfs" where
  "file_sectors 0 i c remaining sec acc s = (True, remaining, sec, acc, s)"
| "file_sectors (Suc k) i c remaining sec acc s =
     (if \<not> remaining > 0 then (True, remaining, sec, acc, s)
      else let (r, sec, s) = read_fs (cluster_lba c s + word_of_nat i) 1 sec s
      in if r \<noteq> 0 then (False, remaining, sec, acc, s)
         else let n = (if remaining < 512 then remaining else 512)
         in file_sectors k (Suc i) c (remaining - n) sec (acc @ take (unat n) sec) s)"

text \<open>The clusters of a file; \<open>guard\<close> counts the iterations that are left of 8192.\<close>

fun file_loop :: "nat \<Rightarrow> u16 \<Rightarrow> u32 \<Rightarrow> u8 list \<Rightarrow> u8 list \<Rightarrow> fatfs \<Rightarrow> bool \<times> u8 list \<times> fatfs" where
  "file_loop 0 c remaining sec acc s = (True, acc, s)"
| "file_loop (Suc guard) c remaining sec acc s =
     (if c \<ge> 2 \<and> c < EOC \<and> remaining > 0
      then let (ok, remaining, sec, acc, s) =
                 file_sectors (unat (sectors_per_cluster s)) 0 c remaining sec acc s
      in if \<not> ok then (False, acc, s) else file_loop guard (fat_get c (fat_cache s)) remaining sec acc s
      else (True, acc, s))"

definition read_file :: "u8 list \<Rightarrow> fatfs \<Rightarrow> bool \<times> u8 list \<times> fatfs" where
  "read_file ent s = file_loop 8192 (ent_cluster ent) (ent_size ent) (stale s 512) [] s"

definition fs_cat :: "string \<Rightarrow> fatfs \<Rightarrow> (int \<times> fatfs) option" where
  "fs_cat name s =
     (if \<not> mounted s then Some (0, say (''cat: no filesystem mounted'' @ [CHR 0x0A]) s)
      else map_option (\<lambda>(hit, s). case hit of
          None \<Rightarrow> (-1, disk_motor_off s)
        | Some (_, _, ent) \<Rightarrow>
            if is_dir_ent ent then (0, disk_motor_off (say (''cat: is a directory'' @ [CHR 0x0A]) s))
            else let (ok, bytes, s) = read_file ent s
                 in (0, disk_motor_off (say (map byte_chr bytes) s)))
        (dir_find (cwd_cluster s) (to_83 name) s))"

text \<open>The result is the return value and the bytes stored from the start of the caller's buffer.\<close>

definition fs_read :: "string \<Rightarrow> u32 \<Rightarrow> fatfs \<Rightarrow> (int \<times> u8 list \<times> fatfs) option" where
  "fs_read name maxlen s =
     (if \<not> mounted s then Some (-1, [], s)
      else map_option (\<lambda>(hit, s). case hit of
          None \<Rightarrow> (-1, [], disk_motor_off s)
        | Some (_, _, ent) \<Rightarrow>
            if is_dir_ent ent then (-1, [], disk_motor_off s)
            else if ent_size ent > maxlen then (-1, [], disk_motor_off s)
            else let (ok, bytes, s) = read_file ent s
                 in (if ok then int (length bytes) else -1, bytes, disk_motor_off s))
        (dir_find (cwd_cluster s) (to_83 name) s))"

definition last_slash :: "string \<Rightarrow> nat option" where
  "last_slash path = (if CHR ''/'' \<in> set path
     then Some (length path - 1 - length (takeWhile not_slash (rev path))) else None)"

definition fs_read_path :: "string \<Rightarrow> u32 \<Rightarrow> fatfs \<Rightarrow> (int \<times> u8 list \<times> fatfs) option" where
  "fs_read_path path maxlen s =
     (if \<not> mounted s then Some (-1, [], s)
      else case last_slash path of
        None \<Rightarrow> fs_read path maxlen s
      | Some dl \<Rightarrow>
          let dir = (if dl = 0 then ''/'' else take (min dl 126) path);
              file = drop (dl + 1) path;
              save_c = cwd_cluster s; save_p = take 128 (cwd_path s)
          in Option.bind (fs_cd dir s) (\<lambda>(r, s).
             map_option (\<lambda>(n, bytes, s).
               (n, bytes, s\<lparr>cwd_cluster := save_c, cwd_path := overwrite 0 save_p (cwd_path s)\<rparr>))
               (if r = 0 then fs_read file maxlen s else Some (-1, [], s))))"

section \<open>Writing\<close>

fun write_sectors :: "nat \<Rightarrow> nat \<Rightarrow> u16 \<Rightarrow> u8 list \<Rightarrow> u32 \<Rightarrow> u32 \<Rightarrow> fatfs \<Rightarrow> u32 \<times> fatfs" where
  "write_sectors 0 i c dat len written s = (written, s)"
| "write_sectors (Suc k) i c dat len written s =
     (let n = len - written;
          n = (if n > 512 then 512 else n);
          sec = overwrite 0 (take (unat n) (drop (unat written) dat)) (replicate 512 0);
          s = snd (write_fs (cluster_lba c s + word_of_nat i) 1 sec s)
      in write_sectors k (Suc i) c dat len (written + n) s)"

text \<open>The result is \<open>None\<close> in its first component when the disk is full, with the clusters taken so far.\<close>

partial_function (option) create_loop :: "u8 list \<Rightarrow> u32 \<Rightarrow> u32 \<Rightarrow> u16 \<Rightarrow> u16 \<Rightarrow> fatfs \<Rightarrow> (bool \<times> u16 \<times> fatfs) option" where
  "create_loop dat len written first prev s =
     (if \<not> written < len then Some (True, first, s)
      else Option.bind (alloc_cluster s) (\<lambda>(c, s1).
        if c = 0 then Some (False, first, s1)
        else let first1 = (if first = 0 then c else first);
                 s2 = (if prev \<noteq> 0 then s1\<lparr>fat_cache := fat_put prev c (fat_cache s1)\<rparr> else s1);
                 w = write_sectors (unat (sectors_per_cluster s2)) 0 c dat len written s2
             in create_loop dat len (fst w) first1 c (snd w)))"

text \<open>Read a sector into \<open>buf\<close>, change it and write it returned; the results of both transfers are ignored.\<close>

definition rewrite_entry :: "u32 \<Rightarrow> (u8 list \<Rightarrow> u8 list) \<Rightarrow> u8 list \<Rightarrow> fatfs \<Rightarrow> fatfs" where
  "rewrite_entry lba f buf s =
     (let (r, sec, s) = read_fs lba 1 buf s in snd (write_fs lba 1 (f sec) s))"

definition give_up :: "u16 \<Rightarrow> string \<Rightarrow> fatfs \<Rightarrow> (int \<times> fatfs) option" where
  "give_up first msg s =
     map_option (\<lambda>s. (-1, say (msg @ [CHR 0x0A]) (disk_motor_off (fat_flush s)))) (free_chain first s)"

definition fs_create :: "string \<Rightarrow> u8 list \<Rightarrow> fatfs \<Rightarrow> (int \<times> fatfs) option" where
  "fs_create name dat s =
     (if \<not> mounted s then Some (-1, say (''no filesystem mounted'' @ [CHR 0x0A]) s)
      else let name83 = to_83 name; len = word_of_nat (length dat)
      in Option.bind (dir_find (cwd_cluster s) name83 s) (\<lambda>(hit, s).
         if (case hit of Some (_, _, ent) \<Rightarrow> is_dir_ent ent | None \<Rightarrow> False)
         then Some (-1, disk_motor_off (say (''create: is a directory'' @ [CHR 0x0A]) s))
         else Option.bind (case hit of Some (_, _, ent) \<Rightarrow> free_chain (ent_cluster ent) s | None \<Rightarrow> Some s) (\<lambda>s.
         Option.bind (create_loop dat len 0 0 0 s) (\<lambda>(ok, first, s).
         if \<not> ok then give_up first ''create: disk full'' s
         else let s = fat_flush s;
                  entry = make_entry name83 ATTR_FILE first len (clock s)
              in case hit of
                   Some (lba, off, _) \<Rightarrow> Some (0, disk_motor_off (rewrite_entry lba (overwrite off entry) (stale s 512) s))
                 | None \<Rightarrow> Option.bind (dir_add (cwd_cluster s) entry s) (\<lambda>(r, s).
                     if r \<noteq> 0 then give_up first ''create: directory full'' s
                     else Some (0, disk_motor_off s))))))"

definition DOT :: "u8 list" where
  "DOT = 0x2E # replicate 10 0x20"

definition fs_mkdir :: "string \<Rightarrow> fatfs \<Rightarrow> (int \<times> fatfs) option" where
  "fs_mkdir name s =
     (if \<not> mounted s then Some (-1, say (''no filesystem mounted'' @ [CHR 0x0A]) s)
      else let name83 = to_83 name
      in Option.bind (dir_find (cwd_cluster s) name83 s) (\<lambda>(hit, s).
         if hit \<noteq> None then Some (-1, disk_motor_off (say (''mkdir: already exists'' @ [CHR 0x0A]) s))
         else Option.bind (alloc_cluster s) (\<lambda>(nc, s).
         if nc = 0 then Some (-1, disk_motor_off (say (''mkdir: disk full'' @ [CHR 0x0A]) s))
         else let sec = overwrite 0 (make_entry DOT ATTR_DIR nc 0 (clock s)) (replicate 512 0);
                  sec = overwrite 32 (make_entry DOTDOT ATTR_DIR (cwd_cluster s) 0 (clock s)) sec;
                  s = snd (write_fs (cluster_lba nc s) 1 sec s);
                  s = fat_flush (clear_sectors nc 1 s)
              in Option.bind (dir_add (cwd_cluster s) (make_entry name83 ATTR_DIR nc 0 (clock s)) s) (\<lambda>(r, s).
                   if r \<noteq> 0 then give_up nc ''mkdir: directory full'' s
                   else Some (0, disk_motor_off s)))))"

section \<open>Removing\<close>

definition drop_entry :: "u32 \<Rightarrow> nat \<Rightarrow> u8 list \<Rightarrow> fatfs \<Rightarrow> fatfs" where
  "drop_entry lba off buf s = rewrite_entry lba (\<lambda>sec. sec[off := 0xE5]) buf s"

definition fs_remove :: "string \<Rightarrow> fatfs \<Rightarrow> (int \<times> fatfs) option" where
  "fs_remove name s =
     (if \<not> mounted s then Some (-1, s)
      else Option.bind (dir_find (cwd_cluster s) (to_83 name) s) (\<lambda>(hit, s). case hit of
          None \<Rightarrow> Some (-1, disk_motor_off s)
        | Some (lba, off, ent) \<Rightarrow>
            if is_dir_ent ent then Some (0, disk_motor_off (say (''rm: is a directory'' @ [CHR 0x0A]) s))
            else map_option (\<lambda>s. (0, disk_motor_off (drop_entry lba off (stale s 512) (fat_flush s))))
                   (free_chain (ent_cluster ent) s)))"

text \<open>\<open>True\<close> when an entry that is neither deleted nor a dot entry was met.\<close>

definition nonempty_entry :: "u32 \<Rightarrow> nat \<Rightarrow> u8 list \<Rightarrow> bool \<Rightarrow> fatfs \<Rightarrow> (bool \<times> bool \<times> fatfs) option" where
  "nonempty_entry lba e sec found s =
     (let en = ent_at e sec
      in if en ! 0 = 0x00 then Some (True, False, s)
         else if en ! 0 = 0xE5 \<or> en ! 11 = ATTR_LFN then Some (False, found, s)
         else if en ! 0 = 0x2E then Some (False, found, s)
         else Some (True, True, s))"

definition refuse_dots :: "string \<Rightarrow> bool" where
  "refuse_dots name \<longleftrightarrow> name = ''.'' \<or> name = ''..''"

definition quote_chr :: string where "quote_chr = [CHR 0x27]"

definition fs_rmdir :: "string \<Rightarrow> fatfs \<Rightarrow> (int \<times> fatfs) option" where
  "fs_rmdir name s =
     (if \<not> mounted s then Some (-1, s)
      else if refuse_dots name
      then Some (0, say (''rmdir: refusing to remove '' @ quote_chr @ ''.'' @ quote_chr @ '' or '' @
                          quote_chr @ ''..'' @ quote_chr @ [CHR 0x0A]) s)
      else Option.bind (dir_find (cwd_cluster s) (to_83 name) s) (\<lambda>(hit, s). case hit of
          None \<Rightarrow> Some (-1, disk_motor_off s)
        | Some (lba, off, ent) \<Rightarrow>
            if \<not> is_dir_ent ent then Some (0, disk_motor_off (say (''rmdir: not a directory'' @ [CHR 0x0A]) s))
            else Option.bind (dir_walk (ent_cluster ent) nonempty_entry False s) (\<lambda>(x, found, sec, s).
                 if found then Some (0, disk_motor_off (say (''rmdir: directory not empty'' @ [CHR 0x0A]) s))
                 else map_option (\<lambda>s. (0, disk_motor_off (drop_entry lba off sec (fat_flush s))))
                        (free_chain (ent_cluster ent) s))))"

text \<open>\<open>d\<close> is the depth that is left of 32; the recursion of the code stops below that.\<close>

fun rmrf_cluster :: "nat \<Rightarrow> u16 \<Rightarrow> fatfs \<Rightarrow> fatfs option" where
  "rmrf_cluster 0 dir s = Some s"
| "rmrf_cluster (Suc d) dir s =
     map_option (\<lambda>(_, _, _, s). s) (dir_walk dir (\<lambda>lba e sec (u :: unit) s.
       let ent = ent_at e sec
       in if ent ! 0 = 0x00 then Some (True, u, s)
          else if ent ! 0 = 0xE5 \<or> ent ! 11 = ATTR_LFN then Some (False, u, s)
          else if ent ! 0 = 0x2E then Some (False, u, s)
          else Option.bind (if is_dir_ent ent then rmrf_cluster d (ent_cluster ent) s else Some s) (\<lambda>s.
               map_option (\<lambda>s. (False, u, s)) (free_chain (ent_cluster ent) s))) () s)"

definition fs_rmrf :: "string \<Rightarrow> fatfs \<Rightarrow> (int \<times> fatfs) option" where
  "fs_rmrf name s =
     (if \<not> mounted s then Some (-1, s)
      else if refuse_dots name
      then Some (0, say (''rm: refusing to remove '' @ quote_chr @ ''.'' @ quote_chr @ '' or '' @
                          quote_chr @ ''..'' @ quote_chr @ [CHR 0x0A]) s)
      else Option.bind (dir_find (cwd_cluster s) (to_83 name) s) (\<lambda>(hit, s). case hit of
          None \<Rightarrow> Some (-1, disk_motor_off s)
        | Some (lba, off, ent) \<Rightarrow>
            Option.bind (if is_dir_ent ent then rmrf_cluster 33 (ent_cluster ent) s else Some s) (\<lambda>s.
            map_option (\<lambda>s. (0, disk_motor_off (drop_entry lba off (stale s 512) (fat_flush s))))
              (free_chain (ent_cluster ent) s))))"

section \<open>Reading: facts\<close>

text \<open>However the chain of a file looks and whatever transfers fail, reading it gives at most as many
  bytes as the entry says and changes nothing.\<close>

lemma file_sectors_bound:
  assumes "file_sectors k i c remaining sec acc s = (ok, remaining1, sec1, acc1, s1)"
  shows "idle s1 = idle s \<and> length acc1 + unat remaining1 \<le> length acc + unat remaining"
  using assms
proof (induction k arbitrary: i remaining sec acc s)
  case (Suc k)
  obtain r sec2 s2 where rd: "read_fs (cluster_lba c s + word_of_nat i) 1 sec s = (r, sec2, s2)" by (metis prod_cases3)
  define n where "n = (if remaining < 512 then remaining else 512)"
  have nr: "n \<le> remaining" by (auto simp: n_def)
  consider "\<not> remaining > 0" | "remaining > 0" "r \<noteq> 0" | "remaining > 0" "r = 0" by blast
  then show ?case
  proof cases
    case 3
    then have "file_sectors k (Suc i) c (remaining - n) sec2 (acc @ take (unat n) sec2) s2 = (ok, remaining1, sec1, acc1, s1)"
      using Suc.prems rd by (simp add: n_def Let_def del: One_nat_def)
    from Suc.IH [OF this] show ?thesis
      using read_one_idle [OF rd] nr by (simp add: unat_minus_simple word_le_nat_alt) linarith
  qed (use Suc.prems rd read_one_idle [OF rd] in \<open>simp_all add: Let_def del: One_nat_def\<close>)
qed simp

lemma file_loop_bound:
  assumes "file_loop guard c remaining sec acc s = (ok, acc1, s1)"
  shows "idle s1 = idle s \<and> length acc1 \<le> length acc + unat remaining"
  using assms
proof (induction guard arbitrary: c remaining sec acc s)
  case (Suc guard)
  obtain ok2 rem2 sec2 acc2 s2 where
    f: "file_sectors (unat (sectors_per_cluster s)) 0 c remaining sec acc s = (ok2, rem2, sec2, acc2, s2)"
    by (metis prod_cases5)
  note b = file_sectors_bound [OF f]
  show ?case
  proof (cases "c \<ge> 2 \<and> c < EOC \<and> remaining > 0")
    case False
    then have "file_loop (Suc guard) c remaining sec acc s = (True, acc, s)" by (simp only: file_loop.simps if_False)
    then show ?thesis using Suc.prems by simp
  next
    case True
    then have st: "file_loop (Suc guard) c remaining sec acc s =
        (if \<not> ok2 then (False, acc2, s2) else file_loop guard (fat_get c (fat_cache s2)) rem2 sec2 acc2 s2)"
      by (simp add: f)
    show ?thesis
    proof (cases ok2)
      case True
      with Suc.prems st have "file_loop guard (fat_get c (fat_cache s2)) rem2 sec2 acc2 s2 = (ok, acc1, s1)" by simp
      from Suc.IH [OF this] show ?thesis using b by simp
    next
      case False
      then show ?thesis using Suc.prems st b by simp
    qed
  qed
qed simp

lemma fs_read_bound:
  assumes "fs_read name maxlen s = Some (r, bytes, s1)"
  shows "length bytes \<le> unat maxlen" and "idle s1 = idle s" and "r = -1 \<or> r = int (length bytes)"
proof -
  have m: "idle (disk_motor_off t) = idle t" for t by (simp add: disk_motor_off_def idle_def)
  have "length bytes \<le> unat maxlen \<and> idle s1 = idle s \<and> (r = -1 \<or> r = int (length bytes))"
  proof (cases "mounted s")
    case True
    obtain hit s2 where f: "dir_find (cwd_cluster s) (to_83 name) s = Some (hit, s2)"
      using assms True by (cases "dir_find (cwd_cluster s) (to_83 name) s") (auto simp: fs_read_def)
    note s2 = dir_find_idle [OF f]
    show ?thesis
    proof (cases hit)
      case None
      then show ?thesis using assms True f s2 by (auto simp: fs_read_def m)
    next
      case (Some h)
      obtain lba off ent where h: "h = (lba, off, ent)" by (metis prod_cases3)
      obtain ok b s3 where rf: "read_file ent s2 = (ok, b, s3)" by (metis prod_cases3)
      have b: "idle s3 = idle s2" "length b \<le> unat (ent_size ent)"
        using file_loop_bound [OF rf [unfolded read_file_def]] by simp_all
      show ?thesis
      proof (cases "is_dir_ent ent \<or> ent_size ent > maxlen")
        case True
        then show ?thesis using assms \<open>mounted s\<close> f s2 Some h by (auto simp: fs_read_def m split: if_splits)
      next
        case False
        then have "length b \<le> unat maxlen" using b(2) by (simp add: word_less_nat_alt)
        with False show ?thesis using assms \<open>mounted s\<close> f s2 Some h b(1) rf
          by (auto simp: fs_read_def m split: if_splits)
      qed
    qed
  qed (use assms in \<open>simp add: fs_read_def\<close>)
  then show "length bytes \<le> unat maxlen" "idle s1 = idle s" "r = -1 \<or> r = int (length bytes)" by auto
qed

section \<open>Properties\<close>



text \<open>
  \<open>fs_read_path\<close> leaves the working directory as it was, whether the path leads to a file or not,
  and stores no more bytes than the buffer holds.
\<close>

theorem fs_read_path_keeps_cwd:
  assumes "fs_read_path path maxlen s = Some (r, bytes, s1)" and "length (cwd_path s) = 129"
  shows "cwd_cluster s1 = cwd_cluster s \<and> take 128 (cwd_path s1) = take 128 (cwd_path s) \<and>
    length bytes \<le> unat maxlen \<and> media s1 = media s \<and> fat_cache s1 = fat_cache s"
proof (cases "\<not> mounted s \<or> last_slash path = None")
  case True
  then consider "s1 = s" "bytes = []" | "fs_read path maxlen s = Some (r, bytes, s1)"
    using assms(1) by (auto simp: fs_read_path_def split: if_splits)
  then show ?thesis using fs_read_bound idle_cong [of s1 s] by cases auto
next
  case False
  then obtain dl where dl: "last_slash path = Some dl" and mt: "mounted s" by auto
  let ?dir = "if dl = 0 then ''/'' else take (min dl 126) path" and ?file = "drop (Suc dl) path"
  let ?returned = "\<lambda>s2. s2\<lparr>cwd_cluster := cwd_cluster s, cwd_path := overwrite 0 (take 128 (cwd_path s)) (cwd_path s2)\<rparr>"
  obtain r1 t s2 where t: "fs_cd ?dir s = Some (r1, t)"
      and rd: "(if r1 = 0 then fs_read ?file maxlen t else Some (-1, [], t)) = Some (r, bytes, s2)" and s1: "s1 = ?returned s2"
    using assms(1) dl mt by (auto simp: fs_read_path_def Let_def bind_eq_Some_conv)
  note m = fs_cd_moved [OF t assms(2)]
  have i: "idle s2 = idle t" "length bytes \<le> unat maxlen"
    using rd fs_read_bound [of ?file maxlen t] by (auto split: if_splits)
  show ?thesis using m i(2) idle_cong [OF i(1)] assms(2) by (simp add: s1 overwrite_def)
qed

theorem fs_read_path_keeps_cwd_witness:
  "\<exists>r bytes s1. fs_read_path ''/a.txt'' 512 sample_dir = Some (r, bytes, s1) \<and> cwd_cluster s1 = cwd_cluster sample_dir"
proof -
  have s0: "sample_dir\<lparr>cwd_cluster := 0, cwd_path := (cwd_path sample_dir)[0 := CHR ''/'', 1 := CHR 0x00]\<rparr> = sample_dir"
    "cwd_cluster sample_dir = 0" "mounted sample_dir" "length (cwd_path sample_dir) = 129"
    "no_faults sample_dir" "sample_dir\<lparr>motor := False\<rparr> = sample_dir"
    by (simp_all add: sample_dir_def sample_fs_def list_update_same_conv no_faults_def)
  have "cd_loop [] sample_dir = Some (0, sample_dir)" by (subst cd_loop.simps) simp
  then have cd: "fs_cd ''/'' sample_dir = Some (0, sample_dir)"
    using s0 by (simp add: fs_cd_def Let_def disk_motor_off_def)
  obtain hit t where "dir_find 0 (to_83 ''a.txt'') sample_dir = Some (hit, t)"
    using dir_find_lookup [OF sample_dir_ok] by metis
  then obtain r bytes s2 where rd: "fs_read ''a.txt'' 512 sample_dir = Some (r, bytes, s2)"
    using s0(2) by (cases "fs_read ''a.txt'' 512 sample_dir") (auto simp: fs_read_def split: if_splits)
  have "last_slash ''/a.txt'' = Some 0" by (simp add: last_slash_def)
  then obtain s1 where "fs_read_path ''/a.txt'' 512 sample_dir = Some (r, bytes, s1)"
    using s0(3) cd rd by (simp add: fs_read_path_def)
  then show ?thesis using fs_read_path_keeps_cwd [OF _ s0(4)] by blast
qed

end
