(* ===== verification/Net.thy ===== *)
theory Net
  imports Prelude "HOL-Library.Sublist"
begin

text \<open>
  The network core of \<open>net/net.h\<close> and \<open>net/net.c\<close>: byte order, the Internet checksum, Ethernet framing, ARP
  with its one-entry cache, IPv4, the receive dispatch and UDP. Packets are lists of the bytes on the
  wire. The card is modelled at the interface of \<open>drivers/rtl8139.h\<close>: a stream of received frames and a
  list of frames sent; the tick counter is a stream of readings.

  Sending may wait for an ARP reply, which polls the card, which may answer a ping, which sends again.
  The argument \<open>d\<close> of the receiving functions bounds how deep pings are answered inside one another;
  a run that goes deeper has no result.
\<close>

section \<open>Byte order\<close>

definition htons :: "u16 \<Rightarrow> u16" where "htons x = drop_bit 8 x OR push_bit 8 x"
definition ntohs :: "u16 \<Rightarrow> u16" where "ntohs x = htons x"

definition htonl :: "u32 \<Rightarrow> u32" where
  "htonl x = push_bit 24 (x AND 0xFF) OR push_bit 8 (x AND 0xFF00) OR (drop_bit 8 x AND 0xFF00) OR (drop_bit 24 x AND 0xFF)"

definition ntohl :: "u32 \<Rightarrow> u32" where "ntohl x = htonl x"

definition ip_to_bytes :: "u32 \<Rightarrow> u8 list" where
  "ip_to_bytes ip = [ucast (drop_bit 24 ip), ucast (drop_bit 16 ip), ucast (drop_bit 8 ip), ucast ip]"

definition bytes_to_ip :: "u8 list \<Rightarrow> u32" where
  "bytes_to_ip b = push_bit 24 (ucast (b ! 0)) OR push_bit 16 (ucast (b ! 1)) OR push_bit 8 (ucast (b ! 2)) OR ucast (b ! 3)"

text \<open>Words of a packed structure in memory, lowest byte first.\<close>

definition st16 :: "u16 \<Rightarrow> u8 list" where "st16 w = [lo8 w, hi8 w]"
definition ld16 :: "nat \<Rightarrow> u8 list \<Rightarrow> u16" where "ld16 i b = le16 (b ! i) (b ! (i + 1))"

definition st32 :: "u32 \<Rightarrow> u8 list" where
  "st32 w = [ucast (w AND 0xFF), ucast (drop_bit 8 w), ucast (drop_bit 16 w), ucast (drop_bit 24 w)]"

definition ld32 :: "nat \<Rightarrow> u8 list \<Rightarrow> u32" where
  "ld32 i b = ucast (b ! i) OR push_bit 8 (ucast (b ! (i + 1))) OR push_bit 16 (ucast (b ! (i + 2))) OR
     push_bit 24 (ucast (b ! (i + 3)))"

section \<open>State\<close>

record net =
  net_mac :: "u8 list"
  net_ip :: u32
  net_gateway :: u32
  net_dns :: u32
  net_mask :: u32
  net_up :: bool
  arp_ip :: u32
  arp_mac :: "u8 list"
  arp_valid :: bool
  ip_id :: u16
  rxframe :: "u8 list"
  echo_msg :: "u8 list"
  card :: bool
  card_mac :: "u8 list"
  frames :: "nat \<Rightarrow> u8 list"
  polled :: nat
  wire :: "u8 list list"
  now :: "nat \<Rightarrow> u32"
  looked :: nat
  tick_hz :: u32
  ping_seq :: u16

definition IP_BROADCAST :: u32 where "IP_BROADCAST = 0xFFFFFFFF"
definition ETH_ARP :: u16 where "ETH_ARP = 0x0806"
definition ETH_IPV4 :: u16 where "ETH_IPV4 = 0x0800"
definition IP_PROTO_ICMP :: u8 where "IP_PROTO_ICMP = 1"
definition IP_PROTO_TCP :: u8 where "IP_PROTO_TCP = 6"
definition IP_PROTO_UDP :: u8 where "IP_PROTO_UDP = 17"

definition bcast_mac :: "u8 list" where "bcast_mac = replicate 6 0xFF"

text \<open>The tick counter, and the frequency with the default the code falls back to.\<close>

definition look :: "net \<Rightarrow> u32 \<times> net" where
  "look s = (now s (looked s), s\<lparr>looked := Suc (looked s)\<rparr>)"

definition the_hz :: "net \<Rightarrow> u32" where
  "the_hz s = (if tick_hz s = 0 then 100 else tick_hz s)"

text \<open>The card: a frame that is sent is padded to 60 bytes; a frame that is longer than the buffer is dropped.\<close>

definition nic_send :: "u8 list \<Rightarrow> net \<Rightarrow> int \<times> net" where
  "nic_send frame s =
     (if \<not> card s \<or> length frame = 0 \<or> length frame > 1792 then (-1, s)
      else (0, s\<lparr>wire := wire s @ [frame @ replicate (60 - length frame) 0]\<rparr>))"

definition nic_poll :: "net \<Rightarrow> nat \<times> net" where
  "nic_poll s =
     (if \<not> card s then (0, s)
      else let f = frames s (polled s); s = s\<lparr>polled := Suc (polled s)\<rparr>
           in if length f > 1600 then (0, s) else (length f, s\<lparr>rxframe := overwrite 0 f (rxframe s)\<rparr>))"

definition net_init :: "net \<Rightarrow> bool \<times> net" where
  "net_init s = (if \<not> card s then (False, s) else (True, s\<lparr>net_mac := take 6 (card_mac s)\<rparr>))"

section \<open>Checksum\<close>

fun csum_add :: "u8 list \<Rightarrow> u32 \<Rightarrow> u32" where
  "csum_add (a # b # r) acc = csum_add r (acc + ucast (le16 a b))"
| "csum_add [a] acc = acc + ucast a"
| "csum_add [] acc = acc"

function csum_fold :: "u32 \<Rightarrow> u32" where
  "csum_fold acc = (if drop_bit 16 acc \<noteq> 0 then csum_fold ((acc AND 0xFFFF) + drop_bit 16 acc) else acc)"
  by auto

lemma and_ffff: "unat (w AND 0xFFFF) = unat w mod 65536" for w :: u32
  using unat_and_mask [of w 16] by (simp add: mask_eq_exp_minus_1)

lemma fold_parts: "unat ((acc AND 0xFFFF) + drop_bit 16 acc) = unat acc mod 65536 + unat acc div 65536" for acc :: u32
proof -
  have "unat acc div 65536 < 65536" using unat_less_pow [of acc] by (simp add: less_mult_imp_div_less)
  moreover have "unat acc mod 65536 < 65536" by simp
  ultimately have "unat (acc AND 0xFFFF) + unat (drop_bit 16 acc) < 2 ^ 32"
    by (simp add: and_ffff unat_drop_bit)
  then show ?thesis by (simp add: unat_plus_simple and_ffff unat_drop_bit)
qed

termination csum_fold
proof (relation "measure unat")
  fix acc :: u32 assume "drop_bit 16 acc \<noteq> 0"
  then have "unat acc div 65536 \<noteq> 0" using unat_drop_bit [of 16 acc] by (simp add: word_unat_eq_iff)
  moreover have "unat acc = unat acc div 65536 * 65536 + unat acc mod 65536" by simp
  ultimately have "unat acc mod 65536 + unat acc div 65536 < unat acc" by linarith
  then show "((acc AND 0xFFFF) + drop_bit 16 acc, acc) \<in> measure unat" by (simp only: in_measure fold_parts)
qed simp

declare csum_fold.simps [simp del]

definition ip_checksum :: "u8 list \<Rightarrow> u16" where
  "ip_checksum dat = ucast (NOT (csum_fold (csum_add dat 0)))"

section \<open>Sending\<close>

definition eth_send :: "u8 list \<Rightarrow> u16 \<Rightarrow> u8 list \<Rightarrow> net \<Rightarrow> int \<times> net" where
  "eth_send dst ethertype payload s =
     nic_send (take 6 dst @ take 6 (net_mac s) @ st16 (htons ethertype) @ payload) s"

definition arp_packet :: "u16 \<Rightarrow> u8 list \<Rightarrow> u8 list \<Rightarrow> u8 list \<Rightarrow> u8 list \<Rightarrow> u8 list" where
  "arp_packet oper sha spa tha tpa =
     st16 (htons 1) @ st16 (htons ETH_IPV4) @ [6, 4] @ st16 (htons oper) @ take 6 sha @ take 4 spa @ take 6 tha @ take 4 tpa"

definition arp_request :: "u32 \<Rightarrow> net \<Rightarrow> net" where
  "arp_request tip s =
     snd (eth_send bcast_mac ETH_ARP
       (arp_packet 1 (net_mac s) (ip_to_bytes (net_ip s)) (replicate 6 0) (ip_to_bytes tip)) s)"

type_synonym poller = "net \<Rightarrow> ((u32 \<times> u8 \<times> u8 list) option \<times> net) option"

text \<open>The loop of \<open>resolve\<close> that waits half a second for the reply, polling with \<open>poll\<close>.\<close>

partial_function (option) resolve_wait :: "poller \<Rightarrow> u32 \<Rightarrow> u32 \<Rightarrow> net \<Rightarrow> (u8 list option \<times> net) option" where
  "resolve_wait poll ip start s =
     (let l = look s; s1 = snd l
      in if \<not> fst l - start < the_hz s1 div 2 then Some (None, s1)
         else Option.bind (poll s1) (\<lambda>(_, s2).
                if arp_valid s2 \<and> arp_ip s2 = ip then Some (Some (arp_mac s2), s2)
                else resolve_wait poll ip start s2))"

fun resolve_tries :: "nat \<Rightarrow> poller \<Rightarrow> u32 \<Rightarrow> net \<Rightarrow> (u8 list option \<times> net) option" where
  "resolve_tries 0 poll ip s = Some (None, s)"
| "resolve_tries (Suc n) poll ip s =
     (let s = arp_request ip (s\<lparr>arp_valid := False\<rparr>); (start, s) = look s
      in Option.bind (resolve_wait poll ip start s) (\<lambda>(m, s).
           case m of Some mac \<Rightarrow> Some (Some mac, s) | None \<Rightarrow> resolve_tries n poll ip s))"

definition resolve :: "poller \<Rightarrow> u32 \<Rightarrow> net \<Rightarrow> (u8 list option \<times> net) option" where
  "resolve poll ip s =
     (if arp_valid s \<and> arp_ip s = ip then Some (Some (arp_mac s), s) else resolve_tries 4 poll ip s)"

definition ip_header :: "u32 \<Rightarrow> u8 \<Rightarrow> nat \<Rightarrow> net \<Rightarrow> u8 list" where
  "ip_header dst_ip proto iplen s =
     (let h0 = [0x45, 0] @ st16 (htons (word_of_nat iplen)) @ st16 (htons (ip_id s)) @ [0, 0, 64, proto];
          addrs = ip_to_bytes (net_ip s) @ ip_to_bytes dst_ip
      in h0 @ st16 (ip_checksum (h0 @ [0, 0] @ addrs)) @ addrs)"

definition next_hop :: "u32 \<Rightarrow> net \<Rightarrow> u32" where
  "next_hop dst_ip s =
     (if net_mask s \<noteq> 0 \<and> dst_ip AND net_mask s \<noteq> net_ip s AND net_mask s then net_gateway s else dst_ip)"

text \<open>
  \<open>l4\<close> is the buffer the caller passes; it is read when the packet is put together, which is after the
  address has been resolved.
\<close>

definition send_ip :: "poller \<Rightarrow> u32 \<Rightarrow> u8 \<Rightarrow> (net \<Rightarrow> u8 list) \<Rightarrow> nat \<Rightarrow> net \<Rightarrow> (int \<times> net) option" where
  "send_ip poll dst_ip proto l4 l4len s =
     Option.bind (if dst_ip = IP_BROADCAST then Some (Some bcast_mac, s) else resolve poll (next_hop dst_ip s) s) (\<lambda>(m, s).
       case m of
         None \<Rightarrow> Some (-1, s)
       | Some dmac \<Rightarrow>
           let iplen = 20 + l4len
           in if iplen > 1500 then Some (-1, s)
              else let pkt = ip_header dst_ip proto iplen s @ take l4len (l4 s)
                   in Some (eth_send dmac ETH_IPV4 pkt (s\<lparr>ip_id := ip_id s + 1\<rparr>)))"

section \<open>Receiving\<close>

definition echo_reply :: "u8 list \<Rightarrow> u8 list" where
  "echo_reply req =
     (let m = req[0 := 0, 1 := 0, 2 := 0, 3 := 0]; c = ip_checksum m in m[2 := lo8 c, 3 := hi8 c])"

definition icmp_echo_reply :: "poller \<Rightarrow> u32 \<Rightarrow> u8 list \<Rightarrow> net \<Rightarrow> net option" where
  "icmp_echo_reply poll dst req s =
     (if length req > 1500 then Some s
      else let s = s\<lparr>echo_msg := overwrite 0 (echo_reply req) (echo_msg s)\<rparr>
           in map_option snd (send_ip poll dst IP_PROTO_ICMP echo_msg (length req) s))"

definition arp_input :: "net \<Rightarrow> net" where
  "arp_input s =
     (let a = drop 14 (rxframe s);
          oper = ntohs (ld16 6 a);
          sha = take 6 (drop 8 a); spa = take 4 (drop 14 a); tpa = take 4 (drop 24 a)
      in if oper = 2 then s\<lparr>arp_ip := bytes_to_ip spa, arp_mac := sha, arp_valid := True\<rparr>
         else if oper = 1 \<and> net_ip s \<noteq> 0 \<and> bytes_to_ip tpa = net_ip s
         then snd (eth_send sha ETH_ARP (arp_packet 2 (net_mac s) (ip_to_bytes (net_ip s)) sha spa) s)
         else s)"

text \<open>The datagram of an IPv4 frame of \<open>n\<close> bytes: source, protocol, and the part after the header.\<close>

definition ip_payload :: "nat \<Rightarrow> u8 list \<Rightarrow> (u32 \<times> u8 \<times> u8 list) option" where
  "ip_payload n frame =
     (let ip = drop 14 frame
      in if drop_bit 4 (ip ! 0) \<noteq> 4 then None
         else let ihl = unat (ip ! 0 AND 0x0F) * 4; total = unat (ntohs (ld16 2 ip))
         in if ihl < 20 \<or> total < ihl then None
            else let l4len = (if 14 + total > n then int n - 14 - int ihl else int total - int ihl)
            in if l4len < 0 then None
               else Some (bytes_to_ip (take 4 (drop 12 ip)), ip ! 9, take (nat l4len) (drop ihl ip)))"

fun net_poll :: "nat \<Rightarrow> net \<Rightarrow> ((u32 \<times> u8 \<times> u8 list) option \<times> net) option" where
  "net_poll 0 s = None"
| "net_poll (Suc d) s =
     (let (n, s) = nic_poll s
      in if n < 14 then Some (None, s)
         else let ty = ntohs (ld16 12 (rxframe s))
         in if ty = ETH_ARP then Some (None, arp_input s)
            else if ty \<noteq> ETH_IPV4 then Some (None, s)
            else case ip_payload n (rxframe s) of
                   None \<Rightarrow> Some (None, s)
                 | Some (src, proto, l4) \<Rightarrow>
                     if proto = IP_PROTO_ICMP \<and> length l4 \<ge> 8 \<and> l4 ! 0 = 8
                     then map_option (Pair None) (icmp_echo_reply (net_poll d) src l4 s)
                     else Some (Some (src, proto, l4), s))"

definition net_send_ip :: "nat \<Rightarrow> u32 \<Rightarrow> u8 \<Rightarrow> u8 list \<Rightarrow> net \<Rightarrow> (int \<times> net) option" where
  "net_send_ip d dst_ip proto l4 s = send_ip (net_poll d) dst_ip proto (\<lambda>_. l4) (length l4) s"

section \<open>UDP\<close>

definition udp_segment :: "u16 \<Rightarrow> u16 \<Rightarrow> u8 list \<Rightarrow> u8 list" where
  "udp_segment sport dport dat =
     st16 (htons sport) @ st16 (htons dport) @ st16 (htons (word_of_nat (8 + length dat))) @ [0, 0] @ dat"

definition net_send_udp :: "nat \<Rightarrow> u32 \<Rightarrow> u16 \<Rightarrow> u16 \<Rightarrow> u8 list \<Rightarrow> net \<Rightarrow> (int \<times> net) option" where
  "net_send_udp d dst_ip sport dport dat s =
     (if 8 + length dat > 1500 then Some (-1, s)
      else net_send_ip d dst_ip IP_PROTO_UDP (udp_segment sport dport dat) s)"

text \<open>A datagram for \<open>my_port\<close>: its source port and at most \<open>maxlen\<close> bytes of payload.\<close>

definition udp_input :: "u16 \<Rightarrow> nat \<Rightarrow> u32 \<times> u8 \<times> u8 list \<Rightarrow> (u32 \<times> u16 \<times> u8 list) option" where
  "udp_input my_port maxlen r =
     (let (src, proto, l4) = r
      in if proto = IP_PROTO_UDP \<and> length l4 \<ge> 8 \<and> ntohs (ld16 2 l4) = my_port
         then let payload = int (unat (ntohs (ld16 4 l4))) - 8;
                  payload = (if payload < 0 then 0 else payload);
                  payload = (if payload > int (length l4) - 8 then int (length l4) - 8 else payload);
                  payload = (if payload > int maxlen then int maxlen else payload)
              in Some (src, ntohs (ld16 0 l4), take (nat payload) (drop 8 l4))
         else None)"

partial_function (option) recv_udp_loop ::
  "nat \<Rightarrow> u16 \<Rightarrow> nat \<Rightarrow> u32 \<Rightarrow> u32 \<Rightarrow> net \<Rightarrow> ((u32 \<times> u16 \<times> u8 list) option \<times> net) option" where
  "recv_udp_loop d my_port maxlen start limit s =
     (let l = look s; s1 = snd l
      in if \<not> fst l - start \<le> limit then Some (None, s1)
         else Option.bind (net_poll d s1) (\<lambda>(r, s2).
                case Option.bind r (udp_input my_port maxlen) of
                  Some u \<Rightarrow> Some (Some u, s2)
                | None \<Rightarrow> recv_udp_loop d my_port maxlen start limit s2))"

definition net_recv_udp :: "nat \<Rightarrow> u16 \<Rightarrow> nat \<Rightarrow> u32 \<Rightarrow> net \<Rightarrow> ((u32 \<times> u16 \<times> u8 list) option \<times> net) option" where
  "net_recv_udp d my_port maxlen timeout_ms s =
     (let limit = timeout_ms * the_hz s div 1000; (start, s) = look s
      in recv_udp_loop d my_port maxlen start limit s)"

section \<open>Byte order: facts\<close>

lemma htons_htons [simp]: "htons (htons x) = x"
proof (rule bit_word_eqI)
  fix n assume "n < LENGTH(16)"
  then consider "n < 8" | "8 \<le> n" "n < 16" by fastforce
  then show "bit (htons (htons x)) n = bit x n" by cases (auto simp: htons_def bit_simps)
qed

lemma htonl_swap:
  "htonl x = push_bit 24 (take_bit 8 x) OR push_bit 16 (take_bit 8 (drop_bit 8 x)) OR
     push_bit 8 (take_bit 8 (drop_bit 16 x)) OR take_bit 8 (drop_bit 24 x)"
proof -
  have m: "w AND 0xFF = take_bit 8 w" for w :: u32 by (simp add: take_bit_eq_mask mask_eq_exp_minus_1)
  have e: "0xFF00 = push_bit 8 (mask 8 :: u32)" by (simp add: mask_eq_exp_minus_1)
  have f: "w AND 0xFF00 = push_bit 8 (take_bit 8 (drop_bit 8 w))" for w :: u32
    unfolding e by (rule bit_word_eqI) (auto simp: bit_simps)
  show ?thesis unfolding htonl_def m f by (simp add: push_bit_push_bit drop_bit_drop_bit)
qed

lemma bit_htonl:
  "n < 32 \<Longrightarrow> bit (htonl x) n = bit x (if n < 8 then n + 24 else if n < 16 then n + 8 else if n < 24 then n - 8 else n - 24)"
proof -
  assume "n < 32"
  then consider "n < 8" | "8 \<le> n" "n < 16" | "16 \<le> n" "n < 24" | "24 \<le> n" "n < 32" by fastforce
  then show ?thesis by cases (auto simp: htonl_swap bit_simps add.commute)
qed

lemma htonl_htonl [simp]: "htonl (htonl x) = x"
proof (rule bit_word_eqI)
  fix n assume "n < LENGTH(32)"
  then consider "n < 8" | "8 \<le> n" "n < 16" | "16 \<le> n" "n < 24" | "24 \<le> n" "n < 32" by fastforce
  then show "bit (htonl (htonl x)) n = bit x n" by cases (auto simp: bit_htonl)
qed

lemma bytes_ip_roundtrip [simp]: "bytes_to_ip (ip_to_bytes ip) = ip"
proof (rule bit_word_eqI)
  fix n assume "n < LENGTH(32)"
  then consider "n < 8" | "8 \<le> n" "n < 16" | "16 \<le> n" "n < 24" | "24 \<le> n" "n < 32" by fastforce
  then show "bit (bytes_to_ip (ip_to_bytes ip)) n = bit ip n"
    by cases (auto simp: bytes_to_ip_def ip_to_bytes_def bit_simps)
qed

lemma ld16_st16 [simp]: "ld16 0 (st16 w @ r) = w"
  by (simp add: ld16_def st16_def)

lemma ld32_st32 [simp]: "ld32 0 (st32 w @ r) = w"
  by (simp add: ld32_def st32_def le32_bytes)

lemma length_st [simp]: "length (st16 w) = 2" "length (st32 v) = 4" "length (ip_to_bytes ip) = 4"
  by (simp_all add: st16_def st32_def ip_to_bytes_def)

section \<open>Checksum: facts\<close>

fun word_sum :: "u8 list \<Rightarrow> nat" where
  "word_sum (a # b # r) = unat (le16 a b) + word_sum r"
| "word_sum [a] = unat a"
| "word_sum [] = 0"

lemma word_sum_bound: "word_sum xs \<le> 65535 * ((length xs + 1) div 2)"
proof (induction xs rule: word_sum.induct)
  case (1 a b r)
  have "unat (le16 a b) \<le> 65535" using unat_less_pow [of "le16 a b"] by simp
  then show ?case using 1 by simp
next
  case (2 a)
  then show ?case using unat_less_pow [of a] by simp
qed simp

lemma word_sum_append: "even (length xs) \<Longrightarrow> word_sum (xs @ ys) = word_sum xs + word_sum ys"
  by (induction xs rule: word_sum.induct) auto

lemma csum_add_sum: "unat acc + word_sum xs < 2 ^ 32 \<Longrightarrow> unat (csum_add xs acc) = unat acc + word_sum xs"
proof (induction xs acc rule: csum_add.induct)
  case (1 a b r acc)
  have "unat (acc + ucast (le16 a b)) = unat acc + unat (le16 a b)"
    using 1 by (simp add: unat_plus_simple unat_ucast_up)
  then show ?case using 1 by simp
qed (simp_all add: unat_plus_simple unat_ucast_up)

lemma csum_fold_closed: "unat (csum_fold acc) = (if acc = 0 then 0 else (unat acc - 1) mod 65535 + 1)"
proof (induction acc rule: csum_fold.induct)
  case (1 acc)
  define q m where "q = unat acc div 65536" and "m = unat acc mod 65536"
  have a: "unat acc = q * 65536 + m" "m < 65536" by (simp_all add: q_def m_def)
  have z: "drop_bit 16 acc = 0 \<longleftrightarrow> q = 0" using unat_drop_bit [of 16 acc] by (simp add: word_unat_eq_iff q_def)
  show ?case
  proof (cases "q = 0")
    case True
    then have "csum_fold acc = acc" using z by (simp add: csum_fold.simps)
    then show ?thesis using True a by (auto simp: word_unat_eq_iff)
  next
    case False
    let ?b = "(acc AND 0xFFFF) + drop_bit 16 acc"
    have b: "unat ?b = m + q" by (simp only: fold_parts m_def q_def)
    have st: "csum_fold acc = csum_fold ?b" using False z by (subst csum_fold.simps) simp
    have "unat acc - 1 = (m + q - 1) + 65535 * q" using False a(1) by simp
    then have "(unat acc - 1) mod 65535 = (m + q - 1) mod 65535" by (simp only: mod_mult_self2)
    moreover have "?b \<noteq> 0" "acc \<noteq> 0" using False b a(1) by (auto simp: word_unat_eq_iff)
    ultimately show ?thesis using 1 False z b by (simp only: st) simp
  qed
qed

lemma checksum_closed:
  assumes "word_sum xs < 2 ^ 32"
  shows "unat (ip_checksum xs) = 65535 - (if word_sum xs = 0 then 0 else (word_sum xs - 1) mod 65535 + 1)"
proof -
  have u: "unat (csum_add xs 0) = word_sum xs" using csum_add_sum [of 0 xs] assms by simp
  define f where "f = csum_fold (csum_add xs 0)"
  have f: "unat f = (if word_sum xs = 0 then 0 else (word_sum xs - 1) mod 65535 + 1)"
    using csum_fold_closed [of "csum_add xs 0"] u by (simp add: f_def word_unat_eq_iff)
  then have lt: "unat f < 65536" using mod_less_divisor [of 65535 "word_sum xs - 1"] by (auto split: if_splits)
  have "(ucast (NOT f) :: u16) = NOT (ucast f)" by (rule bit_word_eqI) (simp add: bit_simps)
  moreover have "NOT (ucast f) = - 1 - (ucast f :: u16)" by (simp add: not_eq_complement)
  moreover have "unat (- 1 - (ucast f :: u16)) = unat (- 1 :: u16) - unat (ucast f :: u16)" by (rule unat_minus_simple) simp
  moreover have "unat (- 1 :: u16) = 65535" by (simp add: unsigned_minus_1_eq_mask mask_eq_exp_minus_1)
  moreover have "unat (ucast f :: u16) = unat f" using lt by (intro unat_ucast_less) simp
  ultimately have "unat (ucast (NOT f) :: u16) = 65535 - unat f" by (simp only:)
  then show ?thesis by (simp add: ip_checksum_def f_def f [unfolded f_def])
qed

lemma st16_word: "word_sum (st16 w) = unat w"
  by (simp add: st16_def)

lemma checksum_verifies:
  assumes "even (length a)" and "length a + length b \<le> 65530"
  shows "ip_checksum (a @ st16 (ip_checksum (a @ [0, 0] @ b)) @ b) = 0"
proof -
  let ?S = "word_sum a + word_sum b" and ?c = "ip_checksum (a @ [0, 0] @ b)"
  have le0: "le16 0 0 = 0" by (simp add: le16_def)
  have s0: "word_sum (a @ [0, 0] @ b) = ?S" using assms(1) by (simp add: word_sum_append le0)
  have s1: "word_sum (a @ st16 w @ b) = ?S + unat w" for w
    using assms(1) by (simp add: word_sum_append st16_word)
  have "?S = word_sum (a @ b)" using assms(1) by (simp add: word_sum_append)
  also have "\<dots> \<le> 65535 * ((length (a @ b) + 1) div 2)" by (rule word_sum_bound)
  also have "\<dots> \<le> 65535 * 32765" using assms(2) by (intro mult_le_mono) simp_all
  finally have bd: "?S \<le> 65535 * 32765" .
  define x where "x = (if ?S = 0 then 0 else (?S - 1) mod 65535 + 1)"
  have "?S < 2 ^ 32" using bd by simp
  then have c: "unat ?c = 65535 - x" unfolding x_def by (rule checksum_closed [of "a @ [0, 0] @ b", unfolded s0])
  have x: "x \<le> 65535" "x = 0 \<longleftrightarrow> ?S = 0"
    using mod_less_divisor [of 65535 "?S - 1"] by (auto simp: x_def)
  have T: "?S + unat ?c \<noteq> 0" "(?S + unat ?c - 1) mod 65535 = 65534"
  proof -
    show "?S + unat ?c \<noteq> 0" using c x by auto
    show "(?S + unat ?c - 1) mod 65535 = 65534"
    proof (cases "?S = 0")
      case True
      then show ?thesis using c x by simp
    next
      case False
      define q r where "q = (?S - 1) div 65535" and "r = (?S - 1) mod 65535"
      have "?S - 1 = q * 65535 + r" "r < 65535" by (simp_all add: q_def r_def)
      moreover have "unat ?c = 65534 - r" using False c by (simp add: x_def r_def)
      moreover have "?S = (?S - 1) + 1" using False by simp
      ultimately have "?S + unat ?c - 1 = 65534 + 65535 * q" by linarith
      then show ?thesis by (simp only: mod_mult_self2) simp
    qed
  qed
  have "?S + unat ?c < 2 ^ 32" using bd c by simp
  then have "unat (ip_checksum (a @ st16 ?c @ b)) = 65535 - ((?S + unat ?c - 1) mod 65535 + 1)"
    using checksum_closed [of "a @ st16 ?c @ b", unfolded s1] T(1) by (simp only: if_False)
  then have "unat (ip_checksum (a @ st16 ?c @ b)) = 0" by (simp only: T(2))
  then show ?thesis by (simp add: word_unat_eq_iff)
qed

lemma ip_header_checksum: "ip_checksum (ip_header dst proto n s) = 0"
  unfolding ip_header_def Let_def by (rule checksum_verifies) simp_all

lemma length_ip_header [simp]: "length (ip_header dst proto n s) = 20"
  by (simp add: ip_header_def Let_def)

section \<open>What is sent is what arrives\<close>

text \<open>The frame that \<open>eth_send\<close> hands to the card.\<close>

definition ip_frame :: "u8 list \<Rightarrow> u32 \<Rightarrow> u8 \<Rightarrow> u8 list \<Rightarrow> net \<Rightarrow> u8 list" where
  "ip_frame dmac dst proto l4 s =
     take 6 dmac @ take 6 (net_mac s) @ st16 (htons ETH_IPV4) @ ip_header dst proto (20 + length l4) s @ l4"

lemma ip_header_fields:
  assumes "n \<le> 1500"
  shows "ip_header dst proto n s ! 0 = 0x45" "ntohs (ld16 2 (ip_header dst proto n s @ r)) = word_of_nat n"
    "ip_header dst proto n s ! 9 = proto" "take 4 (drop 12 (ip_header dst proto n s)) = ip_to_bytes (net_ip s)"
    "take 4 (drop 16 (ip_header dst proto n s)) = ip_to_bytes dst"
proof -
  show "ip_header dst proto n s ! 0 = 0x45" "ip_header dst proto n s ! 9 = proto"
    "take 4 (drop 12 (ip_header dst proto n s)) = ip_to_bytes (net_ip s)"
    "take 4 (drop 16 (ip_header dst proto n s)) = ip_to_bytes dst"
    by (simp_all add: ip_header_def Let_def st16_def ip_to_bytes_def)
  show "ntohs (ld16 2 (ip_header dst proto n s @ r)) = word_of_nat n"
    by (simp add: ip_header_def Let_def st16_def ld16_def ntohs_def)
qed

lemma ip_payload_frame:
  assumes "length dmac = 6" and "length (net_mac s) = 6" and "length l4 \<le> 1480"
    and "34 + length l4 \<le> k"
  shows "ip_payload k (ip_frame dmac dst proto l4 s @ rest) = Some (net_ip s, proto, l4)"
proof -
  let ?h = "ip_header dst proto (20 + length l4) s"
  have d: "drop 14 (ip_frame dmac dst proto l4 s @ rest) = ?h @ l4 @ rest"
    using assms by (simp add: ip_frame_def)
  note f = ip_header_fields [of "20 + length l4" dst proto s]
  have len16: "unat (word_of_nat (20 + length l4) :: u16) = 20 + length l4"
    using assms(3) by (intro unat_of_nat_less) simp
  have n: "unat (ntohs (ld16 2 (?h @ l4 @ rest))) = 20 + length l4"
    using assms(3) f(2) [of "l4 @ rest"] by (simp only: len16)
  have v: "drop_bit 4 (0x45 :: u8) = 4" "unat ((0x45 :: u8) AND 0x0F) * 4 = 20" by simp_all
  have h0: "(?h @ l4 @ rest) ! 0 = 0x45" "(?h @ l4 @ rest) ! 9 = proto"
    using f(1,3) assms(3) by (simp_all add: nth_append)
  have a: "take 4 (drop 12 (?h @ l4 @ rest)) = ip_to_bytes (net_ip s)" using f(4) assms(3) by simp
  show ?thesis
    unfolding ip_payload_def Let_def d h0 a n v using assms(4) by simp
qed

lemma udp_input_segment:
  assumes "length dat \<le> 1472"
  shows "udp_input dport maxlen (src, IP_PROTO_UDP, udp_segment sport dport dat) = Some (src, sport, take maxlen dat)"
proof -
  have l: "ntohs (ld16 0 (udp_segment sport dport dat)) = sport" "ntohs (ld16 2 (udp_segment sport dport dat)) = dport"
    "ntohs (ld16 4 (udp_segment sport dport dat)) = word_of_nat (8 + length dat)" "length (udp_segment sport dport dat) = 8 + length dat"
    "drop 8 (udp_segment sport dport dat) = dat"
    by (simp_all add: udp_segment_def st16_def ld16_def ntohs_def)
  have n: "unat (word_of_nat (8 + length dat) :: u16) = 8 + length dat" using assms by (intro unat_of_nat_less) simp
  show ?thesis unfolding udp_input_def Let_def by (simp add: l n del: of_nat_add)
qed

section \<open>What the network state keeps\<close>

definition net_ok :: "net \<Rightarrow> bool" where
  "net_ok s \<longleftrightarrow> length (net_mac s) = 6 \<and> length (arp_mac s) = 6 \<and> length (rxframe s) = 1600 \<and> length (echo_msg s) = 1500"

text \<open>Sending and receiving leave the configuration alone and only add to what was sent.\<close>

definition net_stable :: "net \<Rightarrow> net \<Rightarrow> bool" where
  "net_stable s t \<longleftrightarrow> (net_ok s \<longrightarrow> net_ok t) \<and> net_mac t = net_mac s \<and> net_ip t = net_ip s \<and> net_gateway t = net_gateway s \<and>
     net_dns t = net_dns s \<and> net_mask t = net_mask s \<and> net_up t = net_up s \<and> card t = card s \<and> prefix (wire s) (wire t)"

lemma net_stable_refl [simp]: "net_stable s s"
  by (simp add: net_stable_def)

lemma net_stable_trans: "net_stable s t \<Longrightarrow> net_stable t u \<Longrightarrow> net_stable s u"
  by (auto simp: net_stable_def intro: prefix_order.trans)

lemma look_stable [simp]: "net_stable s (snd (look s))"
  by (simp add: look_def net_stable_def net_ok_def)

lemma nic_send_stable: "net_stable s (snd (nic_send f s))"
  by (simp add: nic_send_def net_stable_def net_ok_def)

lemma eth_send_stable [simp]: "net_stable s (snd (eth_send m t p s))"
  by (simp add: eth_send_def nic_send_stable)

lemma nic_poll_stable [simp]: "net_stable s (snd (nic_poll s))"
  by (simp add: nic_poll_def net_stable_def net_ok_def Let_def)

lemma arp_request_stable: "net_stable s (arp_request ip s)"
  by (simp add: arp_request_def)

lemma arp_input_stable: "net_stable s (arp_input s)"
proof -
  have "net_stable s (s\<lparr>arp_ip := a, arp_mac := take 6 (drop 8 (drop 14 (rxframe s))), arp_valid := v\<rparr>)" for a v
    by (simp add: net_stable_def net_ok_def)
  then show ?thesis by (simp add: arp_input_def Let_def)
qed

definition polls_stable :: "poller \<Rightarrow> bool" where
  "polls_stable poll \<longleftrightarrow> (\<forall>s r t. poll s = Some (r, t) \<longrightarrow> net_stable s t)"

lemma resolve_wait_stable:
  assumes p: "polls_stable poll" and w: "resolve_wait poll ip start s = Some (m, t)"
  shows "net_stable s t \<and> (m = None \<or> m = Some (arp_mac t))"
proof -
  have "polls_stable poll \<longrightarrow> net_stable s (snd (m, t)) \<and> (fst (m, t) = None \<or> fst (m, t) = Some (arp_mac (snd (m, t))))"
  proof (rule resolve_wait.raw_induct [OF _ w, where P = "\<lambda>poll ip start s y. polls_stable poll \<longrightarrow> net_stable s (snd y) \<and> (fst y = None \<or> fst y = Some (arp_mac (snd y)))"])
    fix loop poll ip start s y
    assume IH: "\<And>poll ip start s y. loop poll ip start s = Some y \<Longrightarrow>
        polls_stable poll \<longrightarrow> net_stable s (snd y) \<and> (fst y = None \<or> fst y = Some (arp_mac (snd y)))"
      and st: "(let l = look s; s1 = snd l
      in if \<not> fst l - start < the_hz s1 div 2 then Some (None, s1)
         else Option.bind (poll s1) (\<lambda>(_, s2).
                if arp_valid s2 \<and> arp_ip s2 = ip then Some (Some (arp_mac s2), s2)
                else loop poll ip start s2)) = Some y"
    show "polls_stable poll \<longrightarrow> net_stable s (snd y) \<and> (fst y = None \<or> fst y = Some (arp_mac (snd y)))"
    proof
      assume ps: "polls_stable poll"
      show "net_stable s (snd y) \<and> (fst y = None \<or> fst y = Some (arp_mac (snd y)))"
      proof (cases "fst (look s) - start < the_hz (snd (look s)) div 2")
        case True
        then obtain r s2 where p2: "poll (snd (look s)) = Some (r, s2)"
          and y: "y = (Some (arp_mac s2), s2) \<or> loop poll ip start s2 = Some y"
          using st by (auto simp: Let_def bind_eq_Some_conv split: if_splits)
        have "net_stable s s2"
          using ps p2 look_stable [of s] net_stable_trans unfolding polls_stable_def by blast
        then show ?thesis using y IH [of poll ip start s2 y] ps net_stable_trans by auto
      next
        case False
        then show ?thesis using st by (auto simp: Let_def)
      qed
    qed
  qed
  then show ?thesis using p by simp
qed

lemma resolve_tries_stable:
  assumes "polls_stable poll"
  shows "resolve_tries n poll ip s = Some (m, t) \<Longrightarrow> net_stable s t \<and> (m = None \<or> m = Some (arp_mac t))"
proof (induction n arbitrary: s)
  case (Suc n)
  define s1 where "s1 = arp_request ip (s\<lparr>arp_valid := False\<rparr>)"
  have s1: "net_stable s s1"
    using arp_request_stable [of "s\<lparr>arp_valid := False\<rparr>" ip]
    unfolding s1_def by (simp add: net_stable_def net_ok_def)
  then have s2: "net_stable s (snd (look s1))" using look_stable net_stable_trans by blast
  obtain m2 s3 where w: "resolve_wait poll ip (fst (look s1)) (snd (look s1)) = Some (m2, s3)"
    and k: "(case m2 of Some mac \<Rightarrow> Some (Some mac, s3) | None \<Rightarrow> resolve_tries n poll ip s3) = Some (m, t)"
    using Suc.prems by (auto simp: Let_def s1_def [symmetric] bind_eq_Some_conv split_beta cong del: option.case_cong_weak)
  note r = resolve_wait_stable [OF assms w]
  have s3: "net_stable s s3" using r s2 net_stable_trans by blast
  show ?case
  proof (cases m2)
    case None
    then show ?thesis using k Suc.IH [of s3] s3 net_stable_trans by auto
  next
    case (Some mac)
    then show ?thesis using k r s3 by auto
  qed
qed simp

lemma resolve_stable:
  "polls_stable poll \<Longrightarrow> resolve poll ip s = Some (m, t) \<Longrightarrow> net_stable s t \<and> (m = None \<or> m = Some (arp_mac t))"
  by (auto simp: resolve_def dest: resolve_tries_stable split: if_splits)

text \<open>A datagram that could be sent is the last frame on the wire.\<close>

lemma send_ip_result:
  assumes p: "polls_stable poll" and w: "send_ip poll dst proto l4 n s = Some (r, t)"
  shows "net_stable s t \<and> (r \<noteq> 0 \<or> (\<exists>u dmac. net_stable s u \<and> (net_ok s \<longrightarrow> length dmac = 6) \<and> n \<le> 1480 \<and>
    (0, t) = eth_send dmac ETH_IPV4 (ip_header dst proto (20 + n) u @ take n (l4 u)) (u\<lparr>ip_id := ip_id u + 1\<rparr>)))"
proof -
  obtain m u where m: "(if dst = IP_BROADCAST then Some (Some bcast_mac, s) else resolve poll (next_hop dst s) s) = Some (m, u)"
    and k: "(case m of None \<Rightarrow> Some (-1, u)
       | Some dmac \<Rightarrow> if 20 + n > 1500 then Some (-1, u)
              else Some (eth_send dmac ETH_IPV4 (ip_header dst proto (20 + n) u @ take n (l4 u)) (u\<lparr>ip_id := ip_id u + 1\<rparr>))) = Some (r, t)"
    using w unfolding send_ip_def Let_def by (auto simp: bind_eq_Some_conv)
  have u: "net_stable s u \<and> (m = None \<or> m = Some bcast_mac \<or> m = Some (arp_mac u))"
    using m resolve_stable [OF p] by (auto split: if_splits)
  show ?thesis
  proof (cases "m = None \<or> 20 + n > 1500")
    case True
    then show ?thesis using k u by (auto split: option.splits)
  next
    case False
    then obtain dmac where d: "m = Some dmac" and n: "\<not> 20 + n > 1500" by auto
    define v where "v = u\<lparr>ip_id := ip_id u + 1\<rparr>"
    define pkt where "pkt = ip_header dst proto (20 + n) u @ take n (l4 u)"
    have e: "eth_send dmac ETH_IPV4 pkt v = (r, t)" using k n unfolding d v_def pkt_def by simp
    have "net_stable s v" using u by (simp add: v_def net_stable_def net_ok_def)
    then have t: "net_stable s t" using eth_send_stable [of v dmac ETH_IPV4 pkt] e net_stable_trans by fastforce
    have "net_ok s \<longrightarrow> length dmac = 6"
      using u d by (auto simp: net_stable_def net_ok_def bcast_mac_def)
    moreover have "n \<le> 1480" using n by simp
    ultimately show ?thesis using t u e unfolding v_def pkt_def by metis
  qed
qed

lemma icmp_echo_reply_stable:
  assumes "polls_stable poll" and "icmp_echo_reply poll dst req s = Some t"
  shows "net_stable s t"
proof (cases "length req > 1500")
  case False
  define v where "v = s\<lparr>echo_msg := overwrite 0 (echo_reply req) (echo_msg s)\<rparr>"
  have "length (echo_reply req) = length req" by (simp add: echo_reply_def Let_def)
  then have "net_stable s v" using False by (simp add: v_def net_stable_def net_ok_def)
  moreover obtain r where "send_ip poll dst IP_PROTO_ICMP echo_msg (length req) v = Some (r, t)"
    using assms(2) False by (auto simp: icmp_echo_reply_def v_def Let_def)
  ultimately show ?thesis using send_ip_result [OF assms(1)] net_stable_trans by blast
qed (use assms in \<open>simp add: icmp_echo_reply_def\<close>)

lemma net_poll_stable: "polls_stable (net_poll d)"
proof (induction d)
  case (Suc d)
  have "net_stable s t" if p: "net_poll (Suc d) s = Some (r, t)" for s r t
  proof -
    define n s1 where "n = fst (nic_poll s)" and "s1 = snd (nic_poll s)"
    have s1: "net_stable s s1" by (simp add: s1_def)
    have "t = s1 \<or> t = arp_input s1 \<or> (\<exists>src l4. icmp_echo_reply (net_poll d) src l4 s1 = Some t)"
      using p by (auto simp: Let_def split_beta n_def [symmetric] s1_def [symmetric] split: if_splits option.splits)
    then show ?thesis
      using s1 arp_input_stable [of s1] icmp_echo_reply_stable [OF Suc.IH] net_stable_trans by blast
  qed
  then show ?case by (simp add: polls_stable_def)
qed (simp add: polls_stable_def)


lemma ip_payload_sent:
  assumes e: "(0, t) = eth_send dmac ETH_IPV4 (ip_header dst proto (20 + length l4) u @ l4) (u\<lparr>ip_id := i\<rparr>)"
    and ok: "length dmac = 6" "length (net_mac u) = 6" "length l4 \<le> 1480"
  shows "ip_payload (length (last (wire t))) (last (wire t)) = Some (net_ip u, proto, l4)"
proof -
  let ?f = "ip_frame dmac dst proto l4 u"
  have w: "last (wire t) = ?f @ replicate (60 - length ?f) 0"
    using e by (auto simp: eth_send_def nic_send_def ip_frame_def split: if_splits)
  have "34 + length l4 \<le> length (last (wire t))" unfolding w by (simp add: ip_frame_def ok)
  then show ?thesis unfolding w by (rule ip_payload_frame [OF ok])
qed

section \<open>Properties\<close>

text \<open>
  The header that \<open>net_send_ip\<close> builds carries a checksum with which the receiver's sum over the
  whole header comes out right; and the same holds for every message into which the checksum over the
  message with a zero checksum field is put.
\<close>

theorem ip_checksum_valid:
  assumes "even (length a)" and "length a + length b \<le> 65530"
  shows "ip_checksum (a @ st16 (ip_checksum (a @ [0, 0] @ b)) @ b) = 0 \<and> ip_checksum (ip_header dst proto n s) = 0"
  using checksum_verifies [OF assms] ip_header_checksum by blast

theorem ip_checksum_valid_witness:
  "ip_checksum ([0x45, 0, 0, 84] @ st16 (ip_checksum ([0x45, 0, 0, 84] @ [0, 0] @ [10, 0, 2, 15])) @ [10, 0, 2, 15]) = 0"
  using ip_checksum_valid [of "[0x45, 0, 0, 84]" "[10, 0, 2, 15]"] by simp

text \<open>
  C25. A UDP datagram that \<open>net_send_udp\<close> reports as sent is understood as it was meant: the frame that
  went to the card last, padded as the card pads it, gives the receiver's parser the sender's address,
  the source port and exactly the data, at the port it is addressed to; whatever was received and
  answered while the address was being resolved, the configuration is as before and the earlier frames
  are still in front of it.
\<close>

theorem datagram_roundtrip:
  assumes ok: "net_ok s" and sent: "net_send_udp d dst sport dport dat s = Some (0, t)" and fits: "length dat \<le> maxlen"
  shows "net_stable s t \<and>
    Option.bind (ip_payload (length (last (wire t))) (last (wire t))) (udp_input dport maxlen) = Some (net_ip s, sport, dat)"
proof -
  let ?l4 = "udp_segment sport dport dat"
  have l: "length ?l4 = 8 + length dat" by (simp add: udp_segment_def)
  have "send_ip (net_poll d) dst IP_PROTO_UDP (\<lambda>_. ?l4) (length ?l4) s = Some (0, t)"
    using sent by (simp add: net_send_udp_def net_send_ip_def split: if_splits)
  from send_ip_result [OF net_poll_stable this] obtain u dmac
    where st: "net_stable s t" "net_stable s u" and mac: "length dmac = 6" and n: "length ?l4 \<le> 1480"
      and e: "(0, t) = eth_send dmac ETH_IPV4 (ip_header dst IP_PROTO_UDP (20 + length ?l4) u @ ?l4) (u\<lparr>ip_id := ip_id u + 1\<rparr>)"
    using ok by auto
  have u: "length (net_mac u) = 6" "net_ip u = net_ip s" using st(2) ok by (simp_all add: net_stable_def net_ok_def)
  have "length dat \<le> 1472" using n l by simp
  then show ?thesis
    using ip_payload_sent [OF e mac u(1) n] u(2) st(1) udp_input_segment [of dat] fits by simp
qed

text \<open>A machine with its card up and no traffic.\<close>

definition net_boot :: net where
  "net_boot = \<lparr>net_mac = [0x52, 0x54, 0, 0x12, 0x34, 0x56], net_ip = 0x0A00020F, net_gateway = 0x0A000202, net_dns = 0x0A000203,
     net_mask = 0xFFFFFF00, net_up = True, arp_ip = 0x0A000202, arp_mac = [0x52, 0x55, 10, 0, 2, 2], arp_valid = True, ip_id = 1,
     rxframe = replicate 1600 0, echo_msg = replicate 1500 0, card = True, card_mac = [0x52, 0x54, 0, 0x12, 0x34, 0x56],
     frames = (\<lambda>_. []), polled = 0, wire = [], now = (\<lambda>n. word_of_nat n), looked = 0, tick_hz = 100, ping_seq = 0\<rparr>"

theorem datagram_roundtrip_witness:
  "\<exists>t. net_send_udp 1 0x08080808 5000 53 [1, 2, 3] net_boot = Some (0, t) \<and>
     Option.bind (ip_payload (length (last (wire t))) (last (wire t))) (udp_input 53 512) = Some (0x0A00020F, 5000, [1, 2, 3])"
proof -
  have "next_hop 0x08080808 net_boot = 0x0A000202" by (simp add: next_hop_def net_boot_def)
  then have r: "resolve p (next_hop 0x08080808 net_boot) net_boot = Some (Some [0x52, 0x55, 10, 0, 2, 2], net_boot)" for p
    by (simp add: resolve_def net_boot_def)
  have "length (udp_segment 5000 53 [1, 2, 3]) = 11" by (simp add: udp_segment_def)
  moreover have "card net_boot" "length (net_mac net_boot) = 6" by (simp_all add: net_boot_def)
  ultimately obtain t where t: "net_send_udp 1 0x08080808 5000 53 [1, 2, 3] net_boot = Some (0, t)"
    by (simp add: net_send_udp_def net_send_ip_def send_ip_def r IP_BROADCAST_def Let_def eth_send_def nic_send_def)
  have "net_ok net_boot" by (simp add: net_ok_def net_boot_def)
  then show ?thesis using datagram_roundtrip [OF _ t, of 512] t by (simp add: net_boot_def)
qed

end
