(* ===== verification/Tcp.thy ===== *)
theory Tcp
  imports Net
begin

text \<open>
  The TCP client of \<open>net/tcp.h\<close> and \<open>net/tcp.c\<close>: the segment it builds, the loop that picks the segments of one
  connection out of what the card receives, and connecting, sending, receiving and closing. A call
  returns \<open>None\<close> only if it never comes back (or if pings are nested deeper than \<open>d\<close>, see \<open>Net\<close>); a C \<open>int\<close>
  result is an \<open>int\<close>, and the connection and the network state are passed along.
\<close>

section \<open>Definitions\<close>

record tcp_conn =
  dst_ip :: u32
  dst_port :: u16
  sport :: u16
  snd_nxt :: u32
  rcv_nxt :: u32
  established :: bool
  peer_fin :: bool

definition TCP_FIN :: u8 where "TCP_FIN = 0x01"
definition TCP_SYN :: u8 where "TCP_SYN = 0x02"
definition TCP_RST :: u8 where "TCP_RST = 0x04"
definition TCP_PSH :: u8 where "TCP_PSH = 0x08"
definition TCP_ACK :: u8 where "TCP_ACK = 0x10"

definition seq_geq :: "u32 \<Rightarrow> u32 \<Rightarrow> bool" where
  "seq_geq a b \<longleftrightarrow> sint (a - b) \<ge> 0"

definition pseudo_header :: "u32 \<Rightarrow> nat \<Rightarrow> net \<Rightarrow> u8 list" where
  "pseudo_header dst seglen s =
     ip_to_bytes (net_ip s) @ ip_to_bytes dst @
     [0, IP_PROTO_TCP, ucast (drop_bit 8 (word_of_nat seglen :: u32)), ucast (word_of_nat seglen :: u32)]"

definition tcp_checksum :: "u32 \<Rightarrow> u8 list \<Rightarrow> net \<Rightarrow> u16" where
  "tcp_checksum dst seg s =
     (if length seg > 1500 then 0 else ip_checksum (pseudo_header dst (length seg) s @ seg))"

definition tcp_header :: "tcp_conn \<Rightarrow> u8 \<Rightarrow> u16 \<Rightarrow> u8 list" where
  "tcp_header c flags csum =
     st16 (htons (sport c)) @ st16 (htons (dst_port c)) @ st32 (htonl (snd_nxt c)) @ st32 (htonl (rcv_nxt c)) @
     [0x50, flags] @ st16 (htons 8192) @ st16 csum @ [0, 0]"

definition tcp_segment :: "tcp_conn \<Rightarrow> u8 \<Rightarrow> u8 list \<Rightarrow> net \<Rightarrow> u8 list" where
  "tcp_segment c flags dat s =
     tcp_header c flags (tcp_checksum (dst_ip c) (tcp_header c flags 0 @ dat) s) @ dat"

definition tcp_xmit :: "nat \<Rightarrow> tcp_conn \<Rightarrow> u8 \<Rightarrow> u8 list \<Rightarrow> net \<Rightarrow> (int \<times> net) option" where
  "tcp_xmit d c flags dat s =
     (if 20 + length dat > 1500 then Some (-1, s)
      else net_send_ip d (dst_ip c) IP_PROTO_TCP (tcp_segment c flags dat s) s)"

text \<open>A segment of the connection: sequence number, acknowledgement, flags and data.\<close>

type_synonym segment = "u32 \<times> u32 \<times> u8 \<times> u8 list"

definition tcp_input :: "tcp_conn \<Rightarrow> u32 \<times> u8 \<times> u8 list \<Rightarrow> segment option" where
  "tcp_input c r =
     (let (src, proto, l4) = r
      in if proto = IP_PROTO_TCP \<and> src = dst_ip c \<and> length l4 \<ge> 20
         then if ntohs (ld16 0 l4) \<noteq> dst_port c \<or> ntohs (ld16 2 l4) \<noteq> sport c then None
              else let thl = unat (drop_bit 4 (l4 ! 12)) * 4
                   in if thl < 20 \<or> thl > length l4 then None
                      else Some (ntohl (ld32 4 l4), ntohl (ld32 8 l4), l4 ! 13, drop thl l4)
         else None)"

partial_function (option) tcp_next :: "nat \<Rightarrow> tcp_conn \<Rightarrow> u32 \<Rightarrow> net \<Rightarrow> (segment option \<times> net) option" where
  "tcp_next d c deadline s =
     (let l = look s; s1 = snd l
      in if \<not> sint (deadline - fst l) \<ge> 0 then Some (None, s1)
         else Option.bind (net_poll d s1) (\<lambda>(r, s2).
                case Option.bind r (tcp_input c) of
                  Some m \<Rightarrow> Some (Some m, s2)
                | None \<Rightarrow> tcp_next d c deadline s2))"

text \<open>
  Waiting for the answer to a SYN: \<open>Some True\<close> when the handshake is complete, \<open>Some False\<close> after a
  reset, \<open>None\<close> when the time is up.
\<close>

partial_function (option) connect_wait ::
  "nat \<Rightarrow> u32 \<Rightarrow> u32 \<Rightarrow> tcp_conn \<Rightarrow> net \<Rightarrow> (bool option \<times> tcp_conn \<times> net) option" where
  "connect_wait d isn deadline c s =
     Option.bind (tcp_next d c deadline s) (\<lambda>(m, s1).
       case m of
         None \<Rightarrow> Some (None, c, s1)
       | Some (seq, ack, fl, dat) \<Rightarrow>
           if fl AND TCP_RST \<noteq> 0 then Some (Some False, c, s1)
           else if fl AND TCP_SYN \<noteq> 0 \<and> fl AND TCP_ACK \<noteq> 0 \<and> ack = isn + 1
           then let c1 = c\<lparr>rcv_nxt := seq + 1, snd_nxt := isn + 1\<rparr>
                in Option.bind (tcp_xmit d c1 TCP_ACK [] s1) (\<lambda>(_, s2). Some (Some True, c1\<lparr>established := True\<rparr>, s2))
           else connect_wait d isn deadline c s1)"

fun connect_tries :: "nat \<Rightarrow> nat \<Rightarrow> u32 \<Rightarrow> tcp_conn \<Rightarrow> net \<Rightarrow> (int \<times> tcp_conn \<times> net) option" where
  "connect_tries 0 d isn c s = Some (0, c, s)"
| "connect_tries (Suc n) d isn c s =
     (let c = c\<lparr>snd_nxt := isn, rcv_nxt := 0\<rparr>
      in Option.bind (tcp_xmit d c TCP_SYN [] s) (\<lambda>(_, s).
           let (t, s) = look s
           in Option.bind (connect_wait d isn (t + the_hz s) c s) (\<lambda>(m, c, s).
                case m of
                  Some True \<Rightarrow> Some (1, c, s)
                | Some False \<Rightarrow> Some (0, c, s)
                | None \<Rightarrow> connect_tries n d isn c s)))"

definition tcp_connect :: "nat \<Rightarrow> u32 \<Rightarrow> u16 \<Rightarrow> net \<Rightarrow> (int \<times> tcp_conn \<times> net) option" where
  "tcp_connect d ip port s =
     (let (t1, s) = look s; (t2, s) = look s;
          c = \<lparr>dst_ip = ip, dst_port = port, sport = ucast (40000 + (t1 AND 0x3FFF)), snd_nxt = 0, rcv_nxt = 0,
                established = False, peer_fin = False\<rparr>
      in connect_tries 5 d (t2 * 2654435761 + 0xC0DE1234) c s)"

text \<open>Waiting for an acknowledgement of everything up to \<open>limit\<close>, with the results as for a SYN.\<close>

partial_function (option) send_wait ::
  "nat \<Rightarrow> u32 \<Rightarrow> u32 \<Rightarrow> tcp_conn \<Rightarrow> net \<Rightarrow> (bool option \<times> net) option" where
  "send_wait d limit deadline c s =
     Option.bind (tcp_next d c deadline s) (\<lambda>(m, s1).
       case m of
         None \<Rightarrow> Some (None, s1)
       | Some (seq, ack, fl, dat) \<Rightarrow>
           if fl AND TCP_RST \<noteq> 0 then Some (Some False, s1)
           else if fl AND TCP_ACK \<noteq> 0 \<and> seq_geq ack limit then Some (Some True, s1)
           else send_wait d limit deadline c s1)"

fun send_tries :: "nat \<Rightarrow> nat \<Rightarrow> u32 \<Rightarrow> u8 list \<Rightarrow> tcp_conn \<Rightarrow> net \<Rightarrow> (bool \<times> tcp_conn \<times> net) option" where
  "send_tries 0 d seg_seq chunk c s = Some (False, c, s)"
| "send_tries (Suc n) d seg_seq chunk c s =
     (let c = c\<lparr>snd_nxt := seg_seq\<rparr>
      in Option.bind (tcp_xmit d c (TCP_PSH OR TCP_ACK) chunk s) (\<lambda>(_, s).
           let (t, s) = look s
           in Option.bind (send_wait d (seg_seq + word_of_nat (length chunk)) (t + the_hz s) c s) (\<lambda>(m, s).
                case m of
                  Some ok \<Rightarrow> Some (ok, c, s)
                | None \<Rightarrow> send_tries n d seg_seq chunk c s)))"

function send_loop :: "nat \<Rightarrow> u8 list \<Rightarrow> int \<Rightarrow> tcp_conn \<Rightarrow> net \<Rightarrow> (int \<times> tcp_conn \<times> net) option" where
  "send_loop d dat sent c s =
     (if dat = [] then Some (sent, c, s)
      else let chunk = take 512 dat; seg_seq = snd_nxt c
           in Option.bind (send_tries 6 d seg_seq chunk c s) (\<lambda>(ok, c, s).
                if \<not> ok then Some (-1, c, s)
                else send_loop d (drop 512 dat) (sent + int (length chunk))
                       (c\<lparr>snd_nxt := seg_seq + word_of_nat (length chunk)\<rparr>) s))"
  by pat_completeness auto
termination by (relation "measure (\<lambda>(d, dat, sent, c, s). length dat)") auto

declare send_loop.simps [simp del]

definition tcp_send :: "nat \<Rightarrow> u8 list \<Rightarrow> tcp_conn \<Rightarrow> net \<Rightarrow> (int \<times> tcp_conn \<times> net) option" where
  "tcp_send d dat c s = (if \<not> established c then Some (-1, c, s) else send_loop d dat 0 c s)"

text \<open>What an in-order segment does to the connection.\<close>

definition advance :: "u8 \<Rightarrow> u8 list \<Rightarrow> tcp_conn \<Rightarrow> tcp_conn" where
  "advance fl dat c =
     (let c = (if length dat > 0 then c\<lparr>rcv_nxt := rcv_nxt c + word_of_nat (length dat)\<rparr> else c)
      in if fl AND TCP_FIN \<noteq> 0 then c\<lparr>rcv_nxt := rcv_nxt c + 1, peer_fin := True\<rparr> else c)"

partial_function (option) recv_loop ::
  "nat \<Rightarrow> nat \<Rightarrow> u32 \<Rightarrow> tcp_conn \<Rightarrow> net \<Rightarrow> (int \<times> u8 list \<times> tcp_conn \<times> net) option" where
  "recv_loop d maxlen deadline c s =
     Option.bind (tcp_next d c deadline s) (\<lambda>(m, s1).
       case m of
         None \<Rightarrow> Some (-1, [], c, s1)
       | Some (seq, ack, fl, dat) \<Rightarrow>
           if fl AND TCP_RST \<noteq> 0 then Some (-1, [], c\<lparr>peer_fin := True\<rparr>, s1)
           else if seq = rcv_nxt c
           then let got = take maxlen dat; c1 = advance fl dat c
                in Option.bind (tcp_xmit d c1 TCP_ACK [] s1) (\<lambda>(_, s2).
                     if got \<noteq> [] then Some (int (length got), got, c1, s2)
                     else if peer_fin c1 then Some (0, [], c1, s2)
                     else recv_loop d maxlen deadline c1 s2)
           else Option.bind (tcp_xmit d c TCP_ACK [] s1) (\<lambda>(_, s2). recv_loop d maxlen deadline c s2))"

definition tcp_recv :: "nat \<Rightarrow> nat \<Rightarrow> u32 \<Rightarrow> tcp_conn \<Rightarrow> net \<Rightarrow> (int \<times> u8 list \<times> tcp_conn \<times> net) option" where
  "tcp_recv d maxlen timeout_ms c s =
     (if peer_fin c then Some (0, [], c, s)
      else let (t, s) = look s in recv_loop d maxlen (t + timeout_ms * the_hz s div 1000) c s)"

partial_function (option) close_loop :: "nat \<Rightarrow> u32 \<Rightarrow> tcp_conn \<Rightarrow> net \<Rightarrow> (tcp_conn \<times> net) option" where
  "close_loop d deadline c s =
     Option.bind (tcp_next d c deadline s) (\<lambda>(m, s1).
       case m of
         None \<Rightarrow> Some (c, s1)
       | Some (seq, ack, fl, dat) \<Rightarrow>
           if fl AND TCP_RST \<noteq> 0 then Some (c, s1)
           else Option.bind
                  (if seq = rcv_nxt c
                   then let c1 = advance fl dat c in map_option (\<lambda>(_, s2). (c1, s2)) (tcp_xmit d c1 TCP_ACK [] s1)
                   else Some (c, s1))
                  (\<lambda>(c1, s2). if peer_fin c1 \<and> seq_geq ack (snd_nxt c1) then Some (c1, s2) else close_loop d deadline c1 s2))"

definition tcp_close :: "nat \<Rightarrow> tcp_conn \<Rightarrow> net \<Rightarrow> (tcp_conn \<times> net) option" where
  "tcp_close d c s =
     (if \<not> established c then Some (c, s)
      else Option.bind (tcp_xmit d c (TCP_FIN OR TCP_ACK) [] s) (\<lambda>(_, s).
             let c = c\<lparr>snd_nxt := snd_nxt c + 1\<rparr>; (t, s) = look s
             in map_option (\<lambda>(c, s). (c\<lparr>established := False\<rparr>, s)) (close_loop d (t + the_hz s) c s)))"

section \<open>Segments\<close>

lemma length_tcp_header [simp]: "length (tcp_header c fl x) = 20"
  by (simp add: tcp_header_def)

lemma length_tcp_segment [simp]: "length (tcp_segment c fl dat s) = 20 + length dat"
  by (simp add: tcp_segment_def)

lemma tcp_segment_checksum:
  assumes "length dat \<le> 1480"
  shows "ip_checksum (pseudo_header (dst_ip c) (20 + length dat) s @ tcp_segment c fl dat s) = 0"
proof -
  define a where "a = pseudo_header (dst_ip c) (20 + length dat) s @ st16 (htons (sport c)) @ st16 (htons (dst_port c)) @
      st32 (htonl (snd_nxt c)) @ st32 (htonl (rcv_nxt c)) @ [0x50, fl] @ st16 (htons 8192)"
  have h: "pseudo_header (dst_ip c) (20 + length dat) s @ tcp_header c fl x @ dat = a @ st16 x @ [0, 0] @ dat" for x
    by (simp add: a_def tcp_header_def)
  have z: "st16 0 = [0, 0]" by (simp add: st16_def lo8_def hi8_def)
  have "length a = 28" by (simp add: a_def pseudo_header_def)
  then have "ip_checksum (a @ st16 (ip_checksum (a @ [0, 0] @ ([0, 0] @ dat))) @ ([0, 0] @ dat)) = 0"
    using assms by (intro checksum_verifies) simp_all
  moreover have "tcp_checksum (dst_ip c) (tcp_header c fl 0 @ dat) s =
      ip_checksum (pseudo_header (dst_ip c) (20 + length dat) s @ tcp_header c fl 0 @ dat)"
    using assms by (simp add: tcp_checksum_def)
  moreover have "\<dots> = ip_checksum (a @ [0, 0] @ ([0, 0] @ dat))" by (simp only: h z)
  ultimately show ?thesis by (simp only: tcp_segment_def h)
qed

text \<open>The other end of a connection.\<close>

definition peer :: "tcp_conn \<Rightarrow> tcp_conn \<Rightarrow> net \<Rightarrow> bool" where
  "peer p c s \<longleftrightarrow> dst_ip p = net_ip s \<and> dst_port p = sport c \<and> sport p = dst_port c"

lemma tcp_input_header:
  assumes "dst_port p = sport c" and "sport p = dst_port c" and "dst_ip p = src"
  shows "tcp_input p (src, IP_PROTO_TCP, tcp_header c fl x @ dat) = Some (snd_nxt c, rcv_nxt c, fl, dat)"
proof -
  have l: "ntohs (ld16 0 (tcp_header c fl x @ dat)) = sport c" "ntohs (ld16 2 (tcp_header c fl x @ dat)) = dst_port c"
    "(tcp_header c fl x @ dat) ! 12 = 0x50" "(tcp_header c fl x @ dat) ! 13 = fl" "drop 20 (tcp_header c fl x @ dat) = dat"
    by (simp_all add: tcp_header_def st16_def st32_def ld16_def ntohs_def)
  have q: "ntohl (ld32 4 (tcp_header c fl x @ dat)) = snd_nxt c" "ntohl (ld32 8 (tcp_header c fl x @ dat)) = rcv_nxt c"
    by (simp_all add: tcp_header_def st16_def st32_def ld32_def le32_bytes ntohl_def)
  have v: "unat (drop_bit 4 (0x50 :: u8)) * 4 = 20" by simp
  show ?thesis using assms unfolding tcp_input_def prod.case Let_def l q v by (simp add: l q)
qed

section \<open>Receiving\<close>

lemma ip_payload_length:
  assumes "ip_payload n f = Some (src, proto, l4)" and "n \<le> 1600"
  shows "length l4 \<le> 1566"
proof -
  define ihl total where "ihl = unat (drop 14 f ! 0 AND 0x0F) * 4" and "total = unat (ntohs (ld16 2 (drop 14 f)))"
  define k where "k = (if 14 + total > n then int n - 14 - int ihl else int total - int ihl)"
  have "\<not> ihl < 20" "l4 = take (nat k) (drop ihl (drop 14 f))"
    using assms(1) unfolding ip_payload_def Let_def ihl_def [symmetric] total_def [symmetric] k_def [symmetric]
    by (auto split: if_splits)
  moreover from this have "k \<le> 1566" using assms(2) by (simp add: k_def split: if_splits)
  ultimately show ?thesis by simp
qed

lemma net_poll_length:
  assumes "net_poll d s = Some (Some (src, proto, l4), t)"
  shows "length l4 \<le> 1566"
proof (cases d)
  case (Suc e)
  have "fst (nic_poll s) \<le> 1600" by (simp add: nic_poll_def Let_def)
  moreover have "ip_payload (fst (nic_poll s)) (rxframe (snd (nic_poll s))) = Some (src, proto, l4)"
    using assms by (auto simp: Suc Let_def split_beta split: if_splits option.splits)
  ultimately show ?thesis using ip_payload_length by blast
qed (use assms in simp)

lemma tcp_input_length: "tcp_input c (src, proto, l4) = Some (q, a, f, dat) \<Longrightarrow> length dat + 20 \<le> length l4"
  by (auto simp: tcp_input_def Let_def split: if_splits)

definition short_segment :: "segment option \<Rightarrow> bool" where
  "short_segment m \<longleftrightarrow> (\<forall>q a f dat. m = Some (q, a, f, dat) \<longrightarrow> length dat \<le> 1546)"

lemma tcp_next_result:
  assumes "tcp_next d c deadline s = Some (m, t)"
  shows "net_stable s t \<and> short_segment m"
proof -
  have "net_stable s (snd (m, t)) \<and> short_segment (fst (m, t))"
  proof (rule tcp_next.raw_induct [OF _ assms, where P = "\<lambda>d c deadline s y. net_stable s (snd y) \<and> short_segment (fst y)"])
    fix loop d c deadline s y
    assume IH: "\<And>d c deadline s y. loop d c deadline s = Some y \<Longrightarrow> net_stable s (snd y) \<and> short_segment (fst y)"
      and st: "(let l = look s; s1 = snd l
      in if \<not> sint (deadline - fst l) \<ge> 0 then Some (None, s1)
         else Option.bind (net_poll d s1) (\<lambda>(r, s2).
                case Option.bind r (tcp_input c) of
                  Some m \<Rightarrow> Some (Some m, s2)
                | None \<Rightarrow> loop d c deadline s2)) = Some y"
    show "net_stable s (snd y) \<and> short_segment (fst y)"
    proof (cases "sint (deadline - fst (look s)) \<ge> 0")
      case True
      then obtain r s2 where p: "net_poll d (snd (look s)) = Some (r, s2)"
        and k: "(case Option.bind r (tcp_input c) of Some m \<Rightarrow> Some (Some m, s2) | None \<Rightarrow> loop d c deadline s2) = Some y"
        using st by (auto simp: Let_def bind_eq_Some_conv)
      have s2: "net_stable s s2"
        using net_poll_stable [of d] p look_stable [of s] net_stable_trans unfolding polls_stable_def by blast
      show ?thesis
      proof (cases "Option.bind r (tcp_input c)")
        case None
        then show ?thesis using k IH [of d c deadline s2 y] s2 net_stable_trans by auto
      next
        case (Some m)
        then obtain x where x: "r = Some x" "tcp_input c x = Some m" by (auto simp: bind_eq_Some_conv)
        obtain src proto l4 where xx: "x = (src, proto, l4)" by (cases x) auto
        have "length l4 \<le> 1566" using net_poll_length p x(1) xx by blast
        then have "short_segment (Some m)" using tcp_input_length [of c src proto l4] x(2) xx by (fastforce simp: short_segment_def)
        then show ?thesis using k s2 Some by auto
      qed
    next
      case False
      then show ?thesis using st by (auto simp: Let_def short_segment_def)
    qed
  qed
  then show ?thesis by simp
qed

lemma tcp_xmit_stable: "tcp_xmit d c fl dat s = Some (r, t) \<Longrightarrow> net_stable s t"
  using send_ip_result [OF net_poll_stable] by (fastforce simp: tcp_xmit_def net_send_ip_def split: if_splits)


section \<open>The stream\<close>

lemma advance_simps [simp]:
  "advance fl [] c = (if fl AND TCP_FIN \<noteq> 0 then c\<lparr>rcv_nxt := rcv_nxt c + 1, peer_fin := True\<rparr> else c)"
  "peer_fin (advance fl dat c) = (peer_fin c \<or> fl AND TCP_FIN \<noteq> 0)"
  "rcv_nxt (advance fl dat c) = rcv_nxt c + word_of_nat (length dat) + (if fl AND TCP_FIN \<noteq> 0 then 1 else 0)"
  "dst_ip (advance fl dat c) = dst_ip c" "dst_port (advance fl dat c) = dst_port c" "sport (advance fl dat c) = sport c"
  "snd_nxt (advance fl dat c) = snd_nxt c" "established (advance fl dat c) = established c"
  by (simp_all add: advance_def Let_def)

text \<open>What a receive has done: \<open>r\<close> is its result, \<open>got\<close> the bytes it put into the buffer.\<close>

definition received :: "tcp_conn \<Rightarrow> net \<Rightarrow> int \<times> u8 list \<times> tcp_conn \<times> net \<Rightarrow> bool" where
  "received c s y \<longleftrightarrow> (case y of (r, got, c1, t) \<Rightarrow>
     net_stable s t \<and> snd_nxt c1 = snd_nxt c \<and> established c1 = established c \<and>
     (r = -1 \<and> got = [] \<and> rcv_nxt c1 = rcv_nxt c \<or>
      r = 0 \<and> got = [] \<and> peer_fin c1 \<and> rcv_nxt c1 = rcv_nxt c + 1 \<or>
      r = int (length got) \<and> got \<noteq> [] \<and> rcv_nxt c1 = rcv_nxt c + word_of_nat (length got) + (if peer_fin c1 then 1 else 0)))"

lemma received_trans: "net_stable s u \<Longrightarrow> received c u y \<Longrightarrow> received c s y"
  using net_stable_trans by (auto simp: received_def split: prod.splits)

lemma recv_loop_result:
  assumes "recv_loop d maxlen deadline c s = Some y" and "\<not> peer_fin c" and "1546 \<le> maxlen"
  shows "received c s y"
proof -
  have "\<not> peer_fin c \<longrightarrow> 1546 \<le> maxlen \<longrightarrow> received c s y"
  proof (rule recv_loop.raw_induct [OF _ assms(1), where P = "\<lambda>d maxlen deadline c s y. \<not> peer_fin c \<longrightarrow> 1546 \<le> maxlen \<longrightarrow> received c s y"])
    fix loop d maxlen deadline c s y
    assume IH: "\<And>d maxlen deadline c s y. loop d maxlen deadline c s = Some y \<Longrightarrow> \<not> peer_fin c \<longrightarrow> 1546 \<le> maxlen \<longrightarrow> received c s y"
      and st: "Option.bind (tcp_next d c deadline s) (\<lambda>(m, s1).
       case m of
         None \<Rightarrow> Some (-1, [], c, s1)
       | Some (seq, ack, fl, dat) \<Rightarrow>
           if fl AND TCP_RST \<noteq> 0 then Some (-1, [], c\<lparr>peer_fin := True\<rparr>, s1)
           else if seq = rcv_nxt c
           then let got = take maxlen dat; c1 = advance fl dat c
                in Option.bind (tcp_xmit d c1 TCP_ACK [] s1) (\<lambda>(_, s2).
                     if got \<noteq> [] then Some (int (length got), got, c1, s2)
                     else if peer_fin c1 then Some (0, [], c1, s2)
                     else loop d maxlen deadline c1 s2)
           else Option.bind (tcp_xmit d c TCP_ACK [] s1) (\<lambda>(_, s2). loop d maxlen deadline c s2)) = Some y"
    show "\<not> peer_fin c \<longrightarrow> 1546 \<le> maxlen \<longrightarrow> received c s y"
    proof (intro impI)
      assume fin: "\<not> peer_fin c" and mx: "1546 \<le> maxlen"
      have "tcp_next d c deadline s \<noteq> None" using st by (intro notI) simp
      then obtain m s1 where n: "tcp_next d c deadline s = Some (m, s1)" by fastforce
      note s1 = tcp_next_result [OF n]
      show "received c s y"
      proof (cases m)
        case None
        then have "y = (-1, [], c, s1)" using st by (simp add: n)
        then show ?thesis using s1 by (simp add: received_def)
      next
        case (Some g)
        obtain seq ack fl dat where g: "g = (seq, ack, fl, dat)" by (cases g) auto
        have dat: "take maxlen dat = dat" using conjunct2 [OF s1] mx unfolding short_segment_def Some g by simp
        consider (reset) "y = (-1, [], c\<lparr>peer_fin := True\<rparr>, s1)"
          | (inorder) r s2 where "tcp_xmit d (advance fl dat c) TCP_ACK [] s1 = Some (r, s2)"
             "(if dat \<noteq> [] then Some (int (length dat), dat, advance fl dat c, s2)
               else if peer_fin (advance fl dat c) then Some (0, [], advance fl dat c, s2)
               else loop d maxlen deadline (advance fl dat c) s2) = Some y"
          | (other) r s2 where "tcp_xmit d c TCP_ACK [] s1 = Some (r, s2)" "loop d maxlen deadline c s2 = Some y"
        proof (cases "fl AND TCP_RST \<noteq> 0"; cases "seq = rcv_nxt c")
          assume nr: "\<not> fl AND TCP_RST \<noteq> 0" and sq: "seq = rcv_nxt c"
          have "tcp_xmit d (advance fl dat c) TCP_ACK [] s1 \<noteq> None" using st nr sq by (intro notI) (simp add: n Some g)
          then obtain r s2 where x: "tcp_xmit d (advance fl dat c) TCP_ACK [] s1 = Some (r, s2)" by fastforce
          then show thesis
            by (rule that(2)) (use st nr sq in \<open>simp add: n Some g dat Let_def x cong del: if_weak_cong del: advance_simps take_eq_Nil length_take\<close>)
        next
          assume nr: "\<not> fl AND TCP_RST \<noteq> 0" and sq: "seq \<noteq> rcv_nxt c"
          have "tcp_xmit d c TCP_ACK [] s1 \<noteq> None" using st nr sq by (intro notI) (simp add: n Some g)
          then obtain r s2 where x: "tcp_xmit d c TCP_ACK [] s1 = Some (r, s2)" by fastforce
          then show thesis
            by (rule that(3)) (use st nr sq in \<open>simp add: n Some g x\<close>)
        qed (rule that(1), use st in \<open>simp add: n Some g\<close>)+
        then show ?thesis
        proof cases
          case reset
          then show ?thesis using s1 by (simp add: received_def)
        next
          case inorder
          have s2: "net_stable s s2" using s1 tcp_xmit_stable [OF inorder(1)] net_stable_trans by blast
          consider "dat \<noteq> []" "y = (int (length dat), dat, advance fl dat c, s2)"
            | "dat = []" "fl AND TCP_FIN \<noteq> 0" "y = (0, [], advance fl dat c, s2)"
            | "loop d maxlen deadline c s2 = Some y"
            using inorder(2) fin by (cases "dat = []"; cases "fl AND TCP_FIN \<noteq> 0") simp_all
          then show ?thesis
          proof cases
            case 3
            then show ?thesis using received_trans [OF s2] IH [OF 3] fin mx by simp
          qed (use fin s2 in \<open>simp_all add: received_def\<close>)
        next
          case other
          have s2: "net_stable s s2" using s1 tcp_xmit_stable [OF other(1)] net_stable_trans by blast
          then show ?thesis using received_trans [OF s2] IH [OF other(2)] fin mx by simp
        qed
      qed
    qed
  qed
  then show ?thesis using assms(2,3) by blast
qed

lemma send_wait_stable:
  assumes "send_wait d limit deadline c s = Some (m, t)"
  shows "net_stable s t"
proof -
  have "net_stable s (snd (m, t))"
  proof (rule send_wait.raw_induct [OF _ assms, where P = "\<lambda>d limit deadline c s y. net_stable s (snd y)"])
    fix loop d limit deadline c s y
    assume IH: "\<And>d limit deadline c s y. loop d limit deadline c s = Some y \<Longrightarrow> net_stable s (snd y)"
      and st: "Option.bind (tcp_next d c deadline s) (\<lambda>(m, s1).
       case m of
         None \<Rightarrow> Some (None, s1)
       | Some (seq, ack, fl, dat) \<Rightarrow>
           if fl AND TCP_RST \<noteq> 0 then Some (Some False, s1)
           else if fl AND TCP_ACK \<noteq> 0 \<and> seq_geq ack limit then Some (Some True, s1)
           else loop d limit deadline c s1) = Some y"
    obtain m s1 where n: "tcp_next d c deadline s = Some (m, s1)" using st by (auto simp: bind_eq_Some_conv)
    have "snd y = s1 \<or> loop d limit deadline c s1 = Some y"
      using st by (auto simp: n split: option.splits if_splits)
    then show "net_stable s (snd y)" using tcp_next_result [OF n] IH net_stable_trans by blast
  qed
  then show ?thesis by simp
qed

lemma send_tries_result:
  "send_tries n d seg_seq chunk c s = Some (ok, c1, t) \<Longrightarrow> net_stable s t \<and> c1 = c\<lparr>snd_nxt := (if n = 0 then snd_nxt c else seg_seq)\<rparr>"
proof (induction n arbitrary: c s)
  case (Suc n)
  let ?c = "c\<lparr>snd_nxt := seg_seq\<rparr>"
  obtain r s1 m s2 where x: "tcp_xmit d ?c (TCP_PSH OR TCP_ACK) chunk s = Some (r, s1)"
    and w: "send_wait d (seg_seq + word_of_nat (length chunk)) (fst (look s1) + the_hz (snd (look s1))) ?c (snd (look s1)) = Some (m, s2)"
    and k: "(case m of Some ok \<Rightarrow> Some (ok, ?c, s2) | None \<Rightarrow> send_tries n d seg_seq chunk ?c s2) = Some (ok, c1, t)"
    using Suc.prems by (auto simp: Let_def bind_eq_Some_conv split_beta cong del: option.case_cong_weak)
  have s2: "net_stable s s2"
    using tcp_xmit_stable [OF x] look_stable [of s1] send_wait_stable [OF w] net_stable_trans by blast
  show ?case
  proof (cases m)
    case None
    then show ?thesis using k Suc.IH [of ?c s2] s2 net_stable_trans by auto
  next
    case (Some b)
    then show ?thesis using k s2 by auto
  qed
qed simp

lemma send_loop_result:
  "send_loop d dat sent c s = Some (r, c1, t) \<Longrightarrow>
    net_stable s t \<and> rcv_nxt c1 = rcv_nxt c \<and>
    (r = sent + int (length dat) \<and> snd_nxt c1 = snd_nxt c + word_of_nat (length dat) \<or>
     r = -1 \<and> (\<exists>k. 512 * k < length dat \<and> snd_nxt c1 = snd_nxt c + word_of_nat (512 * k)))"
proof (induction d dat sent c s rule: send_loop.induct)
  case (1 d dat sent c s)
  show ?case
  proof (cases "dat = []")
    case True
    then show ?thesis using "1.prems" by (simp add: send_loop.simps)
  next
    case False
    let ?chunk = "take 512 dat"
    obtain ok c2 s2 where t: "send_tries 6 d (snd_nxt c) ?chunk c s = Some (ok, c2, s2)"
      using "1.prems" False by (subst (asm) send_loop.simps) (auto simp: Let_def bind_eq_Some_conv)
    note r2 = send_tries_result [OF t]
    have k: "(if \<not> ok then Some (-1, c2, s2)
         else send_loop d (drop 512 dat) (sent + int (length ?chunk)) (c2\<lparr>snd_nxt := snd_nxt c + word_of_nat (length ?chunk)\<rparr>) s2) = Some (r, c1, t)"
      using "1.prems" False t by (subst (asm) send_loop.simps) (simp add: Let_def)
    show ?thesis
    proof (cases ok)
      case False
      then show ?thesis using k r2 \<open>dat \<noteq> []\<close> by (auto intro!: exI [of _ 0])
    next
      case True
      let ?c = "c2\<lparr>snd_nxt := snd_nxt c + word_of_nat (length ?chunk)\<rparr>"
      have ih: "net_stable s2 t \<and> rcv_nxt c1 = rcv_nxt ?c \<and>
        (r = sent + int (length ?chunk) + int (length (drop 512 dat)) \<and> snd_nxt c1 = snd_nxt ?c + word_of_nat (length (drop 512 dat)) \<or>
         r = -1 \<and> (\<exists>k. 512 * k < length (drop 512 dat) \<and> snd_nxt c1 = snd_nxt ?c + word_of_nat (512 * k)))"
        using "1.IH" [OF False refl refl t] True k by simp
      have len: "length dat = length ?chunk + length (drop 512 dat)" by simp
      have st: "net_stable s t" "rcv_nxt c1 = rcv_nxt c" using ih r2 net_stable_trans by auto
      show ?thesis
      proof (cases "r = -1 \<and> (\<exists>k. 512 * k < length (drop 512 dat) \<and> snd_nxt c1 = snd_nxt ?c + word_of_nat (512 * k))")
        case True
        then obtain k where k: "512 * k < length (drop 512 dat)" "snd_nxt c1 = snd_nxt ?c + word_of_nat (512 * k)" by blast
        then have "512 * Suc k < length dat" "length ?chunk = 512" by simp_all
        then show ?thesis using True k(2) st by (auto intro!: exI [of _ "Suc k"] simp: add.assoc)
      next
        case False
        then have "r = sent + int (length ?chunk) + int (length (drop 512 dat))"
          "snd_nxt c1 = snd_nxt ?c + word_of_nat (length (drop 512 dat))" using ih by auto
        then have "r = sent + int (length dat)" "snd_nxt c1 = snd_nxt c + word_of_nat (length dat)"
          unfolding len of_nat_add by (simp_all add: add.assoc del: length_take length_drop)
        then show ?thesis using st by blast
      qed
    qed
  qed
qed


lemma tcp_send_result:
  assumes w: "tcp_send d dat c s = Some (n, c2, u)"
  shows "net_stable s u \<and> rcv_nxt c2 = rcv_nxt c \<and>
      (established c \<and> n = int (length dat) \<and> snd_nxt c2 = snd_nxt c + word_of_nat (length dat) \<or>
       n = -1 \<and> (\<exists>k. 512 * k \<le> length dat \<and> snd_nxt c2 = snd_nxt c + word_of_nat (512 * k)))"
proof (cases "established c")
  case False
  then show ?thesis using w by (auto simp: tcp_send_def intro!: exI [of _ 0])
next
  case True
  then have "send_loop d dat 0 c s = Some (n, c2, u)" using w by (simp add: tcp_send_def)
  from send_loop_result [OF this] show ?thesis
  proof (elim conjE disjE exE, goal_cases)
    case 1
    then show ?case using True by simp
  next
    case (2 k)
    then have "512 * k \<le> length dat" by simp
    then show ?case using 2 by blast
  qed
qed

lemma tcp_recv_result:
  assumes "tcp_recv d maxlen ms c s = Some y" and "\<not> peer_fin c" and "1546 \<le> maxlen"
  shows "received c s y"
proof -
  have "recv_loop d maxlen (fst (look s) + ms * the_hz (snd (look s)) div 1000) c (snd (look s)) = Some y"
    using assms(1,2) by (simp add: tcp_recv_def split_beta)
  then show ?thesis using recv_loop_result assms(2,3) look_stable received_trans by blast
qed

section \<open>From the wire to the reader\<close>

lemma sent_frame:
  assumes e: "(0, t) = eth_send dmac ETH_IPV4 (ip_header dst proto (20 + length l4) u @ l4) (u\<lparr>ip_id := i\<rparr>)"
    and ok: "length dmac = 6" "length (net_mac u) = 6" "length l4 \<le> 1480"
  shows "length (last (wire t)) \<le> 1514" "14 \<le> length (last (wire t))" "ntohs (ld16 12 (last (wire t) @ rest)) = ETH_IPV4"
    "ip_payload (length (last (wire t))) (last (wire t) @ rest) = Some (net_ip u, proto, l4)"
proof -
  let ?f = "ip_frame dmac dst proto l4 u"
  have w: "last (wire t) = ?f @ replicate (60 - length ?f) 0"
    using e by (auto simp: eth_send_def nic_send_def ip_frame_def split: if_splits)
  show "length (last (wire t)) \<le> 1514" "14 \<le> length (last (wire t))"
    unfolding w using ok by (simp_all add: ip_frame_def)
  have "ld16 12 ((take 6 dmac @ take 6 (net_mac u) @ st16 v) @ q) = v" for v q
    using ok by (simp add: ld16_def nth_append st16_def)
  then show "ntohs (ld16 12 (last (wire t) @ rest)) = ETH_IPV4"
    unfolding w ip_frame_def by (simp add: ntohs_def flip: append_assoc) (simp add: append_assoc)
  have "34 + length l4 \<le> length (last (wire t))" unfolding w by (simp add: ip_frame_def ok)
  then show "ip_payload (length (last (wire t))) (last (wire t) @ rest) = Some (net_ip u, proto, l4)"
    unfolding w append_assoc by (rule ip_payload_frame [OF ok])
qed

text \<open>What is in the receive buffer after the card has delivered a frame.\<close>

lemma nic_poll_frame:
  assumes "card s" and "frames s (polled s) = f" and "length f \<le> 1600"
  shows "nic_poll s = (length f, s\<lparr>polled := Suc (polled s), rxframe := f @ drop (length f) (rxframe s)\<rparr>)"
  using assms by (simp add: nic_poll_def overwrite_def)


lemma net_poll_frame:
  assumes f: "card s" "frames s (polled s) = last (wire t)" and p: "proto \<noteq> IP_PROTO_ICMP"
    and e: "(0, t) = eth_send dmac ETH_IPV4 (ip_header dst proto (20 + length l4) u @ l4) (u\<lparr>ip_id := i\<rparr>)"
    and ok: "length dmac = 6" "length (net_mac u) = 6" "length l4 \<le> 1480"
  shows "net_poll (Suc d) s = Some (Some (net_ip u, proto, l4),
    s\<lparr>polled := Suc (polled s), rxframe := last (wire t) @ drop (length (last (wire t))) (rxframe s)\<rparr>)"
proof -
  note w = sent_frame [OF e ok]
  have "length (last (wire t)) \<le> 1600" using w(1) by simp
  note np = nic_poll_frame [OF f this]
  have t: "ntohs (ld16 12 (last (wire t) @ r)) = ETH_IPV4" "ETH_IPV4 \<noteq> ETH_ARP" for r
    using w(3) by (simp_all add: ETH_IPV4_def ETH_ARP_def)
  show ?thesis using w(2) p by (simp add: np t w(4))
qed

lemma tcp_xmit_sent:
  assumes "net_ok s" and "tcp_xmit d c fl dat s = Some (0, t)"
  obtains u dmac where "net_ip u = net_ip s" "length dmac = 6" "length (net_mac u) = 6" "length (tcp_segment c fl dat s) \<le> 1480"
    "(0, t) = eth_send dmac ETH_IPV4 (ip_header (dst_ip c) IP_PROTO_TCP (20 + length (tcp_segment c fl dat s)) u @ tcp_segment c fl dat s)
        (u\<lparr>ip_id := ip_id u + 1\<rparr>)"
proof -
  let ?l4 = "tcp_segment c fl dat s"
  have "send_ip (net_poll d) (dst_ip c) IP_PROTO_TCP (\<lambda>_. ?l4) (length ?l4) s = Some (0, t)"
    using assms(2) by (simp add: tcp_xmit_def net_send_ip_def split: if_splits)
  from send_ip_result [OF net_poll_stable this] obtain u dmac
    where st: "net_stable s u" and mac: "length dmac = 6" and l: "length ?l4 \<le> 1480"
      and e: "(0, t) = eth_send dmac ETH_IPV4 (ip_header (dst_ip c) IP_PROTO_TCP (20 + length ?l4) u @ ?l4) (u\<lparr>ip_id := ip_id u + 1\<rparr>)"
    using assms(1) by auto
  have "length (net_mac u) = 6" "net_ip u = net_ip s" using st assms(1) by (simp_all add: net_stable_def net_ok_def)
  then show thesis using mac l e that by blast
qed

text \<open>With the address of the next hop in the cache, sending does not wait.\<close>

lemma tcp_xmit_cached:
  assumes "arp_valid s" and "arp_ip s = next_hop (dst_ip c) s" and "length dat \<le> 1460"
  shows "\<exists>r t. tcp_xmit d c fl dat s = Some (r, t)"
  using assms by (simp add: tcp_xmit_def net_send_ip_def send_ip_def resolve_def Let_def split_paired_Ex [symmetric] del: split_paired_Ex)

lemma tcp_recv_delivers:
  assumes ok: "net_ok ps" and sent: "tcp_xmit e p fl dat ps = Some (0, pt)" and peer: "peer c p ps"
    and f: "card s" "frames s (polled s) = last (wire pt)"
    and seq: "snd_nxt p = rcv_nxt c" and st: "\<not> peer_fin c" "fl AND TCP_RST = 0" "dat \<noteq> []" "length dat \<le> maxlen"
    and time: "sint (now s (looked s) + ms * the_hz s div 1000 - now s (Suc (looked s))) \<ge> 0"
    and arp: "arp_valid s" "arp_ip s = next_hop (dst_ip c) s"
  shows "\<exists>t. tcp_recv (Suc d) maxlen ms c s = Some (int (length dat), dat, advance fl dat c, t)"
proof -
  let ?l4 = "tcp_segment p fl dat ps" and ?s1 = "snd (look s)" and ?dl = "fst (look s) + ms * the_hz (snd (look s)) div 1000"
  obtain u dmac where u: "net_ip u = net_ip ps" and m: "length dmac = 6" "length (net_mac u) = 6" "length ?l4 \<le> 1480"
      and ev: "(0, pt) = eth_send dmac ETH_IPV4 (ip_header (dst_ip p) IP_PROTO_TCP (20 + length ?l4) u @ ?l4) (u\<lparr>ip_id := ip_id u + 1\<rparr>)"
    using tcp_xmit_sent [OF ok sent] by metis
  define s2 where "s2 = snd (look ?s1)"
  have "card s2" "frames s2 (polled s2) = last (wire pt)" using f by (simp_all add: s2_def look_def)
  note np = net_poll_frame [OF this _ ev m, of d]
  define s3 where "s3 = s2\<lparr>polled := Suc (polled s2), rxframe := last (wire pt) @ drop (length (last (wire pt))) (rxframe s2)\<rparr>"
  have poll: "net_poll (Suc d) s2 = Some (Some (net_ip ps, IP_PROTO_TCP, ?l4), s3)"
    using np by (simp add: s3_def u IP_PROTO_TCP_def IP_PROTO_ICMP_def)
  have inp: "tcp_input c (net_ip ps, IP_PROTO_TCP, ?l4) = Some (rcv_nxt c, rcv_nxt p, fl, dat)"
    using peer seq [symmetric] unfolding tcp_segment_def peer_def by (simp add: tcp_input_header)
  have "the_hz ?s1 = the_hz s" by (simp add: look_def the_hz_def)
  then have tm: "sint (?dl - fst (look ?s1)) \<ge> 0" using time by (simp add: look_def)
  have nx: "tcp_next (Suc d) c ?dl ?s1 = Some (Some (rcv_nxt c, rcv_nxt p, fl, dat), s3)"
    using tm poll inp by (subst tcp_next.simps) (simp add: Let_def s2_def [symmetric])
  have "arp_valid s3" "arp_ip s3 = next_hop (dst_ip (advance fl dat c)) s3"
    using arp by (simp_all add: s3_def s2_def look_def next_hop_def)
  then obtain r t where x: "tcp_xmit (Suc d) (advance fl dat c) TCP_ACK [] s3 = Some (r, t)"
    using tcp_xmit_cached [of s3 "advance fl dat c" "[]" "Suc d" TCP_ACK] by auto
  have "recv_loop (Suc d) maxlen ?dl c ?s1 = Some (int (length dat), dat, advance fl dat c, t)"
    using st by (subst recv_loop.simps) (simp add: nx x Let_def del: take_eq_Nil)
  then show ?thesis using st(1) by (simp add: tcp_recv_def split_beta)
qed


section \<open>Properties\<close>

text \<open>
  A segment that \<open>tcp_xmit\<close> reports as sent is understood by the other end as it was meant: the frame on
  the wire gives the peer's parser the sequence number, the acknowledgement, the flags and the data of
  the connection, and the checksum over pseudo header and segment comes out right.
\<close>

theorem tcp_segment_roundtrip:
  assumes "net_ok s" and "tcp_xmit d c fl dat s = Some (0, t)" and "peer p c s"
  shows "Option.bind (ip_payload (length (last (wire t))) (last (wire t))) (tcp_input p) = Some (snd_nxt c, rcv_nxt c, fl, dat) \<and>
    ip_checksum (pseudo_header (dst_ip c) (20 + length dat) s @ tcp_segment c fl dat s) = 0"
proof -
  let ?l4 = "tcp_segment c fl dat s"
  obtain u dmac where u: "net_ip u = net_ip s" and m: "length dmac = 6" "length (net_mac u) = 6" "length ?l4 \<le> 1480"
      and e: "(0, t) = eth_send dmac ETH_IPV4 (ip_header (dst_ip c) IP_PROTO_TCP (20 + length ?l4) u @ ?l4) (u\<lparr>ip_id := ip_id u + 1\<rparr>)"
    using tcp_xmit_sent [OF assms(1,2)] by metis
  have "tcp_input p (net_ip s, IP_PROTO_TCP, ?l4) = Some (snd_nxt c, rcv_nxt c, fl, dat)"
    using assms(3) unfolding tcp_segment_def peer_def by (intro tcp_input_header) simp_all
  moreover have "length dat \<le> 1480" using m(3) by simp
  ultimately show ?thesis using ip_payload_sent [OF e m] u tcp_segment_checksum by simp
qed

text \<open>A connection between two machines, and the state of the other machine.\<close>

definition sample_conn :: tcp_conn where
  "sample_conn = \<lparr>dst_ip = 0x0A000202, dst_port = 80, sport = 40001, snd_nxt = 0xFFFFFFFF, rcv_nxt = 7, established = True, peer_fin = False\<rparr>"

definition server_conn :: tcp_conn where
  "server_conn = \<lparr>dst_ip = 0x0A00020F, dst_port = 40001, sport = 80, snd_nxt = 7, rcv_nxt = 0xFFFFFFFF, established = True, peer_fin = False\<rparr>"

definition server_net :: net where
  "server_net = net_boot\<lparr>net_ip := 0x0A000202, arp_ip := 0x0A00020F\<rparr>"

lemma server_sends:
  obtains t where "tcp_xmit 1 server_conn (TCP_PSH OR TCP_ACK) [72, 105] server_net = Some (0, t)"
proof -
  have "next_hop (dst_ip server_conn) server_net = 0x0A00020F" by (simp add: next_hop_def server_net_def net_boot_def server_conn_def)
  then have r: "resolve q (next_hop (dst_ip server_conn) server_net) server_net = Some (Some (arp_mac server_net), server_net)" for q
    by (simp add: resolve_def server_net_def net_boot_def)
  have "card server_net" "length (net_mac server_net) = 6" "length (arp_mac server_net) = 6" "dst_ip server_conn \<noteq> IP_BROADCAST"
    by (simp_all add: server_net_def net_boot_def server_conn_def IP_BROADCAST_def)
  then show thesis using that
    by (simp add: tcp_xmit_def net_send_ip_def send_ip_def r Let_def eth_send_def nic_send_def)
qed

lemma server_ok: "net_ok server_net" "peer sample_conn server_conn server_net"
  by (simp_all add: net_ok_def server_net_def net_boot_def peer_def sample_conn_def server_conn_def)

theorem tcp_segment_roundtrip_witness:
  "\<exists>t. tcp_xmit 1 server_conn (TCP_PSH OR TCP_ACK) [72, 105] server_net = Some (0, t) \<and>
     Option.bind (ip_payload (length (last (wire t))) (last (wire t))) (tcp_input sample_conn) = Some (7, 0xFFFFFFFF, 0x18, [72, 105])"
proof -
  obtain t where t: "tcp_xmit 1 server_conn (TCP_PSH OR TCP_ACK) [72, 105] server_net = Some (0, t)" by (rule server_sends)
  then show ?thesis using tcp_segment_roundtrip [OF server_ok(1) t server_ok(2)]
    by (simp add: TCP_PSH_def TCP_ACK_def server_conn_def)
qed

text \<open>
  C27. From one machine's \<open>tcp_xmit\<close> to the other's \<open>tcp_recv\<close>: when the frame that the peer put on the wire is
  the next one the card delivers, carries the data that is due and is no reset, the reader gets
  exactly the data that was sent, the expected sequence number moves past it, and a FIN is noted.
\<close>

theorem tcp_delivery:
  assumes "net_ok ps" and "tcp_xmit e p fl dat ps = Some (0, pt)" and "peer c p ps"
    and "card s" and "frames s (polled s) = last (wire pt)"
    and "snd_nxt p = rcv_nxt c" and "\<not> peer_fin c" and "fl AND TCP_RST = 0" and "dat \<noteq> []" and "length dat \<le> maxlen"
    and "sint (now s (looked s) + ms * the_hz s div 1000 - now s (Suc (looked s))) \<ge> 0"
    and "arp_valid s" and "arp_ip s = next_hop (dst_ip c) s"
  shows "\<exists>c1 t. tcp_recv (Suc d) maxlen ms c s = Some (int (length dat), dat, c1, t) \<and>
    rcv_nxt c1 = rcv_nxt c + word_of_nat (length dat) + (if fl AND TCP_FIN \<noteq> 0 then 1 else 0) \<and>
    peer_fin c1 = (fl AND TCP_FIN \<noteq> 0)"
  using tcp_recv_delivers [OF assms, of d] assms(7) by auto

lemma sample_delivery:
  assumes "tcp_xmit 1 server_conn (TCP_PSH OR TCP_ACK) [72, 105] server_net = Some (0, pt)"
  defines "s \<equiv> net_boot\<lparr>frames := (\<lambda>_. last (wire pt))\<rparr>"
  shows "card s" "frames s (polled s) = last (wire pt)" "snd_nxt server_conn = rcv_nxt sample_conn"
    "\<not> peer_fin sample_conn" "(TCP_PSH OR TCP_ACK) AND TCP_RST = 0" "[72 :: u8, 105] \<noteq> []" "length [72 :: u8, 105] \<le> 1600"
    "sint (now s (looked s) + 1000 * the_hz s div 1000 - now s (Suc (looked s))) \<ge> 0"
    "arp_valid s" "arp_ip s = next_hop (dst_ip sample_conn) s"
  by (simp_all add: s_def net_boot_def server_conn_def sample_conn_def TCP_PSH_def TCP_ACK_def TCP_RST_def the_hz_def next_hop_def)

theorem tcp_delivery_witness:
  "\<exists>s c1 t. tcp_recv 1 1600 1000 sample_conn s = Some (2, [72, 105], c1, t) \<and> rcv_nxt c1 = 9"
proof -
  obtain pt where x: "tcp_xmit 1 server_conn (TCP_PSH OR TCP_ACK) [72, 105] server_net = Some (0, pt)" by (rule server_sends)
  from tcp_delivery [OF server_ok(1) x server_ok(2) sample_delivery [OF x], of 0]
  show ?thesis by (auto simp: sample_conn_def TCP_PSH_def TCP_ACK_def TCP_FIN_def)
qed



end
