(* ===== verification/NetApps.thy ===== *)
theory NetApps
  imports Net
begin

text \<open>
  The clients over the network core: the DNS resolver of \<open>net/dns.c\<close>, the DHCP client of \<open>net/dhcp.c\<close> and the
  ping of \<open>net/icmp.c\<close>. Positions in a packet are natural numbers. Bytes behind the end of the reply
  structure of the DHCP client, which a malformed option can make it read, are an argument.
\<close>

section \<open>DNS\<close>

text \<open>Labels with their lengths in front and a zero at the end; \<open>None\<close> for an empty or too long label.\<close>

function encode_name :: "string \<Rightarrow> u8 list option" where
  "encode_name p =
     (if p = [] then Some [0]
      else let l = takeWhile (\<lambda>c. c \<noteq> CHR ''.'') p; r = dropWhile (\<lambda>c. c \<noteq> CHR ''.'') p
           in if length l = 0 \<or> length l > 63 then None
              else map_option (\<lambda>rest. word_of_nat (length l) # map of_char l @ rest)
                     (encode_name (if r = [] then [] else tl r)))"
  by pat_completeness auto
termination
proof (relation "measure length")
  fix p l r :: string
  assume p: "p \<noteq> []" and l: "l = takeWhile (\<lambda>c. c \<noteq> CHR ''.'') p" and r: "r = dropWhile (\<lambda>c. c \<noteq> CHR ''.'') p"
    and ok: "\<not> (length l = 0 \<or> 63 < length l)"
  have "length p = length l + length r" by (simp add: l r flip: length_append)
  moreover have "0 < length l" using ok by simp
  ultimately have "length (if r = [] then [] else tl r) < length p" by (cases r) simp_all
  then show "(if r = [] then [] else tl r, p) \<in> measure length" by simp
qed simp

declare encode_name.simps [simp del]

function skip_name :: "u8 list \<Rightarrow> nat \<Rightarrow> nat \<Rightarrow> nat" where
  "skip_name r stop p =
     (if p < stop
      then let c = r ! p
           in if c = 0 then p + 1
              else if c AND 0xC0 = 0xC0 then p + 2
              else skip_name r stop (p + 1 + unat c)
      else stop)"
  by pat_completeness auto
termination by (relation "measure (\<lambda>(r, stop, p). stop - p)") auto

declare skip_name.simps [simp del]

definition be16 :: "u8 \<Rightarrow> u8 \<Rightarrow> u16" where
  "be16 h l = push_bit 8 (ucast h) OR ucast l"

text \<open>The loop over the answers, from position \<open>p\<close>.\<close>

fun find_answer :: "nat \<Rightarrow> u8 list \<Rightarrow> nat \<Rightarrow> nat \<Rightarrow> u32 option" where
  "find_answer 0 r stop p = None"
| "find_answer (Suc k) r stop p =
     (if \<not> p + 10 \<le> stop then None
      else let p = skip_name r stop p
           in if p + 10 > stop then None
              else let ty = be16 (r ! p) (r ! (p + 1)); rdlen = be16 (r ! (p + 8)) (r ! (p + 9)); rdata = p + 10
                   in if ty = 1 \<and> rdlen = 4 \<and> rdata + 4 \<le> stop then Some (bytes_to_ip (take 4 (drop rdata r)))
                      else find_answer k r stop (rdata + unat rdlen))"

definition dns_query :: "u16 \<Rightarrow> u8 list \<Rightarrow> u8 list" where
  "dns_query ident name = st16 (htons ident) @ st16 (htons 0x0100) @ st16 (htons 1) @ replicate 6 0 @ name @ [0, 1, 0, 1]"

text \<open>The address in a response of which \<open>n\<close> bytes were received into the buffer \<open>r\<close>.\<close>

definition dns_answer :: "u16 \<Rightarrow> u8 list \<Rightarrow> nat \<Rightarrow> u32 option" where
  "dns_answer ident r n =
     (if n < 12 then None
      else if ntohs (ld16 0 r) \<noteq> ident then None
      else let answers = unat (ntohs (ld16 6 r))
           in if answers = 0 then None else find_answer answers r n (skip_name r n 12 + 4))"

definition dns_resolve :: "nat \<Rightarrow> string \<Rightarrow> net \<Rightarrow> (u32 option \<times> net) option" where
  "dns_resolve d hostname s =
     (if \<not> net_up s \<or> net_dns s = 0 then Some (None, s)
      else let (t1, s) = look s; (t2, s) = look s;
               ident = ucast (t1 * 40503 + 0x1234); sport = ucast (0xC000 OR (t2 AND 0x0FFF))
           in case encode_name hostname of
                None \<Rightarrow> Some (None, s)
              | Some name \<Rightarrow>
                  Option.bind (net_send_udp d (net_dns s) sport 53 (dns_query ident name) s) (\<lambda>(rc, s).
                    if rc \<noteq> 0 then Some (None, s)
                    else Option.bind (net_recv_udp d sport 512 4000 s) (\<lambda>(u, s).
                           case u of
                             None \<Rightarrow> Some (None, s)
                           | Some (sip, sp, bytes) \<Rightarrow> Some (dns_answer ident bytes (length bytes), s))))"

section \<open>DHCP\<close>

definition magic :: "u8 list" where "magic = [0x63, 0x82, 0x53, 0x63]"

text \<open>
  \<open>opt i\<close> is byte \<open>i\<close> from the start of the options; the result is the position of the value and its length.
\<close>

function find_opt_from :: "(nat \<Rightarrow> u8) \<Rightarrow> int \<Rightarrow> u8 \<Rightarrow> nat \<Rightarrow> (nat \<times> nat) option" where
  "find_opt_from opt len want i =
     (if int i + 1 < len
      then let t = opt i
           in if t = 0 then find_opt_from opt len want (i + 1)
              else if t = 255 then None
              else let l = opt (i + 1)
                   in if t = want then Some (i + 2, unat l) else find_opt_from opt len want (i + 2 + unat l)
      else None)"
  by pat_completeness auto
termination by (relation "measure (\<lambda>(opt, len, want, i). nat len - i)") auto

declare find_opt_from.simps [simp del]

definition find_opt :: "(nat \<Rightarrow> u8) \<Rightarrow> int \<Rightarrow> u8 \<Rightarrow> (nat \<times> nat) option" where
  "find_opt opt len want = find_opt_from opt len want 4"

text \<open>The fixed part of a message and its options; a message has 548 bytes, of which 300 are sent.\<close>

definition fill_common :: "u8 list \<Rightarrow> net \<Rightarrow> u8 list" where
  "fill_common xid s =
     [1, 1, 6, 0] @ take 4 xid @ [0, 0] @ st16 (htons 0x8000) @ replicate 16 0 @ take 6 (net_mac s) @ replicate 10 0 @
     replicate 192 0 @ magic @ replicate 308 0"

definition dhcp_message :: "u8 list \<Rightarrow> u8 list \<Rightarrow> net \<Rightarrow> u8 list" where
  "dhcp_message xid opts s = take 300 (overwrite 240 opts (fill_common xid s))"

definition dhcp_discover :: "u8 list" where
  "dhcp_discover = [53, 1, 1] @ [55, 3, 1, 3, 6] @ [255]"

definition dhcp_request :: "u32 \<Rightarrow> u8 list option \<Rightarrow> u8 list" where
  "dhcp_request offered sid =
     [53, 1, 3] @ [50, 4] @ ip_to_bytes offered @ (case sid of Some v \<Rightarrow> [54, 4] @ take 4 v | None \<Rightarrow> []) @ [55, 3, 1, 3, 6] @ [255]"

text \<open>The options of a reply in its buffer, with what lies behind the buffer.\<close>

definition reply_opt :: "(nat \<Rightarrow> u8) \<Rightarrow> u8 list \<Rightarrow> nat \<Rightarrow> u8" where
  "reply_opt beyond reply i = (if 236 + i < length reply then reply ! (236 + i) else beyond (236 + i - length reply))"

definition right_reply :: "(nat \<Rightarrow> u8) \<Rightarrow> u8 list \<Rightarrow> u8 \<Rightarrow> u8 list \<Rightarrow> nat \<Rightarrow> bool" where
  "right_reply beyond xid want_type reply n \<longleftrightarrow>
     n \<ge> 240 \<and> reply ! 0 = 2 \<and> take 4 (drop 4 reply) = take 4 xid \<and>
     (case find_opt (reply_opt beyond reply) (int n - 236) 53 of
        None \<Rightarrow> False | Some (v, vl) \<Rightarrow> vl \<ge> 1 \<and> reply_opt beyond reply v = want_type)"

partial_function (option) wait_reply_loop ::
  "nat \<Rightarrow> (nat \<Rightarrow> u8) \<Rightarrow> u8 list \<Rightarrow> u8 \<Rightarrow> u32 \<Rightarrow> u32 \<Rightarrow> u8 list \<Rightarrow> net \<Rightarrow> (bool \<times> u8 list \<times> net) option" where
  "wait_reply_loop d beyond xid want_type start limit reply s =
     (let l = look s; s1 = snd l
      in if \<not> fst l - start \<le> limit then Some (False, reply, s1)
         else Option.bind (net_recv_udp d 68 548 500 s1) (\<lambda>(u, s2).
                case u of
                  None \<Rightarrow> wait_reply_loop d beyond xid want_type start limit reply s2
                | Some (sip, sp, bytes) \<Rightarrow>
                    let reply1 = overwrite 0 bytes reply
                    in if right_reply beyond xid want_type reply1 (length bytes) then Some (True, reply1, s2)
                       else wait_reply_loop d beyond xid want_type start limit reply1 s2))"

definition wait_reply ::
  "nat \<Rightarrow> (nat \<Rightarrow> u8) \<Rightarrow> u8 list \<Rightarrow> u8 \<Rightarrow> u32 \<Rightarrow> u8 list \<Rightarrow> net \<Rightarrow> (bool \<times> u8 list \<times> net) option" where
  "wait_reply d beyond xid want_type timeout_ms reply s =
     (let limit = timeout_ms * the_hz s div 1000; (start, s) = look s
      in wait_reply_loop d beyond xid want_type start limit reply s)"

text \<open>Up to \<open>k\<close> times: send a message and wait one second for the reply.\<close>

fun exchange ::
  "nat \<Rightarrow> nat \<Rightarrow> (nat \<Rightarrow> u8) \<Rightarrow> u8 list \<Rightarrow> u8 list \<Rightarrow> u8 \<Rightarrow> u8 list \<Rightarrow> net \<Rightarrow> (bool \<times> u8 list \<times> net) option" where
  "exchange 0 d beyond xid opts want_type reply s = Some (False, reply, s)"
| "exchange (Suc k) d beyond xid opts want_type reply s =
     Option.bind (net_send_udp d IP_BROADCAST 68 67 (dhcp_message xid opts s) s) (\<lambda>(_, s).
       Option.bind (wait_reply d beyond xid want_type 1000 reply s) (\<lambda>(ok, reply, s).
         if ok then Some (True, reply, s) else exchange k d beyond xid opts want_type reply s))"

definition opt_bytes :: "(nat \<Rightarrow> u8) \<Rightarrow> nat \<Rightarrow> u8 list" where
  "opt_bytes opt v = map (\<lambda>j. opt (v + j)) [0..<4]"

definition apply_lease :: "(nat \<Rightarrow> u8) \<Rightarrow> u8 list \<Rightarrow> net \<Rightarrow> net" where
  "apply_lease beyond reply s =
     (let opt = reply_opt beyond reply;
          s = s\<lparr>net_ip := bytes_to_ip (take 4 (drop 16 reply))\<rparr>;
          s = (case find_opt opt 312 1 of Some (v, vl) \<Rightarrow> if vl = 4 then s\<lparr>net_mask := bytes_to_ip (opt_bytes opt v)\<rparr> else s | None \<Rightarrow> s);
          s = (case find_opt opt 312 3 of Some (v, vl) \<Rightarrow> if vl \<ge> 4 then s\<lparr>net_gateway := bytes_to_ip (opt_bytes opt v)\<rparr> else s | None \<Rightarrow> s);
          s = (case find_opt opt 312 6 of Some (v, vl) \<Rightarrow> if vl \<ge> 4 then s\<lparr>net_dns := bytes_to_ip (opt_bytes opt v)\<rparr> else s | None \<Rightarrow> s)
      in s\<lparr>net_up := True\<rparr>)"

text \<open>From the offer in \<open>reply\<close> to the lease: the second half of \<open>dhcp_configure\<close>.\<close>

definition server_id :: "(nat \<Rightarrow> u8) \<Rightarrow> u8 list \<Rightarrow> u8 list option" where
  "server_id beyond reply =
     (case find_opt (reply_opt beyond reply) 312 54 of
        Some (v, vl) \<Rightarrow> if vl = 4 then Some (opt_bytes (reply_opt beyond reply) v) else None
      | None \<Rightarrow> None)"

definition dhcp_accept :: "nat \<Rightarrow> (nat \<Rightarrow> u8) \<Rightarrow> u8 list \<Rightarrow> u8 list \<Rightarrow> net \<Rightarrow> (int \<times> u8 list \<times> net) option" where
  "dhcp_accept d beyond xid reply s =
     (let offered = bytes_to_ip (take 4 (drop 16 reply))
      in Option.bind (exchange 8 d beyond xid (dhcp_request offered (server_id beyond reply)) 5 reply s) (\<lambda>(ok, reply, s).
           if \<not> ok then Some (0, reply, s) else Some (1, reply, apply_lease beyond reply s)))"

text \<open>
  \<open>flush\<close> is the effect of \<open>rtl8139_reset_rx\<close> on the card; \<open>reply\<close> is the static reply buffer of 548 bytes.
\<close>

definition dhcp_configure ::
  "(net \<Rightarrow> net) \<Rightarrow> nat \<Rightarrow> (nat \<Rightarrow> u8) \<Rightarrow> u8 list \<Rightarrow> net \<Rightarrow> (int \<times> u8 list \<times> net) option" where
  "dhcp_configure flush d beyond reply s =
     (if \<not> card s then Some (0, reply, s)
      else let s = flush s;
               s = s\<lparr>net_ip := 0, net_gateway := 0, net_dns := 0, net_mask := 0, net_up := False\<rparr>;
               (t, s) = look s;
               xid = st32 (t * 2654435761 + 0x9139)
           in Option.bind (exchange 8 d beyond xid dhcp_discover 2 reply s) (\<lambda>(ok, reply, s).
                if \<not> ok then Some (0, reply, s) else dhcp_accept d beyond xid reply s))"

section \<open>Ping\<close>

definition PING_ID :: u16 where "PING_ID = 0x504B"
definition PING_DATA :: nat where "PING_DATA = 32"

definition ping_message :: "u16 \<Rightarrow> u8 list" where
  "ping_message seq =
     (let h = [8, 0]; r = st16 (htons PING_ID) @ st16 (htons seq) @ map (\<lambda>i. of_char CHR ''a'' + (word_of_nat i AND 15)) [0..<PING_DATA]
      in h @ st16 (ip_checksum (h @ [0, 0] @ r)) @ r)"

definition ping_match :: "u32 \<Rightarrow> u16 \<Rightarrow> u32 \<times> u8 \<times> u8 list \<Rightarrow> bool" where
  "ping_match ip seq r =
     (let (src, proto, l4) = r
      in proto = IP_PROTO_ICMP \<and> src = ip \<and> length l4 \<ge> 8 \<and> l4 ! 0 = 0 \<and> ntohs (ld16 4 l4) = PING_ID \<and> ntohs (ld16 6 l4) = seq)"

partial_function (option) ping_loop :: "nat \<Rightarrow> u32 \<Rightarrow> u16 \<Rightarrow> u32 \<Rightarrow> u32 \<Rightarrow> net \<Rightarrow> (u32 option \<times> net) option" where
  "ping_loop d ip seq start limit s =
     (let l = look s; s1 = snd l
      in if \<not> fst l - start \<le> limit then Some (None, s1)
         else Option.bind (net_poll d s1) (\<lambda>(r, s2).
                case r of
                  None \<Rightarrow> ping_loop d ip seq start limit s2
                | Some m \<Rightarrow>
                    if ping_match ip seq m
                    then let l2 = look s2 in Some (Some ((fst l2 - start) * 1000 div the_hz s2), snd l2)
                    else ping_loop d ip seq start limit s2))"

definition icmp_ping :: "nat \<Rightarrow> u32 \<Rightarrow> u32 \<Rightarrow> net \<Rightarrow> (u32 option \<times> net) option" where
  "icmp_ping d ip timeout_ms s =
     (let s = s\<lparr>ping_seq := ping_seq s + 1\<rparr>; seq = ping_seq s; msg = ping_message seq; (start, s) = look s
      in Option.bind (net_send_ip d ip IP_PROTO_ICMP msg s) (\<lambda>(rc, s).
           if rc \<noteq> 0 then Some (None, s)
           else ping_loop d ip seq start (timeout_ms * the_hz s div 1000) s))"

section \<open>DNS: facts\<close>

text \<open>The labels of a name are skipped as a whole, wherever they stand in a packet.\<close>

lemma skip_label:
  assumes "length l < 64" and "l \<noteq> []" and "length pre + length l < stop"
  shows "skip_name (pre @ word_of_nat (length l) # map of_char l @ rest) stop (length pre) =
    skip_name (pre @ word_of_nat (length l) # map of_char l @ rest) stop (length pre + Suc (length l))"
proof -
  let ?c = "word_of_nat (length l) :: u8"
  have u: "unat ?c = length l" using assms(1) by (intro unat_of_nat_less) simp
  have "?c \<noteq> 0" using u assms(2) by auto
  moreover have "?c AND 0xC0 \<noteq> 0xC0"
  proof
    assume a: "?c AND 0xC0 = 0xC0"
    have "take_bit 6 ?c = ?c" using assms(1) u by (intro word_unat_eq_iff [THEN iffD2]) (simp add: unat_take_bit)
    then have "bit ?c 7 = bit (take_bit 6 ?c) 7" by (simp only:)
    then have "\<not> bit ?c 7" by (simp only: bit_take_bit_iff) simp
    moreover have "bit (0xC0 :: u8) 7" by simp
    ultimately show False using a by (metis bit_and_iff)
  qed
  ultimately show ?thesis using assms(3) u by (subst skip_name.simps) (simp add: nth_append Let_def)
qed

lemma encode_name_Cons:
  assumes "encode_name p = Some name" and "p \<noteq> []"
  defines "l \<equiv> takeWhile (\<lambda>c. c \<noteq> CHR ''.'') p" and "r \<equiv> dropWhile (\<lambda>c. c \<noteq> CHR ''.'') p"
  shows "\<not> (length l = 0 \<or> length l > 63)"
    and "\<exists>rn. encode_name (if r = [] then [] else tl r) = Some rn \<and> name = word_of_nat (length l) # map of_char l @ rn"
proof -
  have e: "(if length l = 0 \<or> length l > 63 then None
      else map_option (\<lambda>rest. word_of_nat (length l) # map of_char l @ rest) (encode_name (if r = [] then [] else tl r))) = Some name"
    using assms(1,2) by (simp only: encode_name.simps [of p] Let_def l_def [symmetric] r_def [symmetric] if_False)
  show "\<not> (length l = 0 \<or> length l > 63)"
    using e by (cases "length l = 0 \<or> length l > 63") (simp_all only: if_True if_False option.distinct, simp)
  then show "\<exists>rn. encode_name (if r = [] then [] else tl r) = Some rn \<and> name = word_of_nat (length l) # map of_char l @ rn"
    using e by (simp only: if_False map_option_eq_Some) metis
qed

lemma skip_encoded:
  "encode_name h = Some name \<Longrightarrow> length pre + length name \<le> stop \<Longrightarrow>
    skip_name (pre @ name @ rest) stop (length pre) = length pre + length name"
proof (induction h arbitrary: name pre rule: encode_name.induct)
  case (1 p)
  show ?case
  proof (cases "p = []")
    case True
    then have "name = [0]" using "1.prems"(1) by (simp add: encode_name.simps [of "[]"])
    then show ?thesis using "1.prems"(2) by (subst skip_name.simps) (simp add: nth_append)
  next
    case False
    let ?l = "takeWhile (\<lambda>c. c \<noteq> CHR ''.'') p" and ?r = "dropWhile (\<lambda>c. c \<noteq> CHR ''.'') p"
    note ok = encode_name_Cons(1) [OF "1.prems"(1) False]
    obtain rn where rn: "encode_name (if ?r = [] then [] else tl ?r) = Some rn"
      and name: "name = word_of_nat (length ?l) # map of_char ?l @ rn"
      using encode_name_Cons(2) [OF "1.prems"(1) False] by blast
    let ?pre = "pre @ word_of_nat (length ?l) # map of_char ?l"
    have le: "length ?pre + length rn \<le> stop" using "1.prems"(2) unfolding name by simp
    have ih: "skip_name (?pre @ rn @ rest) stop (length ?pre) = length ?pre + length rn"
      by (rule "1.IH" [OF False refl refl ok rn le])
    have "skip_name (pre @ word_of_nat (length ?l) # map of_char ?l @ (rn @ rest)) stop (length pre) =
        skip_name (pre @ word_of_nat (length ?l) # map of_char ?l @ (rn @ rest)) stop (length pre + Suc (length ?l))"
      using ok le by (intro skip_label) auto
    then show ?thesis using ih unfolding name by simp
  qed
qed

text \<open>A resource record whose name is a pointer into the question.\<close>

definition record_bytes :: "u16 \<Rightarrow> u8 list \<Rightarrow> u8 list" where
  "record_bytes ty rd = [0xC0, 0x0C] @ [hi8 ty, lo8 ty, 0, 1, 0, 0, 0, 60] @ [hi8 (word_of_nat (length rd)), lo8 (word_of_nat (length rd))] @ rd"

lemma be16_hi_lo [simp]: "be16 (hi8 w) (lo8 w) = w"
  using le16_bytes [of w] by (simp add: be16_def le16_def or.commute)

lemma length_record [simp]: "length (record_bytes ty rd) = 12 + length rd"
  by (simp add: record_bytes_def)

lemma skip_pointer: "length pre < stop \<Longrightarrow> skip_name (pre @ record_bytes ty rd @ rest) stop (length pre) = length pre + 2"
  by (subst skip_name.simps) (simp add: nth_append record_bytes_def)

lemma record_fields:
  defines "p \<equiv> \<lambda>pre. length pre + 2"
  shows "(pre @ record_bytes ty rd @ rest) ! p pre = hi8 ty" "(pre @ record_bytes ty rd @ rest) ! (p pre + 1) = lo8 ty"
    "(pre @ record_bytes ty rd @ rest) ! (p pre + 8) = hi8 (word_of_nat (length rd))"
    "(pre @ record_bytes ty rd @ rest) ! (p pre + 9) = lo8 (word_of_nat (length rd))"
    "drop (p pre + 10) (pre @ record_bytes ty rd @ rest) = rd @ rest"
  by (simp_all add: record_bytes_def nth_append p_def)

lemma find_answer_record:
  assumes "length pre + 12 + length rd \<le> stop" and "length rd < 65536"
  shows "find_answer (Suc k) (pre @ record_bytes ty rd @ rest) stop (length pre) =
    (if ty = 1 \<and> length rd = 4 then Some (bytes_to_ip rd)
     else find_answer k (pre @ record_bytes ty rd @ rest) stop (length pre + 12 + length rd))"
proof -
  define R p where "R = pre @ record_bytes ty rd @ rest" and "p = length pre + 2"
  have u: "unat (word_of_nat (length rd) :: u16) = length rd" using assms(2) by (intro unat_of_nat_less) simp
  then have four: "(word_of_nat (length rd) :: u16) = 4 \<longleftrightarrow> length rd = 4" by (simp add: word_unat_eq_iff)
  have sk: "skip_name R stop (length pre) = p"
    using skip_pointer [of pre stop ty rd rest] assms(1) by (simp add: R_def p_def)
  note f = record_fields [of pre ty rd rest, folded R_def p_def]
  have g: "length pre + 10 \<le> stop" "\<not> p + 10 > stop" using assms(1) by (simp_all add: p_def)
  have four_in: "p + 10 + 4 \<le> stop" "take 4 (rd @ rest) = rd" if "length rd = 4" using that assms(1) by (simp_all add: p_def)
  have pos: "p + 10 + length rd = length pre + 12 + length rd" by (simp add: p_def)
  have "find_answer (Suc k) R stop (length pre) =
      (if ty = 1 \<and> length rd = 4 \<and> p + 10 + 4 \<le> stop then Some (bytes_to_ip (take 4 (rd @ rest)))
       else find_answer k R stop (p + 10 + length rd))"
    using g by (simp only: find_answer.simps sk f be16_hi_lo u four Let_def simp_thms if_False)
  then show ?thesis using four_in unfolding pos R_def by (cases "ty = 1 \<and> length rd = 4") auto
qed

lemma find_answer_records:
  assumes "\<forall>(ty, rd) \<in> set others. (ty \<noteq> 1 \<or> length rd \<noteq> 4) \<and> length rd < 65536" and "length ip4 = 4"
    and "length others < k" and "length pre + length (concat (map (\<lambda>(ty, rd). record_bytes ty rd) others)) + 16 \<le> stop"
  shows "find_answer k (pre @ concat (map (\<lambda>(ty, rd). record_bytes ty rd) others) @ record_bytes 1 ip4 @ rest) stop (length pre) = Some (bytes_to_ip ip4)"
  using assms(1,3,4)
proof (induction others arbitrary: pre k)
  case Nil
  then obtain j where j: "k = Suc j" by (cases k) auto
  have "length pre + 12 + length ip4 \<le> stop" "length ip4 < 65536" using Nil assms(2) by simp_all
  from find_answer_record [OF this, of j 1 rest] show ?case using assms(2) unfolding j by simp
next
  case (Cons x others)
  obtain ty rd where x: "x = (ty, rd)" by (cases x)
  obtain j where j: "k = Suc j" using Cons.prems(2) by (cases k) auto
  let ?more = "concat (map (\<lambda>(ty, rd). record_bytes ty rd) others) @ record_bytes 1 ip4 @ rest"
  have b: "length pre + 12 + length rd \<le> stop" "length rd < 65536" "ty \<noteq> 1 \<or> length rd \<noteq> 4"
    using Cons.prems(1,3) by (auto simp: x)
  have "find_answer k (pre @ record_bytes ty rd @ ?more) stop (length pre) =
      find_answer j (pre @ record_bytes ty rd @ ?more) stop (length pre + 12 + length rd)"
    using find_answer_record [OF b(1,2), of j ty ?more] b(3) unfolding j by auto
  also have "\<dots> = Some (bytes_to_ip ip4)"
    using Cons.IH [of j "pre @ record_bytes ty rd"] Cons.prems by (simp add: x j add.assoc)
  finally show ?case by (simp add: x)
qed

section \<open>DHCP: facts\<close>

text \<open>Options as a server writes them, and where the value of one stands.\<close>

fun opts_bytes :: "(u8 \<times> u8 list) list \<Rightarrow> u8 list" where
  "opts_bytes [] = []"
| "opts_bytes ((t, v) # os) = [t, word_of_nat (length v)] @ v @ opts_bytes os"

definition opt_ok :: "u8 \<times> u8 list \<Rightarrow> bool" where
  "opt_ok o' \<longleftrightarrow> fst o' \<noteq> 0 \<and> fst o' \<noteq> 255 \<and> length (snd o') < 256"

lemma find_opt_from_bytes:
  assumes "list_all opt_ok os" and "\<forall>i \<le> length (pre @ opts_bytes os). opt i = (pre @ opts_bytes os @ [255]) ! i"
    and "int (length pre + length (opts_bytes os)) + 1 \<le> len"
  shows "case map_of os want of
      None \<Rightarrow> find_opt_from opt len want (length pre) = None
    | Some v \<Rightarrow> \<exists>p. find_opt_from opt len want (length pre) = Some (p, length v) \<and> map (\<lambda>j. opt (p + j)) [0..<length v] = v"
  using assms
proof (induction os arbitrary: pre)
  case Nil
  then have "opt (length pre) = 255" by simp
  then show ?case by (subst find_opt_from.simps) (simp add: Let_def)
next
  case (Cons x os)
  obtain t v where x: "x = (t, v)" by (cases x)
  have tv: "t \<noteq> 0" "t \<noteq> 255" "length v < 256" using Cons.prems(1) by (auto simp: x opt_ok_def)
  have u: "unat (word_of_nat (length v) :: u8) = length v" using tv(3) by (intro unat_of_nat_less) simp
  have o0: "opt (length pre) = t" "opt (length pre + 1) = word_of_nat (length v)" "int (length pre) + 1 < len"
    using Cons.prems(2,3) by (simp_all add: x nth_append)
  have st: "find_opt_from opt len want (length pre) =
      (if t = want then Some (length pre + 2, length v) else find_opt_from opt len want (length pre + 2 + length v))"
    using tv(1,2) o0(3) by (simp only: find_opt_from.simps [of opt len want "length pre"] o0(1,2) u Let_def if_True if_False simp_thms)
  show ?case
  proof (cases "t = want")
    case True
    have "map (\<lambda>j. opt (length pre + 2 + j)) [0..<length v] = v"
      by (rule nth_equalityI) (simp_all add: Cons.prems(2) x nth_append)
    then show ?thesis using True st by (simp add: x)
  next
    case False
    let ?pre = "pre @ [t, word_of_nat (length v)] @ v"
    have l: "length ?pre = length pre + 2 + length v" by simp
    have st2: "find_opt_from opt len want (length pre) = find_opt_from opt len want (length ?pre)"
      using False st unfolding l by (simp only: if_False)
    have mo: "map_of (x # os) want = map_of os want" using False by (simp add: x)
    show ?thesis unfolding st2 mo using Cons.prems by (intro Cons.IH) (simp_all add: x)
  qed
qed

text \<open>A reply as a server sends it: the fixed part, the cookie and the options, in the buffer of the client.\<close>

definition reply_ok :: "u8 list \<Rightarrow> (u8 \<times> u8 list) list \<Rightarrow> u8 list \<Rightarrow> bool" where
  "reply_ok fixed os reply \<longleftrightarrow> length fixed = 236 \<and> length reply = 548 \<and> list_all opt_ok os \<and>
     length (opts_bytes os) \<le> 307 \<and> take (241 + length (opts_bytes os)) reply = fixed @ magic @ opts_bytes os @ [255]"

lemma find_opt_reply:
  assumes "reply_ok fixed os reply" and "int (length (opts_bytes os)) + 5 \<le> len"
  shows "case map_of os want of
      None \<Rightarrow> find_opt (reply_opt beyond reply) len want = None
    | Some v \<Rightarrow> \<exists>p. find_opt (reply_opt beyond reply) len want = Some (p, length v) \<and>
        map (\<lambda>j. reply_opt beyond reply (p + j)) [0..<length v] = v"
proof -
  let ?opt = "reply_opt beyond reply"
  have r: "length fixed = 236" "length reply = 548" "length (opts_bytes os) \<le> 307"
    and t: "take (241 + length (opts_bytes os)) reply = fixed @ magic @ opts_bytes os @ [255]" and ok: "list_all opt_ok os"
    using assms(1) by (simp_all add: reply_ok_def)
  have m: "length magic = 4" by (simp add: magic_def)
  have "?opt i = (magic @ opts_bytes os @ [255]) ! i" if "i \<le> length (magic @ opts_bytes os)" for i
  proof -
    have "?opt i = take (241 + length (opts_bytes os)) reply ! (236 + i)"
      using that r m by (simp add: reply_opt_def)
    also have "\<dots> = (magic @ opts_bytes os @ [255]) ! i" unfolding t using r by (simp add: nth_append)
    finally show ?thesis .
  qed
  then have "case map_of os want of
      None \<Rightarrow> find_opt_from ?opt len want (length magic) = None
    | Some v \<Rightarrow> \<exists>p. find_opt_from ?opt len want (length magic) = Some (p, length v) \<and> map (\<lambda>j. ?opt (p + j)) [0..<length v] = v"
    using assms(2) m by (intro find_opt_from_bytes [OF ok]) simp_all
  then show ?thesis unfolding find_opt_def m .
qed

lemma opt_bytes_eq: "length v = 4 \<Longrightarrow> map (\<lambda>j. opt (p + j)) [0..<length v] = v \<Longrightarrow> opt_bytes opt p = v"
  by (simp add: opt_bytes_def)

text \<open>Waiting for datagrams keeps the configuration.\<close>

lemma recv_udp_loop_stable:
  assumes "recv_udp_loop d port maxlen start limit s = Some (u, t)"
  shows "net_stable s t \<and> (\<forall>a b bs. u = Some (a, b, bs) \<longrightarrow> length bs \<le> maxlen)"
proof -
  have "net_stable s (snd (u, t)) \<and> (\<forall>a b bs. fst (u, t) = Some (a, b, bs) \<longrightarrow> length bs \<le> maxlen)"
  proof (rule recv_udp_loop.raw_induct [OF _ assms, where
      P = "\<lambda>d port maxlen start limit s y. net_stable s (snd y) \<and> (\<forall>a b bs. fst y = Some (a, b, bs) \<longrightarrow> length bs \<le> maxlen)"])
    fix loop d my_port maxlen start limit s y
    assume IH: "\<And>d port maxlen start limit s y. loop d port maxlen start limit s = Some y \<Longrightarrow>
        net_stable s (snd y) \<and> (\<forall>a b bs. fst y = Some (a, b, bs) \<longrightarrow> length bs \<le> maxlen)"
      and st: "(let l = look s; s1 = snd l
      in if \<not> fst l - start \<le> limit then Some (None, s1)
         else Option.bind (net_poll d s1) (\<lambda>(r, s2).
                case Option.bind r (udp_input my_port maxlen) of
                  Some u \<Rightarrow> Some (Some u, s2)
                | None \<Rightarrow> loop d my_port maxlen start limit s2)) = Some y"
    show "net_stable s (snd y) \<and> (\<forall>a b bs. fst y = Some (a, b, bs) \<longrightarrow> length bs \<le> maxlen)"
    proof (cases "fst (look s) - start \<le> limit")
      case True
      then have "net_poll d (snd (look s)) \<noteq> None" using st by (intro notI) (simp add: Let_def)
      then obtain r s2 where p: "net_poll d (snd (look s)) = Some (r, s2)" by fastforce
      have s2: "net_stable s s2"
        using net_poll_stable [of d] p look_stable [of s] net_stable_trans unfolding polls_stable_def by blast
      show ?thesis
      proof (cases "Option.bind r (udp_input my_port maxlen)")
        case None
        then have "loop d my_port maxlen start limit s2 = Some y" using st True p by (simp add: Let_def)
        from IH [OF this] show ?thesis using s2 net_stable_trans by blast
      next
        case (Some x)
        then have "y = (Some x, s2)" using st True p by (simp add: Let_def)
        moreover have "length bs \<le> maxlen" if "x = (a, b, bs)" for a b bs
          using Some that by (auto simp: bind_eq_Some_conv udp_input_def Let_def split: if_splits)
        ultimately show ?thesis using s2 by simp
      qed
    next
      case False
      then show ?thesis using st by (auto simp: Let_def)
    qed
  qed
  then show ?thesis by simp
qed

lemma net_recv_udp_stable:
  "net_recv_udp d port maxlen ms s = Some (u, t) \<Longrightarrow> net_stable s t \<and> (\<forall>a b bs. u = Some (a, b, bs) \<longrightarrow> length bs \<le> maxlen)"
  using recv_udp_loop_stable look_stable net_stable_trans by (fastforce simp: net_recv_udp_def Let_def split_beta)


lemma net_send_udp_stable: "net_send_udp d dst sport dport dat s = Some (r, t) \<Longrightarrow> net_stable s t"
  using send_ip_result [OF net_poll_stable] by (fastforce simp: net_send_udp_def net_send_ip_def split: if_splits)

lemma wait_reply_loop_result:
  assumes "wait_reply_loop d beyond xid ty start limit reply s = Some (ok, reply1, t)"
  shows "net_stable s t \<and> (ok \<longrightarrow> (\<exists>n. right_reply beyond xid ty reply1 n))"
proof -
  let ?P = "\<lambda>d beyond xid ty start limit (reply :: u8 list) s y. net_stable s (snd (snd y)) \<and> (fst y \<longrightarrow> (\<exists>n. right_reply beyond xid ty (fst (snd y)) n))"
  have "?P d beyond xid ty start limit reply s (ok, reply1, t)"
  proof (rule wait_reply_loop.raw_induct [OF _ assms, where P = ?P])
    fix loop d beyond xid want_type start limit reply s y
    assume IH: "\<And>d beyond xid ty start limit reply s y. loop d beyond xid ty start limit reply s = Some y \<Longrightarrow> ?P d beyond xid ty start limit reply s y"
      and st: "(let l = look s; s1 = snd l
      in if \<not> fst l - start \<le> limit then Some (False, reply, s1)
         else Option.bind (net_recv_udp d 68 548 500 s1) (\<lambda>(u, s2).
                case u of
                  None \<Rightarrow> loop d beyond xid want_type start limit reply s2
                | Some (sip, sp, bytes) \<Rightarrow>
                    let reply1 = overwrite 0 bytes reply
                    in if right_reply beyond xid want_type reply1 (length bytes) then Some (True, reply1, s2)
                       else loop d beyond xid want_type start limit reply1 s2)) = Some y"
    show "?P d beyond xid want_type start limit reply s y"
    proof (cases "fst (look s) - start \<le> limit")
      case True
      then have "net_recv_udp d 68 548 500 (snd (look s)) \<noteq> None" using st by (intro notI) (simp add: Let_def)
      then obtain u s2 where p: "net_recv_udp d 68 548 500 (snd (look s)) = Some (u, s2)" by fastforce
      have s2: "net_stable s s2" using net_recv_udp_stable [OF p] look_stable [of s] net_stable_trans by blast
      have "(\<exists>q n. y = (True, q, s2) \<and> right_reply beyond xid want_type q n) \<or> (\<exists>q. loop d beyond xid want_type start limit q s2 = Some y)"
        using st True p by (cases u) (auto simp: Let_def split: if_splits)
      then show ?thesis using s2 IH [of d beyond xid want_type start limit _ s2 y] net_stable_trans by fastforce
    next
      case False
      then show ?thesis using st by (auto simp: Let_def)
    qed
  qed
  then show ?thesis by simp
qed

lemma wait_reply_result:
  "wait_reply d beyond xid ty ms reply s = Some (ok, reply1, t) \<Longrightarrow>
    net_stable s t \<and> (ok \<longrightarrow> (\<exists>n. right_reply beyond xid ty reply1 n))"
  using wait_reply_loop_result [of d beyond xid ty "fst (look s)" "ms * the_hz s div 1000" reply "snd (look s)" ok reply1 t]
    net_stable_trans [OF look_stable [of s]]
  by (simp add: wait_reply_def split_beta)

lemma exchange_result:
  "exchange k d beyond xid opts ty reply s = Some (ok, reply1, t) \<Longrightarrow>
    net_stable s t \<and> (ok \<longrightarrow> (\<exists>n. right_reply beyond xid ty reply1 n))"
proof (induction k arbitrary: reply s)
  case (Suc k)
  obtain r s1 ok2 reply2 s2 where u: "net_send_udp d IP_BROADCAST 68 67 (dhcp_message xid opts s) s = Some (r, s1)"
    and w: "wait_reply d beyond xid ty 1000 reply s1 = Some (ok2, reply2, s2)"
    and k: "(if ok2 then Some (True, reply2, s2) else exchange k d beyond xid opts ty reply2 s2) = Some (ok, reply1, t)"
    using Suc.prems unfolding exchange.simps
    by (cases "net_send_udp d IP_BROADCAST 68 67 (dhcp_message xid opts s) s") (auto simp: bind_eq_Some_conv)
  have s2: "net_stable s s2" using net_send_udp_stable [OF u] wait_reply_result [OF w] net_stable_trans by blast
  show ?case
  proof (cases ok2)
    case True
    then show ?thesis using k s2 wait_reply_result [OF w] by simp
  next
    case False
    then show ?thesis using k Suc.IH [of reply2 s2] s2 net_stable_trans by auto
  qed
qed simp

lemma apply_lease_simps [simp]:
  "net_ip (apply_lease beyond reply s) = bytes_to_ip (take 4 (drop 16 reply))" "net_up (apply_lease beyond reply s)"
  by (simp_all add: apply_lease_def Let_def split: option.splits)

lemma dhcp_accept_result:
  assumes "dhcp_accept d beyond xid reply s = Some (r, reply1, t)"
  shows "r = 0 \<and> net_stable s t \<or>
    r = 1 \<and> net_up t \<and> net_ip t = bytes_to_ip (take 4 (drop 16 reply1)) \<and> (\<exists>xid n. right_reply beyond xid 5 reply1 n)"
proof -
  let ?e = "exchange 8 d beyond xid (dhcp_request (bytes_to_ip (take 4 (drop 16 reply))) (server_id beyond reply)) 5 reply s"
  have "?e \<noteq> None" using assms by (intro notI) (simp add: dhcp_accept_def)
  then obtain ok q u where e: "?e = Some (ok, q, u)" by fastforce
  then show ?thesis using assms exchange_result [OF e] by (cases ok) (auto simp: dhcp_accept_def)
qed

section \<open>Properties\<close>

text \<open>A response to a query for \<open>name\<close>: the header, the question and \<open>body\<close>.\<close>

definition dns_response :: "u16 \<Rightarrow> u16 \<Rightarrow> u8 list \<Rightarrow> u8 list \<Rightarrow> u8 list" where
  "dns_response ident answers name body =
     st16 (htons ident) @ [0x81, 0x80, 0, 1] @ st16 (htons answers) @ [0, 0, 0, 0] @ name @ [0, 1, 0, 1] @ body"

text \<open>
  C29. Names survive the question: a response that repeats the encoded name of a query and answers it, after
  any number of records of other kinds, with an address record is understood as that address, for
  every name that can be encoded and however the packet goes on.
\<close>

theorem dns_answer_found:
  assumes "encode_name host = Some name" and "length ip4 = 4" and "length others < unat answers"
    and "\<forall>(ty, rd) \<in> set others. (ty \<noteq> 1 \<or> length rd \<noteq> 4) \<and> length rd < 65536"
    and r: "r = dns_response ident answers name (concat (map (\<lambda>(ty, rd). record_bytes ty rd) others) @ record_bytes 1 ip4 @ rest)"
  shows "dns_answer ident r (length r) = Some (bytes_to_ip ip4)"
proof -
  define hd where "hd = st16 (htons ident) @ [0x81, 0x80, 0, 1] @ st16 (htons answers) @ [0, 0, 0, 0]"
  let ?recs = "concat (map (\<lambda>(ty, rd). record_bytes ty rd) others)"
  have hd: "length hd = 12" by (simp add: hd_def)
  have rr: "r = hd @ name @ [0, 1, 0, 1] @ ?recs @ record_bytes 1 ip4 @ rest" by (simp add: r dns_response_def hd_def)
  have len: "length r = 12 + length name + 4 + length ?recs + 16 + length rest" using assms(2) hd by (simp add: rr)
  have sk: "skip_name r (length r) 12 = 12 + length name"
    using skip_encoded [OF assms(1), of hd "length r" "[0, 1, 0, 1] @ ?recs @ record_bytes 1 ip4 @ rest"] hd len
    by (simp only: rr)
  have "find_answer (unat answers) ((hd @ name @ [0, 1, 0, 1]) @ ?recs @ record_bytes 1 ip4 @ rest) (length r)
      (length (hd @ name @ [0, 1, 0, 1])) = Some (bytes_to_ip ip4)"
    using len hd by (intro find_answer_records [OF assms(4,2,3)]) simp
  moreover have "length (hd @ name @ [0, 1, 0, 1]) = 12 + length name + 4" using hd by simp
  ultimately have f: "find_answer (unat answers) r (length r) (12 + length name + 4) = Some (bytes_to_ip ip4)"
    unfolding rr by (simp only: append_assoc)
  have i: "ntohs (ld16 0 r) = ident" "ntohs (ld16 6 r) = answers"
    by (simp_all add: rr hd_def st16_def ld16_def ntohs_def)
  have "\<not> length r < 12" using len by simp
  then show ?thesis unfolding dns_answer_def Let_def i sk f using assms(3) by simp
qed

theorem dns_answer_found_witness:
  "dns_answer 7 (dns_response 7 2 [1, 97, 2, 98, 99, 0] (record_bytes 5 [0xC0, 0x0C] @ record_bytes 1 [93, 184, 216, 34])) 52 = Some 0x5DB8D822"
proof -
  let ?r = "dns_response 7 2 [1, 97, 2, 98, 99, 0] (record_bytes 5 [0xC0, 0x0C] @ record_bytes 1 [93, 184, 216, 34])"
  have n: "encode_name ''a.bc'' = Some [1, 97, 2, 98, 99, 0]" by code_simp
  have "bytes_to_ip [93, 184, 216, 34] = 0x5DB8D822" by code_simp
  moreover have "length ?r = 52" by (simp add: dns_response_def)
  ultimately show ?thesis
    using dns_answer_found [OF n, of "[93, 184, 216, 34]" "[(5, [0xC0, 0x0C])]" 2 ?r 7 "[]"] by simp
qed



text \<open>On a machine whose clock leaps a second at every look, every wait ends at once.\<close>

definition leaping :: "net \<Rightarrow> bool" where
  "leaping s \<longleftrightarrow> now s = (\<lambda>n. word_of_nat (1000 * n)) \<and> tick_hz s = 100"

lemma leaping_look: "leaping s \<Longrightarrow> leaping (snd (look s))"
  by (simp add: leaping_def look_def)

lemma leaping_wait:
  assumes "leaping s"
  shows "wait_reply d beyond xid ty 1000 reply s = Some (False, reply, snd (look (snd (look s))))"
proof -
  have "fst (look (snd (look s))) - fst (look s) = 1000"
    using assms by (simp add: leaping_def look_def algebra_simps)
  moreover have "(1000 :: u32) * the_hz s div 1000 = 100" using assms by (simp add: leaping_def the_hz_def)
  ultimately show ?thesis by (simp add: wait_reply_def split_beta wait_reply_loop.simps)
qed

lemma broadcast_sends:
  assumes "leaping s" and "length dat \<le> 1472"
  shows "\<exists>r t. net_send_udp d IP_BROADCAST sport dport dat s = Some (r, t) \<and> leaping t"
proof -
  have "leaping (snd (eth_send m ty p (s\<lparr>ip_id := i\<rparr>)))" for m ty p i
    using assms(1) by (simp add: eth_send_def nic_send_def leaping_def)
  then show ?thesis using assms(2)
    by (simp add: net_send_udp_def net_send_ip_def send_ip_def udp_segment_def) (metis prod.collapse)
qed

lemma leaping_exchange:
  "leaping s \<Longrightarrow> \<exists>t. exchange k d beyond xid opts ty reply s = Some (False, reply, t)"
proof (induction k arbitrary: s)
  case (Suc k)
  have "length (dhcp_message xid opts s) \<le> 1472" by (simp add: dhcp_message_def)
  then obtain r t where t: "net_send_udp d IP_BROADCAST 68 67 (dhcp_message xid opts s) s = Some (r, t)" "leaping t"
    using broadcast_sends [OF Suc.prems] by blast
  then show ?case using Suc.IH leaping_look leaping_wait by simp
qed simp


text \<open>
  A lease is read from the reply as the server wrote it: the mask, the router and the name server are the
  values of the first options with their numbers, if these are present with four bytes, and are left
  alone if the option is missing; the address is the one in the fixed part.
\<close>

theorem dhcp_lease_applied:
  assumes "reply_ok fixed os reply" and "map_of os 1 = Some mask4" and "length mask4 = 4"
    and "map_of os 3 = Some router" and "length router = 4" and "map_of os 6 = None"
  shows "net_ip (apply_lease beyond reply s) = bytes_to_ip (take 4 (drop 16 fixed)) \<and>
    net_mask (apply_lease beyond reply s) = bytes_to_ip mask4 \<and> net_gateway (apply_lease beyond reply s) = bytes_to_ip router \<and>
    net_dns (apply_lease beyond reply s) = net_dns s \<and> net_up (apply_lease beyond reply s)"
proof -
  let ?opt = "reply_opt beyond reply"
  have len: "int (length (opts_bytes os)) + 5 \<le> 312" and l: "length fixed = 236"
    and t: "take (241 + length (opts_bytes os)) reply = fixed @ magic @ opts_bytes os @ [255]"
    using assms(1) by (simp_all add: reply_ok_def)
  note f = find_opt_reply [OF assms(1) len, where beyond = beyond]
  obtain p where p: "find_opt ?opt 312 1 = Some (p, 4)" "opt_bytes ?opt p = mask4"
    using f [of 1] assms(2,3) opt_bytes_eq [OF assms(3)] by auto
  obtain q where q: "find_opt ?opt 312 3 = Some (q, 4)" "opt_bytes ?opt q = router"
    using f [of 3] assms(4,5) opt_bytes_eq [OF assms(5)] by auto
  have n: "find_opt ?opt 312 6 = None" using f [of 6] assms(6) by simp
  have "take 4 (drop 16 reply) = take 4 (drop 16 (take (241 + length (opts_bytes os)) reply))"
    by (simp add: drop_take)
  then have "take 4 (drop 16 reply) = take 4 (drop 16 fixed)" unfolding t using l by simp
  then show ?thesis by (simp add: apply_lease_def Let_def p q n)
qed

theorem dhcp_lease_applied_witness:
  "net_mask (apply_lease (\<lambda>_. 0) (replicate 236 7 @ magic @ opts_bytes [(53, [5]), (1, [255, 255, 255, 0]), (3, [10, 0, 2, 2])] @ [255] @ replicate 292 0) net_boot) =
    0xFFFFFF00"
proof -
  let ?os = "[(53, [5]), (1, [255, 255, 255, 0]), (3, [10, 0, 2, 2])] :: (u8 \<times> u8 list) list"
  let ?r = "replicate 236 7 @ magic @ opts_bytes ?os @ [255] @ replicate 292 0"
  have "reply_ok (replicate 236 7) ?os ?r" by (simp add: reply_ok_def opt_ok_def magic_def)
  moreover have "bytes_to_ip [255, 255, 255, 0] = 0xFFFFFF00" by code_simp
  ultimately show ?thesis using dhcp_lease_applied [of "replicate 236 7" ?os ?r "[255, 255, 255, 0]" "[10, 0, 2, 2]" "\<lambda>_. 0" net_boot] by simp
qed

text \<open>
  A ping is answered: the request that \<open>icmp_ping\<close> sends and the reply that \<open>icmp_echo_reply\<close> makes of it both
  carry valid checksums, and the reply is the one \<open>icmp_ping\<close> waits for.
\<close>

theorem ping_answered:
  "ip_checksum (ping_message seq) = 0 \<and> ip_checksum (echo_reply (ping_message seq)) = 0 \<and>
    ping_match ip seq (ip, IP_PROTO_ICMP, echo_reply (ping_message seq))"
proof -
  define r where "r = st16 (htons PING_ID) @ st16 (htons seq) @ map (\<lambda>i. of_char CHR ''a'' + (word_of_nat i AND 15)) [0..<PING_DATA]"
  have m: "ping_message seq = [8, 0] @ st16 (ip_checksum ([8, 0] @ [0, 0] @ r)) @ r" by (simp add: ping_message_def r_def Let_def)
  have len: "length [x :: u8, y] + length r \<le> 65530" for x y by (simp add: r_def PING_DATA_def)
  have e: "echo_reply (ping_message seq) = [0, 0] @ st16 (ip_checksum ([0, 0] @ [0, 0] @ r)) @ r"
    unfolding m echo_reply_def by (simp add: st16_def Let_def)
  have "ip_checksum (ping_message seq) = 0" "ip_checksum (echo_reply (ping_message seq)) = 0"
    unfolding e unfolding m by (rule checksum_verifies; use len in simp)+
  moreover have "ping_match ip seq (ip, IP_PROTO_ICMP, echo_reply (ping_message seq))"
    unfolding e by (simp add: ping_match_def r_def st16_def ld16_def ntohs_def)
  ultimately show ?thesis by blast
qed

end
