(* ===== verification/Bus.thy ===== *)
theory Bus
  imports Prelude
begin

text \<open>
  Port input and output of all three widths (\<open>cpu/io.h\<close>) for the drivers of disks, cards and chipset
  registers, and access to the PCI configuration space (\<open>cpu/pci.h\<close>). The devices are the environment:
  \<open>bus_in n p\<close> is what the \<open>n\<close>-th read of the run finds at port \<open>p\<close>. Every access is kept, in order, in a log.
\<close>

section \<open>Ports\<close>

datatype access = In8 u16 | In16 u16 | In32 u16 | Out8 u16 u8 | Out16 u16 u16 | Out32 u16 u32

record bus =
  bus_in :: "nat \<Rightarrow> u16 \<Rightarrow> u32"
  bus_reads :: nat
  bus_log :: "access list"

definition rd8 :: "u16 \<Rightarrow> 'a bus_scheme \<Rightarrow> u8 \<times> 'a bus_scheme" where
  "rd8 port s = (ucast (bus_in s (bus_reads s) port), s\<lparr>bus_reads := Suc (bus_reads s), bus_log := bus_log s @ [In8 port]\<rparr>)"

definition rd16 :: "u16 \<Rightarrow> 'a bus_scheme \<Rightarrow> u16 \<times> 'a bus_scheme" where
  "rd16 port s = (ucast (bus_in s (bus_reads s) port), s\<lparr>bus_reads := Suc (bus_reads s), bus_log := bus_log s @ [In16 port]\<rparr>)"

definition rd32 :: "u16 \<Rightarrow> 'a bus_scheme \<Rightarrow> u32 \<times> 'a bus_scheme" where
  "rd32 port s = (bus_in s (bus_reads s) port, s\<lparr>bus_reads := Suc (bus_reads s), bus_log := bus_log s @ [In32 port]\<rparr>)"

definition wr8 :: "u16 \<Rightarrow> u8 \<Rightarrow> 'a bus_scheme \<Rightarrow> 'a bus_scheme" where
  "wr8 port v s = s\<lparr>bus_log := bus_log s @ [Out8 port v]\<rparr>"

definition wr16 :: "u16 \<Rightarrow> u16 \<Rightarrow> 'a bus_scheme \<Rightarrow> 'a bus_scheme" where
  "wr16 port v s = s\<lparr>bus_log := bus_log s @ [Out16 port v]\<rparr>"

definition wr32 :: "u16 \<Rightarrow> u32 \<Rightarrow> 'a bus_scheme \<Rightarrow> 'a bus_scheme" where
  "wr32 port v s = s\<lparr>bus_log := bus_log s @ [Out32 port v]\<rparr>"

definition bus_wait :: "'a bus_scheme \<Rightarrow> 'a bus_scheme" where
  "bus_wait s = wr8 0x80 0 s"

lemmas bus_defs = rd8_def rd16_def rd32_def wr8_def wr16_def wr32_def bus_wait_def

text \<open>The writes of a log: what the devices were told.\<close>

fun is_out :: "access \<Rightarrow> bool" where
  "is_out (Out8 p v) = (p \<noteq> 0x80)"
| "is_out (Out16 p v) = True"
| "is_out (Out32 p v) = True"
| "is_out _ = False"

definition told :: "'a bus_scheme \<Rightarrow> access list" where
  "told s = filter is_out (bus_log s)"

lemma told_simps [simp]:
  "told (snd (rd8 p s)) = told s" "told (snd (rd16 p s)) = told s" "told (snd (rd32 p s)) = told s"
  "told (bus_wait s) = told s" "told (wr16 p w s) = told s @ [Out16 p w]" "told (wr32 p x s) = told s @ [Out32 p x]"
  "told (wr8 p v s) = told s @ (if p = 0x80 then [] else [Out8 p v])"
  by (simp_all add: told_def bus_defs)

section \<open>PCI configuration space\<close>

definition PCI_CONFIG_ADDR :: u16 where "PCI_CONFIG_ADDR = 0xCF8"
definition PCI_CONFIG_DATA :: u16 where "PCI_CONFIG_DATA = 0xCFC"

definition pci_addr :: "u8 \<Rightarrow> u8 \<Rightarrow> u8 \<Rightarrow> u8 \<Rightarrow> u32" where
  "pci_addr b dev fn off =
     0x80000000 OR push_bit 16 (ucast b) OR push_bit 11 (ucast dev) OR push_bit 8 (ucast fn) OR (ucast off AND 0xFC)"

definition pci_cfg_read32 :: "u8 \<Rightarrow> u8 \<Rightarrow> u8 \<Rightarrow> u8 \<Rightarrow> 'a bus_scheme \<Rightarrow> u32 \<times> 'a bus_scheme" where
  "pci_cfg_read32 b dev fn off s = rd32 PCI_CONFIG_DATA (wr32 PCI_CONFIG_ADDR (pci_addr b dev fn off) s)"

definition pci_cfg_write32 :: "u8 \<Rightarrow> u8 \<Rightarrow> u8 \<Rightarrow> u8 \<Rightarrow> u32 \<Rightarrow> 'a bus_scheme \<Rightarrow> 'a bus_scheme" where
  "pci_cfg_write32 b dev fn off val s = wr32 PCI_CONFIG_DATA val (wr32 PCI_CONFIG_ADDR (pci_addr b dev fn off) s)"

definition pci_cfg_read16 :: "u8 \<Rightarrow> u8 \<Rightarrow> u8 \<Rightarrow> u8 \<Rightarrow> 'a bus_scheme \<Rightarrow> u16 \<times> 'a bus_scheme" where
  "pci_cfg_read16 b dev fn off s =
     (let (v, s) = pci_cfg_read32 b dev fn off s in (ucast (drop_bit (unat (off AND 2) * 8) v), s))"

end
