(* ===== verification/Ata.thy ===== *)
theory Ata
  imports Bus
begin

text \<open>
  The hard disk driver of \<open>drivers/ata.c\<close> at the level of ports: detection of the four possible drives with
  IDENTIFY, and polled transfers of sectors as 16-bit words. The polling loops are bounded by the counts
  in the code, which the definitions take as structural arguments, so every operation returns.
\<close>

section \<open>State and operations\<close>

record ata_drive =
  present :: bool
  channel :: bool
  slave :: bool
  sectors :: u32
  model :: string

record ata = bus +
  drives :: "ata_drive list"
  drive_count :: nat

definition no_drive :: ata_drive where
  "no_drive = \<lparr>present = False, channel = False, slave = False, sectors = 0, model = replicate 41 CHR 0x00\<rparr>"

definition channel_base :: "bool \<Rightarrow> u16" where "channel_base ch = (if ch then 0x170 else 0x1F0)"
definition channel_ctrl :: "bool \<Rightarrow> u16" where "channel_ctrl ch = (if ch then 0x376 else 0x3F6)"

definition REG_DATA :: u16 where "REG_DATA = 0"
definition REG_FEATURES :: u16 where "REG_FEATURES = 1"
definition REG_SECCOUNT :: u16 where "REG_SECCOUNT = 2"
definition REG_LBA0 :: u16 where "REG_LBA0 = 3"
definition REG_LBA1 :: u16 where "REG_LBA1 = 4"
definition REG_LBA2 :: u16 where "REG_LBA2 = 5"
definition REG_HDDEVSEL :: u16 where "REG_HDDEVSEL = 6"
definition REG_STATUS :: u16 where "REG_STATUS = 7"
definition REG_COMMAND :: u16 where "REG_COMMAND = 7"
definition ST_ERR :: u8 where "ST_ERR = 0x01"
definition ST_DRQ :: u8 where "ST_DRQ = 0x08"
definition ST_DF :: u8 where "ST_DF = 0x20"
definition ST_BSY :: u8 where "ST_BSY = 0x80"
definition CMD_READ_PIO :: u8 where "CMD_READ_PIO = 0x20"
definition CMD_WRITE_PIO :: u8 where "CMD_WRITE_PIO = 0x30"
definition CMD_CACHE_FLUSH :: u8 where "CMD_CACHE_FLUSH = 0xE7"
definition CMD_IDENTIFY :: u8 where "CMD_IDENTIFY = 0xEC"

definition ata_delay :: "bool \<Rightarrow> ata \<Rightarrow> ata" where
  "ata_delay ch s = ((\<lambda>s. snd (rd8 (channel_ctrl ch) s)) ^^ 4) s"

fun not_busy_loop :: "nat \<Rightarrow> u16 \<Rightarrow> u8 \<Rightarrow> ata \<Rightarrow> u8 \<times> ata" where
  "not_busy_loop 0 base status s = (status, s)"
| "not_busy_loop (Suc n) base status s =
     (let (status, s) = rd8 (base + REG_STATUS) s
      in if status AND ST_BSY = 0 then (status, s) else not_busy_loop n base status s)"

definition wait_not_busy :: "u16 \<Rightarrow> ata \<Rightarrow> u8 \<times> ata" where
  "wait_not_busy base s = not_busy_loop 4000000 base 0 s"

fun drq_loop :: "nat \<Rightarrow> u16 \<Rightarrow> ata \<Rightarrow> int \<times> ata" where
  "drq_loop 0 base s = (-1, s)"
| "drq_loop (Suc n) base s =
     (let (status, s) = rd8 (base + REG_STATUS) s
      in if status AND (ST_ERR OR ST_DF) \<noteq> 0 then (-1, s)
         else if status AND ST_BSY = 0 \<and> status AND ST_DRQ \<noteq> 0 then (0, s)
         else drq_loop n base s)"

definition wait_drq :: "u16 \<Rightarrow> ata \<Rightarrow> int \<times> ata" where
  "wait_drq base s = drq_loop 4000000 base s"

definition select_drive :: "bool \<Rightarrow> bool \<Rightarrow> ata \<Rightarrow> ata" where
  "select_drive ch sl s = ata_delay ch (wr8 (channel_base ch + REG_HDDEVSEL) (if sl then 0xB0 else 0xA0) s)"

text \<open>The loop that reads \<open>n\<close> words from the data register.\<close>

fun read_words :: "nat \<Rightarrow> u16 \<Rightarrow> ata \<Rightarrow> u16 list \<times> ata" where
  "read_words 0 base s = ([], s)"
| "read_words (Suc n) base s =
     (let (w, s) = rd16 (base + REG_DATA) s; (ws, s) = read_words n base s in (w # ws, s))"

text \<open>The model name: the high byte of each word first, then trailing spaces overwritten with zeros.\<close>

definition model_bytes :: "u16 list \<Rightarrow> string" where
  "model_bytes ws = concat (map (\<lambda>i. [byte_chr (ucast (drop_bit 8 (ws ! (27 + i)))), byte_chr (ucast (ws ! (27 + i) AND 0xFF))]) [0..<20]) @ [CHR 0x00]"

fun trim_model :: "nat \<Rightarrow> string \<Rightarrow> string" where
  "trim_model 0 m = m"
| "trim_model (Suc i) m = (if m ! i = CHR '' '' then trim_model i (m[i := CHR 0x00]) else m)"

definition identify :: "bool \<Rightarrow> bool \<Rightarrow> ata \<Rightarrow> ata_drive option \<times> ata" where
  "identify ch sl s =
     (let base = channel_base ch;
          s = select_drive ch sl s;
          s = wr8 (base + REG_LBA2) 0 (wr8 (base + REG_LBA1) 0 (wr8 (base + REG_LBA0) 0 (wr8 (base + REG_SECCOUNT) 0 s)));
          s = ata_delay ch (wr8 (base + REG_COMMAND) CMD_IDENTIFY s);
          (status, s) = rd8 (base + REG_STATUS) s
      in if status = 0 \<or> status = 0xFF then (None, s)
         else let (status, s) = wait_not_busy base s
         in if status AND ST_BSY \<noteq> 0 then (None, s)
            else let (l1, s) = rd8 (base + REG_LBA1) s
            in if l1 \<noteq> 0 then (None, s)
               else let (l2, s) = rd8 (base + REG_LBA2) s
               in if l2 \<noteq> 0 then (None, s)
                  else let (r, s) = wait_drq base s
                  in if r \<noteq> 0 then (None, s)
                     else let (ws, s) = read_words 256 base s
                     in (Some \<lparr>present = True, channel = ch, slave = sl,
                               sectors = ucast (ws ! 60) OR push_bit 16 (ucast (ws ! 61)),
                               model = trim_model 40 (model_bytes ws)\<rparr>, s))"

definition probe :: "bool \<times> bool \<Rightarrow> ata \<Rightarrow> ata" where
  "probe cs s =
     (case identify (fst cs) (snd cs) s of
        (None, s) \<Rightarrow> s
      | (Some d, s) \<Rightarrow> s\<lparr>drives := (drives s)[drive_count s := d], drive_count := drive_count s + 1\<rparr>)"

definition ata_init :: "ata \<Rightarrow> ata" where
  "ata_init s =
     fold probe [(False, False), (False, True), (True, False), (True, True)]
       (s\<lparr>drive_count := 0, drives := replicate 4 no_drive\<rparr>)"

definition ata_drive_count :: "ata \<Rightarrow> nat" where "ata_drive_count s = drive_count s"

definition ata_get_drive :: "int \<Rightarrow> ata \<Rightarrow> ata_drive option" where
  "ata_get_drive index s = (if index < 0 \<or> index \<ge> int (drive_count s) then None else Some (drives s ! nat index))"

definition setup_transfer :: "int \<Rightarrow> u32 \<Rightarrow> u8 \<Rightarrow> ata \<Rightarrow> u16 \<times> ata" where
  "setup_transfer index lba count s =
     (case ata_get_drive index s of
        None \<Rightarrow> (0, s)
      | Some d \<Rightarrow>
          if lba + ucast count > sectors d \<or> lba + ucast count < lba then (0, s)
          else let base = channel_base (channel d); (status, s) = wait_not_busy base s
          in if status AND ST_BSY \<noteq> 0 then (0, s)
             else let s = wr8 (base + REG_HDDEVSEL) ((if slave d then 0xF0 else 0xE0) OR ucast (drop_bit 24 lba AND 0x0F)) s;
                      s = ata_delay (channel d) s;
                      s = wr8 (base + REG_FEATURES) 0 s;
                      s = wr8 (base + REG_SECCOUNT) count s;
                      s = wr8 (base + REG_LBA0) (ucast (lba AND 0xFF)) s;
                      s = wr8 (base + REG_LBA1) (ucast (drop_bit 8 lba AND 0xFF)) s;
                      s = wr8 (base + REG_LBA2) (ucast (drop_bit 16 lba AND 0xFF)) s
                  in (base, s))"

text \<open>The words of \<open>n\<close> sectors; on an error the words read so far are in the buffer.\<close>

fun read_sectors :: "nat \<Rightarrow> u16 \<Rightarrow> bool \<Rightarrow> ata \<Rightarrow> int \<times> u16 list \<times> ata" where
  "read_sectors 0 base ch s = (0, [], s)"
| "read_sectors (Suc n) base ch s =
     (let (r, s) = wait_drq base s
      in if r \<noteq> 0 then (-1, [], s)
         else let (ws, s) = read_words 256 base s; s = ata_delay ch s; (r, rest, s) = read_sectors n base ch s
              in (r, ws @ rest, s))"

definition ata_read_sectors :: "int \<Rightarrow> u32 \<Rightarrow> u8 \<Rightarrow> ata \<Rightarrow> int \<times> u16 list \<times> ata" where
  "ata_read_sectors index lba count s =
     (let (base, s) = setup_transfer index lba count s
      in if base = 0 then (-1, [], s)
         else let s = wr8 (base + REG_COMMAND) CMD_READ_PIO s
              in read_sectors (unat count) base (channel (drives s ! nat index)) s)"

fun write_sectors_loop :: "nat \<Rightarrow> u16 \<Rightarrow> bool \<Rightarrow> u16 list \<Rightarrow> ata \<Rightarrow> int \<times> ata" where
  "write_sectors_loop 0 base ch ws s = (0, s)"
| "write_sectors_loop (Suc n) base ch ws s =
     (let (r, s) = wait_drq base s
      in if r \<noteq> 0 then (-1, s)
         else let s = fold (\<lambda>w. wr16 (base + REG_DATA) w) (take 256 ws) s; s = ata_delay ch s
              in write_sectors_loop n base ch (drop 256 ws) s)"

definition ata_write_sectors :: "int \<Rightarrow> u32 \<Rightarrow> u8 \<Rightarrow> u16 list \<Rightarrow> ata \<Rightarrow> int \<times> ata" where
  "ata_write_sectors index lba count buf s =
     (let (base, s) = setup_transfer index lba count s
      in if base = 0 then (-1, s)
         else let s = wr8 (base + REG_COMMAND) CMD_WRITE_PIO s;
                  (r, s) = write_sectors_loop (unat count) base (channel (drives s ! nat index)) buf s
              in if r \<noteq> 0 then (-1, s)
                 else let s = wr8 (base + REG_COMMAND) CMD_CACHE_FLUSH s; (status, s) = wait_not_busy base s
                      in if status AND ST_BSY \<noteq> 0 then (-1, s) else (0, s))"

section \<open>What the controller is told\<close>

lemma told_drives [simp]:
  "told (s\<lparr>drives := a\<rparr>) = told s" "told (s\<lparr>drive_count := n\<rparr>) = told s"
  by (simp_all add: told_def)

lemma kept_fields [simp]:
  "drives (snd (rd8 p s)) = drives s" "drive_count (snd (rd8 p s)) = drive_count s"
  "drives (snd (rd16 p s)) = drives s" "drive_count (snd (rd16 p s)) = drive_count s"
  "drives (wr8 p v s) = drives s" "drive_count (wr8 p v s) = drive_count s"
  "drives (wr16 p w s) = drives s" "drive_count (wr16 p w s) = drive_count s"
  by (simp_all add: bus_defs)

text \<open>Waiting only reads: the drives and what was written stay as they are.\<close>

definition quiet :: "ata \<Rightarrow> ata \<Rightarrow> bool" where
  "quiet s t \<longleftrightarrow> told t = told s \<and> drives t = drives s \<and> drive_count t = drive_count s"

lemma quiet_simps [simp]: "quiet s s" "quiet s (snd (rd8 p s))" "quiet s (snd (rd16 p s))"
  by (simp_all add: quiet_def)

lemma quiet_trans: "quiet s t \<Longrightarrow> quiet t u \<Longrightarrow> quiet s u"
  by (simp add: quiet_def)

lemma ata_delay_quiet [simp]: "quiet s (ata_delay ch s)"
  by (simp add: ata_delay_def quiet_def numeral_eq_Suc)

lemma not_busy_loop_quiet: "quiet s (snd (not_busy_loop n base st s))"
  by (induction n arbitrary: st s) (auto simp: Let_def split_beta intro: quiet_trans [OF quiet_simps(2)])

lemma wait_not_busy_quiet [simp]: "quiet s (snd (wait_not_busy base s))"
  by (simp only: wait_not_busy_def not_busy_loop_quiet)

lemma drq_loop_quiet: "quiet s (snd (drq_loop n base s)) \<and> fst (drq_loop n base s) \<in> {0, -1}"
  by (induction n arbitrary: s) (auto simp: Let_def split_beta intro: quiet_trans [OF quiet_simps(2)])

lemma wait_drq_quiet [simp]: "quiet s (snd (wait_drq base s))" "fst (wait_drq base s) \<noteq> 0 \<longleftrightarrow> fst (wait_drq base s) = -1"
  using drq_loop_quiet [of s 4000000 base] by (auto simp only: wait_drq_def insert_iff empty_iff)

lemma read_words_quiet: "quiet s (snd (read_words n base s)) \<and> length (fst (read_words n base s)) = n"
  by (induction n arbitrary: s) (auto simp: Let_def split_beta intro: quiet_trans [OF quiet_simps(3)])

lemma read_sectors_quiet:
  "quiet s (snd (snd (read_sectors n base ch s))) \<and>
    (fst (read_sectors n base ch s) = 0 \<and> length (fst (snd (read_sectors n base ch s))) = 256 * n \<or> fst (read_sectors n base ch s) = -1)"
proof (induction n arbitrary: s)
  case (Suc n)
  define s1 where "s1 = snd (wait_drq base s)"
  define s2 where "s2 = ata_delay ch (snd (read_words 256 base s1))"
  have q: "quiet s s2" unfolding s2_def s1_def
    using read_words_quiet quiet_trans ata_delay_quiet wait_drq_quiet(1) by blast
  show ?case
  proof (cases "fst (wait_drq base s) = 0")
    case True
    then have "read_sectors (Suc n) base ch s =
        (fst (read_sectors n base ch s2), fst (read_words 256 base s1) @ fst (snd (read_sectors n base ch s2)), snd (snd (read_sectors n base ch s2)))"
      by (simp add: Let_def split_beta s1_def s2_def)
    then show ?thesis using Suc.IH [of s2] q read_words_quiet [of s1 256 base] quiet_trans by auto
  next
    case False
    then show ?thesis using wait_drq_quiet(1) [of s base] by (simp add: split_beta)
  qed
qed simp

definition task_file :: "ata_drive \<Rightarrow> u32 \<Rightarrow> u8 \<Rightarrow> access list" where
  "task_file d lba count =
     (let base = channel_base (channel d)
      in [Out8 (base + 6) ((if slave d then 0xF0 else 0xE0) OR ucast (drop_bit 24 lba AND 0x0F)), Out8 (base + 1) 0, Out8 (base + 2) count,
          Out8 (base + 3) (ucast (lba AND 0xFF)), Out8 (base + 4) (ucast (drop_bit 8 lba AND 0xFF)), Out8 (base + 5) (ucast (drop_bit 16 lba AND 0xFF))])"

text \<open>The drive and the range of a transfer that may go ahead.\<close>

definition in_drive :: "int \<Rightarrow> u32 \<Rightarrow> u8 \<Rightarrow> ata \<Rightarrow> bool" where
  "in_drive index lba count s \<longleftrightarrow>
     0 \<le> index \<and> index < int (drive_count s) \<and> unat lba + unat count \<le> unat (sectors (drives s ! nat index))"

lemma range_check:
  fixes lba :: u32 and count :: u8 and n :: u32
  shows "\<not> (n < lba + ucast count \<or> lba + ucast count < lba) \<longleftrightarrow> unat lba + unat count \<le> unat n"
proof -
  have c: "unat (ucast count :: u32) = unat count" by (simp add: unat_ucast_up)
  have lt: "unat count < 256" using unat_less_pow [of count] by simp
  have n: "unat n < 2 ^ 32" using unat_less_pow [of n] by simp
  have l: "unat lba < 2 ^ 32" using unat_less_pow [of lba] by simp
  show ?thesis
  proof (cases "unat lba + unat count < 2 ^ 32")
    case True
    then have "unat (lba + ucast count) = unat lba + unat count" by (simp add: unat_plus_simple c)
    then show ?thesis by (simp add: word_less_nat_alt not_less)
  next
    case False
    then have "(unat lba + unat count) mod 2 ^ 32 = unat lba + unat count - 2 ^ 32"
      using l lt by (intro mod_nat_eqI) simp_all
    then have "unat (lba + ucast count) = unat lba + unat count - 2 ^ 32" by (simp add: unat_word_ariths c)
    then have "lba + ucast count < lba" using lt l False by (simp add: word_less_nat_alt)
    then show ?thesis using False n by simp
  qed
qed

lemma channel_base_cases: "channel_base ch = 0x170 \<or> channel_base ch = 0x1F0"
  by (simp add: channel_base_def)

lemma setup_transfer_spec:
  "(\<not> in_drive index lba count s \<longrightarrow> setup_transfer index lba count s = (0, s)) \<and>
   (in_drive index lba count s \<longrightarrow>
     (\<exists>t. setup_transfer index lba count s = (0, t) \<and> quiet s t) \<or>
     (\<exists>t. setup_transfer index lba count s = (channel_base (channel (drives s ! nat index)), t) \<and> drives t = drives s \<and> drive_count t = drive_count s \<and>
        told t = told s @ task_file (drives s ! nat index) lba count))"
proof (cases "0 \<le> index \<and> index < int (drive_count s)")
  case False
  then have "ata_get_drive index s = None" by (auto simp: ata_get_drive_def)
  then show ?thesis using False by (auto simp: setup_transfer_def in_drive_def)
next
  case True
  define d where "d = drives s ! nat index"
  have g: "ata_get_drive index s = Some d" using True by (simp add: ata_get_drive_def d_def)
  show ?thesis
  proof (cases "in_drive index lba count s")
    case False
    then have "sectors d < lba + ucast count \<or> lba + ucast count < lba"
      using True range_check [of "sectors d" lba count] by (auto simp: in_drive_def d_def)
    then show ?thesis using False g by (simp add: setup_transfer_def)
  next
    case in_r: True
    then have r: "\<not> (sectors d < lba + ucast count \<or> lba + ucast count < lba)"
      using range_check [of "sectors d" lba count] by (simp add: in_drive_def d_def)
    define base where "base = channel_base (channel d)"
    define w where "w = wait_not_busy base s"
    have w: "quiet s (snd w)" by (simp add: w_def)
    show ?thesis
    proof (cases "fst w AND ST_BSY \<noteq> 0")
      case True
      then have "setup_transfer index lba count s = (0, snd w)"
        using r g by (simp add: setup_transfer_def Let_def split_beta w_def base_def)
      then show ?thesis using in_r w by blast
    next
      case False
      define x where "x = ata_delay (channel d) (wr8 (base + REG_HDDEVSEL) ((if slave d then 0xF0 else 0xE0) OR ucast (drop_bit 24 lba AND 0x0F)) (snd w))"
      have "quiet (wr8 (base + REG_HDDEVSEL) ((if slave d then 0xF0 else 0xE0) OR ucast (drop_bit 24 lba AND 0x0F)) (snd w)) x" by (simp add: x_def)
      then have x: "told x = told s @ [Out8 (base + 6) ((if slave d then 0xF0 else 0xE0) OR ucast (drop_bit 24 lba AND 0x0F))]"
        "drives x = drives s" "drive_count x = drive_count s"
        using w channel_base_cases [of "channel d"] by (auto simp: quiet_def base_def REG_HDDEVSEL_def)
      have "setup_transfer index lba count s = (base, wr8 (base + REG_LBA2) (ucast (drop_bit 16 lba AND 0xFF)) (wr8 (base + REG_LBA1) (ucast (drop_bit 8 lba AND 0xFF))
          (wr8 (base + REG_LBA0) (ucast (lba AND 0xFF)) (wr8 (base + REG_SECCOUNT) count (wr8 (base + REG_FEATURES) 0 x)))))"
        using r g False by (simp add: setup_transfer_def Let_def split_beta w_def base_def x_def)
      then show ?thesis using in_r x channel_base_cases [of "channel d"]
        by (auto simp: d_def [symmetric] base_def task_file_def REG_LBA0_def REG_LBA1_def REG_LBA2_def REG_SECCOUNT_def REG_FEATURES_def Let_def)
    qed
  qed
qed


lemma fold_wr16: "told (fold (wr16 p) ws s) = told s @ map (Out16 p) ws"
  "drives (fold (wr16 p) ws s) = drives s" "drive_count (fold (wr16 p) ws s) = drive_count s" for s :: ata
  by (induction ws arbitrary: s) simp_all

lemma write_loop_told:
  "length ws = 256 * n \<Longrightarrow> write_sectors_loop n base ch ws s = (r, t) \<Longrightarrow>
    r = 0 \<and> told t = told s @ map (Out16 (base + REG_DATA)) ws \<or> r = -1"
proof (induction n arbitrary: ws s)
  case (Suc n)
  define s1 where "s1 = snd (wait_drq base s)"
  define s2 where "s2 = ata_delay ch (fold (wr16 (base + REG_DATA)) (take 256 ws) s1)"
  show ?case
  proof (cases "fst (wait_drq base s) = 0")
    case True
    then have w: "write_sectors_loop n base ch (drop 256 ws) s2 = (r, t)"
      using Suc.prems(2) by (simp add: Let_def split_beta s1_def s2_def)
    have "quiet s s1" "quiet (fold (wr16 (base + REG_DATA)) (take 256 ws) s1) s2" by (simp_all add: s1_def s2_def)
    then have "told s2 = told s @ map (Out16 (base + REG_DATA)) (take 256 ws)" by (simp add: quiet_def fold_wr16)
    moreover have "map (Out16 (base + REG_DATA)) (take 256 ws) @ map (Out16 (base + REG_DATA)) (drop 256 ws) = map (Out16 (base + REG_DATA)) ws"
      by (simp flip: map_append)
    moreover have "length (drop 256 ws) = 256 * n" using Suc.prems(1) by simp
    ultimately show ?thesis using Suc.IH [OF _ w] by (metis append_assoc)
  next
    case False
    then show ?thesis using Suc.prems(2) by (auto simp: split_beta)
  qed
qed simp

section \<open>Properties\<close>


text \<open>A machine with one disk of 1000 sectors that is always ready for data.\<close>

definition sample_ata :: ata where
  "sample_ata = \<lparr>bus_in = (\<lambda>n p. 0x48), bus_reads = 0, bus_log = [],
     drives = [no_drive\<lparr>present := True, sectors := 1000\<rparr>, no_drive, no_drive, no_drive], drive_count = 1\<rparr>"

lemma sample_ready:
  assumes "bus_in s = bus_in sample_ata"
  shows "fst (wait_drq base s) = 0" "fst (wait_not_busy base s) = 0x48"
    "bus_in (snd (wait_drq base s)) = bus_in sample_ata" "bus_in (snd (wait_not_busy base s)) = bus_in sample_ata"
proof -
  obtain n :: nat where n: "4000000 = Suc n" by (metis numeral_eq_Suc)
  show "fst (wait_drq base s) = 0" "fst (wait_not_busy base s) = 0x48"
    "bus_in (snd (wait_drq base s)) = bus_in sample_ata" "bus_in (snd (wait_not_busy base s)) = bus_in sample_ata"
    unfolding wait_drq_def wait_not_busy_def n using assms
    by (simp_all add: rd8_def sample_ata_def ST_ERR_def ST_DF_def ST_BSY_def ST_DRQ_def)
qed

lemma sample_kept:
  "bus_in (wr8 p v s) = bus_in s" "bus_in (fold (wr16 p) ws s) = bus_in s" "bus_in (ata_delay ch s) = bus_in s" for s :: ata
proof -
  show "bus_in (wr8 p v s) = bus_in s" by (simp add: wr8_def)
  show "bus_in (fold (wr16 p) ws s) = bus_in s" by (induction ws arbitrary: s) (simp_all add: wr16_def)
  show "bus_in (ata_delay ch s) = bus_in s" by (simp add: ata_delay_def rd8_def numeral_eq_Suc)
qed


text \<open>
  Reading never touches the disk: a read writes no data word, and if it reports success the sectors lie
  on the drive, exactly the task file and the read command were sent, and the buffer holds 256 words
  for every sector.
\<close>

theorem ata_read_in_range:
  assumes "ata_read_sectors index lba count s = (r, ws, t)"
  defines "d \<equiv> drives s ! nat index" and "base \<equiv> channel_base (channel (drives s ! nat index))"
  shows "(told t = told s \<or> told t = told s @ task_file d lba count @ [Out8 (base + 7) 0x20]) \<and>
    (r = -1 \<or> r = 0 \<and> in_drive index lba count s \<and> length ws = 256 * unat count \<and>
      told t = told s @ task_file d lba count @ [Out8 (base + 7) 0x20])"
proof -
  have nz: "base \<noteq> 0" "base + 7 \<noteq> 0x80" using channel_base_cases [of "channel d"] by (auto simp: base_def d_def)
  consider (no) u where "setup_transfer index lba count s = (0, u)" "told u = told s"
    | (go) u where "setup_transfer index lba count s = (base, u)" "told u = told s @ task_file d lba count" "in_drive index lba count s"
    using setup_transfer_spec [of index lba count s] unfolding d_def base_def quiet_def by blast
  then show ?thesis
  proof cases
    case no
    then show ?thesis using assms(1) by (simp add: ata_read_sectors_def)
  next
    case go
    define v where "v = wr8 (base + REG_COMMAND) CMD_READ_PIO u"
    have v: "told v = told s @ task_file d lba count @ [Out8 (base + 7) 0x20]"
      using go(2) nz by (simp add: v_def REG_COMMAND_def CMD_READ_PIO_def)
    have "read_sectors (unat count) base (channel (drives v ! nat index)) v = (r, ws, t)"
      using assms(1) nz(1) by (simp add: ata_read_sectors_def go(1) v_def)
    then show ?thesis
      using read_sectors_quiet [of v "unat count" base "channel (drives v ! nat index)"] v go(3) by (auto simp: quiet_def)
  qed
qed

section \<open>Detection\<close>

lemma length_trim_model [simp]: "length (trim_model n m) = length m"
  by (induction n arbitrary: m) simp_all

lemma length_model_bytes [simp]: "length (model_bytes ws) = 41"
  by (simp add: model_bytes_def length_concat o_def sum_list_triv)

lemma identify_result:
  "drives (snd (identify ch sl s)) = drives s \<and> drive_count (snd (identify ch sl s)) = drive_count s \<and>
    (\<forall>d. fst (identify ch sl s) = Some d \<longrightarrow> present d \<and> channel d = ch \<and> slave d = sl \<and> length (model d) = 41)"
proof -
  have q: "drives (ata_delay ch u) = drives u" "drive_count (ata_delay ch u) = drive_count u"
    "drives (snd (wait_not_busy b u)) = drives u" "drive_count (snd (wait_not_busy b u)) = drive_count u"
    "drives (snd (wait_drq b u)) = drives u" "drive_count (snd (wait_drq b u)) = drive_count u"
    "drives (snd (read_words n b u)) = drives u" "drive_count (snd (read_words n b u)) = drive_count u" for u b n
    using ata_delay_quiet [of u ch] wait_not_busy_quiet [of u b] wait_drq_quiet(1) [of u b] read_words_quiet [of u n b]
    by (simp_all add: quiet_def)
  show ?thesis by (simp add: identify_def select_drive_def Let_def split_beta q)
qed

text \<open>
  The list of drives: at most four, each marked present and with a name of 40 characters and its
  terminator; \<open>asked\<close> are the drives that were asked so far.
\<close>

definition ata_ok :: "(bool \<times> bool) set \<Rightarrow> ata \<Rightarrow> bool" where
  "ata_ok asked s \<longleftrightarrow> length (drives s) = 4 \<and> drive_count s \<le> card asked \<and>
     (\<forall>i < drive_count s. present (drives s ! i) \<and> length (model (drives s ! i)) = 41 \<and> (channel (drives s ! i), slave (drives s ! i)) \<in> asked) \<and>
     distinct (map (\<lambda>i. (channel (drives s ! i), slave (drives s ! i))) [0..<drive_count s])"

lemma probe_ok:
  assumes "ata_ok asked s" and "cs \<notin> asked" and "finite asked" and "card asked < 4"
  shows "ata_ok (insert cs asked) (probe cs s)"
proof -
  note r = identify_result [of "fst cs" "snd cs" s]
  have n: "drive_count s < 4" "length (drives s) = 4" using assms(1,4) by (simp_all add: ata_ok_def)
  have c: "card (insert cs asked) = Suc (card asked)" using assms(2,3) by simp
  show ?thesis
  proof (cases "fst (identify (fst cs) (snd cs) s)")
    case None
    then have "probe cs s = snd (identify (fst cs) (snd cs) s)" by (simp add: probe_def split_beta)
    then show ?thesis using assms(1) r c by (auto simp: ata_ok_def)
  next
    case (Some d)
    let ?t = "snd (identify (fst cs) (snd cs) s)"
    have p: "probe cs s = ?t\<lparr>drives := (drives s)[drive_count s := d], drive_count := drive_count s + 1\<rparr>"
      using Some r by (simp add: probe_def split_beta)
    have d: "present d" "length (model d) = 41" "(channel d, slave d) = cs" using r Some by (auto simp: prod_eq_iff)
    have m: "map (\<lambda>i. (channel ((drives s)[drive_count s := d] ! i), slave ((drives s)[drive_count s := d] ! i))) [0..<Suc (drive_count s)] =
        map (\<lambda>i. (channel (drives s ! i), slave (drives s ! i))) [0..<drive_count s] @ [cs]"
      using n d(3) by simp
    have "cs \<notin> set (map (\<lambda>i. (channel (drives s ! i), slave (drives s ! i))) [0..<drive_count s])"
      using assms(1,2) by (auto simp: ata_ok_def)
    then have "distinct (map (\<lambda>i. (channel ((drives s)[drive_count s := d] ! i), slave ((drives s)[drive_count s := d] ! i))) [0..<Suc (drive_count s)])"
      using assms(1) unfolding m by (simp add: ata_ok_def)
    then show ?thesis using assms(1) c d n unfolding p by (auto simp: ata_ok_def less_Suc_eq simp del: upt_Suc)
  qed
qed

text \<open>
  C23. After detection the list of drives is well formed, whatever the controllers answer: at most four
  drives, no drive twice, each marked present with a terminated name; and these are the drives that
  can be addressed.
\<close>

theorem ata_init_ok:
  "ata_ok UNIV (ata_init s) \<and> (ata_get_drive index (ata_init s) \<noteq> None \<longleftrightarrow> 0 \<le> index \<and> index < int (drive_count (ata_init s)))"
proof -
  have u: "UNIV = {(True, True), (True, False), (False, True), (False, False :: bool)}" by auto
  have "ata_ok {} (s\<lparr>drive_count := 0, drives := replicate 4 no_drive\<rparr>)" by (simp add: ata_ok_def)
  from probe_ok [OF probe_ok [OF probe_ok [OF probe_ok [OF this, of "(False, False)"], of "(False, True)"], of "(True, False)"], of "(True, True)"]
  have "ata_ok UNIV (ata_init s)" unfolding u by (simp add: ata_init_def)
  then show ?thesis by (auto simp: ata_get_drive_def)
qed

end
