(* ===== verification/Nic.thy ===== *)
theory Nic
  imports Bus Net
begin

text \<open>
  The driver of the RTL8139 card (\<open>drivers/rtl8139.c\<close>) at the level of ports and DMA memory. \<open>ring k i\<close> is the
  byte that the receive memory holds \<open>i\<close> bytes after the start of the ring when the driver looks at it for
  the \<open>k\<close>-th time; the ring proper has 8192 bytes and the buffer 9744. When the size of a transmit
  descriptor is written, the card takes that many bytes of the descriptor's buffer: \<open>air\<close> keeps them.
\<close>

section \<open>State and operations\<close>

record nic = bus +
  ring :: "nat \<Rightarrow> nat \<Rightarrow> u8"
  looks :: nat
  rx_phys :: u32
  tx_phys :: u32
  tx_buffer :: "u8 list list"
  io_base :: u16
  mac_addr :: "u8 list"
  present :: bool
  tx_cur :: nat
  rx_offset :: nat
  air :: "u8 list list"

definition REG_IDR0 :: u16 where "REG_IDR0 = 0x00"
definition REG_TSD0 :: u16 where "REG_TSD0 = 0x10"
definition REG_TSAD0 :: u16 where "REG_TSAD0 = 0x20"
definition REG_RBSTART :: u16 where "REG_RBSTART = 0x30"
definition REG_CMD :: u16 where "REG_CMD = 0x37"
definition REG_CAPR :: u16 where "REG_CAPR = 0x38"
definition REG_IMR :: u16 where "REG_IMR = 0x3C"
definition REG_ISR :: u16 where "REG_ISR = 0x3E"
definition REG_TCR :: u16 where "REG_TCR = 0x40"
definition REG_RCR :: u16 where "REG_RCR = 0x44"
definition REG_CONFIG1 :: u16 where "REG_CONFIG1 = 0x52"
definition CMD_RST :: u8 where "CMD_RST = 0x10"
definition CMD_RE :: u8 where "CMD_RE = 0x08"
definition CMD_TE :: u8 where "CMD_TE = 0x04"
definition CMD_BUFE :: u8 where "CMD_BUFE = 0x01"
definition RCR_CONFIG :: u32 where "RCR_CONFIG = 0x0E OR push_bit 7 1 OR push_bit 8 7 OR push_bit 13 7"
definition RX_BUF_SIZE :: nat where "RX_BUF_SIZE = 8192"

fun find_from :: "nat \<Rightarrow> nat \<Rightarrow> nic \<Rightarrow> u8 option \<times> nic" where
  "find_from 0 dev s = (None, s)"
| "find_from (Suc n) dev s =
     (let (ident, s) = pci_cfg_read32 0 (word_of_nat dev) 0 0x00 s
      in if ident AND 0xFFFF = 0xFFFF then find_from n (Suc dev) s
         else if ident = 0x813910EC then (Some (word_of_nat dev), s)
         else find_from n (Suc dev) s)"

definition find_card :: "nic \<Rightarrow> u8 option \<times> nic" where
  "find_card s = find_from 32 0 s"

fun reset_wait :: "nat \<Rightarrow> nic \<Rightarrow> nic" where
  "reset_wait 0 s = s"
| "reset_wait (Suc n) s =
     (let (c, s) = rd8 (io_base s + REG_CMD) s in if c AND CMD_RST \<noteq> 0 then reset_wait n (bus_wait s) else s)"

fun read_mac :: "nat \<Rightarrow> nat \<Rightarrow> nic \<Rightarrow> nic" where
  "read_mac 0 i s = s"
| "read_mac (Suc n) i s =
     (let (b, s) = rd8 (io_base s + REG_IDR0 + word_of_nat i) s in read_mac n (Suc i) (s\<lparr>mac_addr := (mac_addr s)[i := b]\<rparr>))"

definition rtl8139_init :: "nic \<Rightarrow> nic" where
  "rtl8139_init s =
     (let s = s\<lparr>present := False\<rparr>; (c, s) = find_card s
      in case c of
           None \<Rightarrow> s
         | Some dev \<Rightarrow>
             let (cmd, s) = pci_cfg_read32 0 dev 0 0x04 s;
                 s = pci_cfg_write32 0 dev 0 0x04 (cmd OR 0x05) s;
                 (bar, s) = pci_cfg_read32 0 dev 0 0x10 s;
                 s = s\<lparr>io_base := ucast (bar AND 0xFFFC)\<rparr>;
                 s = wr8 (io_base s + REG_CONFIG1) 0x00 s;
                 s = wr8 (io_base s + REG_CMD) CMD_RST s;
                 s = reset_wait 1000000 s;
                 s = wr32 (io_base s + REG_RBSTART) (rx_phys s) s;
                 s = wr16 (io_base s + REG_CAPR) 0xFFF0 s;
                 s = wr16 (io_base s + REG_ISR) 0xFFFF s;
                 s = wr16 (io_base s + REG_IMR) 0x0000 s;
                 s = fold (\<lambda>i s. wr8 (io_base s + 0x08 + word_of_nat i) 0xFF s) [0..<8] s;
                 s = wr32 (io_base s + REG_RCR) RCR_CONFIG s;
                 s = wr32 (io_base s + REG_TCR) 0x03000700 s;
                 s = wr8 (io_base s + REG_CMD) (CMD_RE OR CMD_TE) s;
                 s = wr32 (io_base s + REG_RCR) RCR_CONFIG s;
                 s = wr32 (io_base s + REG_TCR) 0x03000700 s;
                 s = read_mac 6 0 s
             in s\<lparr>rx_offset := 0, tx_cur := 0, present := True\<rparr>)"

definition rtl8139_present :: "nic \<Rightarrow> bool" where "rtl8139_present s = present s"
definition rtl8139_mac :: "nic \<Rightarrow> u8 list" where "rtl8139_mac s = mac_addr s"

text \<open>The card takes the frame when its size is written.\<close>

definition start_send :: "nat \<Rightarrow> nat \<Rightarrow> nic \<Rightarrow> nic" where
  "start_send n len s =
     (let s = wr32 (io_base s + REG_TSD0 + word_of_nat n * 4) (word_of_nat len OR push_bit 16 0x38) s
      in s\<lparr>air := air s @ [take len (tx_buffer s ! n)]\<rparr>)"

fun send_wait :: "nat \<Rightarrow> nat \<Rightarrow> nic \<Rightarrow> nic" where
  "send_wait 0 n s = s"
| "send_wait (Suc k) n s =
     (let (st, s) = rd32 (io_base s + REG_TSD0 + word_of_nat n * 4) s
      in if st AND 0x8000 \<noteq> 0 then s
         else if st AND (push_bit 30 1 OR push_bit 14 1) \<noteq> 0 then s
         else send_wait k n (bus_wait s))"

definition rtl8139_send :: "u8 list \<Rightarrow> nic \<Rightarrow> int \<times> nic" where
  "rtl8139_send frame s =
     (if \<not> present s \<or> length frame = 0 \<or> length frame > 1792 then (-1, s)
      else let n = tx_cur s;
               padded = (if length frame < 60 then 60 else length frame);
               buf = overwrite 0 frame (tx_buffer s ! n);
               buf = (if padded > length frame then overwrite (length frame) (replicate (padded - length frame) 0) buf else buf);
               s = s\<lparr>tx_buffer := (tx_buffer s)[n := buf]\<rparr>;
               s = wr32 (io_base s + REG_TSAD0 + word_of_nat n * 4) (tx_phys s + word_of_nat n * 2048) s;
               s = start_send n padded s;
               s = send_wait 400000 n s
           in (0, s\<lparr>tx_cur := (n + 1) mod 4\<rparr>))"

definition rtl8139_reset_rx :: "nic \<Rightarrow> nic" where
  "rtl8139_reset_rx s =
     (if \<not> present s then s
      else let s = wr8 (io_base s + REG_CMD) CMD_TE s;
               s = s\<lparr>rx_offset := 0\<rparr>;
               s = wr32 (io_base s + REG_RBSTART) (rx_phys s) s;
               s = wr32 (io_base s + REG_RCR) RCR_CONFIG s;
               s = wr16 (io_base s + REG_CAPR) 0xFFF0 s;
               s = wr16 (io_base s + REG_ISR) 0xFFFF s;
               s = wr8 (io_base s + REG_CMD) (CMD_RE OR CMD_TE) s
           in wr32 (io_base s + REG_RCR) RCR_CONFIG s)"

text \<open>The position after a packet of \<open>len\<close> bytes (with its checksum): skip the header, align, wrap.\<close>

definition next_offset :: "nat \<Rightarrow> nat \<Rightarrow> nat" where
  "next_offset off len = (off + len + 4 + 3) div 4 * 4 mod RX_BUF_SIZE"

definition rtl8139_poll :: "nat \<Rightarrow> nic \<Rightarrow> u8 list \<times> nic" where
  "rtl8139_poll maxlen s =
     (if \<not> present s then ([], s)
      else let (isr, s) = rd16 (io_base s + REG_ISR) s
      in if isr AND 0x0050 \<noteq> 0 then ([], rtl8139_reset_rx s)
         else let (cmd, s) = rd8 (io_base s + REG_CMD) s
         in if cmd AND CMD_BUFE \<noteq> 0 then ([], s)
            else let p = (\<lambda>i. ring s (looks s) (rx_offset s + i));
                     s = s\<lparr>looks := Suc (looks s)\<rparr>;
                     status = le16 (p 0) (p 1); len = le16 (p 2) (p 3);
                     pktlen = (if status AND 0x01 \<noteq> 0 \<and> len \<ge> 4
                               then if unat len - 4 > maxlen then 0 else unat len - 4 else 0);
                     got = map (\<lambda>i. p (4 + i)) [0..<pktlen];
                     s = s\<lparr>rx_offset := next_offset (rx_offset s) (unat len)\<rparr>;
                     s = wr16 (io_base s + REG_CAPR) (word_of_nat (rx_offset s) - 16) s;
                     s = wr16 (io_base s + REG_ISR) 0x0001 s
                 in (got, s))"

definition rtl8139_link_up :: "nic \<Rightarrow> bool \<times> nic" where
  "rtl8139_link_up s =
     (if present s then let (v, s) = rd8 (io_base s + 0x58) s in (v AND 0x04 = 0, s) else (False, s))"

section \<open>Facts\<close>

lemma nic_fields [simp]:
  "tx_buffer (snd (rd32 p s)) = tx_buffer s" "air (snd (rd32 p s)) = air s" "present (snd (rd32 p s)) = present s"
  "tx_buffer (bus_wait s) = tx_buffer s" "air (bus_wait s) = air s" "present (bus_wait s) = present s"
  "tx_buffer (wr32 p v s) = tx_buffer s" "air (wr32 p v s) = air s" "present (wr32 p v s) = present s" "tx_cur (wr32 p v s) = tx_cur s"
  "io_base (wr32 p v s) = io_base s" "io_base (wr16 p w s) = io_base s"
  by (simp_all add: bus_defs)

lemma send_wait_keeps:
  "tx_buffer (send_wait k n s) = tx_buffer s \<and> air (send_wait k n s) = air s \<and> present (send_wait k n s) = present s"
  by (induction k arbitrary: s) (simp_all add: Let_def split_beta)

definition nic_ok :: "nic \<Rightarrow> bool" where
  "nic_ok s \<longleftrightarrow> length (tx_buffer s) = 4 \<and> (\<forall>b \<in> set (tx_buffer s). length b = 2048) \<and> tx_cur s < 4 \<and>
     rx_offset s < RX_BUF_SIZE \<and> rx_offset s mod 4 = 0"

lemma next_offset_ok: "next_offset off len < RX_BUF_SIZE" "next_offset off len mod 4 = 0"
proof -
  show "next_offset off len < RX_BUF_SIZE" by (simp add: next_offset_def RX_BUF_SIZE_def)
  have "(4 :: nat) dvd (x * 4) mod 8192" for x by (rule dvd_mod) simp_all
  then show "next_offset off len mod 4 = 0" by (simp add: next_offset_def RX_BUF_SIZE_def)
qed

text \<open>The card of the network core (\<open>Net\<close>) as this driver implements it.\<close>

definition nic_rel :: "net \<Rightarrow> nic \<Rightarrow> bool" where
  "nic_rel a s \<longleftrightarrow> card a = present s \<and> wire a = air s"

lemma sent_bytes:
  assumes "length frame \<le> 1792" and "length buf = 2048"
  defines "padded \<equiv> if length frame < 60 then 60 else length frame"
  defines "buf1 \<equiv> overwrite 0 frame buf"
  defines "buf2 \<equiv> if padded > length frame then overwrite (length frame) (replicate (padded - length frame) 0) buf1 else buf1"
  shows "take padded buf2 = frame @ replicate (60 - length frame) 0" "length buf2 = 2048"
proof -
  have b1: "buf1 = frame @ drop (length frame) buf" "length buf1 = 2048" using assms(1,2) by (simp_all add: buf1_def overwrite_def)
  show "take padded buf2 = frame @ replicate (60 - length frame) 0" "length buf2 = 2048"
    using b1 assms(1,2) by (auto simp: buf2_def padded_def overwrite_def)
qed


lemma send_accepts:
  assumes "nic_ok s" and "present s" and "frame \<noteq> []" and "length frame \<le> 1792"
  shows "fst (rtl8139_send frame s) = 0" "present (snd (rtl8139_send frame s))"
    "air (snd (rtl8139_send frame s)) = air s @ [frame @ replicate (60 - length frame) 0]" "nic_ok (snd (rtl8139_send frame s))"
proof -
  have n: "tx_cur s < length (tx_buffer s)" "length (tx_buffer s ! tx_cur s) = 2048"
    using assms(1) by (simp_all add: nic_ok_def)
  define padded where "padded = (if length frame < 60 then 60 else length frame)"
  define buf where "buf = (if padded > length frame
      then overwrite (length frame) (replicate (padded - length frame) 0) (overwrite 0 frame (tx_buffer s ! tx_cur s))
      else overwrite 0 frame (tx_buffer s ! tx_cur s))"
  note b = sent_bytes [OF assms(4) n(2), folded padded_def, folded buf_def]
  define u where "u = wr32 (io_base s + REG_TSAD0 + word_of_nat (tx_cur s) * 4) (tx_phys s + word_of_nat (tx_cur s) * 2048)
      (s\<lparr>tx_buffer := (tx_buffer s)[tx_cur s := buf]\<rparr>)"
  have u: "tx_buffer u = (tx_buffer s)[tx_cur s := buf]" "air u = air s" "present u" "rx_offset u = rx_offset s"
    using assms(2) by (simp_all add: u_def wr32_def)
  have snd: "rtl8139_send frame s = (0, (send_wait 400000 (tx_cur s) (start_send (tx_cur s) padded u))\<lparr>tx_cur := (tx_cur s + 1) mod 4\<rparr>)"
    using assms(2-4) by (simp add: rtl8139_send_def Let_def u_def padded_def buf_def wr32_def)
  have rx: "rx_offset (send_wait k m v) = rx_offset v" for k m v
    by (induction k arbitrary: v) (simp_all add: Let_def split_beta bus_defs)
  note w = send_wait_keeps [of 400000 "tx_cur s" "start_send (tx_cur s) padded u"]
  have v: "air (start_send (tx_cur s) padded u) = air s @ [take padded buf]" "tx_buffer (start_send (tx_cur s) padded u) = tx_buffer u"
    "present (start_send (tx_cur s) padded u)" "rx_offset (start_send (tx_cur s) padded u) = rx_offset s"
    using n(1) u by (simp_all add: start_send_def wr32_def)
  show "fst (rtl8139_send frame s) = 0" "present (snd (rtl8139_send frame s))" using snd w v by simp_all
  show "air (snd (rtl8139_send frame s)) = air s @ [frame @ replicate (60 - length frame) 0]" using snd w v b(1) by simp
  have "\<forall>x \<in> set ((tx_buffer s)[tx_cur s := buf]). length x = 2048"
    using assms(1) b(2) set_update_subset_insert [of "tx_buffer s" "tx_cur s" buf] by (auto simp: nic_ok_def)
  then show "nic_ok (snd (rtl8139_send frame s))"
    using assms(1) snd w v u rx by (simp add: nic_ok_def)
qed

text \<open>
  A packet in the ring: a header with the good bit and the length with its checksum, then the bytes.
\<close>

definition holds_packet :: "(nat \<Rightarrow> u8) \<Rightarrow> nat \<Rightarrow> u8 list \<Rightarrow> bool" where
  "holds_packet mem off f \<longleftrightarrow> le16 (mem off) (mem (off + 1)) AND 0x01 \<noteq> 0 \<and>
     le16 (mem (off + 2)) (mem (off + 3)) = word_of_nat (length f + 4) \<and> map (\<lambda>i. mem (off + 4 + i)) [0..<length f] = f"

text \<open>The card reports neither an overflow nor an empty ring at the next look.\<close>

definition has_packet :: "nic \<Rightarrow> bool" where
  "has_packet s \<longleftrightarrow> present s \<and> (ucast (bus_in s (bus_reads s) (io_base s + REG_ISR)) :: u16) AND 0x0050 = 0 \<and>
     (ucast (bus_in s (Suc (bus_reads s)) (io_base s + REG_CMD)) :: u8) AND CMD_BUFE = 0"

lemma poll_packet:
  assumes "has_packet s" and "holds_packet (ring s (looks s)) (rx_offset s) f" and "length f \<le> maxlen" and "length f \<le> 65000"
  shows "fst (rtl8139_poll maxlen s) = f" "rx_offset (snd (rtl8139_poll maxlen s)) = next_offset (rx_offset s) (length f + 4)"
    "present (snd (rtl8139_poll maxlen s))" "ring (snd (rtl8139_poll maxlen s)) = ring s" "looks (snd (rtl8139_poll maxlen s)) = Suc (looks s)"
    "bus_in (snd (rtl8139_poll maxlen s)) = bus_in s" "bus_reads (snd (rtl8139_poll maxlen s)) = bus_reads s + 2"
    "io_base (snd (rtl8139_poll maxlen s)) = io_base s" "air (snd (rtl8139_poll maxlen s)) = air s"
proof -
  have l: "unat (word_of_nat (length f + 4) :: u16) = length f + 4" using assms(4) by (intro unat_of_nat_less) simp
  then have l4: "(word_of_nat (length f + 4) :: u16) \<ge> 4" by (simp add: word_le_nat_alt)
  have st: "le16 (ring s (looks s) (rx_offset s)) (ring s (looks s) (Suc (rx_offset s))) AND 0x01 \<noteq> 0"
    and ln: "le16 (ring s (looks s) (Suc (Suc (rx_offset s)))) (ring s (looks s) (rx_offset s + 3)) = word_of_nat (length f + 4)"
    and bytes: "map (\<lambda>i. ring s (looks s) (rx_offset s + 4 + i)) [0..<length f] = f"
    using assms(2) by (simp_all add: holds_packet_def)
  have bytes2: "map (\<lambda>i. ring s (looks s) (rx_offset s + (4 + i))) [0..<length f] = f" using bytes by (simp only: add.assoc)
  have "rtl8139_poll maxlen s = (f, snd (rtl8139_poll maxlen s)) \<and>
      rx_offset (snd (rtl8139_poll maxlen s)) = next_offset (rx_offset s) (length f + 4) \<and>
      present (snd (rtl8139_poll maxlen s)) \<and> ring (snd (rtl8139_poll maxlen s)) = ring s \<and> looks (snd (rtl8139_poll maxlen s)) = Suc (looks s) \<and>
      bus_in (snd (rtl8139_poll maxlen s)) = bus_in s \<and> bus_reads (snd (rtl8139_poll maxlen s)) = bus_reads s + 2 \<and>
      io_base (snd (rtl8139_poll maxlen s)) = io_base s \<and> air (snd (rtl8139_poll maxlen s)) = air s"
    using assms(1,3) l4 st by (simp add: rtl8139_poll_def has_packet_def rd16_def rd8_def wr16_def Let_def ln l bytes2 del: of_nat_add)
  then show "fst (rtl8139_poll maxlen s) = f" "rx_offset (snd (rtl8139_poll maxlen s)) = next_offset (rx_offset s) (length f + 4)"
    "present (snd (rtl8139_poll maxlen s))" "ring (snd (rtl8139_poll maxlen s)) = ring s" "looks (snd (rtl8139_poll maxlen s)) = Suc (looks s)"
    "bus_in (snd (rtl8139_poll maxlen s)) = bus_in s" "bus_reads (snd (rtl8139_poll maxlen s)) = bus_reads s + 2"
    "io_base (snd (rtl8139_poll maxlen s)) = io_base s" "air (snd (rtl8139_poll maxlen s)) = air s"
    by (metis fst_conv)+
qed

text \<open>
  The card puts packets into the ring one after the other, each on a multiple of four, starting again
  at the front after the end; a packet may run over the end into the rest of the buffer.
\<close>

fun ring_filled :: "nic \<Rightarrow> nat \<Rightarrow> nat \<Rightarrow> u8 list list \<Rightarrow> bool" where
  "ring_filled s k off [] = True"
| "ring_filled s k off (f # fs) =
     (holds_packet (ring s (looks s + k)) off f \<and> ring_filled s (Suc k) (next_offset off (length f + 4)) fs)"

definition ready_for :: "nat \<Rightarrow> nic \<Rightarrow> bool" where
  "ready_for n s \<longleftrightarrow> present s \<and> (\<forall>k < n. (ucast (bus_in s (bus_reads s + 2 * k) (io_base s + REG_ISR)) :: u16) AND 0x0050 = 0 \<and>
     (ucast (bus_in s (Suc (bus_reads s + 2 * k)) (io_base s + REG_CMD)) :: u8) AND CMD_BUFE = 0)"

fun poll_times :: "nat \<Rightarrow> nat \<Rightarrow> nic \<Rightarrow> u8 list list \<times> nic" where
  "poll_times 0 maxlen s = ([], s)"
| "poll_times (Suc n) maxlen s =
     (let (f, s) = rtl8139_poll maxlen s; (fs, s) = poll_times n maxlen s in (f # fs, s))"

lemma ring_filled_shift:
  assumes "ring t = ring s" and "looks t = Suc (looks s)"
  shows "ring_filled s (Suc k) off fs = ring_filled t k off fs"
  using assms by (induction fs arbitrary: k off) simp_all

lemma poll_times_fifo:
  assumes "ready_for (length fs) s" and "ring_filled s 0 (rx_offset s) fs" and "\<forall>f \<in> set fs. length f \<le> maxlen \<and> length f \<le> 65000"
  shows "fst (poll_times (length fs) maxlen s) = fs"
  using assms
proof (induction fs arbitrary: s)
  case (Cons f fs)
  let ?t = "snd (rtl8139_poll maxlen s)"
  have "has_packet s" using Cons.prems(1) by (force simp: ready_for_def has_packet_def)
  moreover have "holds_packet (ring s (looks s)) (rx_offset s) f" "length f \<le> maxlen" "length f \<le> 65000"
    using Cons.prems(2,3) by simp_all
  ultimately have p: "fst (rtl8139_poll maxlen s) = f" "rx_offset ?t = next_offset (rx_offset s) (length f + 4)" "present ?t"
    "ring ?t = ring s" "looks ?t = Suc (looks s)" "bus_in ?t = bus_in s" "bus_reads ?t = bus_reads s + 2" "io_base ?t = io_base s"
    by (rule poll_packet)+
  have "ready_for (length fs) ?t"
    unfolding ready_for_def p
  proof (intro conjI allI impI)
    fix k assume "k < length fs"
    then have "Suc k < length (f # fs)" by simp
    then have "(ucast (bus_in s (bus_reads s + 2 * Suc k) (io_base s + REG_ISR)) :: u16) AND 0x0050 = 0 \<and>
        (ucast (bus_in s (Suc (bus_reads s + 2 * Suc k)) (io_base s + REG_CMD)) :: u8) AND CMD_BUFE = 0"
      using Cons.prems(1) unfolding ready_for_def by blast
    then show "(ucast (bus_in s (bus_reads s + 2 + 2 * k) (io_base s + REG_ISR)) :: u16) AND 0x0050 = 0"
      "(ucast (bus_in s (Suc (bus_reads s + 2 + 2 * k)) (io_base s + REG_CMD)) :: u8) AND CMD_BUFE = 0" by simp_all
  qed (use p in simp)
  moreover have "ring_filled ?t 0 (rx_offset ?t) fs"
    using Cons.prems(2) ring_filled_shift [of ?t s 0] p by simp
  ultimately have "fst (poll_times (length fs) maxlen ?t) = fs" using Cons.IH Cons.prems(3) by simp
  then show ?case using p(1) by (simp add: split_beta Let_def)
qed simp

lemma poll_ok: "nic_ok s \<Longrightarrow> nic_ok (snd (rtl8139_poll maxlen s)) \<and> air (snd (rtl8139_poll maxlen s)) = air s \<and> present (snd (rtl8139_poll maxlen s)) = present s"
  using next_offset_ok by (simp add: rtl8139_poll_def rtl8139_reset_rx_def Let_def split_beta bus_defs nic_ok_def RX_BUF_SIZE_def)

section \<open>Properties\<close>


definition sample_nic :: nic where
  "sample_nic = \<lparr>bus_in = (\<lambda>n p. 0), bus_reads = 0, bus_log = [],
     ring = (\<lambda>k i. if i = 8188 then 1 else if i = 8190 then 7 else if i = 8192 then 65 else if i = 8193 then 66 else if i = 8194 then 67
                   else if i = 8 then 1 else if i = 10 then 5 else if i = 12 then 90 else 0),
     looks = 0, rx_phys = 0x20000, tx_phys = 0x30000, tx_buffer = replicate 4 (replicate 2048 0), io_base = 0xC000,
     mac_addr = replicate 6 0, present = True, tx_cur = 0, rx_offset = 8188, air = []\<rparr>"


text \<open>
  Packets come out of the ring in the order in which the card put them in, each with exactly its bytes,
  across the wrap from the end of the ring to its front.
\<close>

theorem ring_fifo:
  assumes "ready_for (length fs) s" and "ring_filled s 0 (rx_offset s) fs" and "\<forall>f \<in> set fs. length f \<le> maxlen" and "maxlen \<le> 1600"
  shows "fst (poll_times (length fs) maxlen s) = fs"
  using poll_times_fifo [OF assms(1,2)] assms(3,4) by fastforce

theorem ring_fifo_witness: "fst (poll_times 2 1600 sample_nic) = [[65, 66, 67], [90]]"
proof -
  have "ready_for 2 sample_nic" by (simp add: ready_for_def sample_nic_def CMD_BUFE_def)
  moreover have "ring_filled sample_nic 0 (rx_offset sample_nic) [[65, 66, 67], [90]]"
    by (simp add: sample_nic_def holds_packet_def next_offset_def RX_BUF_SIZE_def le16_def)
  moreover have "length [[65 :: u8, 66, 67], [90]] = 2" "\<forall>f \<in> set [[65 :: u8, 66, 67], [90]]. length f \<le> 1600" by simp_all
  ultimately show ?thesis using ring_fifo [of "[[65, 66, 67], [90]]" sample_nic 1600] by (simp only: order.refl)
qed

text \<open>
  Reading stays inside the receive buffer of 9744 bytes as long as the packet is no longer than 1552
  bytes, which covers every Ethernet frame; the limit of 1600 bytes that the network core passes would
  allow 48 bytes more at the very end of the ring.
\<close>

theorem ring_read_bounds:
  assumes "nic_ok s" and "i < length (fst (rtl8139_poll maxlen s))" and "maxlen \<le> 1552"
  shows "rx_offset s + 4 + i < 9744"
proof -
  have "rx_offset s < 8192" "rx_offset s mod 4 = 0" using assms(1) by (simp_all add: nic_ok_def RX_BUF_SIZE_def)
  then have "rx_offset s \<le> 8188" by presburger
  moreover have "length (fst (rtl8139_poll maxlen s)) \<le> maxlen"
    by (simp add: rtl8139_poll_def Let_def split_beta)
  ultimately show ?thesis using assms(2,3) by linarith
qed

end
