(* ===== verification/Elf.thy ===== *)
theory Elf
  imports Sched FatFile
begin

text \<open>
  The ELF loader of \<open>kernel/elf.c\<close>, over the models of the heap, of paging, of the scheduler and of the file
  system. \<open>ubytes\<close> is the contents of physical memory by bytes; the loader reaches it through the
  translation of the address, and an access to an address that is not mapped is a fault, after which the
  loader does not go on: its result is \<open>None\<close>. The program image is a function: \<open>img k\<close> is the byte \<open>k\<close>
  bytes after the start of the buffer, also for the positions behind the file and behind the buffer; it is the image as it was when the task
  started, so a segment placed over the buffer itself is outside the model.
\<close>

section \<open>State and operations\<close>

record loader =
  ld_sched :: sched
  ld_fs :: fatfs
  ubytes :: "u32 \<Rightarrow> u8"
  messages :: "string list"
  user_entry :: "(u32 \<times> u32) option"

abbreviation ld_pg :: "loader \<Rightarrow> paging" where "ld_pg s \<equiv> kh_pg (s_heap (ld_sched s))"

definition set_pg :: "paging \<Rightarrow> loader \<Rightarrow> loader" where
  "set_pg pg s = s\<lparr>ld_sched := (ld_sched s)\<lparr>s_heap := (s_heap (ld_sched s))\<lparr>kh_pg := pg\<rparr>\<rparr>\<rparr>"

definition MAX_ELF :: u32 where "MAX_ELF = 128 * 1024"
definition USTACK_TOP :: u32 where "USTACK_TOP = 0x50000000"

definition rd16 :: "(u32 \<Rightarrow> u8) \<Rightarrow> u32 \<Rightarrow> u16" where
  "rd16 img p = ucast (img p) OR push_bit 8 (ucast (img (p + 1)))"

definition rd32 :: "(u32 \<Rightarrow> u8) \<Rightarrow> u32 \<Rightarrow> u32" where
  "rd32 img p = ucast (img p) OR push_bit 8 (ucast (img (p + 1))) OR push_bit 16 (ucast (img (p + 2))) OR push_bit 24 (ucast (img (p + 3)))"

text \<open>A byte of virtual memory: written through the page tables, or a fault.\<close>

definition vstore :: "u32 \<Rightarrow> u8 \<Rightarrow> loader \<Rightarrow> loader option" where
  "vstore va v s =
     (let pa = paging_get_phys va (ld_pg s)
      in if pa = 0xFFFFFFFF then None else Some (s\<lparr>ubytes := (ubytes s)(pa := v)\<rparr>))"

fun vcopy :: "nat \<Rightarrow> u32 \<Rightarrow> (nat \<Rightarrow> u8) \<Rightarrow> loader \<Rightarrow> loader option" where
  "vcopy 0 va f s = Some s"
| "vcopy (Suc n) va f s = Option.bind (vcopy n va f s) (\<lambda>s. vstore (va + word_of_nat n) (f n) s)"

definition ensure_page :: "u32 \<Rightarrow> loader \<Rightarrow> (int \<times> loader) option" where
  "ensure_page va s =
     (let page = va AND NOT (4096 - 1)
      in if paging_get_phys page (ld_pg s) \<noteq> 0xFFFFFFFF then Some (0, s)
         else let (frame, pm) = pmm_alloc_frame (pg_pmm (ld_pg s)); s = set_pg ((ld_pg s)\<lparr>pg_pmm := pm\<rparr>) s
              in if frame = 0 then Some (-1, s)
                 else let (r, pg) = paging_map page frame (PAGE_PRESENT OR PAGE_WRITE OR PAGE_USER) (ld_pg s); s = set_pg pg s
                      in if r \<noteq> 0 then Some (-1, set_pg ((ld_pg s)\<lparr>pg_pmm := pmm_free_frame frame (pg_pmm (ld_pg s))\<rparr>) s)
                         else map_option (Pair 0) (vcopy 4096 page (\<lambda>_. 0) s))"

partial_function (option) map_segment :: "u32 \<Rightarrow> u32 \<Rightarrow> loader \<Rightarrow> (int \<times> loader) option" where
  "map_segment a stop s =
     (if \<not> a < stop then Some (0, s)
      else Option.bind (ensure_page a s) (\<lambda>(r, s1). if r \<noteq> 0 then Some (-1, s1) else map_segment (a + 4096) stop s1))"

definition load_segment :: "(u32 \<Rightarrow> u8) \<Rightarrow> u32 \<Rightarrow> u32 \<Rightarrow> u32 \<Rightarrow> u32 \<Rightarrow> loader \<Rightarrow> (int \<times> loader) option" where
  "load_segment img vaddr off filesz memsz s =
     Option.bind (map_segment vaddr (vaddr + memsz) s) (\<lambda>(r, s).
       if r \<noteq> 0 then Some (-1, s)
       else Option.bind (if memsz > 0 then ensure_page (vaddr + memsz - 1) s else Some (0, s)) (\<lambda>(r, s).
         if r \<noteq> 0 then Some (-1, s)
         else map_option (Pair 0) (vcopy (unat filesz) vaddr (\<lambda>i. img (off + word_of_nat i)) s)))"

fun load_headers :: "nat \<Rightarrow> u32 \<Rightarrow> (u32 \<Rightarrow> u8) \<Rightarrow> u32 \<Rightarrow> u32 \<Rightarrow> loader \<Rightarrow> (int \<times> loader) option" where
  "load_headers 0 i img phoff phentsz s = Some (0, s)"
| "load_headers (Suc n) i img phoff phentsz s =
     (let ph = phoff + i * phentsz
      in if rd32 img (ph + 0) \<noteq> 1 then load_headers n (i + 1) img phoff phentsz s
         else Option.bind (load_segment img (rd32 img (ph + 8)) (rd32 img (ph + 4)) (rd32 img (ph + 16)) (rd32 img (ph + 20)) s)
                (\<lambda>(r, s). if r \<noteq> 0 then Some (-1, s) else load_headers n (i + 1) img phoff phentsz s))"

definition ld_kfree :: "u32 \<Rightarrow> loader \<Rightarrow> loader option" where
  "ld_kfree p s = map_option (\<lambda>h. s\<lparr>ld_sched := (ld_sched s)\<lparr>s_heap := h\<rparr>\<rparr>) (kfree p (s_heap (ld_sched s)))"

definition ld_say :: "string \<Rightarrow> loader \<Rightarrow> loader" where
  "ld_say m s = s\<lparr>messages := messages s @ [m]\<rparr>"

text \<open>The launcher thread: \<open>buf\<close> and \<open>job\<close> are the two allocations it was handed.\<close>

definition elf_task :: "(u32 \<Rightarrow> u8) \<Rightarrow> u32 \<Rightarrow> u32 \<Rightarrow> loader \<Rightarrow> loader option" where
  "elf_task img buf job s =
     (let entry = rd32 img 24; phoff = rd32 img 28; phentsz = rd16 img 42; phnum = rd16 img 44
      in Option.bind (load_headers (unat phnum) 0 img phoff (ucast phentsz) s) (\<lambda>(r, s).
           if r \<noteq> 0
           then Option.bind (ld_kfree buf (ld_say (''elf: out of memory loading segment'' @ [CHR 0x0A]) s)) (ld_kfree job)
           else Option.bind (Option.bind (ld_kfree buf s) (ld_kfree job)) (\<lambda>s.
             Option.bind (ensure_page (USTACK_TOP - 4096) s) (\<lambda>(r, s).
               if r \<noteq> 0 then Some (ld_say (''elf: out of memory for user stack'' @ [CHR 0x0A]) s)
               else let t = kstack_top (tcb (ld_sched s) (sched_current (ld_sched s)))
                    in Some (s\<lparr>ld_sched := tss_set_esp0 t (ld_sched s), user_entry := Some (entry, USTACK_TOP)\<rparr>)))))"

definition elf_header_ok :: "u8 list \<Rightarrow> bool" where
  "elf_header_ok b \<longleftrightarrow>
     b ! 0 = 0x7F \<and> b ! 1 = of_char CHR ''E'' \<and> b ! 2 = of_char CHR ''L'' \<and> b ! 3 = of_char CHR ''F'' \<and> b ! 4 = 1 \<and> b ! 5 = 1 \<and>
     le16 (b ! 16) (b ! 17) = 2 \<and> le16 (b ! 18) (b ! 19) = 3"

text \<open>
  \<open>boot\<close> and \<open>entry\<close> are the addresses of \<open>task_bootstrap\<close> and \<open>elf_task\<close>. On success the result carries the job:
  its address, the buffer and the bytes of the file.
\<close>

definition elf_exec :: "u32 \<Rightarrow> u32 \<Rightarrow> string \<Rightarrow> loader \<Rightarrow> (int \<times> (u32 \<times> u32 \<times> u8 list) option \<times> loader) option" where
  "elf_exec boot entry path s =
     Option.bind (sched_kmalloc MAX_ELF (ld_sched s)) (\<lambda>(buf, sc).
       let s = s\<lparr>ld_sched := sc\<rparr>
       in if buf = 0 then Some (-1, None, s)
          else Option.bind (fs_read path MAX_ELF (ld_fs s)) (\<lambda>(len, bytes, fs).
                 let s = s\<lparr>ld_fs := fs\<rparr>
                 in if len < 52 \<or> \<not> elf_header_ok bytes then map_option (\<lambda>s. (-1, None, s)) (ld_kfree buf s)
                    else Option.bind (sched_kmalloc 8 (ld_sched s)) (\<lambda>(job, sc).
                           let s = s\<lparr>ld_sched := sc\<rparr>
                           in if job = 0 then map_option (\<lambda>s. (-1, None, s)) (ld_kfree buf s)
                              else Option.bind (task_spawn boot entry job ''elfprog'' (ld_sched s)) (\<lambda>(t, sc).
                                     Some (0, Some (job, buf, bytes), s\<lparr>ld_sched := sc\<rparr>)))))"

section \<open>Virtual memory by bytes\<close>

abbreviation vphys :: "loader \<Rightarrow> u32 \<Rightarrow> u32" where "vphys s va \<equiv> paging_get_phys va (ld_pg s)"

definition vload :: "loader \<Rightarrow> u32 \<Rightarrow> u8" where "vload s va = ubytes s (vphys s va)"

lemma vcopy_result:
  "vcopy n va f s = Some t \<Longrightarrow> \<exists>u. t = s\<lparr>ubytes := u\<rparr> \<and> (\<forall>i < n. vphys s (va + word_of_nat i) \<noteq> 0xFFFFFFFF) \<and>
    (\<forall>a. (\<forall>i < n. a \<noteq> vphys s (va + word_of_nat i)) \<longrightarrow> u a = ubytes s a) \<and>
    (inj_on (\<lambda>i. vphys s (va + word_of_nat i)) {..<n} \<longrightarrow> (\<forall>i < n. u (vphys s (va + word_of_nat i)) = f i))"
proof (induction n arbitrary: t)
  case 0
  then show ?case by (intro exI [of _ "ubytes s"]) simp
next
  case (Suc n)
  obtain t1 where t1: "vcopy n va f s = Some t1" "vstore (va + word_of_nat n) (f n) t1 = Some t"
    using Suc.prems by (auto simp: bind_eq_Some_conv)
  obtain u where u: "t1 = s\<lparr>ubytes := u\<rparr>" "\<forall>i < n. vphys s (va + word_of_nat i) \<noteq> 0xFFFFFFFF"
    "\<forall>a. (\<forall>i < n. a \<noteq> vphys s (va + word_of_nat i)) \<longrightarrow> u a = ubytes s a"
    "inj_on (\<lambda>i. vphys s (va + word_of_nat i)) {..<n} \<longrightarrow> (\<forall>i < n. u (vphys s (va + word_of_nat i)) = f i)"
    using Suc.IH [OF t1(1)] by blast
  let ?p = "vphys s (va + word_of_nat n)"
  have p: "?p \<noteq> 0xFFFFFFFF" and t: "t = s\<lparr>ubytes := u(?p := f n)\<rparr>"
    using t1(2) u(1) by (auto simp: vstore_def Let_def split: if_splits)
  have "(u(?p := f n)) (vphys s (va + word_of_nat i)) = f i"
    if "inj_on (\<lambda>i. vphys s (va + word_of_nat i)) {..<Suc n}" "i < Suc n" for i
  proof (cases "i = n")
    case False
    then have "i < n" "vphys s (va + word_of_nat i) \<noteq> ?p" using that inj_onD [OF that(1), of i n] by auto
    moreover have "inj_on (\<lambda>i. vphys s (va + word_of_nat i)) {..<n}" using that(1) by (rule inj_on_subset) auto
    ultimately show ?thesis using u(4) by simp
  qed simp
  then show ?case unfolding t
    by (intro exI [of _ "u(?p := f n)"] conjI refl) (use p u(2,3) in \<open>auto simp: less_Suc_eq\<close>)
qed

lemma ld_pg_simps [simp]:
  "ld_pg (set_pg pg s) = pg" "ubytes (set_pg pg s) = ubytes s" "ld_pg (s\<lparr>ubytes := u\<rparr>) = ld_pg s"
  "set_pg pg (set_pg pg2 s) = set_pg pg s"
  by (simp_all add: set_pg_def)

section \<open>Pages\<close>

lemma page_of: "drop_bit 12 (va AND NOT (4096 - 1)) = drop_bit 12 va" for va :: u32
proof -
  have e: "(4096 - 1 :: u32) = mask 12" by (simp add: mask_eq_exp_minus_1)
  show ?thesis unfolding e by (rule bit_word_eqI) (auto simp: bit_simps dest: bit_imp_le_length)
qed

lemma page_offset:
  fixes va page :: u32
  assumes "page = va AND NOT (4096 - 1)" and "i < 4096"
  shows "drop_bit 12 (page + word_of_nat i) = drop_bit 12 va" "(page + word_of_nat i) AND 0xFFF = word_of_nat i"
proof -
  have e: "(4096 - 1 :: u32) = mask 12" "(0xFFF :: u32) = mask 12" by (simp_all add: mask_eq_exp_minus_1)
  define w :: u32 where "w = word_of_nat i"
  have i: "unat w = i" using assms(2) unfolding w_def by (intro unat_of_nat_less) simp
  then have ti: "take_bit 12 w = w"
    using assms(2) by (intro word_unat_eq_iff [THEN iffD2]) (simp add: unat_take_bit)
  have bi: "bit w n \<Longrightarrow> n < 12" for n using ti by (metis bit_take_bit_iff)
  have "page AND w = 0"
    unfolding assms(1) e by (rule bit_word_eqI) (auto simp: bit_simps dest: bi)
  then have o1: "page + w = page OR w" by (rule disjunctive_add_eq_or)
  show "drop_bit 12 (page + word_of_nat i) = drop_bit 12 va"
    unfolding w_def [symmetric] unfolding o1 unfolding assms(1) e by (rule bit_word_eqI) (auto simp: bit_simps dest: bi bit_imp_le_length)
  show "(page + word_of_nat i) AND 0xFFF = word_of_nat i"
    unfolding w_def [symmetric] unfolding o1 unfolding assms(1) e by (rule bit_word_eqI) (auto simp: bit_simps dest: bi)
qed

text \<open>Addresses in pages with different aligned frames are different.\<close>

lemma frame_or_eq:
  assumes "page_aligned f" and "page_aligned g" and "f OR (v AND 0xFFF) = g OR (w AND 0xFFF)"
  shows "f = g" and "v AND 0xFFF = w AND 0xFFF"
proof -
  have m: "(0xFFF :: u32) = mask 12" by (simp add: mask_eq_exp_minus_1)
  have al: "\<not> bit x n" if "page_aligned x" "n < 12" for x n
  proof -
    have "bit (take_bit 12 x) n = bit x n" using that(2) by (simp add: bit_take_bit_iff)
    then show ?thesis using that(1) by (simp add: page_aligned_take_bit)
  qed
  have b: "(bit f n \<or> (n < 12 \<and> bit v n)) = (bit g n \<or> (n < 12 \<and> bit w n))" for n
  proof -
    have "bit (f OR take_bit 12 v) n = bit (g OR take_bit 12 w) n" using assms(3) by (simp add: m take_bit_eq_mask)
    then show ?thesis by (simp only: bit_or_iff bit_take_bit_iff)
  qed
  show "f = g"
  proof (rule bit_eqI)
    fix n show "bit f n = bit g n"
      using b [of n] al [OF assms(1), of n] al [OF assms(2), of n] by (cases "n < 12") simp_all
  qed
  have "take_bit 12 v = take_bit 12 w"
  proof (rule bit_eqI)
    fix n show "bit (take_bit 12 v) n = bit (take_bit 12 w) n"
      using b [of n] al [OF assms(1), of n] al [OF assms(2), of n] by (cases "n < 12") (simp_all add: bit_take_bit_iff)
  qed
  then show "v AND 0xFFF = w AND 0xFFF" by (simp add: m take_bit_eq_mask)
qed

section \<open>Loading a segment\<close>

abbreviation vframe :: "loader \<Rightarrow> u32 \<Rightarrow> u32" where
  "vframe s q \<equiv> the (pages (ld_pg s) q) AND ADDR_MASK"

abbreviation ld_avail :: "loader \<Rightarrow> u32 set" where "ld_avail s \<equiv> avail_frames (pg_pmm (ld_pg s))"

abbreviation ld_managed :: "loader \<Rightarrow> u32 set" where "ld_managed s \<equiv> managed_frames (pg_pmm (ld_pg s))"

text \<open>
  The pages \<open>D\<close> are mapped to frames of their own that are not free, and hold zeros; every other page is as
  it was in \<open>s0\<close>.
\<close>

definition zero_pages :: "u32 set \<Rightarrow> loader \<Rightarrow> loader \<Rightarrow> bool" where
  "zero_pages D s0 s \<longleftrightarrow> pg_inv (ld_pg s) \<and> ld_managed s = ld_managed s0 \<and> inj_on (vframe s) D \<and>
     (\<forall>q \<in> D. unat q < 2 ^ 20 \<and> pages (ld_pg s) q \<noteq> None \<and> vframe s q \<in> ld_managed s - ld_avail s \<and> (\<forall>i < 4096. ubytes s (vframe s q OR word_of_nat i) = 0)) \<and>
     (\<forall>q. unat q < 2 ^ 20 \<and> q \<notin> D \<longrightarrow> pages (ld_pg s) q = pages (ld_pg s0) q)"

lemma vphys_mapped: "pages (ld_pg s) (drop_bit 12 v) \<noteq> None \<Longrightarrow> vphys s v = vframe s (drop_bit 12 v) OR (v AND 0xFFF)"
  by (auto simp: paging_get_phys_pages)

lemma vphys_unmapped: "pages (ld_pg s) (drop_bit 12 v) = None \<Longrightarrow> vphys s v = 0xFFFFFFFF"
  by (simp add: paging_get_phys_pages)

lemma ensure_page_zero:
  assumes z: "zero_pages D s0 s" and e: "ensure_page va s = Some (0, t)"
    and fresh: "drop_bit 12 va \<in> D \<or> pages (ld_pg s0) (drop_bit 12 va) = None"
  shows "zero_pages (insert (drop_bit 12 va) D) s0 t"
proof -
  define page where "page = va AND NOT (4096 - 1)"
  have dp: "drop_bit 12 page = drop_bit 12 va" using page_of by (simp add: page_def)
  have q20: "unat (drop_bit 12 va) < 2 ^ 20" by (rule pg.vpn_bound)
  show ?thesis
  proof (cases "vphys s page = 0xFFFFFFFF")
    case False
    then have "t = s" using e unfolding ensure_page_def Let_def page_def [symmetric] by simp
    moreover have "drop_bit 12 va \<in> D"
    proof (rule ccontr)
      assume "drop_bit 12 va \<notin> D"
      then have "pages (ld_pg s) (drop_bit 12 va) = None" using fresh z q20 by (auto simp: zero_pages_def)
      then show False using False vphys_unmapped [of s page] dp by simp
    qed
    ultimately show ?thesis using z by (simp add: insert_absorb)
  next
    case True
    have nm: "pages (ld_pg s) (drop_bit 12 va) = None"
    proof (rule ccontr)
      assume a: "pages (ld_pg s) (drop_bit 12 va) \<noteq> None"
      have "page AND 0xFFF = 0" using page_offset(2) [OF page_def, of 0] by simp
      then have "vphys s page = vframe s (drop_bit 12 va)" using a vphys_mapped [of s page] dp by simp
      then have "page_aligned 0xFFFFFFFF" using True page_aligned_and_mask by metis
      then show False by (simp add: page_aligned_def)
    qed
    then have qD: "drop_bit 12 va \<notin> D" using z by (auto simp: zero_pages_def)
    have inv: "pg_inv (ld_pg s)" using z by (simp add: zero_pages_def)
    obtain frame pm where al: "pmm_alloc_frame (pg_pmm (ld_pg s)) = (frame, pm)" by fastforce
    let ?pg1 = "(ld_pg s)\<lparr>pg_pmm := pm\<rparr>" and ?fl = "PAGE_PRESENT OR PAGE_WRITE OR PAGE_USER"
    obtain r pg2 where mp: "paging_map page frame ?fl ?pg1 = (r, pg2)" by fastforce
    have run: "frame \<noteq> 0 \<and> r = 0 \<and> vcopy 4096 page (\<lambda>_. 0) (set_pg pg2 s) = Some t"
      using e True unfolding ensure_page_def Let_def page_def [symmetric] al prod.case ld_pg_simps mp
      by (auto split: if_splits)
    then have nz: "frame \<noteq> 0" and mp0: "paging_map page frame ?fl ?pg1 = (0, pg2)"
      and cp: "vcopy 4096 page (\<lambda>_. 0) (set_pg pg2 s) = Some t" using mp by auto
    note a = alloc_frame_pg [OF inv al nz]
    note m = paging_map_ok [OF a(1) mp0] and fr = paging_map_frames [OF a(1) mp0]
    have fa: "page_aligned frame" using a(6) managed_aligned by blast
    have pe: "page_entry frame ?fl AND ADDR_MASK = frame"
      using page_entry_frame fa by (simp add: and_ADDR_MASK [unfolded ADDR_MASK_def] page_aligned_take_bit)
    have pgs: "pages pg2 q = (if q = drop_bit 12 va then Some (page_entry frame ?fl) else pages (ld_pg s) q)" if "unat q < 2 ^ 20" for q
      using m(2) [OF that] by (simp add: dp)
    have ph: "vphys (set_pg pg2 s) (page + word_of_nat i) = frame OR word_of_nat i" if "i < 4096" for i
      using vphys_mapped [of "set_pg pg2 s" "page + word_of_nat i"] page_offset [OF page_def that] pgs [OF q20] pe by simp
    obtain u where t: "t = (set_pg pg2 s)\<lparr>ubytes := u\<rparr>"
      and same: "\<And>x. (\<And>i. i < 4096 \<Longrightarrow> x \<noteq> frame OR word_of_nat i) \<Longrightarrow> u x = ubytes s x"
      and zero: "\<And>i. i < 4096 \<Longrightarrow> u (frame OR word_of_nat i) = 0"
    proof -
      have w: "unat (word_of_nat i :: u32) = i" if "i < 4096" for i using that by (intro unat_of_nat_less) simp
      have low: "(word_of_nat i :: u32) = word_of_nat i AND 0xFFF" if "i < 4096" for i
        using that w [OF that] unat_and_mask [of "word_of_nat i :: u32" 12] by (simp add: word_unat_eq_iff mask_eq_exp_minus_1)
      have "inj_on (\<lambda>i. vphys (set_pg pg2 s) (page + word_of_nat i)) {..<4096}"
      proof (rule inj_onI)
        fix i j :: nat assume ij: "i \<in> {..<4096}" "j \<in> {..<4096}"
          and "vphys (set_pg pg2 s) (page + word_of_nat i) = vphys (set_pg pg2 s) (page + word_of_nat j)"
        then have "frame OR (word_of_nat i AND 0xFFF) = frame OR (word_of_nat j AND 0xFFF)" using ph low by auto
        from frame_or_eq(2) [OF fa fa this] have "(word_of_nat i :: u32) = word_of_nat j" using low ij by auto
        then show "i = j" using w ij by (metis lessThan_iff)
      qed
      then show thesis using vcopy_result [OF cp] that ph by (metis ld_pg_simps(2))
    qed
    have av: "avail_frames (pg_pmm pg2) \<subseteq> ld_avail s - {frame}" using fr a(3) by (auto split: if_splits)
    have fne: "vframe s q \<noteq> frame" if "q \<in> D" for q using that z a(2) by (auto simp: zero_pages_def)
    have old: "pages pg2 q = pages (ld_pg s) q" if "q \<in> D" for q
    proof -
      have "unat q < 2 ^ 20" using that z by (simp add: zero_pages_def)
      then show ?thesis using pgs qD that by auto
    qed
    have mg: "managed_frames (pg_pmm pg2) = managed_frames pm" "managed_frames pm = ld_managed s" using fr a(4) by simp_all
    have vf: "vframe t (drop_bit 12 va) = frame" "\<And>q. q \<in> D \<Longrightarrow> vframe t q = vframe s q" "pages (ld_pg t) = pages pg2"
      unfolding t using pgs [OF q20] pe old by simp_all
    have inj: "inj_on (vframe t) (insert (drop_bit 12 va) D)"
    proof -
      have "inj_on (vframe s) D" using z by (simp add: zero_pages_def)
      then have "inj_on (vframe t) D" using vf(2) by (simp add: inj_on_def)
      moreover have "vframe t (drop_bit 12 va) \<notin> vframe t ` (D - {drop_bit 12 va})" using vf(1,2) by (auto dest: fne)
      ultimately show ?thesis by simp
    qed
    have bytes: "u (vframe s q OR word_of_nat i) = 0" if "q \<in> D" "i < 4096" for q i
    proof -
      have low: "(word_of_nat j :: u32) = word_of_nat j AND 0xFFF" if "j < 4096" for j :: nat
        using page_offset(2) [of 0 0, OF _ that] by simp
      have "vframe s q OR word_of_nat i \<noteq> frame OR word_of_nat j" if "j < 4096" for j
      proof
        assume "vframe s q OR word_of_nat i = frame OR word_of_nat j"
        then have "vframe s q OR (word_of_nat i AND 0xFFF) = frame OR (word_of_nat j AND 0xFFF)"
          using low \<open>i < 4096\<close> \<open>j < 4096\<close> by metis
        from frame_or_eq(1) [OF page_aligned_and_mask fa this] show False using fne \<open>q \<in> D\<close> by simp
      qed
      then have "u (vframe s q OR word_of_nat i) = ubytes s (vframe s q OR word_of_nat i)" by (intro same)
      then show ?thesis using z that by (simp add: zero_pages_def)
    qed
    show ?thesis unfolding zero_pages_def vf(3)
    proof (intro conjI ballI allI impI)
      show "pg_inv (ld_pg t)" unfolding t using m(1) by simp
      show "ld_managed t = ld_managed s0" unfolding t using mg z a(4) by (simp add: zero_pages_def)
      show "inj_on (\<lambda>q. the (pages pg2 q) AND ADDR_MASK) (insert (drop_bit 12 va) D)" using inj unfolding vf(3) .
    next
      fix q assume q: "q \<in> insert (drop_bit 12 va) D"
      then show "unat q < 2 ^ 20" using q20 z by (auto simp: zero_pages_def)
      show "pages pg2 q \<noteq> None" using q pgs [OF q20] old z by (auto simp: zero_pages_def)
      show "the (pages pg2 q) AND ADDR_MASK \<in> ld_managed t - ld_avail t"
        using q av vf(1,2) z mg a(6) unfolding vf(3) t by (auto simp: zero_pages_def)
      show "ubytes t (the (pages pg2 q) AND ADDR_MASK OR word_of_nat i) = 0" if "i < 4096" for i
        using q that vf(1,2) zero bytes unfolding vf(3) unfolding t by auto
    next
      fix q assume "unat q < 2 ^ 20 \<and> q \<notin> insert (drop_bit 12 va) D"
      then show "pages pg2 q = pages (ld_pg s0) q" using pgs z by (auto simp: zero_pages_def)
    qed
  qed
qed


lemma vcopy_returns:
  "(\<And>i. i < n \<Longrightarrow> vphys s (va + word_of_nat i) \<noteq> 0xFFFFFFFF) \<Longrightarrow> \<exists>t. vcopy n va f s = Some t"
proof (induction n)
  case (Suc n)
  then obtain t where t: "vcopy n va f s = Some t" by (metis less_SucI)
  then have "ld_pg t = ld_pg s" using vcopy_result by fastforce
  then show ?case using t Suc.prems [of n] by (simp add: vstore_def Let_def)
qed simp

lemma frame_top:
  assumes "page_aligned f" and "f \<noteq> 0xFFFFF000" shows "f OR (v AND 0xFFF) \<noteq> 0xFFFFFFFF"
proof
  assume "f OR (v AND 0xFFF) = 0xFFFFFFFF"
  then have "f OR (v AND 0xFFF) = 0xFFFFF000 OR (0xFFF AND 0xFFF)" by simp
  from frame_or_eq(1) [OF assms(1) _ this] show False using assms(2) by (simp add: page_aligned_def)
qed

lemma ensure_page_returns:
  assumes inv: "pg_inv (ld_pg s)" and top: "0xFFFFF000 \<notin> ld_managed s"
  shows "\<exists>r t. ensure_page va s = Some (r, t) \<and> (r = 0 \<or> r = -1)"
proof -
  define page where "page = va AND NOT (4096 - 1)"
  obtain frame pm where al: "pmm_alloc_frame (pg_pmm (ld_pg s)) = (frame, pm)" by fastforce
  let ?pg1 = "(ld_pg s)\<lparr>pg_pmm := pm\<rparr>" and ?fl = "PAGE_PRESENT OR PAGE_WRITE OR PAGE_USER"
  obtain r pg2 where mp: "paging_map page frame ?fl ?pg1 = (r, pg2)" by fastforce
  have "\<exists>t. vcopy 4096 page (\<lambda>_. 0) (set_pg pg2 s) = Some t" if nz: "frame \<noteq> 0" and r: "r = 0"
  proof (rule vcopy_returns)
    fix i :: nat assume i: "i < 4096"
    note a = alloc_frame_pg [OF inv al nz] and mp0 = mp [unfolded r]
    have fa: "page_aligned frame" using a(6) managed_aligned by blast
    have pe: "page_entry frame ?fl AND ADDR_MASK = frame"
      using page_entry_frame fa by (simp add: and_ADDR_MASK [unfolded ADDR_MASK_def] page_aligned_take_bit)
    have "pages pg2 (drop_bit 12 va) = Some (page_entry frame ?fl)"
      using paging_map_ok(2) [OF a(1) mp0 pg.vpn_bound [of va]] page_of [of va] by (simp add: page_def)
    then have "vphys (set_pg pg2 s) (page + word_of_nat i) = frame OR ((page + word_of_nat i) AND 0xFFF)"
      using vphys_mapped [of "set_pg pg2 s" "page + word_of_nat i"] page_offset [OF page_def i] pe by simp
    then show "vphys (set_pg pg2 s) (page + word_of_nat i) \<noteq> 0xFFFFFFFF" using frame_top [OF fa] a(4,6) top by auto
  qed
  then show ?thesis
    unfolding ensure_page_def Let_def page_def [symmetric] al prod.case ld_pg_simps mp by auto
qed


text \<open>
  The loop over a range of addresses that does not wrap returns, and when it succeeds the pages of every
  4096th address of the range have been added, and no others.
\<close>

definition range_fresh :: "u32 \<Rightarrow> u32 \<Rightarrow> loader \<Rightarrow> bool" where
  "range_fresh a stop s \<longleftrightarrow> (\<forall>v. a \<le> v \<and> v < stop \<longrightarrow> pages (ld_pg s) (drop_bit 12 v) = None)"

lemma map_segment_zero:
  assumes "zero_pages D s0 s" and "range_fresh a stop s0" and "unat stop + 4096 \<le> 2 ^ 32" and "0xFFFFF000 \<notin> ld_managed s0"
  shows "\<exists>r t. map_segment a stop s = Some (r, t) \<and> (r = 0 \<or> r = -1) \<and>
    (r = 0 \<longrightarrow> (\<exists>E. zero_pages E s0 t \<and> D \<subseteq> E \<and> E \<subseteq> D \<union> {drop_bit 12 v |v. a \<le> v \<and> v < stop} \<and>
       (\<forall>k. unat a + 4096 * k < unat stop \<longrightarrow> drop_bit 12 (a + word_of_nat (4096 * k)) \<in> E)))"
  using assms(1,2)
proof (induction "unat stop - unat a" arbitrary: D a s rule: less_induct)
  case less
  show ?case
  proof (cases "a < stop")
    case False
    then show ?thesis
      by (subst map_segment.simps) (use less.prems in \<open>auto simp: word_less_nat_alt intro!: exI [of _ D]\<close>)
  next
    case True
    have inv: "pg_inv (ld_pg s)" "0xFFFFF000 \<notin> ld_managed s" using less.prems(1) assms(4) by (auto simp: zero_pages_def)
    obtain r s1 where e: "ensure_page a s = Some (r, s1)" "r = 0 \<or> r = -1" using ensure_page_returns [OF inv] by blast
    show ?thesis
    proof (cases "r = 0")
      case False
      then show ?thesis by (subst map_segment.simps) (use True e in simp)
    next
      case r: True
      have n: "unat (a + 4096) = unat a + 4096"
        using True assms(3) by (simp add: word_less_nat_alt unat_plus_if')
      have z1: "zero_pages (insert (drop_bit 12 a) D) s0 s1"
        using ensure_page_zero [OF less.prems(1) e(1) [unfolded r]] less.prems(2) True by (simp add: range_fresh_def)
      have f1: "range_fresh (a + 4096) stop s0"
        using less.prems(2) n by (auto simp: range_fresh_def word_le_nat_alt)
      have m1: "unat stop - unat (a + 4096) < unat stop - unat a" using True n by (simp add: word_less_nat_alt)
      obtain r2 t where t: "map_segment (a + 4096) stop s1 = Some (r2, t)" "r2 = 0 \<or> r2 = -1"
        and E: "r2 = 0 \<longrightarrow> (\<exists>E. zero_pages E s0 t \<and> insert (drop_bit 12 a) D \<subseteq> E \<and>
          E \<subseteq> insert (drop_bit 12 a) D \<union> {drop_bit 12 v |v. a + 4096 \<le> v \<and> v < stop} \<and>
          (\<forall>k. unat (a + 4096) + 4096 * k < unat stop \<longrightarrow> drop_bit 12 (a + 4096 + word_of_nat (4096 * k)) \<in> E))"
        using less.hyps [OF m1 z1 f1] by blast
      have run: "map_segment a stop s = Some (r2, t)"
        by (subst map_segment.simps) (use True e(1) r t(1) in simp)
      show ?thesis
      proof (intro exI [of _ r2] exI [of _ t] conjI impI run t(2))
        assume "r2 = 0"
        then obtain E where E: "zero_pages E s0 t" "insert (drop_bit 12 a) D \<subseteq> E"
          "E \<subseteq> insert (drop_bit 12 a) D \<union> {drop_bit 12 v |v. a + 4096 \<le> v \<and> v < stop}"
          "\<And>k. unat (a + 4096) + 4096 * k < unat stop \<Longrightarrow> drop_bit 12 (a + 4096 + word_of_nat (4096 * k)) \<in> E"
          using E by blast
        have "drop_bit 12 (a + word_of_nat (4096 * k)) \<in> E" if "unat a + 4096 * k < unat stop" for k
        proof (cases k)
          case (Suc j)
          then have "a + word_of_nat (4096 * k) = a + 4096 + word_of_nat (4096 * j)" by (simp add: algebra_simps)
          then show ?thesis using E(4) [of j] that Suc n by (simp add: add.assoc)
        qed (use E(2) in simp)
        moreover have "E \<subseteq> D \<union> {drop_bit 12 v |v. a \<le> v \<and> v < stop}"
        proof
          fix q assume "q \<in> E"
          then consider "q = drop_bit 12 a" | "q \<in> D" | v where "q = drop_bit 12 v" "a + 4096 \<le> v" "v < stop" using E(3) by blast
          then show "q \<in> D \<union> {drop_bit 12 v |v. a \<le> v \<and> v < stop}"
          proof cases
            case 3
            then have "a \<le> v" using n by (simp add: word_le_nat_alt)
            then show ?thesis using 3 by blast
          qed (use True in auto)
        qed
        ultimately show "\<exists>E. zero_pages E s0 t \<and> D \<subseteq> E \<and> E \<subseteq> D \<union> {drop_bit 12 v |v. a \<le> v \<and> v < stop} \<and>
          (\<forall>k. unat a + 4096 * k < unat stop \<longrightarrow> drop_bit 12 (a + word_of_nat (4096 * k)) \<in> E)"
          using E(1,2) by blast
      qed
    qed
  qed
qed

text \<open>A step of at most a page reaches no page but the two at its ends.\<close>

lemma page_between: "x \<le> y \<Longrightarrow> y \<le> z \<Longrightarrow> z \<le> x + 4096 \<Longrightarrow> y div 4096 = x div 4096 \<or> y div 4096 = z div 4096" for x y z :: nat
  by linarith

lemma page_eq_iff: "drop_bit 12 v = drop_bit 12 w \<longleftrightarrow> unat v div 4096 = unat w div 4096" for v w :: u32
  by (simp add: word_unat_eq_iff drop_bit_eq_div unat_div)


lemma zero_pages_start: "pg_inv (ld_pg s) \<Longrightarrow> zero_pages {} s s"
  by (simp add: zero_pages_def)

lemma addr_eq: "drop_bit 12 v = drop_bit 12 w \<Longrightarrow> v AND 0xFFF = w AND 0xFFF \<Longrightarrow> v = w" for v w :: u32
proof -
  assume a: "drop_bit 12 v = drop_bit 12 w" "v AND 0xFFF = w AND 0xFFF"
  have m: "(0xFFF :: u32) = mask 12" by (simp add: mask_eq_exp_minus_1)
  have "push_bit 12 (drop_bit 12 v) + take_bit 12 v = push_bit 12 (drop_bit 12 w) + take_bit 12 w"
    using a by (simp add: m take_bit_eq_mask)
  then show "v = w" by (simp only: bits_ident)
qed

text \<open>The pages of a segment: mapped by the loop and by the call for its last byte.\<close>

lemma segment_pages:
  assumes z: "pg_inv (ld_pg s)" and fresh: "range_fresh vaddr (vaddr + memsz) s"
    and nowrap: "unat vaddr + unat memsz + 4096 \<le> 2 ^ 32" and top: "0xFFFFF000 \<notin> ld_managed s"
  shows "\<exists>r t. Option.bind (map_segment vaddr (vaddr + memsz) s) (\<lambda>(r, s). if r \<noteq> 0 then Some (-1, s)
      else if memsz > 0 then ensure_page (vaddr + memsz - 1) s else Some (0, s)) = Some (r, t) \<and> (r = 0 \<or> r = -1) \<and>
    (r = 0 \<longrightarrow> zero_pages {drop_bit 12 (vaddr + word_of_nat i) |i. i < unat memsz} s t)"
proof -
  have stop: "unat (vaddr + memsz) = unat vaddr + unat memsz" using nowrap by (simp add: unat_plus_if')
  have at: "unat (vaddr + word_of_nat i) = unat vaddr + i" if "i < unat memsz" for i
  proof -
    have "unat (word_of_nat i :: u32) = i" using that nowrap by (intro unat_of_nat_less) simp
    then show ?thesis using that nowrap by (simp add: unat_plus_if')
  qed
  let ?P = "{drop_bit 12 (vaddr + word_of_nat i) |i. i < unat memsz}"
  obtain r t where m: "map_segment vaddr (vaddr + memsz) s = Some (r, t)" "r = 0 \<or> r = -1"
    and E: "r = 0 \<longrightarrow> (\<exists>E. zero_pages E s t \<and> {} \<subseteq> E \<and> E \<subseteq> {} \<union> {drop_bit 12 v |v. vaddr \<le> v \<and> v < vaddr + memsz} \<and>
       (\<forall>k. unat vaddr + 4096 * k < unat (vaddr + memsz) \<longrightarrow> drop_bit 12 (vaddr + word_of_nat (4096 * k)) \<in> E))"
    using map_segment_zero [OF zero_pages_start [OF z] fresh] top nowrap stop by auto
  show ?thesis
  proof (cases "r = 0 \<and> memsz > 0")
    case False
    show ?thesis
    proof (cases "r = 0")
      case True
      then have "memsz = 0" using False by (simp add: word_gt_0)
      moreover from this have "t = s" using m(1) by (simp add: map_segment.simps)
      ultimately show ?thesis using m True zero_pages_start [OF z] by (intro exI [of _ 0] exI [of _ s]) simp
    qed (use m in simp)
  next
    case True
    then obtain E where E: "zero_pages E s t" "E \<subseteq> {drop_bit 12 v |v. vaddr \<le> v \<and> v < vaddr + memsz}"
      "\<And>k. unat vaddr + 4096 * k < unat vaddr + unat memsz \<Longrightarrow> drop_bit 12 (vaddr + word_of_nat (4096 * k)) \<in> E"
      using E stop by auto
    have pos: "0 < unat memsz" using True by (simp add: word_gt_0 unat_gt_0)
    define l where "l = vaddr + memsz - 1"
    have l: "unat l = unat vaddr + unat memsz - 1" "vaddr \<le> l" "l < vaddr + memsz"
    proof -
      have "1 \<le> vaddr + memsz" using pos stop by (simp add: word_le_nat_alt)
      then show "unat l = unat vaddr + unat memsz - 1" unfolding l_def using stop by (simp add: unat_sub)
      then show "vaddr \<le> l" "l < vaddr + memsz" using pos stop by (simp_all add: word_le_nat_alt word_less_nat_alt)
    qed
    have top1: "0xFFFFF000 \<notin> ld_managed t" using E(1) top by (simp add: zero_pages_def)
    have inv1: "pg_inv (ld_pg t)" using E(1) by (simp add: zero_pages_def)
    obtain r2 t2 where e: "ensure_page l t = Some (r2, t2)" "r2 = 0 \<or> r2 = -1" using ensure_page_returns [OF inv1 top1] by blast
    have "insert (drop_bit 12 l) E = ?P"
    proof
      have "\<exists>i < unat memsz. v = vaddr + word_of_nat i" if "vaddr \<le> v" "v < vaddr + memsz" for v
      proof -
        have "unat v - unat vaddr < unat memsz" "unat vaddr \<le> unat v" using that stop by (auto simp: word_le_nat_alt word_less_nat_alt)
        moreover from this have "v = vaddr + word_of_nat (unat v - unat vaddr)" by (simp add: word_unat_eq_iff at del: of_nat_diff)
        ultimately show ?thesis by blast
      qed
      then show "insert (drop_bit 12 l) E \<subseteq> ?P" using E(2) l(2,3) by blast
    next
      show "?P \<subseteq> insert (drop_bit 12 l) E"
      proof
        fix q assume "q \<in> ?P"
        then obtain i where i: "i < unat memsz" "q = drop_bit 12 (vaddr + word_of_nat i)" by blast
        obtain k where k: "4096 * k \<le> i" "i < 4096 * (k + 1)"
          using div_times_less_eq_dividend [of i 4096] dividend_less_div_times [of 4096 i] by (metis mult.commute add.commute add_mult_distrib2 mult.right_neutral zero_less_numeral)
        have ek: "drop_bit 12 (vaddr + word_of_nat (4096 * k)) \<in> E" using E(3) [of k] k(1) i(1) by linarith
        show "q \<in> insert (drop_bit 12 l) E"
        proof (cases "4096 * (k + 1) < unat memsz")
          case True
          have "drop_bit 12 (vaddr + word_of_nat (4096 * (k + 1))) \<in> E" using E(3) [of "k + 1"] True by linarith
          moreover have "q = drop_bit 12 (vaddr + word_of_nat (4096 * k)) \<or> q = drop_bit 12 (vaddr + word_of_nat (4096 * (k + 1)))"
            unfolding i(2) page_eq_iff at [OF i(1)] at [OF le_less_trans [OF k(1) i(1)]] at [OF True]
            by (rule page_between) (use k in simp_all)
          ultimately show ?thesis using ek by auto
        next
          case False
          have "q = drop_bit 12 (vaddr + word_of_nat (4096 * k)) \<or> q = drop_bit 12 l"
            unfolding i(2) page_eq_iff at [OF i(1)] at [OF le_less_trans [OF k(1) i(1)]] l(1)
            by (rule page_between) (use k i(1) False in simp_all)
          then show ?thesis using ek by auto
        qed
      qed
    qed
    then have "r2 = 0 \<longrightarrow> zero_pages ?P s t2"
      using ensure_page_zero [OF E(1), of l t2] e(1) fresh l(2,3) by (auto simp: range_fresh_def)
    then show ?thesis using m(1) True e unfolding l_def by simp
  qed
qed


lemma load_segment_split:
  "load_segment img vaddr off filesz memsz s =
     Option.bind (Option.bind (map_segment vaddr (vaddr + memsz) s) (\<lambda>(r, s). if r \<noteq> 0 then Some (-1, s)
       else if memsz > 0 then ensure_page (vaddr + memsz - 1) s else Some (0, s)))
     (\<lambda>(r, s). if r \<noteq> 0 then Some (-1, s) else map_option (Pair 0) (vcopy (unat filesz) vaddr (\<lambda>i. img (off + word_of_nat i)) s))"
  unfolding load_segment_def by (auto intro!: Option.bind_cong)

section \<open>Properties\<close>



definition demo_loader :: "fatfs \<Rightarrow> loader" where
  "demo_loader fs = \<lparr>ld_sched = boot_sched boot_heap, ld_fs = fs, ubytes = (\<lambda>_. 0xCC), messages = [], user_entry = None\<rparr>"


end
