(* ===== verification/Editor.thy ===== *)
theory Editor
  imports Console FatFile
begin

text \<open>
  The text editor of \<open>shell/editor.c\<close>: a flat buffer of 64 KiB with an insertion point, drawn into the VGA
  text memory, over the models of the console and of the file system. The keyboard is the list of the
  characters that \<open>keyboard_getchar\<close> will return; the editor's result is \<open>None\<close> when it waits for a key that
  does not come, or when the file system does not return. Messages of the file system are events of its
  own state.
\<close>

section \<open>State\<close>

definition EDIT_MAX :: nat where "EDIT_MAX = 64 * 1024"
definition TEXT_TOP :: nat where "TEXT_TOP = 1"
definition TEXT_ROWS :: nat where "TEXT_ROWS = VGA_ROWS - 2"
definition ATTR_TEXT :: u8 where "ATTR_TEXT = 0x07"
definition ATTR_TITLE :: u8 where "ATTR_TITLE = 0x1F"
definition ATTR_STATUS :: u8 where "ATTR_STATUS = 0x70"

definition KEY_UP :: u8 where "KEY_UP = 0x11"
definition KEY_DOWN :: u8 where "KEY_DOWN = 0x12"
definition KEY_LEFT :: u8 where "KEY_LEFT = 0x13"
definition KEY_RIGHT :: u8 where "KEY_RIGHT = 0x14"
definition KEY_HOME :: u8 where "KEY_HOME = 0x15"
definition KEY_END :: u8 where "KEY_END = 0x16"
definition KEY_PGUP :: u8 where "KEY_PGUP = 0x17"
definition KEY_PGDN :: u8 where "KEY_PGDN = 0x18"
definition KEY_DEL :: u8 where "KEY_DEL = 0x19"

record editor =
  ed_con :: console
  ed_fs :: fatfs
  ebuf :: "u8 list"
  elen :: nat
  cursor :: nat
  top_line :: nat
  goal_col :: nat
  modified :: bool
  fname :: string

section \<open>The screen\<close>

definition ed_put_cell :: "nat \<Rightarrow> nat \<Rightarrow> u8 \<Rightarrow> u8 \<Rightarrow> editor \<Rightarrow> editor" where
  "ed_put_cell row col ch attr s =
     s\<lparr>ed_con := (ed_con s)\<lparr>vga := (vga (ed_con s))[row * VGA_COLS + col := ucast ch OR push_bit 8 (ucast attr)]\<rparr>\<rparr>"

fun put_str :: "nat \<Rightarrow> nat \<Rightarrow> string \<Rightarrow> u8 \<Rightarrow> editor \<Rightarrow> editor" where
  "put_str row col [] attr s = s"
| "put_str row col (c # cs) attr s =
     (if col < VGA_COLS then put_str row (Suc col) cs attr (ed_put_cell row col (of_char c) attr s) else s)"

definition ed_fill_row :: "nat \<Rightarrow> u8 \<Rightarrow> u8 \<Rightarrow> editor \<Rightarrow> editor" where
  "ed_fill_row row ch attr s = fold (\<lambda>c. ed_put_cell row c ch attr) [0..<VGA_COLS] s"

definition set_hw_cursor :: "nat \<Rightarrow> nat \<Rightarrow> editor \<Rightarrow> editor" where
  "set_hw_cursor row col s =
     (let pos = word_of_nat (row * VGA_COLS + col) :: u16
      in s\<lparr>ed_con := outb 0x3D5 (ucast (drop_bit 8 pos)) (outb 0x3D4 0x0E (outb 0x3D5 (ucast pos) (outb 0x3D4 0x0F (ed_con s))))\<rparr>)"

section \<open>Geometry of the buffer\<close>

definition NL :: u8 where "NL = 10"

fun count_nl :: "nat \<Rightarrow> u8 list \<Rightarrow> nat" where
  "count_nl 0 b = 0"
| "count_nl (Suc i) b = (if b ! i = NL then Suc (count_nl i b) else count_nl i b)"

definition total_lines :: "editor \<Rightarrow> nat" where
  "total_lines s = 1 + count_nl (elen s) (ebuf s)"

text \<open>The loops run over positions \<open>i\<close> up to the length; \<open>n\<close> is the number of positions left.\<close>

fun start_loop :: "nat \<Rightarrow> nat \<Rightarrow> nat \<Rightarrow> nat \<Rightarrow> u8 list \<Rightarrow> nat" where
  "start_loop 0 i l line b = i"
| "start_loop (Suc n) i l line b =
     (if b ! i = NL then if Suc l = line then i + 1 else start_loop n (i + 1) (Suc l) line b
      else start_loop n (i + 1) l line b)"

definition line_start :: "int \<Rightarrow> editor \<Rightarrow> nat" where
  "line_start line s = (if line \<le> 0 then 0 else start_loop (elen s) 0 0 (nat line) (ebuf s))"

fun end_loop :: "nat \<Rightarrow> nat \<Rightarrow> u8 list \<Rightarrow> nat" where
  "end_loop 0 e b = e"
| "end_loop (Suc n) e b = (if b ! e \<noteq> NL then end_loop n (e + 1) b else e)"

definition line_len :: "int \<Rightarrow> editor \<Rightarrow> nat" where
  "line_len line s = (let st = line_start line s in end_loop (elen s - st) st (ebuf s) - st)"

fun rc_loop :: "nat \<Rightarrow> u8 list \<Rightarrow> nat \<times> nat" where
  "rc_loop 0 b = (0, 0)"
| "rc_loop (Suc i) b = (let (l, ls) = rc_loop i b in if b ! i = NL then (l + 1, i + 1) else (l, ls))"

definition cursor_rc :: "editor \<Rightarrow> nat \<times> nat" where
  "cursor_rc s = (let (l, ls) = rc_loop (cursor s) (ebuf s) in (l, cursor s - ls))"

section \<open>Rendering\<close>

definition draw_status :: "string \<Rightarrow> editor \<Rightarrow> editor" where
  "draw_status msg s = put_str (VGA_ROWS - 1) 1 msg ATTR_STATUS (ed_fill_row (VGA_ROWS - 1) 0x20 ATTR_STATUS s)"

text \<open>The visible part of a line: at most \<open>n\<close> more columns.\<close>

fun draw_line :: "nat \<Rightarrow> nat \<Rightarrow> nat \<Rightarrow> nat \<Rightarrow> editor \<Rightarrow> nat \<times> nat \<times> editor" where
  "draw_line 0 row col idx s = (col, idx, s)"
| "draw_line (Suc n) row col idx s =
     (if idx < elen s \<and> ebuf s ! idx \<noteq> NL
      then draw_line n row (Suc col) (Suc idx) (ed_put_cell row col (ebuf s ! idx) ATTR_TEXT s)
      else (col, idx, s))"

fun draw_rows :: "nat \<Rightarrow> nat \<Rightarrow> nat \<Rightarrow> editor \<Rightarrow> editor" where
  "draw_rows 0 r idx s = s"
| "draw_rows (Suc n) r idx s =
     (let (col, idx, s) = draw_line VGA_COLS (TEXT_TOP + r) 0 idx s;
          s = fold (\<lambda>c. ed_put_cell (TEXT_TOP + r) c 0x20 ATTR_TEXT) [col..<VGA_COLS] s;
          idx = end_loop (elen s - idx) idx (ebuf s);
          idx = (if idx < elen s \<and> ebuf s ! idx = NL then idx + 1 else idx)
      in draw_rows n (Suc r) idx s)"

text \<open>The digits of a number: the \<open>do\<close> loop writes at least one.\<close>

definition dec_digits :: "nat \<Rightarrow> string" where
  "dec_digits n = (let d = dec_buf (word_of_nat n) in if d = [] then ''0'' else rev d)"

definition scroll_to :: "nat \<Rightarrow> editor \<Rightarrow> editor" where
  "scroll_to cl s =
     (let s = (if cl < top_line s then s\<lparr>top_line := cl\<rparr> else s)
      in if cl \<ge> top_line s + TEXT_ROWS then s\<lparr>top_line := cl - TEXT_ROWS + 1\<rparr> else s)"

definition draw_title :: "editor \<Rightarrow> editor" where
  "draw_title s =
     (let s = ed_fill_row 0 0x20 ATTR_TITLE s;
          s = put_str 0 1 ''PumpkinOS edit  -  '' ATTR_TITLE s;
          s = put_str 0 20 (fname s) ATTR_TITLE s
      in if modified s then put_str 0 (20 + length (fname s) + 1) ''[modified]'' ATTR_TITLE s else s)"

definition draw_text :: "editor \<Rightarrow> editor" where
  "draw_text s = draw_rows TEXT_ROWS 0 (line_start (int (top_line s)) s) s"

definition draw_position :: "nat \<Rightarrow> nat \<Rightarrow> editor \<Rightarrow> editor" where
  "draw_position cl cc s =
     put_str (VGA_ROWS - 1) 56 (''  Ln '' @ dec_digits (cl + 1) @ '', '' @ dec_digits (cc + 1)) ATTR_STATUS
       (draw_status ''Arrows move   Enter/Bksp/Del edit   Esc = save & quit'' s)"

definition render :: "editor \<Rightarrow> editor" where
  "render s =
     (let (cl, cc) = cursor_rc s;
          s = draw_position cl cc (draw_text (draw_title (scroll_to cl s)))
      in set_hw_cursor (TEXT_TOP + (cl - top_line s)) (if cc < VGA_COLS then cc else VGA_COLS - 1) s)"

section \<open>Editing\<close>

fun shift_up :: "nat \<Rightarrow> nat \<Rightarrow> u8 list \<Rightarrow> u8 list" where
  "shift_up 0 c b = b"
| "shift_up (Suc i) c b = (if Suc i > c then shift_up i c (b[Suc i := b ! i]) else b)"

definition shift_down :: "nat \<Rightarrow> nat \<Rightarrow> u8 list \<Rightarrow> u8 list" where
  "shift_down i stop b = fold (\<lambda>i b. b[i := b ! (i + 1)]) [i..<stop] b"

definition insert_ch :: "u8 \<Rightarrow> editor \<Rightarrow> editor" where
  "insert_ch c s =
     (if elen s \<ge> EDIT_MAX - 1 then s
      else s\<lparr>ebuf := (shift_up (elen s) (cursor s) (ebuf s))[cursor s := c], cursor := cursor s + 1, elen := elen s + 1, modified := True\<rparr>)"

definition backspace :: "editor \<Rightarrow> editor" where
  "backspace s =
     (if cursor s = 0 then s
      else s\<lparr>ebuf := shift_down (cursor s - 1) (elen s - 1) (ebuf s), cursor := cursor s - 1, elen := elen s - 1, modified := True\<rparr>)"

definition delete_ch :: "editor \<Rightarrow> editor" where
  "delete_ch s =
     (if cursor s \<ge> elen s then s
      else s\<lparr>ebuf := shift_down (cursor s) (elen s - 1) (ebuf s), elen := elen s - 1, modified := True\<rparr>)"

definition goto_line :: "int \<Rightarrow> editor \<Rightarrow> editor" where
  "goto_line line s =
     (let nlines = int (total_lines s);
          line = (if line < 0 then 0 else line);
          line = (if line > nlines - 1 then nlines - 1 else line);
          ll = line_len line s;
          col = (if goal_col s < ll then goal_col s else ll)
      in s\<lparr>cursor := line_start line s + col\<rparr>)"

section \<open>The main loop\<close>

definition save :: "editor \<Rightarrow> editor option" where
  "save s = map_option (\<lambda>(r, fs). (s\<lparr>ed_fs := fs\<rparr>)\<lparr>modified := (if r = 0 then False else modified s)\<rparr>)
     (fs_create (fname s) (take (elen s) (ebuf s)) (ed_fs s))"

definition clear :: "editor \<Rightarrow> editor" where
  "clear s = s\<lparr>ed_con := console_clear (ed_con s)\<rparr>"

definition set_goal :: "editor \<Rightarrow> editor" where
  "set_goal s = s\<lparr>goal_col := snd (cursor_rc s)\<rparr>"

text \<open>Every key but Esc.\<close>

definition editor_key :: "u8 \<Rightarrow> editor \<Rightarrow> editor" where
  "editor_key c s =
     (let cl = int (fst (cursor_rc s))
      in if c = KEY_LEFT then set_goal (if cursor s > 0 then s\<lparr>cursor := cursor s - 1\<rparr> else s)
         else if c = KEY_RIGHT then set_goal (if cursor s < elen s then s\<lparr>cursor := cursor s + 1\<rparr> else s)
         else if c = KEY_UP then goto_line (cl - 1) s
         else if c = KEY_DOWN then goto_line (cl + 1) s
         else if c = KEY_HOME then s\<lparr>cursor := line_start cl s, goal_col := 0\<rparr>
         else if c = KEY_END then set_goal (s\<lparr>cursor := line_start cl s + line_len cl s\<rparr>)
         else if c = KEY_PGUP then goto_line (cl - int TEXT_ROWS) s
         else if c = KEY_PGDN then goto_line (cl + int TEXT_ROWS) s
         else if c = KEY_DEL then delete_ch s
         else if c = NL then set_goal (insert_ch NL s)
         else if c = 8 then set_goal (backspace s)
         else if c = 9 then set_goal ((insert_ch 0x20 ^^ 4) s)
         else if c \<ge> 0x20 \<and> c < 127 then set_goal (insert_ch c s)
         else s)"

fun editor_loop :: "u8 list \<Rightarrow> editor \<Rightarrow> (u8 list \<times> editor) option" where
  "editor_loop [] s = None"
| "editor_loop (c # keys) s =
     (let s = render s
      in if c = 27 then
           if \<not> modified s then Some (keys, clear s)
           else let s = draw_status ''Save changes?   Y = save & quit    N = discard    Esc = cancel'' s
                in case keys of
                     [] \<Rightarrow> None
                   | k # rest \<Rightarrow>
                       if k = of_char CHR ''y'' \<or> k = of_char CHR ''Y'' then map_option (\<lambda>s. (rest, clear s)) (save s)
                       else if k = of_char CHR ''n'' \<or> k = of_char CHR ''N'' then Some (rest, clear s)
                       else editor_loop rest s
         else editor_loop keys (editor_key c s))"

definition upper_name :: "string \<Rightarrow> string" where
  "upper_name name = map upper (take 12 name)"

text \<open>The result carries the keys that are left for the caller.\<close>

definition editor_run :: "string \<Rightarrow> u8 list \<Rightarrow> editor \<Rightarrow> (u8 list \<times> editor) option" where
  "editor_run name keys s =
     (let s = s\<lparr>fname := upper_name name\<rparr>
      in Option.bind (fs_read (fname s) (word_of_nat EDIT_MAX) (ed_fs s)) (\<lambda>(n, bytes, fs).
           editor_loop keys (s\<lparr>ed_fs := fs, ebuf := overwrite 0 bytes (ebuf s), elen := (if n > 0 then nat n else 0),
             cursor := 0, top_line := 0, goal_col := 0, modified := False\<rparr>)))"

section \<open>Lines of a text\<close>

fun split_nl :: "u8 list \<Rightarrow> u8 list list" where
  "split_nl [] = [[]]"
| "split_nl (c # cs) = (if c = NL then [] # split_nl cs else (c # hd (split_nl cs)) # tl (split_nl cs))"

definition line_off :: "nat \<Rightarrow> u8 list \<Rightarrow> nat" where
  "line_off k t = sum_list (map (\<lambda>l. Suc (length l)) (take k (split_nl t)))"

abbreviation line_no :: "nat \<Rightarrow> u8 list \<Rightarrow> nat" where "line_no p t \<equiv> length (filter (\<lambda>c. c = NL) (take p t))"
abbreviation col_no :: "nat \<Rightarrow> u8 list \<Rightarrow> nat" where "col_no p t \<equiv> length (takeWhile (\<lambda>c. c \<noteq> NL) (rev (take p t)))"
abbreviation rest_len :: "nat \<Rightarrow> u8 list \<Rightarrow> nat" where "rest_len p t \<equiv> length (takeWhile (\<lambda>c. c \<noteq> NL) (drop p t))"

lemma split_nl_not_Nil [simp]: "split_nl t \<noteq> []" by (cases t) auto

lemma length_split_nl: "length (split_nl t) = Suc (length (filter (\<lambda>c. c = NL) t))"
  by (induction t) auto

lemma hd_split_nl: "hd (split_nl t) = takeWhile (\<lambda>c. c \<noteq> NL) t"
  by (induction t) auto

lemma line_off_0 [simp]: "line_off 0 t = 0" by (simp add: line_off_def)

lemma line_off_Cons: "line_off (Suc k) (c # cs) = (if c = NL then Suc (line_off k cs) else Suc (line_off (Suc k) cs))"
  by (cases "split_nl cs") (simp_all add: line_off_def)

lemma col_no_newline: "NL \<notin> set (take q cs) \<Longrightarrow> q \<le> length cs \<Longrightarrow> col_no q cs = q \<and> line_no q cs = 0"
proof -
  assume a: "NL \<notin> set (take q cs)" "q \<le> length cs"
  then have "col_no q cs = length (rev (take q cs))" by (subst takeWhile_eq_all_conv [THEN iffD2]) auto
  moreover have "filter (\<lambda>c. c = NL) (take q cs) = []" using a by (auto simp: filter_empty_conv)
  ultimately show ?thesis using a by simp
qed

lemma col_Cons:
  assumes "q \<le> length cs"
  shows "col_no (Suc q) (c # cs) = (if NL \<in> set (take q cs) then col_no q cs else if c = NL then q else Suc q)"
proof (cases "NL \<in> set (take q cs)")
  case True
  then have "\<not> (\<forall>x \<in> set (rev (take q cs)). x \<noteq> NL)" by auto
  then show ?thesis using True unfolding take_Suc_Cons rev.simps takeWhile_append by (simp only: if_False if_True)
next
  case False
  then have "\<forall>x \<in> set (rev (take q cs)). x \<noteq> NL" by auto
  then show ?thesis using False assms col_no_newline [OF False assms] unfolding take_Suc_Cons rev.simps takeWhile_append by simp
qed

lemma line_no_pos: "NL \<in> set (take q cs) \<Longrightarrow> \<exists>k. line_no q cs = Suc k"
proof -
  assume "NL \<in> set (take q cs)"
  then have "filter (\<lambda>c. c = NL) (take q cs) \<noteq> []" by (auto simp: filter_empty_conv)
  then show ?thesis by (cases "filter (\<lambda>c. c = NL) (take q cs)") auto
qed

lemma split_Cons_nth: "c \<noteq> NL \<Longrightarrow> split_nl (c # cs) ! Suc k = split_nl cs ! Suc k"
  by (cases "split_nl cs") simp_all

text \<open>The line of a position starts at the position less its column and goes on to the next newline.\<close>

lemma position:
  "p \<le> length t \<Longrightarrow> line_off (line_no p t) t + col_no p t = p \<and> length (split_nl t ! line_no p t) = col_no p t + rest_len p t"
proof (induction t arbitrary: p)
  case (Cons c cs)
  show ?case
  proof (cases p)
    case 0
    then show ?thesis using hd_split_nl [of "c # cs"] hd_conv_nth [of "split_nl (c # cs)"] by simp
  next
    case (Suc q)
    have q: "q \<le> length cs" using Cons.prems Suc by simp
    note IH = Cons.IH [OF q] and col = col_Cons [OF q, of c]
    have ln: "line_no p (c # cs) = (if c = NL then Suc (line_no q cs) else line_no q cs)" "rest_len p (c # cs) = rest_len q cs"
      using Suc by simp_all
    consider (nl) "c = NL" "NL \<in> set (take q cs)" | (nn) k where "c \<noteq> NL" "NL \<in> set (take q cs)" "line_no q cs = Suc k"
      | (first) "c = NL" "NL \<notin> set (take q cs)" | (none) "c \<noteq> NL" "NL \<notin> set (take q cs)"
      using line_no_pos [of q cs] by blast
    then show ?thesis
    proof cases
      case nl
      then show ?thesis using IH col ln Suc by (simp only: if_True line_off_Cons) (simp add: line_off_Cons)
    next
      case nn
      then show ?thesis using IH col ln Suc split_Cons_nth by (simp only: if_True if_False line_off_Cons) (simp add: line_off_Cons)
    next
      case first
      then show ?thesis using IH col ln Suc col_no_newline [OF first(2) q] by (simp only: if_True if_False line_off_Cons) (simp add: line_off_Cons)
    next
      case none
      then show ?thesis using IH col ln Suc col_no_newline [OF none(2) q] by (simp only: if_True if_False) (simp add: hd_conv_nth)
    qed
  qed
qed simp

text \<open>The end of line \<open>k\<close> is in the text.\<close>

lemma line_end: "k < length (split_nl t) \<Longrightarrow> line_off k t + length (split_nl t ! k) \<le> length t"
proof (induction t arbitrary: k)
  case (Cons c cs)
  show ?case
  proof (cases k)
    case 0
    then show ?thesis using Cons.IH [of 0] by (auto simp: hd_conv_nth)
  next
    case (Suc j)
    then show ?thesis using Cons.IH [of j] Cons.IH [of k] Cons.prems by (cases "split_nl cs") (auto simp: line_off_Cons)
  qed
qed simp

section \<open>The loops compute the geometry\<close>

definition text_of :: "editor \<Rightarrow> u8 list" where "text_of s = take (elen s) (ebuf s)"

definition ed_ok :: "editor \<Rightarrow> bool" where
  "ed_ok s \<longleftrightarrow> length (ebuf s) = EDIT_MAX \<and> elen s \<le> EDIT_MAX \<and> cursor s \<le> elen s"

lemma text_facts:
  assumes "ed_ok s"
  shows "length (text_of s) = elen s" "i < elen s \<Longrightarrow> text_of s ! i = ebuf s ! i" "cursor s \<le> length (text_of s)"
  using assms by (simp_all add: ed_ok_def text_of_def)

lemma count_nl: "n \<le> length b \<Longrightarrow> count_nl n b = length (filter (\<lambda>c. c = NL) (take n b))"
  by (induction n) (simp_all add: take_Suc_conv_app_nth)

lemma total_lines: "ed_ok s \<Longrightarrow> total_lines s = length (split_nl (text_of s))"
  by (simp add: total_lines_def count_nl ed_ok_def length_split_nl text_of_def)

lemma rc_loop: "n \<le> length b \<Longrightarrow> rc_loop n b = (line_no n b, n - col_no n b)"
proof (induction n)
  case (Suc n)
  then show ?case
    by (simp add: take_Suc_conv_app_nth)
qed simp

lemma cursor_rc: "ed_ok s \<Longrightarrow> cursor_rc s = (line_no (cursor s) (text_of s), col_no (cursor s) (text_of s))"
proof -
  assume ok: "ed_ok s"
  have t: "take (cursor s) (text_of s) = take (cursor s) (ebuf s)" using ok by (simp add: text_of_def ed_ok_def min_def)
  have "col_no (cursor s) (ebuf s) \<le> cursor s"
    using length_takeWhile_le [of "\<lambda>c. c \<noteq> NL" "rev (take (cursor s) (ebuf s))"] by simp
  then show ?thesis using ok rc_loop [of "cursor s" "ebuf s"] unfolding t by (simp add: cursor_rc_def ed_ok_def)
qed

lemma start_loop:
  "i + length t \<le> length b \<Longrightarrow> t = take (length t) (drop i b) \<Longrightarrow> k < length (split_nl t) \<Longrightarrow>
   start_loop (length t) i l (l + k) b = (if k = 0 then start_loop (length t) i l l b else i + line_off k t)"
proof (induction t arbitrary: i l k)
  case (Cons c cs)
  have b: "b ! i = c" "cs = take (length cs) (drop (Suc i) b)"
  proof -
    have "drop i b = b ! i # drop (Suc i) b" using Cons.prems(1) by (simp add: Cons_nth_drop_Suc)
    then show "b ! i = c" "cs = take (length cs) (drop (Suc i) b)" using Cons.prems(2) by simp_all
  qed
  show ?case
  proof (cases k)
    case (Suc j)
    show ?thesis
    proof (cases "c = NL")
      case True
      then show ?thesis using Suc b(1) Cons.prems(1,3) Cons.IH [OF _ b(2), of j "Suc l"] by (auto simp: line_off_Cons)
    next
      case False
      then show ?thesis using Suc b(1) Cons.prems(1,3) Cons.IH [OF _ b(2), of k l] by (auto simp: line_off_Cons)
    qed
  qed simp
qed (simp add: length_split_nl)

lemma line_start:
  assumes "ed_ok s" and "k < total_lines s" shows "line_start (int k) s = line_off k (text_of s)"
  using start_loop [of 0 "text_of s" "ebuf s" k 0] assms text_facts(1) [OF assms(1)] total_lines [OF assms(1)]
  by (cases "k = 0") (auto simp: line_start_def ed_ok_def text_of_def)

lemma end_loop: "e + n \<le> length b \<Longrightarrow> end_loop n e b = e + length (takeWhile (\<lambda>c. c \<noteq> NL) (take n (drop e b)))"
proof (induction n arbitrary: e)
  case (Suc n)
  then have "drop e b = b ! e # drop (Suc e) b" by (simp add: Cons_nth_drop_Suc)
  then show ?case using Suc by simp
qed simp


text \<open>A line and a column in it determine the position, and the position the line and the column.\<close>

lemma place:
  assumes "k < length (split_nl t)" and "c \<le> length (split_nl t ! k)"
  shows "line_no (line_off k t + c) t = k \<and> col_no (line_off k t + c) t = c"
  using assms
proof (induction t arbitrary: k)
  case (Cons x cs)
  show ?case
  proof (cases k)
    case 0
    have "c \<le> length (takeWhile (\<lambda>c. c \<noteq> NL) (x # cs))"
      using Cons.prems(2) 0 hd_split_nl [of "x # cs"] hd_conv_nth [of "split_nl (x # cs)"] by simp
    moreover from this have "c \<le> length (x # cs)" using length_takeWhile_le order.trans by blast
    ultimately have "NL \<notin> set (take c (x # cs))"
      by (metis (mono_tags, lifting) append_take_drop_id in_set_takeD set_takeWhileD take_append takeWhile_eq_take take_all_iff take_take min.absorb1)
    then show ?thesis using 0 col_no_newline \<open>c \<le> length (x # cs)\<close> by simp
  next
    case (Suc j)
    show ?thesis
    proof (cases "x = NL")
      case True
      let ?q = "line_off j cs + c"
      have IH: "line_no ?q cs = j" "col_no ?q cs = c" using Cons True Suc by simp_all
      have q: "?q \<le> length cs" using line_end [of j cs] Cons.prems True Suc by simp
      have "line_off k (x # cs) + c = Suc ?q" using True Suc by (simp add: line_off_Cons)
      then show ?thesis using col_Cons [OF q, of x] col_no_newline [of ?q cs] q IH True Suc by (auto split: if_splits)
    next
      case False
      let ?q = "line_off k cs + c"
      have pr: "k < length (split_nl cs)" "c \<le> length (split_nl cs ! k)" using Cons.prems False Suc split_Cons_nth [OF False] by simp_all
      then have IH: "line_no ?q cs = k" "col_no ?q cs = c" using Cons.IH by simp_all
      have q: "?q \<le> length cs" using line_end [of k cs] pr by simp
      have "line_off k (x # cs) + c = Suc ?q" using False Suc by (simp add: line_off_Cons)
      moreover have "NL \<in> set (take ?q cs)" using IH(1) Suc col_no_newline [OF _ q] by auto
      ultimately show ?thesis using col_Cons [OF q, of x] IH False by simp
    qed
  qed
qed simp

lemma line_len:
  assumes "ed_ok s" and "k < total_lines s" shows "line_len (int k) s = length (split_nl (text_of s) ! k)"
proof -
  let ?t = "text_of s"
  have k: "k < length (split_nl ?t)" using assms total_lines by simp
  have e: "line_off k ?t + length (split_nl ?t ! k) \<le> length ?t" by (rule line_end [OF k])
  have p: "line_no (line_off k ?t) ?t = k" "col_no (line_off k ?t) ?t = 0" using place [OF k, of 0] by simp_all
  have "rest_len (line_off k ?t) ?t = length (split_nl ?t ! k)" using position [of "line_off k ?t" ?t] e p by simp
  moreover have "take (elen s - line_off k ?t) (drop (line_off k ?t) (ebuf s)) = drop (line_off k ?t) ?t"
    by (simp add: text_of_def drop_take)
  ultimately show ?thesis
    using line_start [OF assms] end_loop [of "line_off k ?t" "elen s - line_off k ?t" "ebuf s"] assms(1) e text_facts(1) [OF assms(1)]
    by (simp add: line_len_def Let_def ed_ok_def)
qed

section \<open>Edits\<close>

lemma length_shift_up [simp]: "length (shift_up n c b) = length b"
  by (induction n c b rule: shift_up.induct) simp_all

lemma nth_shift_up: "c \<le> n \<Longrightarrow> n < length b \<Longrightarrow> j < length b \<Longrightarrow> shift_up n c b ! j = (if c < j \<and> j \<le> n then b ! (j - 1) else b ! j)"
proof (induction n c b rule: shift_up.induct)
  case (2 i c b)
  then show ?case by (cases "Suc i > c") (auto simp: nth_list_update less_Suc_eq_le le_Suc_eq)
qed simp

lemma length_shift_down [simp]: "length (shift_down i stop b) = length b"
  by (simp add: shift_down_def)

lemma nth_shift_down: "stop < length b \<Longrightarrow> j < length b \<Longrightarrow> shift_down i stop b ! j = (if i \<le> j \<and> j < stop then b ! (j + 1) else b ! j)"
proof (induction stop arbitrary: j)
  case (Suc stop)
  then show ?case by (cases "i \<le> stop") (auto simp: shift_down_def nth_list_update less_Suc_eq)
qed (simp add: shift_down_def)

lemma text_insert:
  assumes "ed_ok s" and "elen s < EDIT_MAX - 1"
  shows "text_of (insert_ch c s) = take (cursor s) (text_of s) @ [c] @ drop (cursor s) (text_of s)" and "ed_ok (insert_ch c s)"
proof -
  have l: "length (ebuf s) = EDIT_MAX" "cursor s \<le> elen s" using assms by (simp_all add: ed_ok_def)
  show "text_of (insert_ch c s) = take (cursor s) (text_of s) @ [c] @ drop (cursor s) (text_of s)"
    by (rule nth_equalityI)
      (use assms(2) l in \<open>auto simp: insert_ch_def text_of_def nth_append nth_list_update nth_shift_up nth_Cons'\<close>)
  show "ed_ok (insert_ch c s)" using assms by (auto simp: ed_ok_def insert_ch_def)
qed

lemma text_remove:
  assumes "length b = EDIT_MAX" and "n \<le> EDIT_MAX" and "p < n"
  shows "take (n - 1) (shift_down p (n - 1) b) = take p (take n b) @ drop (Suc p) (take n b)"
  by (rule nth_equalityI) (use assms in \<open>auto simp: nth_append nth_shift_down\<close>)


section \<open>The editor as a text with a cursor\<close>

text \<open>
  What the keys are meant to do, on a text, a position and the column that vertical moves aim for. Lines are
  those of \<open>split_nl\<close>.
\<close>

type_synonym text_view = "u8 list \<times> nat \<times> nat"

definition spec_goal :: "text_view \<Rightarrow> text_view" where
  "spec_goal v = (case v of (t, p, g) \<Rightarrow> (t, p, col_no p t))"

definition spec_goto :: "int \<Rightarrow> text_view \<Rightarrow> text_view" where
  "spec_goto d v = (case v of (t, p, g) \<Rightarrow>
     let k = nat (max 0 (min (int (line_no p t) + d) (int (length (split_nl t)) - 1)))
     in (t, line_off k t + min g (length (split_nl t ! k)), g))"

definition spec_insert :: "u8 \<Rightarrow> text_view \<Rightarrow> text_view" where
  "spec_insert c v = (case v of (t, p, g) \<Rightarrow>
     if length t < EDIT_MAX - 1 then (take p t @ [c] @ drop p t, p + 1, g) else v)"

definition spec_remove :: "nat \<Rightarrow> text_view \<Rightarrow> text_view" where
  "spec_remove i v = (case v of (t, p, g) \<Rightarrow> (take i t @ drop (Suc i) t, i, g))"

definition spec_key :: "u8 \<Rightarrow> text_view \<Rightarrow> text_view" where
  "spec_key c v = (case v of (t, p, g) \<Rightarrow>
     if c = KEY_LEFT then spec_goal (t, p - 1, g)
     else if c = KEY_RIGHT then spec_goal (t, min (p + 1) (length t), g)
     else if c = KEY_UP then spec_goto (- 1) v
     else if c = KEY_DOWN then spec_goto 1 v
     else if c = KEY_HOME then (t, p - col_no p t, 0)
     else if c = KEY_END then spec_goal (t, p + rest_len p t, g)
     else if c = KEY_PGUP then spec_goto (- 23) v
     else if c = KEY_PGDN then spec_goto 23 v
     else if c = KEY_DEL then (if p < length t then spec_remove p v else v)
     else if c = NL then spec_goal (spec_insert NL v)
     else if c = 8 then spec_goal (if p > 0 then spec_remove (p - 1) v else v)
     else if c = 9 then spec_goal ((spec_insert 0x20 ^^ 4) v)
     else if c \<ge> 0x20 \<and> c < 127 then spec_goal (spec_insert c v)
     else v)"

definition view :: "editor \<Rightarrow> text_view" where "view s = (text_of s, cursor s, goal_col s)"

lemma ed_goal: "ed_ok s \<Longrightarrow> ed_ok (set_goal s) \<and> view (set_goal s) = spec_goal (view s)"
  using cursor_rc [of s] by (simp add: set_goal_def view_def spec_goal_def ed_ok_def text_of_def)

lemma ed_insert: "ed_ok s \<Longrightarrow> ed_ok (insert_ch c s) \<and> view (insert_ch c s) = spec_insert c (view s)"
proof -
  assume ok: "ed_ok s"
  show ?thesis
  proof (cases "elen s < EDIT_MAX - 1")
    case True
    then have "cursor (insert_ch c s) = cursor s + 1" "goal_col (insert_ch c s) = goal_col s" by (simp_all add: insert_ch_def)
    then show ?thesis using True text_insert [OF ok True] text_facts(1) [OF ok] by (simp add: view_def spec_insert_def)
  next
    case False
    then have "insert_ch c s = s" by (simp add: insert_ch_def)
    then show ?thesis using ok False text_facts(1) [OF ok] by (simp add: view_def spec_insert_def)
  qed
qed

lemma ed_inserts: "ed_ok s \<Longrightarrow> ed_ok ((insert_ch c ^^ n) s) \<and> view ((insert_ch c ^^ n) s) = (spec_insert c ^^ n) (view s)"
  by (induction n) (auto simp: ed_insert)

lemma ed_delete:
  "ed_ok s \<Longrightarrow> ed_ok (delete_ch s) \<and> view (delete_ch s) = (if cursor s < length (text_of s) then spec_remove (cursor s) (view s) else view s)"
  using text_remove [of "ebuf s" "elen s" "cursor s"] text_facts(1) [of s]
  by (cases "cursor s < elen s") (auto simp: delete_ch_def view_def spec_remove_def ed_ok_def text_of_def)

lemma ed_backspace:
  "ed_ok s \<Longrightarrow> ed_ok (backspace s) \<and> view (backspace s) = (if cursor s > 0 then spec_remove (cursor s - 1) (view s) else view s)"
  using text_remove [of "ebuf s" "elen s" "cursor s - 1"]
  by (cases "cursor s > 0") (auto simp: backspace_def view_def spec_remove_def ed_ok_def text_of_def)

lemma clamp_line:
  "0 < n \<Longrightarrow> (if (if l < 0 then 0 else l) > int n - 1 then int n - 1 else if l < 0 then 0 else l) = int (nat (max 0 (min l (int n - 1))))"
  by (simp add: max_def min_def)

lemma ed_goto:
  assumes ok: "ed_ok s"
  shows "ed_ok (goto_line (int (fst (cursor_rc s)) + d) s) \<and> view (goto_line (int (fst (cursor_rc s)) + d) s) = spec_goto d (view s)"
proof -
  let ?t = "text_of s"
  define l where "l = int (line_no (cursor s) ?t) + d"
  define k where "k = nat (max 0 (min l (int (length (split_nl ?t)) - 1)))"
  define p where "p = line_off k ?t + min (goal_col s) (length (split_nl ?t ! k))"
  have tl: "total_lines s = length (split_nl ?t)" by (rule total_lines [OF ok])
  have k: "k < total_lines s" unfolding tl k_def by (simp add: length_split_nl)
  have clamp: "(if (if l < 0 then 0 else l) > int (total_lines s) - 1 then int (total_lines s) - 1 else if l < 0 then 0 else l) = int k"
    unfolding k_def tl by (rule clamp_line) (simp add: length_split_nl)
  have l: "int (fst (cursor_rc s)) + d = l" unfolding l_def cursor_rc [OF ok] fst_conv ..
  have run: "goto_line l s = s\<lparr>cursor := p\<rparr>"
    unfolding goto_line_def Let_def clamp line_len [OF ok k] line_start [OF ok k] p_def by (simp only: min_def le_less) (cases "goal_col s = length (split_nl ?t ! k)"; simp)
  have "line_off k ?t + length (split_nl ?t ! k) \<le> elen s" using line_end [of k ?t] k tl text_facts(1) [OF ok] by simp
  then have "p \<le> elen s" unfolding p_def by linarith
  moreover have "spec_goto d (view s) = (?t, p, goal_col s)"
    unfolding spec_goto_def view_def prod.case Let_def p_def k_def l_def ..
  ultimately show ?thesis unfolding l run using ok by (simp add: ed_ok_def view_def text_of_def)
qed

lemma ed_line_no: "ed_ok s \<Longrightarrow> line_no (cursor s) (text_of s) < total_lines s"
proof -
  let ?t = "text_of s"
  have "filter (\<lambda>c. c = NL) ?t = filter (\<lambda>c. c = NL) (take (cursor s) ?t) @ filter (\<lambda>c. c = NL) (drop (cursor s) ?t)"
    by (metis append_take_drop_id filter_append)
  then show "ed_ok s \<Longrightarrow> line_no (cursor s) ?t < total_lines s" using total_lines [of s] by (simp add: length_split_nl)
qed

lemma ed_line:
  assumes ok: "ed_ok s"
  shows "line_start (int (fst (cursor_rc s))) s = cursor s - col_no (cursor s) (text_of s)"
    and "line_start (int (fst (cursor_rc s))) s + line_len (int (fst (cursor_rc s))) s = cursor s + rest_len (cursor s) (text_of s)"
    and "cursor s + rest_len (cursor s) (text_of s) \<le> elen s"
proof -
  let ?t = "text_of s" and ?k = "line_no (cursor s) (text_of s)"
  have k: "?k < total_lines s" by (rule ed_line_no [OF ok])
  note p = position [OF text_facts(3) [OF ok]] and c = cursor_rc [OF ok]
  show "line_start (int (fst (cursor_rc s))) s = cursor s - col_no (cursor s) ?t"
    unfolding c fst_conv line_start [OF ok k] using p by linarith
  show "line_start (int (fst (cursor_rc s))) s + line_len (int (fst (cursor_rc s))) s = cursor s + rest_len (cursor s) ?t"
    unfolding c fst_conv line_start [OF ok k] line_len [OF ok k] using p by linarith
  show "cursor s + rest_len (cursor s) ?t \<le> elen s"
    using length_takeWhile_le [of "\<lambda>c. c \<noteq> NL" "drop (cursor s) ?t"] text_facts [OF ok] by simp
qed


lemma editor_key_spec:
  assumes ok: "ed_ok s"
  shows "ed_ok (editor_key c s) \<and> view (editor_key c s) = spec_key c (view s)"
proof -
  note g = ed_goto [OF ok] and i = ed_insert [OF ok] and l = ed_line [OF ok]
  have mv: "ed_ok (s\<lparr>cursor := p\<rparr>)" "view (s\<lparr>cursor := p\<rparr>) = (text_of s, p, goal_col s)" if "p \<le> elen s" for p
    using ok that by (simp_all add: ed_ok_def view_def text_of_def)
  have goal: "ed_ok t \<and> view t = v \<Longrightarrow> ed_ok (set_goal t) \<and> view (set_goal t) = spec_goal v" for t v
    using ed_goal by blast
  have len: "length (text_of s) = elen s" "cursor s \<le> elen s" using text_facts [OF ok] by simp_all
  have left: "ed_ok (if cursor s > 0 then s\<lparr>cursor := cursor s - 1\<rparr> else s) \<and>
      view (if cursor s > 0 then s\<lparr>cursor := cursor s - 1\<rparr> else s) = (text_of s, cursor s - 1, goal_col s)"
    using mv [of "cursor s - 1"] ok len by (simp add: view_def)
  have right: "ed_ok (if cursor s < elen s then s\<lparr>cursor := cursor s + 1\<rparr> else s) \<and>
      view (if cursor s < elen s then s\<lparr>cursor := cursor s + 1\<rparr> else s) = (text_of s, min (cursor s + 1) (elen s), goal_col s)"
    using mv [of "cursor s + 1"] ok len by (simp add: view_def min_def)
  have home: "ed_ok (s\<lparr>cursor := line_start (int (fst (cursor_rc s))) s, goal_col := 0\<rparr>) \<and>
      view (s\<lparr>cursor := line_start (int (fst (cursor_rc s))) s, goal_col := 0\<rparr>) = (text_of s, cursor s - col_no (cursor s) (text_of s), 0)"
    using ok len unfolding l(1) by (simp add: ed_ok_def view_def text_of_def)
  note en = mv [OF l(3)] and de = ed_delete [OF ok] and ba = ed_backspace [OF ok] and tab = ed_inserts [OF ok]
  have up: "ed_ok (goto_line (int (fst (cursor_rc s)) - 1) s) \<and> view (goto_line (int (fst (cursor_rc s)) - 1) s) = spec_goto (- 1) (view s)"
    and pgup: "ed_ok (goto_line (int (fst (cursor_rc s)) - int TEXT_ROWS) s) \<and>
      view (goto_line (int (fst (cursor_rc s)) - int TEXT_ROWS) s) = spec_goto (- 23) (view s)"
    and pgdn: "ed_ok (goto_line (int (fst (cursor_rc s)) + int TEXT_ROWS) s) \<and>
      view (goto_line (int (fst (cursor_rc s)) + int TEXT_ROWS) s) = spec_goto 23 (view s)"
    using g [of "- 1"] g [of "- 23"] g [of 23] by (simp_all add: TEXT_ROWS_def)
  have v: "view s = (text_of s, cursor s, goal_col s)" by (simp add: view_def)
  have step: "ed_ok x \<and> view x = y \<Longrightarrow> ed_ok x' \<and> view x' = y' \<Longrightarrow>
      ed_ok (if A then x else x') \<and> view (if A then x else x') = (if A then y else y')" for x x' y y' A
    by simp
  have "ed_ok (editor_key c s) \<and> view (editor_key c s) = (
     if c = KEY_LEFT then spec_goal (text_of s, cursor s - 1, goal_col s)
     else if c = KEY_RIGHT then spec_goal (text_of s, min (cursor s + 1) (elen s), goal_col s)
     else if c = KEY_UP then spec_goto (- 1) (view s)
     else if c = KEY_DOWN then spec_goto 1 (view s)
     else if c = KEY_HOME then (text_of s, cursor s - col_no (cursor s) (text_of s), 0)
     else if c = KEY_END then spec_goal (text_of s, cursor s + rest_len (cursor s) (text_of s), goal_col s)
     else if c = KEY_PGUP then spec_goto (- 23) (view s)
     else if c = KEY_PGDN then spec_goto 23 (view s)
     else if c = KEY_DEL then (if cursor s < length (text_of s) then spec_remove (cursor s) (view s) else view s)
     else if c = NL then spec_goal (spec_insert NL (view s))
     else if c = 8 then spec_goal (if cursor s > 0 then spec_remove (cursor s - 1) (view s) else view s)
     else if c = 9 then spec_goal ((spec_insert 0x20 ^^ 4) (view s))
     else if c \<ge> 0x20 \<and> c < 127 then spec_goal (spec_insert c (view s))
     else view s)"
    unfolding editor_key_def Let_def l(2)
    by (rule step, rule goal, rule left, rule step, rule goal, rule right, rule step, rule up, rule step, rule g, rule step, rule home,
        rule step, rule goal, rule conjI, rule en, rule en, rule step, rule pgup, rule step, rule pgdn, rule step, rule de, rule step, rule goal, rule i,
        rule step, rule goal, rule ba, rule step, rule goal, rule tab, rule step, rule goal, rule i, rule conjI, rule ok, rule refl)
  then show ?thesis unfolding spec_key_def v prod.case len(1) .
qed

section \<open>Drawing changes the screen only\<close>

definition core :: "editor \<Rightarrow> fatfs \<times> u8 list \<times> nat \<times> nat \<times> nat \<times> bool \<times> string" where
  "core s = (ed_fs s, ebuf s, elen s, cursor s, goal_col s, modified s, fname s)"

lemma core_put_cell [simp]: "core (ed_put_cell row col ch attr s) = core s"
  by (simp add: core_def ed_put_cell_def)

lemma core_put_str [simp]: "core (put_str row col cs attr s) = core s"
  by (induction row col cs attr s rule: put_str.induct) simp_all

lemma core_fold_cell [simp]: "core (fold (\<lambda>c. ed_put_cell row c ch attr) cs s) = core s"
  by (induction cs arbitrary: s) simp_all

lemma core_fill [simp]: "core (ed_fill_row row ch attr s) = core s" "core (draw_status m s) = core s"
  by (simp_all add: ed_fill_row_def draw_status_def)

lemma core_draw_line [simp]: "core (snd (snd (draw_line n row col idx s))) = core s"
  by (induction n row col idx s rule: draw_line.induct) simp_all

lemma core_draw_rows [simp]: "core (draw_rows n r idx s) = core s"
  by (induction n arbitrary: r idx s) (simp_all add: split_beta Let_def)

lemma core_hw [simp]: "core (set_hw_cursor row col s) = core s" "core (scroll_to cl s) = core s"
  by (simp_all add: core_def set_hw_cursor_def scroll_to_def Let_def)

lemma core_parts [simp]: "core (draw_title s) = core s" "core (draw_text s) = core s" "core (draw_position cl cc s) = core s"
  by (simp_all add: draw_title_def draw_text_def draw_position_def Let_def)

lemma core_render [simp]: "core (render s) = core s"
  by (simp add: render_def Let_def split_beta)

section \<open>Cells\<close>

abbreviation cells :: "editor \<Rightarrow> u16 list" where "cells s \<equiv> vga (ed_con s)"

definition ed_cell :: "u8 \<Rightarrow> u8 \<Rightarrow> u16" where "ed_cell ch attr = ucast ch OR push_bit 8 (ucast attr)"

lemma cells_put: "cells (ed_put_cell row col ch attr s) = (cells s)[row * 80 + col := ed_cell ch attr]"
  by (simp add: ed_put_cell_def ed_cell_def)

lemma length_put_str [simp]: "length (cells (put_str row col cs attr s)) = length (cells s)"
  by (induction row col cs attr s rule: put_str.induct) (simp_all add: cells_put)

lemma length_fold_cell [simp]: "length (cells (fold (\<lambda>c. ed_put_cell row c ch attr) cs s)) = length (cells s)"
  by (induction cs arbitrary: s) (simp_all add: cells_put)

lemma put_str_other:
  "i < row * 80 \<or> row * 80 + 80 \<le> i \<Longrightarrow> cells (put_str row col cs attr s) ! i = cells s ! i"
  by (induction row col cs attr s rule: put_str.induct) (auto simp: cells_put nth_list_update_neq)

lemma nth_fold_cell:
  "i < length (cells s) \<Longrightarrow> cells (fold (\<lambda>c. ed_put_cell row c ch attr) [a..<b] s) ! i =
     (if row * 80 + a \<le> i \<and> i < row * 80 + b then ed_cell ch attr else cells s ! i)"
proof (induction b)
  case (Suc b)
  then show ?case by (cases "a \<le> b") (auto simp: cells_put nth_list_update less_Suc_eq)
qed auto

lemma draw_status_other:
  "length (cells s) = 2000 \<Longrightarrow> i < 1920 \<Longrightarrow> cells (draw_status m s) ! i = cells s ! i"
  "length (cells (draw_status m s)) = length (cells s)"
  by (simp_all add: draw_status_def ed_fill_row_def put_str_other nth_fold_cell del: upt_Suc)

lemma nth_draw_line:
  assumes "ebuf s = b" and "elen s = m" and "length (cells s) = 2000" and "row < 25" and "col + n \<le> 80"
    and "draw_line n row col idx s = (col', idx', t)" and "m \<le> length b" and "idx \<le> m"
    and "L = min n (length (takeWhile (\<lambda>c. c \<noteq> NL) (drop idx (take m b))))"
  shows "col' = col + L \<and> idx' = idx + L \<and> length (cells t) = 2000 \<and>
    (\<forall>i < 2000. cells t ! i = (if row * 80 + col \<le> i \<and> i < row * 80 + col' then ed_cell (b ! (idx + (i - (row * 80 + col)))) ATTR_TEXT else cells s ! i))"
  using assms
proof (induction n arbitrary: col idx s L)
  case (Suc n)
  let ?u = "drop idx (take m b)"
  show ?case
  proof (cases "idx < m \<and> b ! idx \<noteq> NL")
    case False
    then have "takeWhile (\<lambda>c. c \<noteq> NL) ?u = []"
    proof (cases "idx < m")
      case True
      then have "?u = b ! idx # drop (Suc idx) (take m b)" using Suc.prems(7) by (simp add: Cons_nth_drop_Suc [symmetric])
      then show ?thesis using False True by simp
    qed simp
    then show ?thesis using Suc.prems False by auto
  next
    case True
    let ?s1 = "ed_put_cell row col (b ! idx) ATTR_TEXT s" and ?L = "min n (length (takeWhile (\<lambda>c. c \<noteq> NL) (drop (Suc idx) (take m b))))"
    have "?u = b ! idx # drop (Suc idx) (take m b)" using Suc.prems(7) True by (simp add: Cons_nth_drop_Suc [symmetric])
    then have L: "L = Suc ?L" using Suc.prems(9) True by simp
    have c: "ebuf ?s1 = b" "elen ?s1 = m" using Suc.prems(1,2) core_put_cell [of row col "b ! idx" ATTR_TEXT s] unfolding core_def by blast+
    have lp: "row * 80 + col < 2000" using Suc.prems(4,5) by simp
    have run: "draw_line n row (Suc col) (Suc idx) ?s1 = (col', idx', t)" using Suc.prems(1,2,6) True by simp
    have IH: "col' = Suc col + ?L \<and> idx' = Suc idx + ?L \<and> length (cells t) = 2000 \<and>
      (\<forall>i < 2000. cells t ! i = (if row * 80 + Suc col \<le> i \<and> i < row * 80 + col'
         then ed_cell (b ! (Suc idx + (i - (row * 80 + Suc col)))) ATTR_TEXT else cells ?s1 ! i))"
      by (rule Suc.IH [OF c _ Suc.prems(4) _ run Suc.prems(7)]) (use Suc.prems True in \<open>simp_all add: cells_put\<close>)
    have "cells t ! i = (if row * 80 + col \<le> i \<and> i < row * 80 + col' then ed_cell (b ! (idx + (i - (row * 80 + col)))) ATTR_TEXT else cells s ! i)"
      if i: "i < 2000" for i
    proof (cases "i = row * 80 + col")
      case True
      then show ?thesis using IH i lp Suc.prems(3) by (simp add: cells_put)
    next
      case False
      then have "row * 80 + col \<le> i \<longleftrightarrow> row * 80 + Suc col \<le> i" by linarith
      moreover have "row * 80 + Suc col \<le> i \<Longrightarrow> Suc idx + (i - (row * 80 + Suc col)) = idx + (i - (row * 80 + col))" by linarith
      ultimately show ?thesis using IH i False by (simp add: cells_put nth_list_update_neq)
    qed
    then show ?thesis using IH L by simp
  qed
qed auto

section \<open>Rows of the screen\<close>

text \<open>Column \<open>c\<close> of row \<open>k\<close> of a text: the line's byte, or a blank behind the end of the line or of the text.\<close>

definition row_char :: "u8 list \<Rightarrow> nat \<Rightarrow> nat \<Rightarrow> u8" where
  "row_char t k c = (if k < length (split_nl t) \<and> c < length (split_nl t ! k) then split_nl t ! k ! c else 0x20)"

definition next_line :: "u8 list \<Rightarrow> u8 list" where
  "next_line u = tl (dropWhile (\<lambda>c. c \<noteq> NL) u)"

lemma split_next: "NL \<in> set u \<Longrightarrow> split_nl u = takeWhile (\<lambda>c. c \<noteq> NL) u # split_nl (next_line u)"
  by (induction u) (auto simp: next_line_def)

lemma split_last: "NL \<notin> set u \<Longrightarrow> split_nl u = [u] \<and> next_line u = []"
proof (induction u)
  case (Cons c u)
  then have "dropWhile (\<lambda>c. c \<noteq> NL) u = [] \<or> tl (dropWhile (\<lambda>c. c \<noteq> NL) u) = []" by (simp add: next_line_def)
  then show ?case using Cons by (auto simp: next_line_def)
qed (simp add: next_line_def)

lemma row_char_next: "row_char u (Suc k) c = row_char (next_line u) k c"
  by (cases "NL \<in> set u") (auto simp: row_char_def split_next split_last)

lemma row_char_0:
  "row_char u 0 c = (if c < length (takeWhile (\<lambda>c. c \<noteq> NL) u) then u ! c else 0x20)"
proof -
  have "split_nl u ! 0 = takeWhile (\<lambda>c. c \<noteq> NL) u" using hd_split_nl [of u] hd_conv_nth [of "split_nl u"] by simp
  then show ?thesis by (simp add: row_char_def takeWhile_nth)
qed

lemma core_eqD:
  "core t = core s \<Longrightarrow> ebuf t = ebuf s \<and> elen t = elen s \<and> cursor t = cursor s \<and> fname t = fname s \<and> ed_fs t = ed_fs s \<and> modified t = modified s \<and> goal_col t = goal_col s"
  by (simp add: core_def)

lemma takeWhile_drop: "n \<le> length (takeWhile P u) \<Longrightarrow> takeWhile P (drop n u) = drop n (takeWhile P u)"
proof (induction u arbitrary: n)
  case (Cons a u)
  then show ?case by (cases n) (auto split: if_splits)
qed simp

text \<open>One step of the loop over the rows: where the next line starts.\<close>

lemma next_index:
  fixes t :: "u8 list"
  assumes "idx \<le> length t" and "L = min 80 (length (takeWhile (\<lambda>c. c \<noteq> NL) (drop idx t)))" and "t = take m b" and "m \<le> length b"
    and "e = end_loop (m - (idx + L)) (idx + L) b" and "j = (if e < m \<and> b ! e = NL then e + 1 else e)"
  shows "j \<le> length t \<and> drop j t = next_line (drop idx t)"
proof -
  let ?u = "drop idx t" and ?W = "length (takeWhile (\<lambda>c. c \<noteq> NL) (drop idx t))"
  have m: "length t = m" using assms(3,4) by simp
  have W: "idx + ?W \<le> m" using length_takeWhile_le [of "\<lambda>c. c \<noteq> NL" ?u] assms(1) m by simp
  have "takeWhile (\<lambda>c. c \<noteq> NL) (drop L ?u) = drop L (takeWhile (\<lambda>c. c \<noteq> NL) ?u)" using assms(2) by (intro takeWhile_drop) simp
  moreover have "take (m - (idx + L)) (drop (idx + L) b) = drop L ?u" using assms(3) by (simp add: drop_take add.commute)
  ultimately have e: "e = idx + ?W"
    using end_loop [of "idx + L" "m - (idx + L)" b] assms(2,4,5) W by simp
  have dw: "drop ?W ?u = dropWhile (\<lambda>c. c \<noteq> NL) ?u" by (rule dropWhile_eq_drop [symmetric])
  show ?thesis
  proof (cases "e < m")
    case True
    then have d: "drop e t = b ! e # drop (Suc e) t" using assms(3,4) m by (simp add: Cons_nth_drop_Suc [symmetric])
    have "b ! e = NL"
    proof -
      have "dropWhile (\<lambda>c. c \<noteq> NL) ?u = b ! e # drop (Suc e) t" using d dw e by (simp add: add.commute)
      then show ?thesis using hd_dropWhile [of "\<lambda>c. c \<noteq> NL" ?u] by simp
    qed
    then have "j = Suc e" using assms(6) True by simp
    moreover have "dropWhile (\<lambda>c. c \<noteq> NL) ?u = b ! e # drop (Suc e) t" using d dw e by (simp add: add.commute)
    ultimately show ?thesis using True m by (simp add: next_line_def)
  next
    case False
    then have "e = m" using e W by simp
    then have "j = m" using assms(6) by simp
    moreover have "tl (dropWhile (\<lambda>c. c \<noteq> NL) ?u) = []" unfolding dw [symmetric] using \<open>e = m\<close> e m by (simp add: add.commute)
    ultimately show ?thesis unfolding next_line_def using m by simp
  qed
qed

lemma nth_draw_rows:
  assumes "text_of s = t" and "elen s \<le> length (ebuf s)" and "length (cells s) = 2000" and "r + n \<le> 23" and "idx \<le> length t"
  shows "length (cells (draw_rows n r idx s)) = 2000 \<and>
    (\<forall>k c. k < n \<and> c < 80 \<longrightarrow> cells (draw_rows n r idx s) ! ((Suc r + k) * 80 + c) = ed_cell (row_char (drop idx t) k c) ATTR_TEXT) \<and>
    (\<forall>i < 2000. i < Suc r * 80 \<or> (Suc r + n) * 80 \<le> i \<longrightarrow> cells (draw_rows n r idx s) ! i = cells s ! i)"
  using assms
proof (induction n arbitrary: r idx s)
  case (Suc n)
  let ?m = "elen s" and ?b = "ebuf s" and ?W = "length (takeWhile (\<lambda>c. c \<noteq> NL) (drop idx t))"
  obtain col i1 s1 where d: "draw_line VGA_COLS (TEXT_TOP + r) 0 idx s = (col, i1, s1)" by (metis prod_cases3)
  have t: "take ?m ?b = t" "length t = ?m" using Suc.prems(1,2) by (auto simp: text_of_def)
  define L where "L = min 80 ?W"
  have D: "col = L \<and> i1 = idx + L \<and> length (cells s1) = 2000 \<and>
    (\<forall>i < 2000. cells s1 ! i = (if Suc r * 80 \<le> i \<and> i < Suc r * 80 + L then ed_cell (?b ! (idx + (i - Suc r * 80))) ATTR_TEXT else cells s ! i))"
    using nth_draw_line [OF refl refl Suc.prems(3) _ _ d Suc.prems(2) _ refl] Suc.prems(4,5) t L_def by (auto simp: TEXT_TOP_def)
  have c1: "ebuf s1 = ?b" "elen s1 = ?m" using core_draw_line [of VGA_COLS "TEXT_TOP + r" 0 idx s] d by (auto dest: core_eqD)
  define s2 where "s2 = fold (\<lambda>c. ed_put_cell (TEXT_TOP + r) c 0x20 ATTR_TEXT) [col..<VGA_COLS] s1"
  have c2: "ebuf s2 = ?b" "elen s2 = ?m" 
    using core_eqD [OF core_fold_cell [of "TEXT_TOP + r" "0x20" ATTR_TEXT "[col..<VGA_COLS]" s1]] c1 unfolding s2_def by simp_all
  have S2: "length (cells s2) = 2000" "\<And>i. i < 2000 \<Longrightarrow> cells s2 ! i = (if Suc r * 80 + L \<le> i \<and> i < Suc r * 80 + 80 then ed_cell 0x20 ATTR_TEXT else cells s1 ! i)"
    unfolding s2_def using D by (simp_all add: nth_fold_cell TEXT_TOP_def)
  define e where "e = end_loop (?m - i1) i1 ?b"
  define j where "j = (if e < ?m \<and> ?b ! e = NL then e + 1 else e)"
  have j: "j \<le> length t \<and> drop j t = next_line (drop idx t)"
    by (rule next_index [OF Suc.prems(5) L_def t(1) [symmetric] Suc.prems(2) _ j_def]) (simp add: e_def D)
  have run: "draw_rows (Suc n) r idx s = draw_rows n (Suc r) j s2"
    unfolding draw_rows.simps d prod.case Let_def s2_def [symmetric] c2 e_def [symmetric] j_def [symmetric] ..
  have IH: "length (cells (draw_rows n (Suc r) j s2)) = 2000 \<and>
    (\<forall>k c. k < n \<and> c < 80 \<longrightarrow> cells (draw_rows n (Suc r) j s2) ! ((Suc (Suc r) + k) * 80 + c) = ed_cell (row_char (drop j t) k c) ATTR_TEXT) \<and>
    (\<forall>i < 2000. i < Suc (Suc r) * 80 \<or> (Suc (Suc r) + n) * 80 \<le> i \<longrightarrow> cells (draw_rows n (Suc r) j s2) ! i = cells s2 ! i)"
    by (rule Suc.IH) (use Suc.prems(1,2,4) c2 S2(1) j in \<open>simp_all add: text_of_def\<close>)
  have row0: "cells s2 ! (Suc r * 80 + c) = ed_cell (row_char (drop idx t) 0 c) ATTR_TEXT" if c: "c < 80" for c
  proof -
    have b: "Suc r * 80 + c < 2000" using Suc.prems(4) c by simp
    show ?thesis
    proof (cases "c < L")
      case True
      then have "c < ?W" "idx + c < ?m" using L_def length_takeWhile_le [of "\<lambda>c. c \<noteq> NL" "drop idx t"] t(2) by auto
      moreover have "drop idx t ! c = ?b ! (idx + c)" using calculation(2) t by (metis Suc.prems(5) nth_drop nth_take)
      ultimately show ?thesis using S2(2) [OF b] D b True c by (simp add: row_char_0)
    next
      case False
      then have "\<not> c < ?W" using L_def c by auto
      then show ?thesis using S2(2) [OF b] False c by (simp add: row_char_0)
    qed
  qed
  show ?case
  proof (intro conjI allI impI)
    show "length (cells (draw_rows (Suc n) r idx s)) = 2000" unfolding run using IH by blast
  next
    fix k c :: nat assume kc: "k < Suc n \<and> c < 80"
    show "cells (draw_rows (Suc n) r idx s) ! ((Suc r + k) * 80 + c) = ed_cell (row_char (drop idx t) k c) ATTR_TEXT"
    proof (cases k)
      case 0
      have "(Suc r + k) * 80 + c < 2000" "(Suc r + k) * 80 + c < Suc (Suc r) * 80" using kc 0 Suc.prems(4) by simp_all
      then show ?thesis unfolding run using IH row0 kc 0 by simp
    next
      case (Suc l)
      then have "cells (draw_rows n (Suc r) j s2) ! ((Suc (Suc r) + l) * 80 + c) = ed_cell (row_char (drop j t) l c) ATTR_TEXT" using IH kc by auto
      then show ?thesis unfolding run Suc using j by (simp add: row_char_next)
    qed
  next
    fix i assume i: "i < 2000" "i < Suc r * 80 \<or> (Suc r + Suc n) * 80 \<le> i"
    then have "i < Suc (Suc r) * 80 \<or> (Suc (Suc r) + n) * 80 \<le> i" by auto
    then have "cells (draw_rows n (Suc r) j s2) ! i = cells s2 ! i" using IH i(1) by blast
    then show "cells (draw_rows (Suc n) r idx s) ! i = cells s ! i"
      unfolding run using S2(2) [OF i(1)] D i L_def by auto
  qed
qed simp


lemma split_drop: "k < length (split_nl t) \<Longrightarrow> split_nl (drop (line_off k t) t) = drop k (split_nl t)"
proof (induction t arbitrary: k)
  case (Cons c cs)
  show ?case
  proof (cases k)
    case (Suc j)
    then show ?thesis using Cons.IH [of j] Cons.IH [of k] Cons.prems by (cases "split_nl cs") (auto simp: line_off_Cons)
  qed simp
qed simp

lemma row_char_drop: "k < length (split_nl t) \<Longrightarrow> row_char (drop (line_off k t) t) j c = row_char t (k + j) c"
  by (auto simp: row_char_def split_drop)

lemma top_line_kept [simp]:
  "top_line (ed_put_cell row col ch attr s) = top_line s" "top_line (fold (\<lambda>c. ed_put_cell row c ch attr) cs s) = top_line s"
  "top_line (put_str row col str attr s) = top_line s" "top_line (draw_status m s) = top_line s"
proof -
  show a: "top_line (ed_put_cell row col ch attr s) = top_line s" for row col ch attr s by (simp add: ed_put_cell_def)
  show b: "top_line (fold (\<lambda>c. ed_put_cell row c ch attr) cs s) = top_line s" for row ch attr cs s by (induction cs arbitrary: s) (simp_all add: a)
  show c: "top_line (put_str row col str attr s) = top_line s" for row col str attr s
    by (induction row col str attr s rule: put_str.induct) (simp_all add: a)
  show "top_line (draw_status m s) = top_line s" by (simp add: draw_status_def ed_fill_row_def b c)
qed

lemma top_draw_line [simp]: "top_line (snd (snd (draw_line n row col idx s))) = top_line s"
  by (induction n row col idx s rule: draw_line.induct) simp_all

lemma top_draw_rows [simp]: "top_line (draw_rows n r idx s) = top_line s"
  by (induction n arbitrary: r idx s) (simp_all add: split_beta Let_def)

lemma top_parts [simp]: "top_line (draw_title s) = top_line s" "top_line (draw_text s) = top_line s" "top_line (draw_position cl cc s) = top_line s"
  by (simp_all add: draw_title_def draw_text_def draw_position_def ed_fill_row_def Let_def del: put_str.simps)

lemma length_parts [simp]:
  "length (cells (draw_title s)) = length (cells s)" "length (cells (draw_position cl cc s)) = length (cells s)" "length (cells (scroll_to cl s)) = length (cells s)"
  by (simp_all add: draw_title_def draw_position_def draw_status_def ed_fill_row_def scroll_to_def Let_def del: put_str.simps)

text \<open>The parts of a picture: scrolling, and the rows of the text.\<close>

lemma scroll_shows: "top_line (scroll_to cl s) \<le> cl \<and> cl < top_line (scroll_to cl s) + 23"
  by (auto simp: scroll_to_def Let_def TEXT_ROWS_def)

lemma draw_text_shows:
  assumes ok: "ed_ok s" and v: "length (cells s) = 2000" and top: "top_line s < total_lines s"
  shows "length (cells (draw_text s)) = 2000 \<and>
    (\<forall>k c. k < 23 \<and> c < 80 \<longrightarrow> cells (draw_text s) ! ((Suc k) * 80 + c) = ed_cell (row_char (text_of s) (top_line s + k) c) ATTR_TEXT)"
proof -
  let ?t = "text_of s"
  have ls: "line_start (int (top_line s)) s = line_off (top_line s) ?t" by (rule line_start [OF ok top])
  have tl: "top_line s < length (split_nl ?t)" using top total_lines [OF ok] by simp
  have le: "line_off (top_line s) ?t \<le> length ?t" using line_end [OF tl] by simp
  have el: "elen s \<le> length (ebuf s)" using ok by (simp add: ed_ok_def)
  show ?thesis
    using nth_draw_rows [OF refl el v _ le, of 0 23] row_char_drop [OF tl] unfolding draw_text_def ls by (simp add: TEXT_ROWS_def)
qed

lemma ed_ok_core: "core t = core s \<Longrightarrow> ed_ok t = ed_ok s \<and> view t = view s \<and> text_of t = text_of s \<and> total_lines t = total_lines s"
  by (simp add: core_def ed_ok_def view_def text_of_def total_lines_def)

text \<open>
  C32. The screen shows the text: after \<open>render\<close> the line of the cursor is one of the 23 visible lines, and every
  cell of the text area holds the byte of the buffer that belongs there, or a blank behind the end of a
  line and of the text. Nothing of the text is changed.
\<close>

theorem render_shows_text:
  assumes "ed_ok s" and "length (vga (ed_con s)) = 2000"
  shows "view (render s) = view s \<and> top_line (render s) \<le> fst (cursor_rc s) \<and> fst (cursor_rc s) < top_line (render s) + 23 \<and>
    (\<forall>k c. k < 23 \<and> c < 80 \<longrightarrow>
      vga (ed_con (render s)) ! (Suc k * 80 + c) = ed_cell (row_char (text_of s) (top_line (render s) + k) c) ATTR_TEXT)"
proof -
  obtain cl cc where rc: "cursor_rc s = (cl, cc)" by fastforce
  define s1 where "s1 = draw_title (scroll_to cl s)"
  have c1: "core s1 = core s" by (simp add: s1_def)
  have top: "top_line s1 \<le> cl" "cl < top_line s1 + 23" using scroll_shows [of cl s] by (simp_all add: s1_def)
  have "cl < total_lines s" using cursor_rc [OF assms(1)] rc ed_line_no [OF assms(1)] by simp
  then have lt: "top_line s1 < total_lines s1" using top ed_ok_core [OF c1] by simp
  define s2 where "s2 = draw_text s1"
  have D: "length (cells s2) = 2000" "\<And>k c. k < 23 \<Longrightarrow> c < 80 \<Longrightarrow> cells s2 ! (Suc k * 80 + c) = ed_cell (row_char (text_of s) (top_line s1 + k) c) ATTR_TEXT"
    using draw_text_shows [of s1] ed_ok_core [OF c1] assms lt unfolding s2_def by (simp_all add: s1_def)
  have r: "render s = set_hw_cursor (TEXT_TOP + (cl - top_line (draw_position cl cc s2))) (if cc < VGA_COLS then cc else VGA_COLS - 1) (draw_position cl cc s2)"
    by (simp add: render_def rc s1_def s2_def Let_def)
  have cells: "cells (render s) = cells (draw_position cl cc s2)" "top_line (render s) = top_line s1"
    unfolding r by (simp_all add: set_hw_cursor_def Let_def outb_def s2_def)
  have "cells (draw_position cl cc s2) ! i = cells s2 ! i" if "i < 1920" for i
    using that D(1) by (simp add: draw_position_def put_str_other draw_status_other del: put_str.simps)
  then have "cells (render s) ! (Suc k * 80 + c) = ed_cell (row_char (text_of s) (top_line (render s) + k) c) ATTR_TEXT" if "k < 23" "c < 80" for k c
    using D(2) [OF that] that unfolding cells by simp
  then show ?thesis using ed_ok_core [OF core_render [of s]] top rc cells(2) by simp
qed


text \<open>An editor with the text \<open>t\<close> in its buffer.\<close>

definition sample_ed :: "u8 list \<Rightarrow> fatfs \<Rightarrow> console \<Rightarrow> editor" where
  "sample_ed t fs tty = \<lparr>ed_con = tty, ed_fs = fs, ebuf = overwrite 0 t (replicate EDIT_MAX 0), elen = length t, cursor = length t,
     top_line = 7, goal_col = 0, modified = False, fname = ''A.TXT''\<rparr>"

lemma sample_ed:
  assumes "length t \<le> EDIT_MAX"
  shows "ed_ok (sample_ed t fs tty)" "text_of (sample_ed t fs tty) = t" "cursor (sample_ed t fs tty) = length t" "ed_con (sample_ed t fs tty) = tty"
    "fname (sample_ed t fs tty) = ''A.TXT''" "ed_fs (sample_ed t fs tty) = fs" "goal_col (sample_ed t fs tty) = 0"
  using assms by (simp_all add: sample_ed_def ed_ok_def text_of_def overwrite_def)

theorem render_shows_text_witness:
  "\<forall>fs. vga (ed_con (render (sample_ed [65, 66, 10, 67] fs blank_console))) ! 80 = ed_cell 67 ATTR_TEXT"
proof
  fix fs
  let ?s = "sample_ed [65, 66, 10, 67] fs blank_console"
  have ok: "ed_ok ?s" "length (vga (ed_con ?s)) = 2000" by (simp_all add: sample_ed EDIT_MAX_def blank_console_def)
  have rc: "cursor_rc ?s = (1, 1)" using cursor_rc [OF ok(1)] by (simp add: sample_ed EDIT_MAX_def NL_def)
  have top7: "top_line ?s = 7" by (simp add: sample_ed_def)
  have "top_line (render ?s) = 1"
    using top7 by (simp add: render_def rc Let_def set_hw_cursor_def scroll_to_def TEXT_ROWS_def)
  moreover have "\<forall>k c. k < 23 \<and> c < 80 \<longrightarrow>
      vga (ed_con (render ?s)) ! (Suc k * 80 + c) = ed_cell (row_char (text_of ?s) (top_line (render ?s) + k) c) ATTR_TEXT"
    using render_shows_text [OF ok] by blast
  ultimately have "vga (ed_con (render ?s)) ! (Suc 0 * 80 + 0) = ed_cell (row_char (text_of ?s) (1 + 0) 0) ATTR_TEXT" by (metis zero_less_numeral)
  then show "vga (ed_con (render ?s)) ! 80 = ed_cell 67 ATTR_TEXT" by (simp add: sample_ed EDIT_MAX_def row_char_def NL_def)
qed

section \<open>A session\<close>

lemma editor_key_frame:
  "fname (editor_key c s) = fname s \<and> ed_fs (editor_key c s) = ed_fs s \<and> (modified s \<longrightarrow> modified (editor_key c s)) \<and>
   (text_of (editor_key c s) \<noteq> text_of s \<longrightarrow> modified (editor_key c s))"
proof -
  have g: "text_of (set_goal u) = text_of u" "fname (set_goal u) = fname u" "ed_fs (set_goal u) = ed_fs u" "modified (set_goal u) = modified u" for u
    by (simp_all add: set_goal_def text_of_def)
  have i: "fname (insert_ch c u) = fname u" "ed_fs (insert_ch c u) = ed_fs u" "modified u \<Longrightarrow> modified (insert_ch c u)"
    "text_of (insert_ch c u) \<noteq> text_of u \<Longrightarrow> modified (insert_ch c u)" for c u
    by (auto simp: insert_ch_def)
  have b: "fname (backspace s) = fname s" "ed_fs (backspace s) = ed_fs s" "modified s \<Longrightarrow> modified (backspace s)"
    "text_of (backspace s) \<noteq> text_of s \<Longrightarrow> modified (backspace s)" by (auto simp: backspace_def split: if_splits)
  have d: "fname (delete_ch s) = fname s" "ed_fs (delete_ch s) = ed_fs s" "modified s \<Longrightarrow> modified (delete_ch s)"
    "text_of (delete_ch s) \<noteq> text_of s \<Longrightarrow> modified (delete_ch s)" by (auto simp: delete_ch_def split: if_splits)
  have t: "fname ((insert_ch 0x20 ^^ n) s) = fname s \<and> ed_fs ((insert_ch 0x20 ^^ n) s) = ed_fs s \<and>
      (modified s \<longrightarrow> modified ((insert_ch 0x20 ^^ n) s)) \<and> (text_of ((insert_ch 0x20 ^^ n) s) \<noteq> text_of s \<longrightarrow> modified ((insert_ch 0x20 ^^ n) s))" for n
    by (induction n) (auto simp: i)
  define P where "P u \<longleftrightarrow> fname u = fname s \<and> ed_fs u = ed_fs s \<and> (modified s \<longrightarrow> modified u) \<and> (text_of u \<noteq> text_of s \<longrightarrow> modified u)" for u
  have step: "P x \<Longrightarrow> P x' \<Longrightarrow> P (if A then x else x')" for x x' A by simp
  have goal: "P u \<Longrightarrow> P (set_goal u)" for u by (simp add: P_def g)
  have mv: "P (s\<lparr>cursor := p\<rparr>)" "P (s\<lparr>cursor := p, goal_col := n\<rparr>)" "P s" for p n by (simp_all add: P_def text_of_def)
  have go: "P (goto_line l s)" for l unfolding goto_line_def Let_def by (rule mv)
  have ins: "P (insert_ch c s)" for c using i(1,2,3,4) [where u = s and c = c] by (simp add: P_def)
  have tab: "P ((insert_ch 0x20 ^^ 4) s)" using t [of 4] by (simp add: P_def)
  have "P (editor_key c s)"
    unfolding editor_key_def Let_def by (intro step goal mv go ins tab) (use b d in \<open>simp_all add: P_def\<close>)
  then show ?thesis by (simp add: P_def)
qed

definition typed :: "u8 list \<Rightarrow> editor \<Rightarrow> editor" where
  "typed keys s = fold (\<lambda>c s. editor_key c (render s)) keys s"

lemma typed_spec:
  "ed_ok s \<Longrightarrow> ed_ok (typed keys s) \<and> view (typed keys s) = fold spec_key keys (view s) \<and> fname (typed keys s) = fname s \<and>
   ed_fs (typed keys s) = ed_fs s \<and> (modified s \<longrightarrow> modified (typed keys s)) \<and> (text_of (typed keys s) \<noteq> text_of s \<longrightarrow> modified (typed keys s))"
proof (induction keys arbitrary: s)
  case (Cons c keys)
  let ?u = "editor_key c (render s)"
  have r: "ed_ok (render s)" "view (render s) = view s" "text_of (render s) = text_of s" using ed_ok_core [OF core_render [of s]] Cons.prems by simp_all
  note u = editor_key_spec [OF r(1), of c] and f = editor_key_frame [of c "render s"] and k = core_eqD [OF core_render [of s]]
  have "typed (c # keys) s = typed keys ?u" by (simp add: typed_def)
  then show ?case using Cons.IH [of ?u] u f k r by (cases "text_of ?u = text_of s") auto
qed (simp add: typed_def)

lemma editor_loop_typed: "27 \<notin> set keys \<Longrightarrow> editor_loop (keys @ rest) s = editor_loop rest (typed keys s)"
  by (induction keys arbitrary: s) (simp_all add: typed_def Let_def)

text \<open>
  C31. A session of the editor. The keys before Esc, in any order, do to the buffer and the cursor what they are
  meant to do to a text made of lines. If they have changed the text, the editor asks; \<open>y\<close> then writes
  exactly this text under the file's name, \<open>n\<close> leaves the file system alone. An unmodified buffer is left at
  once and the next key is not consumed.
\<close>

theorem editor_session:
  assumes "ed_ok s" and "27 \<notin> set keys"
  shows "\<exists>m. (fst (fold spec_key keys (view s)) \<noteq> text_of s \<longrightarrow> m) \<and>
    map_option (\<lambda>(k, u). (k, ed_fs u)) (editor_loop (keys @ [27, 0x79]) s) =
      (if m then map_option (\<lambda>(r, fs). ([], fs)) (fs_create (fname s) (fst (fold spec_key keys (view s))) (ed_fs s)) else Some ([0x79], ed_fs s)) \<and>
    map_option (\<lambda>(k, u). (k, ed_fs u)) (editor_loop (keys @ [27, 0x6E]) s) = Some (if m then [] else [0x6E], ed_fs s)"
proof -
  let ?t = "typed keys s" and ?q = "draw_status ''Save changes?   Y = save & quit    N = discard    Esc = cancel'' (render (typed keys s))"
  note t = typed_spec [OF assms(1), of keys]
  have c: "core ?q = core ?t" by simp
  have q: "text_of ?q = text_of ?t" "fname ?q = fname s" "ed_fs ?q = ed_fs s"
    using ed_ok_core [OF c] core_eqD [OF c] t by simp_all
  have m: "modified (render ?t) = modified ?t" "ed_fs (render ?t) = ed_fs s" using core_eqD [OF core_render [of ?t]] t by simp_all
  have tx: "fst (fold spec_key keys (view s)) = text_of ?t" using t by (metis view_def fst_conv)
  have e: "ed_fs (clear u) = ed_fs u" for u by (simp add: clear_def)
  have yes: "map_option (\<lambda>(k, u). (k, ed_fs u)) (editor_loop (keys @ [27, 0x79]) s) =
      (if modified ?t then map_option (\<lambda>(r, fs). ([], fs)) (fs_create (fname s) (text_of ?t) (ed_fs s)) else Some ([0x79], ed_fs s))"
    unfolding editor_loop_typed [OF assms(2)]
    by (simp add: Let_def m e save_def q text_of_def [symmetric] option.map_comp comp_def case_prod_beta) (simp add: split_def)
  have no: "map_option (\<lambda>(k, u). (k, ed_fs u)) (editor_loop (keys @ [27, 0x6E]) s) = Some (if modified ?t then [] else [0x6E], ed_fs s)"
    unfolding editor_loop_typed [OF assms(2)] by (simp add: Let_def m e q)
  show ?thesis unfolding tx using yes no t by blast
qed

theorem editor_session_witness:
  "\<forall>fs. map_option (\<lambda>(k, u). (k, ed_fs u)) (editor_loop [104, 10, 0x11, 105, 27, 0x79] (sample_ed [] fs blank_console)) =
     map_option (\<lambda>(r, fs). ([], fs)) (fs_create ''A.TXT'' [105, 104, 10] fs)"
proof
  fix fs
  let ?s = "sample_ed [] fs blank_console" and ?k = "[104, 10, 0x11, 105]"
  have v: "view ?s = ([], 0, 0)" "ed_ok ?s" by (simp_all add: view_def sample_ed)
  have "spec_key 104 ([], 0, 0) = ([104], 1, 1)"
    by (simp add: spec_key_def spec_goal_def spec_insert_def EDIT_MAX_def KEY_LEFT_def KEY_RIGHT_def KEY_UP_def KEY_DOWN_def KEY_HOME_def
        KEY_END_def KEY_PGUP_def KEY_PGDN_def KEY_DEL_def NL_def)
  moreover have "spec_key 10 ([104], 1, 1) = ([104, 10], 2, 0)"
    by (simp add: spec_key_def spec_goal_def spec_insert_def EDIT_MAX_def KEY_LEFT_def KEY_RIGHT_def KEY_UP_def KEY_DOWN_def KEY_HOME_def
        KEY_END_def KEY_PGUP_def KEY_PGDN_def KEY_DEL_def NL_def)
  moreover have "spec_key 0x11 ([104, 10], 2, 0) = ([104, 10], 0, 0)"
    by (simp add: spec_key_def spec_goto_def KEY_LEFT_def KEY_RIGHT_def KEY_UP_def NL_def Let_def)
  moreover have "spec_key 105 ([104, 10], 0, 0) = ([105, 104, 10], 1, 1)"
    by (simp add: spec_key_def spec_goal_def spec_insert_def EDIT_MAX_def KEY_LEFT_def KEY_RIGHT_def KEY_UP_def KEY_DOWN_def KEY_HOME_def
        KEY_END_def KEY_PGUP_def KEY_PGDN_def KEY_DEL_def NL_def)
  ultimately have "fst (fold spec_key ?k (view ?s)) = [105, 104, 10]" by (simp add: v)
  then show "map_option (\<lambda>(k, u). (k, ed_fs u)) (editor_loop [104, 10, 0x11, 105, 27, 0x79] ?s) =
      map_option (\<lambda>(r, fs). ([], fs)) (fs_create ''A.TXT'' [105, 104, 10] fs)"
    using editor_session [OF v(2), of ?k] by (auto simp: sample_ed simp del: editor_loop.simps)
qed

end
