(* ===== verification/Acpi.thy ===== *)
theory Acpi
  imports Bus Paging
begin

text \<open>
  The search for the ACPI tables and the soft power-off of \<open>drivers/acpi.c\<close>, over the page tables and the
  ports. The firmware's tables are read through physical memory by bytes (\<open>fw\<close>); \<open>map_phys\<close> makes them
  reachable, so a read at an address that is not mapped is a fault, after which the scan does not go on
  (\<open>None\<close>). Pointers are 32-bit addresses.
\<close>

section \<open>State and operations\<close>

record acpi = bus +
  ac_pg :: paging
  fw :: "u32 \<Rightarrow> u8"
  available :: bool
  pm1a_cnt :: u16
  pm1b_cnt :: u16
  slp_typa :: u8
  slp_typb :: u8
  smi_cmd :: u16
  acpi_enable :: u8

definition SLP_EN :: u16 where "SLP_EN = push_bit 13 1"
definition SCI_EN :: u16 where "SCI_EN = 1"

text \<open>A byte at an address: through the page tables once paging is on.\<close>

definition peek :: "acpi \<Rightarrow> u32 \<Rightarrow> u8 option" where
  "peek s a =
     (if \<not> paging_is_enabled (ac_pg s) then Some (fw s a)
      else let pa = paging_get_phys a (ac_pg s) in if pa = 0xFFFFFFFF then None else Some (fw s pa))"

definition ac_rd32 :: "acpi \<Rightarrow> u32 \<Rightarrow> u32 option" where
  "ac_rd32 s p =
     Option.bind (peek s p) (\<lambda>b0. Option.bind (peek s (p + 1)) (\<lambda>b1. Option.bind (peek s (p + 2)) (\<lambda>b2.
       map_option (\<lambda>b3. ucast b0 OR push_bit 8 (ucast b1) OR push_bit 16 (ucast b2) OR push_bit 24 (ucast b3)) (peek s (p + 3)))))"

partial_function (option) map_pages :: "u32 \<Rightarrow> u32 \<Rightarrow> paging \<Rightarrow> paging option" where
  "map_pages a stop pg =
     (if a = stop then Some pg
      else map_pages (a + 0x1000) stop
        (if paging_get_phys a pg = 0xFFFFFFFF then snd (paging_map a a (PAGE_PRESENT OR PAGE_WRITE) pg) else pg))"

definition map_phys :: "u32 \<Rightarrow> u32 \<Rightarrow> acpi \<Rightarrow> acpi option" where
  "map_phys addr len s =
     (if \<not> paging_is_enabled (ac_pg s) then Some s
      else map_option (\<lambda>pg. s\<lparr>ac_pg := pg\<rparr>) (map_pages (addr AND NOT 0xFFF) ((addr + len + 0xFFF) AND NOT 0xFFF) (ac_pg s)))"

definition map_table :: "u32 \<Rightarrow> acpi \<Rightarrow> acpi option" where
  "map_table phys s =
     Option.bind (map_phys phys 64 s) (\<lambda>s.
     Option.bind (ac_rd32 s (phys + 4)) (\<lambda>len.
       if len > 64 \<and> len < 0x100000 then map_phys phys len s else Some s))"

text \<open>The sum of \<open>n\<close> bytes from \<open>p + i\<close>.\<close>

fun sum_loop :: "nat \<Rightarrow> u32 \<Rightarrow> u32 \<Rightarrow> u8 \<Rightarrow> acpi \<Rightarrow> u8 option" where
  "sum_loop 0 i p acc s = Some acc"
| "sum_loop (Suc n) i p acc s = Option.bind (peek s (p + i)) (\<lambda>b. sum_loop n (i + 1) p (acc + b) s)"

definition checksum_ok :: "u32 \<Rightarrow> u32 \<Rightarrow> acpi \<Rightarrow> bool option" where
  "checksum_ok p len s = map_option (\<lambda>sum. sum = 0) (sum_loop (unat len) 0 p 0 s)"

text \<open>Comparison with a signature, byte by byte, up to the first difference.\<close>

fun sig_at :: "string \<Rightarrow> u32 \<Rightarrow> acpi \<Rightarrow> bool option" where
  "sig_at [] p s = Some True"
| "sig_at (c # cs) p s = Option.bind (peek s p) (\<lambda>b. if b = of_char c then sig_at cs (p + 1) s else Some False)"

declare sig_at.simps [simp del]

partial_function (option) scan_rsdp :: "u32 \<Rightarrow> u32 \<Rightarrow> acpi \<Rightarrow> u32 option option" where
  "scan_rsdp a stop s =
     (if \<not> a < stop then Some None
      else Option.bind (sig_at ''RSD PTR '' a s) (\<lambda>hit.
           Option.bind (if hit then checksum_ok a 20 s else Some False) (\<lambda>ok.
             if ok then Some (Some a) else scan_rsdp (a + 16) stop s)))"

definition find_rsdp :: "acpi \<Rightarrow> u32 option option" where
  "find_rsdp s =
     Option.bind (peek s 0x40E) (\<lambda>b0. Option.bind (peek s 0x40F) (\<lambda>b1.
       let ebda = push_bit 4 (ucast b0 OR push_bit 8 (ucast b1)) :: u32
       in Option.bind (if ebda \<ge> 0x80000 \<and> ebda < 0xA0000 then scan_rsdp ebda (ebda + 1024) s else Some None) (\<lambda>p.
            if p \<noteq> None then Some p else scan_rsdp 0xE0000 0x100000 s)))"


text \<open>The position of the name \<open>_S5_\<close> in the bytecode, or the position where the search ends.\<close>

partial_function (option) find_s5 :: "u32 \<Rightarrow> u32 \<Rightarrow> acpi \<Rightarrow> u32 option" where
  "find_s5 p stop s =
     (if \<not> p < stop then Some p
      else Option.bind (sig_at ''_S5_'' p s) (\<lambda>hit. if hit then Some p else find_s5 (p + 1) stop s))"

definition skip_prefix :: "u32 \<Rightarrow> acpi \<Rightarrow> u32 option" where
  "skip_prefix pkg s = map_option (\<lambda>b. if b = 0x0A then pkg + 1 else pkg) (peek s pkg)"

text \<open>The two sleep types of the package whose name stands at \<open>p\<close>.\<close>

definition read_package :: "u32 \<Rightarrow> acpi \<Rightarrow> (int \<times> acpi) option" where
  "read_package p s =
     Option.bind (peek s (p + 5)) (\<lambda>lead.
     Option.bind (skip_prefix (p + 5 + (ucast (drop_bit 6 (lead AND 0xC0)) + 1) + 1) s) (\<lambda>pkg.
     Option.bind (peek s pkg) (\<lambda>a.
     Option.bind (skip_prefix (pkg + 1) s) (\<lambda>pkg.
     map_option (\<lambda>b. (0, s\<lparr>slp_typa := a AND 0x07, slp_typb := b AND 0x07\<rparr>)) (peek s pkg)))))"

text \<open>A real name: the byte before it is a NameOp, or a NameOp and the root character.\<close>

definition is_named :: "u32 \<Rightarrow> acpi \<Rightarrow> bool option" where
  "is_named p s =
     Option.bind (peek s (p - 1)) (\<lambda>m1.
       if m1 = 0x08 then Some True else map_option (\<lambda>m2. m2 = 0x08 \<and> m1 = of_char (CHR 0x5C)) (peek s (p - 2)))"

definition parse_s5 :: "u32 \<Rightarrow> acpi \<Rightarrow> (int \<times> acpi) option" where
  "parse_s5 dsdt s =
     Option.bind (ac_rd32 s (dsdt + 4)) (\<lambda>len.
       if len < 36 \<or> len > 0x100000 then Some (-1, s)
       else let stop = dsdt + len - 4
       in Option.bind (find_s5 (dsdt + 36) stop s) (\<lambda>p.
          if p \<ge> stop then Some (-1, s)
          else Option.bind (is_named p s) (\<lambda>named.
               if \<not> named then Some (-1, s)
               else Option.bind (peek s (p + 4)) (\<lambda>op. if op \<noteq> 0x12 then Some (-1, s) else read_package p s))))"

text \<open>The pointers of the RSDT, from the \<open>i\<close>-th on.\<close>

fun find_fadt :: "nat \<Rightarrow> u32 \<Rightarrow> u32 \<Rightarrow> acpi \<Rightarrow> (u32 option \<times> acpi) option" where
  "find_fadt 0 i rsdt s = Some (None, s)"
| "find_fadt (Suc n) i rsdt s =
     Option.bind (ac_rd32 s (rsdt + 36 + i * 4)) (\<lambda>t.
     Option.bind (map_table t s) (\<lambda>s.
     Option.bind (sig_at ''FACP'' t s) (\<lambda>hit.
       if hit then Some (Some t, s) else find_fadt n (i + 1) rsdt s)))"

definition load_fadt :: "u32 \<Rightarrow> acpi \<Rightarrow> acpi option" where
  "load_fadt fadt s =
     Option.bind (ac_rd32 s (fadt + 48)) (\<lambda>smi. Option.bind (peek s (fadt + 52)) (\<lambda>en.
     Option.bind (ac_rd32 s (fadt + 64)) (\<lambda>a. map_option (\<lambda>b.
       s\<lparr>smi_cmd := ucast smi, acpi_enable := en, pm1a_cnt := ucast a, pm1b_cnt := ucast b\<rparr>) (ac_rd32 s (fadt + 68)))))"

definition load_dsdt :: "u32 \<Rightarrow> acpi \<Rightarrow> acpi option" where
  "load_dsdt dsdt s =
     Option.bind (map_table dsdt s) (\<lambda>s.
     Option.bind (sig_at ''DSDT'' dsdt s) (\<lambda>hit.
       if \<not> hit then Some s
       else map_option (\<lambda>(r, s). if r \<noteq> 0 then s else s\<lparr>available := (pm1a_cnt s \<noteq> 0)\<rparr>) (parse_s5 dsdt s)))"

definition acpi_init :: "acpi \<Rightarrow> acpi option" where
  "acpi_init s =
     (let s = s\<lparr>available := False\<rparr>
      in Option.bind (find_rsdp s) (\<lambda>hit. case hit of
           None \<Rightarrow> Some s
         | Some rsdp \<Rightarrow>
             Option.bind (ac_rd32 s (rsdp + 16)) (\<lambda>rsdt.
             Option.bind (map_table rsdt s) (\<lambda>s.
             Option.bind (sig_at ''RSDT'' rsdt s) (\<lambda>hit.
               if \<not> hit then Some s
               else Option.bind (ac_rd32 s (rsdt + 4)) (\<lambda>len.
                    Option.bind (checksum_ok rsdt len s) (\<lambda>ok.
                    if \<not> ok then Some s
                    else Option.bind (find_fadt (unat ((len - 36) div 4)) 0 rsdt s) (\<lambda>(fadt, s). case fadt of
                           None \<Rightarrow> Some s
                         | Some fadt \<Rightarrow>
                             Option.bind (load_fadt fadt s) (\<lambda>s.
                             Option.bind (ac_rd32 s (fadt + 40)) (\<lambda>dsdt. load_dsdt dsdt s)))))))) ))"

definition acpi_available :: "acpi \<Rightarrow> bool" where "acpi_available s = available s"

fun wait_sci :: "nat \<Rightarrow> acpi \<Rightarrow> acpi" where
  "wait_sci 0 s = s"
| "wait_sci (Suc n) s = (let (v, s) = rd16 (pm1a_cnt s) s in if v AND SCI_EN \<noteq> 0 then s else wait_sci n (bus_wait s))"

definition acpi_poweroff :: "acpi \<Rightarrow> int \<times> acpi" where
  "acpi_poweroff s =
     (if \<not> available s then (-1, s)
      else let (v, s) = rd16 (pm1a_cnt s) s;
               s = (if v AND SCI_EN = 0 \<and> smi_cmd s \<noteq> 0 \<and> acpi_enable s \<noteq> 0
                    then wait_sci 300 (wr8 (smi_cmd s) (acpi_enable s) s) else s);
               s = wr16 (pm1a_cnt s) (push_bit 10 (ucast (slp_typa s)) OR SLP_EN) s;
               s = (if pm1b_cnt s \<noteq> 0 then wr16 (pm1b_cnt s) (push_bit 10 (ucast (slp_typb s)) OR SLP_EN) s else s)
           in (-1, s))"

section \<open>Facts\<close>

lemma wait_sci_fields:
  "told (wait_sci n s) = told s \<and> pm1a_cnt (wait_sci n s) = pm1a_cnt s \<and> pm1b_cnt (wait_sci n s) = pm1b_cnt s \<and>
   slp_typa (wait_sci n s) = slp_typa s \<and> slp_typb (wait_sci n s) = slp_typb s"
proof (induction n arbitrary: s)
  case (Suc n)
  then show ?case by (simp add: Let_def split_beta) (simp add: bus_defs)
qed simp

text \<open>Page tables that have only gained identical mappings.\<close>

definition frames_kept :: "paging \<Rightarrow> paging \<Rightarrow> bool" where
  "frames_kept pg pg' \<longleftrightarrow> managed_frames (pg_pmm pg') = managed_frames (pg_pmm pg) \<and> avail_frames (pg_pmm pg') \<subseteq> avail_frames (pg_pmm pg) \<and>
     tables pg' \<subseteq> tables pg \<union> avail_frames (pg_pmm pg) \<and>
     (\<forall>q. unat q < 2 ^ 20 \<and> pages pg q \<noteq> None \<longrightarrow> pages pg' q = pages pg q)"

definition idmap :: "paging \<Rightarrow> paging \<Rightarrow> bool" where
  "idmap pg pg' \<longleftrightarrow> (pg_inv pg \<longrightarrow> pg_inv pg' \<and> paging_is_enabled pg' = paging_is_enabled pg \<and> frames_kept pg pg' \<and>
     (\<forall>v. paging_get_phys v pg' = paging_get_phys v pg \<or> paging_get_phys v pg = 0xFFFFFFFF \<and> paging_get_phys v pg' = v))"

lemma frames_kept_refl [simp]: "frames_kept pg pg" by (auto simp: frames_kept_def)

lemma frames_kept_trans: "frames_kept a b \<Longrightarrow> frames_kept b c \<Longrightarrow> frames_kept a c"
  unfolding frames_kept_def by (intro conjI) (blast | metis)+

lemma idmap_refl [simp]: "idmap pg pg" by (simp add: idmap_def)

lemma idmap_trans: "idmap a b \<Longrightarrow> idmap b c \<Longrightarrow> idmap a c" using frames_kept_trans [of a b c] by (simp add: idmap_def) metis

lemma aligned_page: "(a AND NOT 0xFFF) AND 0xFFF = (0 :: u32)" "page_aligned (a AND NOT 0xFFF)"
proof -
  have m: "(0xFFF :: u32) = mask 12" by (simp add: mask_eq_exp_minus_1)
  show "(a AND NOT 0xFFF) AND 0xFFF = (0 :: u32)" unfolding m by (rule bit_word_eqI) (auto simp: bit_simps)
  then show "page_aligned (a AND NOT 0xFFF)" unfolding page_aligned_take_bit by (simp add: take_bit_eq_mask m)
qed

lemma aligned_none:
  assumes "page_aligned a" and "paging_get_phys a pg = 0xFFFFFFFF"
  shows "pages pg (drop_bit 12 a) = None"
proof (rule ccontr)
  assume "pages pg (drop_bit 12 a) \<noteq> None"
  then obtain e where Some: "pages pg (drop_bit 12 a) = Some e" by blast
  have "a AND 0xFFF = 0" using assms(1) unfolding page_aligned_take_bit by (simp add: take_bit_eq_mask mask_eq_exp_minus_1)
  then have "e AND ADDR_MASK = 0xFFFFFFFF" using assms(2) Some by (simp add: paging_get_phys_pages)
  then have "page_aligned 0xFFFFFFFF" using page_aligned_and_mask by metis
  then show False by (simp add: page_aligned_def)
qed

lemma aligned_unmapped:
  "page_aligned a \<Longrightarrow> paging_get_phys a pg = 0xFFFFFFFF \<Longrightarrow> drop_bit 12 w = drop_bit 12 a \<Longrightarrow> paging_get_phys w pg = 0xFFFFFFFF"
  using aligned_none [of a pg] by (simp add: paging_get_phys_pages)

lemma frames_kept_map:
  assumes inv: "pg_inv pg" and m: "paging_map v p fl pg = (0, pg')" and n: "pages pg (drop_bit 12 v) = None"
  shows "frames_kept pg pg'"
proof -
  note f = paging_map_frames [OF inv m]
  have "pages pg' q = pages pg q" if "unat q < 2 ^ 20" "pages pg q \<noteq> None" for q
    using paging_map_ok(2) [OF inv m that(1)] n that(2) by auto
  moreover have "avail_frames (pg_pmm pg') \<subseteq> avail_frames (pg_pmm pg)" "tables pg' \<subseteq> tables pg \<union> avail_frames (pg_pmm pg)"
    using f by (auto split: if_splits)
  ultimately show ?thesis using f by (simp add: frames_kept_def)
qed

lemma idmap_step:
  assumes al: "page_aligned a"
  shows "idmap pg (if paging_get_phys a pg = 0xFFFFFFFF then snd (paging_map a a fl pg) else pg)"
proof (cases "paging_get_phys a pg = 0xFFFFFFFF")
  case True
  obtain r pg' where m: "paging_map a a fl pg = (r, pg')" by fastforce
  show ?thesis unfolding idmap_def
  proof (intro impI)
    assume inv: "pg_inv pg"
    show "pg_inv (if paging_get_phys a pg = 0xFFFFFFFF then snd (paging_map a a fl pg) else pg) \<and>
      paging_is_enabled (if paging_get_phys a pg = 0xFFFFFFFF then snd (paging_map a a fl pg) else pg) = paging_is_enabled pg \<and>
      frames_kept pg (if paging_get_phys a pg = 0xFFFFFFFF then snd (paging_map a a fl pg) else pg) \<and>
      (\<forall>v. paging_get_phys v (if paging_get_phys a pg = 0xFFFFFFFF then snd (paging_map a a fl pg) else pg) = paging_get_phys v pg \<or>
        paging_get_phys v pg = 0xFFFFFFFF \<and> paging_get_phys v (if paging_get_phys a pg = 0xFFFFFFFF then snd (paging_map a a fl pg) else pg) = v)"
    proof (cases "r = 0")
      case r: True
      have e: "paging_is_enabled pg' = paging_is_enabled pg"
        using paging_map_frames [OF inv m [unfolded r]] by (simp add: paging_is_enabled_def)
      have t: "paging_get_phys w pg' = (if drop_bit 12 w = drop_bit 12 a then (a AND 0xFFFFF000) OR (w AND 0xFFF) else paging_get_phys w pg)" for w
        using pg.translate_map [OF inv m [unfolded r]] by simp
      have w: "(a AND 0xFFFFF000) OR (w AND 0xFFF) = w" if "drop_bit 12 w = drop_bit 12 a" for w
      proof -
        have k: "(0xFFFFF000 :: u32) = NOT (mask 12)" "(0xFFF :: u32) = mask 12" by (simp_all add: mask_eq_exp_minus_1)
        have b: "bit w (12 + n) = bit a (12 + n)" for n using that by (metis bit_drop_bit_eq comp_apply)
        show ?thesis
        proof (rule bit_word_eqI)
          fix n assume "n < LENGTH(32)"
          then show "bit (a AND 0xFFFFF000 OR w AND 0xFFF) n = bit w n"
            using b [of "n - 12"] unfolding k by (cases "n < 12") (auto simp: bit_simps)
        qed
      qed
      have "paging_get_phys v pg' = paging_get_phys v pg \<or> paging_get_phys v pg = 0xFFFFFFFF \<and> paging_get_phys v pg' = v" for v
        using t [of v] w [of v] aligned_unmapped [OF al True, of v] by (cases "drop_bit 12 v = drop_bit 12 a") simp_all
      moreover have "frames_kept pg pg'" by (rule frames_kept_map [OF inv m [unfolded r] aligned_none [OF al True]])
      ultimately show ?thesis using True m e pg.map_inv [OF inv m [unfolded r]] by simp
    next
      case False
      then show ?thesis using paging_map_fail [OF inv m] m inv by simp
    qed
  qed
qed simp

lemma add_page_aligned: "page_aligned a \<Longrightarrow> page_aligned (a + 0x1000)"
  by (simp add: page_aligned_def unat_word_ariths mod_mod_cancel)

lemma diff_page_aligned: "page_aligned a \<Longrightarrow> page_aligned b \<Longrightarrow> page_aligned (a - b)"
proof -
  assume "page_aligned a" "page_aligned b"
  then obtain x y where "unat a = 4096 * x" "unat b = 4096 * y" by (auto simp: page_aligned_def dvd_def mod_eq_0_iff_dvd)
  then have "a = word_of_nat (4096 * x)" "b = word_of_nat (4096 * y)" by (metis word_unat_eq_iff unat_of_nat_less unat_less_pow)+
  then have "a - b = 4096 * (word_of_nat x - word_of_nat y)" by (simp add: algebra_simps)
  then obtain w where "a - b = 4096 * w" by blast
  then show ?thesis by (simp add: page_aligned_def unat_word_ariths mod_mod_cancel)
qed

lemma map_pages_idmap:
  assumes w: "map_pages a stop pg = Some pg'" and al: "page_aligned a" shows "idmap pg pg'"
proof -
  have "page_aligned a \<longrightarrow> idmap pg pg'"
  proof (rule map_pages.raw_induct [OF _ w])
    fix loop a stop pg pg'
    assume IH: "\<And>a stop pg pg'. loop a stop pg = Some pg' \<Longrightarrow> page_aligned a \<longrightarrow> idmap pg pg'"
      and st: "(if a = stop then Some pg else loop (a + 0x1000) stop
        (if paging_get_phys a pg = 0xFFFFFFFF then snd (paging_map a a (PAGE_PRESENT OR PAGE_WRITE) pg) else pg)) = Some pg'"
    show "page_aligned a \<longrightarrow> idmap pg pg'"
    proof (cases "a = stop")
      case False
      define g where "g = (if paging_get_phys a pg = 0xFFFFFFFF then snd (paging_map a a (PAGE_PRESENT OR PAGE_WRITE) pg) else pg)"
      have l: "loop (a + 0x1000) stop g = Some pg'" using st False unfolding g_def [symmetric] by simp
      show ?thesis
      proof
        assume al: "page_aligned a"
        have "idmap pg g" unfolding g_def by (rule idmap_step [OF al])
        moreover have "idmap g pg'" using IH [OF l] add_page_aligned [OF al] by blast
        ultimately show "idmap pg pg'" by (rule idmap_trans)
      qed
    qed (use st in simp)
  qed
  then show ?thesis using al by blast
qed

text \<open>The loop ends, also across the end of the address space.\<close>

lemma map_pages_returns: "page_aligned (stop - a) \<Longrightarrow> \<exists>pg'. map_pages a stop pg = Some pg'"
proof (induction "unat (stop - a)" arbitrary: a pg rule: less_induct)
  case less
  show ?case
  proof (cases "a = stop")
    case True
    then show ?thesis by (subst map_pages.simps) simp
  next
    case False
    have e: "stop - (a + 0x1000) = (stop - a) - 0x1000" by simp
    have "unat (stop - a) \<noteq> 0" using False by (simp add: unat_eq_0)
    moreover have "unat (stop - a) mod 4096 = 0" using less.prems by (simp add: page_aligned_def)
    ultimately have "4096 \<le> unat (stop - a)" by (metis mod_less not_less)
    then have "unat (stop - (a + 0x1000)) = unat (stop - a) - 4096" unfolding e by (subst unat_minus_simple) (simp_all add: word_le_nat_alt)
    then have "unat (stop - (a + 0x1000)) < unat (stop - a)" using \<open>4096 \<le> unat (stop - a)\<close> by simp
    moreover have "page_aligned (stop - (a + 0x1000))" unfolding e by (rule diff_page_aligned [OF less.prems]) (simp add: page_aligned_def)
    ultimately show ?thesis using less.hyps False by (subst map_pages.simps) simp
  qed
qed

lemma map_phys_returns: "\<exists>t. map_phys addr len s = Some t"
  using map_pages_returns [OF diff_page_aligned [OF aligned_page(2) aligned_page(2)]] by (fastforce simp: map_phys_def)

text \<open>What \<open>acpi_init\<close> does to the machine: it reads, and it adds identical mappings.\<close>

definition grows :: "acpi \<Rightarrow> acpi \<Rightarrow> bool" where
  "grows s t \<longleftrightarrow> idmap (ac_pg s) (ac_pg t) \<and> fw t = fw s \<and> bus_log t = bus_log s"

lemma grows_refl [simp]: "grows s s" by (simp add: grows_def)

lemma grows_trans: "grows a b \<Longrightarrow> grows b c \<Longrightarrow> grows a c" using idmap_trans by (auto simp: grows_def)

lemma map_phys_grows: "map_phys addr len s = Some t \<Longrightarrow> \<exists>pg. t = s\<lparr>ac_pg := pg\<rparr> \<and> grows s t"
  using map_pages_idmap [OF _ aligned_page(2)] by (auto simp: map_phys_def grows_def intro: exI [of _ "ac_pg s"] split: if_splits)

lemma map_table_grows: "map_table phys s = Some t \<Longrightarrow> \<exists>pg. t = s\<lparr>ac_pg := pg\<rparr> \<and> grows s t"
proof -
  assume "map_table phys s = Some t"
  then obtain u len where u: "map_phys phys 64 s = Some u" "(if len > 64 \<and> len < 0x100000 then map_phys phys len u else Some u) = Some t"
    by (auto simp: map_table_def bind_eq_Some_conv)
  from map_phys_grows [OF u(1)] obtain pg where "u = s\<lparr>ac_pg := pg\<rparr>" "grows s u" by blast
  then show ?thesis using u(2) map_phys_grows [of phys len u t] grows_trans by (auto split: if_splits)
qed

lemma peek_grows: "grows s t \<Longrightarrow> pg_inv (ac_pg s) \<Longrightarrow> peek s a = Some b \<Longrightarrow> peek t a = Some b"
  by (auto simp: grows_def idmap_def peek_def Let_def split: if_splits) metis+

lemma rd32_grows:
  assumes "grows s t" and "pg_inv (ac_pg s)" and "ac_rd32 s a = Some b" shows "ac_rd32 t a = Some b"
proof -
  note p = peek_grows [OF assms(1,2)]
  show ?thesis using assms(3) by (auto simp: ac_rd32_def bind_eq_Some_conv p)
qed

lemma sig_grows:
  assumes "grows s t" and "pg_inv (ac_pg s)" shows "sig_at cs p s = Some b \<Longrightarrow> sig_at cs p t = Some b"
proof (induction cs arbitrary: p)
  case (Cons c cs)
  then show ?case using peek_grows [OF assms] by (auto simp: sig_at.simps bind_eq_Some_conv split: if_splits)
qed (simp add: sig_at.simps)

lemma checksum_grows:
  assumes "grows s t" and "pg_inv (ac_pg s)" and "checksum_ok p len s = Some b" shows "checksum_ok p len t = Some b"
proof -
  have "sum_loop n i p acc s = Some v \<Longrightarrow> sum_loop n i p acc t = Some v" for n i acc v
  proof (induction n arbitrary: i acc)
    case (Suc n)
    then show ?case using peek_grows [OF assms(1,2)] by (auto simp: bind_eq_Some_conv)
  qed simp
  then show ?thesis using assms(3) by (auto simp: checksum_ok_def)
qed

lemma inv_grows: "grows s t \<Longrightarrow> pg_inv (ac_pg s) \<Longrightarrow> pg_inv (ac_pg t)"
  by (simp add: grows_def idmap_def)


lemma find_fadt_step:
  assumes "find_fadt (Suc n) i rsdt s = Some (r, t)"
  obtains f u hit where "ac_rd32 s (rsdt + 36 + i * 4) = Some f" "map_table f s = Some u" "sig_at ''FACP'' f u = Some hit"
    "(if hit then Some (Some f, u) else find_fadt n (i + 1) rsdt u) = Some (r, t)"
  using assms unfolding find_fadt.simps bind_eq_Some_conv by blast

definition listed :: "nat \<Rightarrow> u32 \<Rightarrow> u32 \<Rightarrow> u32 \<Rightarrow> acpi \<Rightarrow> bool" where
  "listed n i rsdt fadt t \<longleftrightarrow> (\<exists>k < n. ac_rd32 t (rsdt + 36 + (i + word_of_nat k) * 4) = Some fadt)"

lemma listed_first: "ac_rd32 t (rsdt + 36 + i * 4) = Some fadt \<Longrightarrow> listed (Suc n) i rsdt fadt t"
  unfolding listed_def by (intro exI [of _ 0]) simp

lemma listed_later: "listed n (i + 1) rsdt fadt t \<Longrightarrow> listed (Suc n) i rsdt fadt t"
proof -
  assume "listed n (i + 1) rsdt fadt t"
  then obtain k where "k < n" "ac_rd32 t (rsdt + 36 + (i + 1 + word_of_nat k) * 4) = Some fadt" unfolding listed_def by blast
  then show ?thesis unfolding listed_def by (intro exI [of _ "Suc k"]) (simp add: add.assoc)
qed

lemma find_fadt_sound:
  "find_fadt n i rsdt s = Some (r, t) \<Longrightarrow> pg_inv (ac_pg s) \<Longrightarrow> (\<exists>pg. t = s\<lparr>ac_pg := pg\<rparr>) \<and> grows s t \<and>
     (\<forall>fadt. r = Some fadt \<longrightarrow> sig_at ''FACP'' fadt t = Some True \<and> listed n i rsdt fadt t)"
proof (induction n arbitrary: i s)
  case 0
  then show ?case by (auto intro: exI [of _ "ac_pg s"])
next
  case (Suc n)
  from find_fadt_step [OF Suc.prems(1)] obtain f u hit where
    f: "ac_rd32 s (rsdt + 36 + i * 4) = Some f" "map_table f s = Some u" "sig_at ''FACP'' f u = Some hit"
    and go: "(if hit then Some (Some f, u) else find_fadt n (i + 1) rsdt u) = Some (r, t)" .
  obtain pg where u: "u = s\<lparr>ac_pg := pg\<rparr>" "grows s u" using map_table_grows [OF f(2)] by blast
  have inv: "pg_inv (ac_pg u)" using inv_grows [OF u(2) Suc.prems(2)] .
  show ?case
  proof (cases hit)
    case True
    then have r: "r = Some f" "t = u" using go by simp_all
    have "listed (Suc n) i rsdt f u" by (rule listed_first [OF rd32_grows [OF u(2) Suc.prems(2) f(1)]])
    then show ?thesis unfolding r using f(3) True u by (auto intro: exI [of _ pg])
  next
    case False
    then have "find_fadt n (i + 1) rsdt u = Some (r, t)" using go by simp
    note IH = Suc.IH [OF this inv]
    then obtain pg' where "t = u\<lparr>ac_pg := pg'\<rparr>" by blast
    then have "\<exists>pg. t = s\<lparr>ac_pg := pg\<rparr>" using u(1) by (intro exI [of _ pg']) simp
    then show ?thesis using IH grows_trans [OF u(2)] listed_later by blast
  qed
qed

lemma scan_rsdp_sound:
  assumes w: "scan_rsdp a stop s = Some r"
  shows "\<forall>p. r = Some p \<longrightarrow> sig_at ''RSD PTR '' p s = Some True \<and> checksum_ok p 20 s = Some True"
proof (rule scan_rsdp.raw_induct [OF _ w])
  fix loop a stop s r
  assume IH: "\<And>a stop s r. loop a stop s = Some r \<Longrightarrow> \<forall>p. r = Some p \<longrightarrow> sig_at ''RSD PTR '' p s = Some True \<and> checksum_ok p 20 s = Some True"
    and st: "(if \<not> a < stop then Some None
      else Option.bind (sig_at ''RSD PTR '' a s) (\<lambda>hit. Option.bind (if hit then checksum_ok a 20 s else Some False) (\<lambda>ok.
             if ok then Some (Some a) else loop (a + 16) stop s))) = Some r"
  show "\<forall>p. r = Some p \<longrightarrow> sig_at ''RSD PTR '' p s = Some True \<and> checksum_ok p 20 s = Some True"
  proof (cases "a < stop")
    case True
    obtain hit where h: "sig_at ''RSD PTR '' a s = Some hit" and st2: "Option.bind (if hit then checksum_ok a 20 s else Some False) (\<lambda>ok.
             if ok then Some (Some a) else loop (a + 16) stop s) = Some r"
      using st True by (auto simp: bind_eq_Some_conv)
    obtain ok where ok: "(if hit then checksum_ok a 20 s else Some False) = Some ok" "(if ok then Some (Some a) else loop (a + 16) stop s) = Some r"
      using st2 by (auto simp: bind_eq_Some_conv)
    show ?thesis
    proof (cases ok)
      case True
      then show ?thesis using ok h by (auto split: if_splits)
    next
      case False
      then have "loop (a + 16) stop s = Some r" using ok(2) by simp
      then show ?thesis by (rule IH)
    qed
  qed (use st in simp)
qed

lemma find_rsdp_sound: "find_rsdp s = Some (Some p) \<Longrightarrow> sig_at ''RSD PTR '' p s = Some True \<and> checksum_ok p 20 s = Some True"
  using scan_rsdp_sound by (auto simp: find_rsdp_def bind_eq_Some_conv Let_def split: if_splits)

lemma parse_s5_sound:
  assumes "parse_s5 dsdt s = Some (r, t)"
  shows "t = s \<and> r = -1 \<or> r = 0 \<and> (\<exists>a b. t = s\<lparr>slp_typa := a AND 7, slp_typb := b AND 7\<rparr>)"
proof -
  have "read_package p s = Some (r, t) \<Longrightarrow> r = 0 \<and> (\<exists>a b. t = s\<lparr>slp_typa := a AND 7, slp_typb := b AND 7\<rparr>)" for p
    by (auto simp: read_package_def bind_eq_Some_conv)
  then show ?thesis
    using assms by (auto simp: parse_s5_def bind_eq_Some_conv Let_def split: if_splits)
qed


lemma grows_fields: "ac_pg u = ac_pg t \<Longrightarrow> fw u = fw t \<Longrightarrow> bus_log u = bus_log t \<Longrightarrow> grows t u"
  by (simp add: grows_def)

lemma load_fadt_sound:
  "load_fadt fadt s = Some t \<Longrightarrow> grows s t \<and> available t = available s \<and> (\<exists>v. ac_rd32 s (fadt + 64) = Some v \<and> pm1a_cnt t = ucast v)"
  by (auto simp: load_fadt_def bind_eq_Some_conv intro!: grows_fields)

lemma load_dsdt_sound:
  assumes "load_dsdt dsdt s = Some t" and inv: "pg_inv (ac_pg s)" and un: "\<not> available s"
  shows "grows s t \<and> pm1a_cnt t = pm1a_cnt s \<and>
    (available t \<longrightarrow> sig_at ''DSDT'' dsdt t = Some True \<and> pm1a_cnt t \<noteq> 0 \<and> slp_typa t < 8 \<and> slp_typb t < 8)"
proof -
  obtain u hit where u: "map_table dsdt s = Some u" "sig_at ''DSDT'' dsdt u = Some hit"
    "(if \<not> hit then Some u else map_option (\<lambda>(r, s). if r \<noteq> 0 then s else s\<lparr>available := (pm1a_cnt s \<noteq> 0)\<rparr>) (parse_s5 dsdt u)) = Some t"
    using assms(1) unfolding load_dsdt_def bind_eq_Some_conv by blast
  obtain pg where up: "u = s\<lparr>ac_pg := pg\<rparr>" "grows s u" using map_table_grows [OF u(1)] by blast
  have inv2: "pg_inv (ac_pg u)" using inv_grows [OF up(2) inv] .
  have and7: "x AND 7 < 8" for x :: u8 using word_and_le1 [of x 7] by (simp add: word_le_nat_alt word_less_nat_alt)
  consider "t = u" | a b where "hit" "t = u\<lparr>slp_typa := a AND 7, slp_typb := b AND 7, available := (pm1a_cnt u \<noteq> 0)\<rparr>"
  proof (cases hit)
    case True
    then obtain r w where w: "parse_s5 dsdt u = Some (r, w)" "t = (if r \<noteq> 0 then w else w\<lparr>available := (pm1a_cnt w \<noteq> 0)\<rparr>)" using u(3) by auto
    from parse_s5_sound [OF w(1)] show thesis
    proof
      assume "w = u \<and> r = -1"
      then show thesis using w(2) that(1) by simp
    next
      assume "r = 0 \<and> (\<exists>a b. w = u\<lparr>slp_typa := a AND 7, slp_typb := b AND 7\<rparr>)"
      then obtain a b where "r = 0" "w = u\<lparr>slp_typa := a AND 7, slp_typb := b AND 7\<rparr>" by blast
      then show thesis using w(2) that(2) [OF True, of b a] by simp
    qed
  qed (use u(3) that(1) in simp)
  then show ?thesis
  proof cases
    case 1
    then show ?thesis using up un by simp
  next
    case 2
    have g: "grows u t" unfolding 2 by (rule grows_fields) simp_all
    have "sig_at ''DSDT'' dsdt t = Some True" using sig_grows [OF g inv2 u(2)] 2(1) by simp
    moreover have "pm1a_cnt t = pm1a_cnt s" "slp_typa t < 8" "slp_typb t < 8" unfolding 2 up(1) by (simp_all add: and7)
    moreover have "available t \<longrightarrow> pm1a_cnt t \<noteq> 0" unfolding 2 by simp
    ultimately show ?thesis using grows_trans [OF up(2) g] by blast
  qed
qed

text \<open>The chain of tables that the search has followed, as it reads in a state.\<close>

definition acpi_chain :: "u32 \<Rightarrow> u32 \<Rightarrow> u32 \<Rightarrow> u32 \<Rightarrow> u32 \<Rightarrow> acpi \<Rightarrow> bool" where
  "acpi_chain rsdp rsdt len fadt dsdt t \<longleftrightarrow>
     sig_at ''RSD PTR '' rsdp t = Some True \<and> checksum_ok rsdp 20 t = Some True \<and> ac_rd32 t (rsdp + 16) = Some rsdt \<and>
     sig_at ''RSDT'' rsdt t = Some True \<and> ac_rd32 t (rsdt + 4) = Some len \<and> checksum_ok rsdt len t = Some True \<and>
     listed (unat ((len - 36) div 4)) 0 rsdt fadt t \<and> sig_at ''FACP'' fadt t = Some True \<and>
     (\<exists>v. ac_rd32 t (fadt + 64) = Some v \<and> pm1a_cnt t = ucast v) \<and> ac_rd32 t (fadt + 40) = Some dsdt \<and> sig_at ''DSDT'' dsdt t = Some True"

lemma listed_grows: "grows s t \<Longrightarrow> pg_inv (ac_pg s) \<Longrightarrow> listed n i rsdt fadt s \<Longrightarrow> listed n i rsdt fadt t"
  using rd32_grows unfolding listed_def by blast

lemma acpi_init_sound:
  assumes inv: "pg_inv (ac_pg s)" and "acpi_init s = Some t"
  shows "grows s t \<and> (available t \<longrightarrow> pm1a_cnt t \<noteq> 0 \<and> slp_typa t < 8 \<and> slp_typb t < 8 \<and> (\<exists>rsdp rsdt len fadt dsdt. acpi_chain rsdp rsdt len fadt dsdt t))"
proof -
  define s0 where "s0 = s\<lparr>available := False\<rparr>"
  have g0: "grows s s0" unfolding s0_def by (rule grows_fields) simp_all
  have inv0: "pg_inv (ac_pg s0)" "\<not> available s0" using inv by (simp_all add: s0_def)
  obtain hit where hit: "find_rsdp s0 = Some hit" and st: "(case hit of None \<Rightarrow> Some s0 | Some rsdp \<Rightarrow>
      Option.bind (ac_rd32 s0 (rsdp + 16)) (\<lambda>rsdt. Option.bind (map_table rsdt s0) (\<lambda>s. Option.bind (sig_at ''RSDT'' rsdt s) (\<lambda>hit.
        if \<not> hit then Some s else Option.bind (ac_rd32 s (rsdt + 4)) (\<lambda>len. Option.bind (checksum_ok rsdt len s) (\<lambda>ok.
          if \<not> ok then Some s else Option.bind (find_fadt (unat ((len - 36) div 4)) 0 rsdt s) (\<lambda>(fadt, s). case fadt of
            None \<Rightarrow> Some s | Some fadt \<Rightarrow> Option.bind (load_fadt fadt s) (\<lambda>s. Option.bind (ac_rd32 s (fadt + 40)) (\<lambda>dsdt. load_dsdt dsdt s))))))))) = Some t"
    using assms(2) unfolding acpi_init_def Let_def s0_def [symmetric] bind_eq_Some_conv by blast
  show ?thesis
  proof (cases hit)
    case None
    then show ?thesis using st g0 inv0(2) by simp
  next
    case (Some rsdp)
    obtain rsdt u h1 where r: "ac_rd32 s0 (rsdp + 16) = Some rsdt" and u: "map_table rsdt s0 = Some u" and h1: "sig_at ''RSDT'' rsdt u = Some h1"
      and st1: "(if \<not> h1 then Some u else Option.bind (ac_rd32 u (rsdt + 4)) (\<lambda>len. Option.bind (checksum_ok rsdt len u) (\<lambda>ok.
          if \<not> ok then Some u else Option.bind (find_fadt (unat ((len - 36) div 4)) 0 rsdt u) (\<lambda>(fadt, s). case fadt of
            None \<Rightarrow> Some s | Some fadt \<Rightarrow> Option.bind (load_fadt fadt s) (\<lambda>s. Option.bind (ac_rd32 s (fadt + 40)) (\<lambda>dsdt. load_dsdt dsdt s)))))) = Some t"
      using st unfolding Some option.case bind_eq_Some_conv by blast
    have up: "grows s0 u" "available u = available s0" using map_table_grows [OF u] by auto
    have gu: "grows s u" using grows_trans [OF g0 up(1)] .
    have invu: "pg_inv (ac_pg u)" using inv_grows [OF up(1) inv0(1)] .
    show ?thesis
    proof (cases h1)
      case False
      then show ?thesis using st1 gu up inv0(2) by simp
    next
      case True
      then have n1: "\<not> \<not> h1" by simp
      obtain len ok where len: "ac_rd32 u (rsdt + 4) = Some len" "checksum_ok rsdt len u = Some ok"
        and st2: "(if \<not> ok then Some u else Option.bind (find_fadt (unat ((len - 36) div 4)) 0 rsdt u) (\<lambda>(fadt, s). case fadt of
            None \<Rightarrow> Some s | Some fadt \<Rightarrow> Option.bind (load_fadt fadt s) (\<lambda>s. Option.bind (ac_rd32 s (fadt + 40)) (\<lambda>dsdt. load_dsdt dsdt s)))) = Some t"
        using st1 unfolding if_not_P [OF n1] bind_eq_Some_conv by blast
      show ?thesis
      proof (cases ok)
        case False
        then show ?thesis using st2 gu up inv0(2) by simp
      next
        case ok: True
        then have n2: "\<not> \<not> ok" by simp
        obtain fr v where v: "find_fadt (unat ((len - 36) div 4)) 0 rsdt u = Some (fr, v)"
          and st3: "(case fr of None \<Rightarrow> Some v | Some fadt \<Rightarrow> Option.bind (load_fadt fadt v) (\<lambda>s. Option.bind (ac_rd32 s (fadt + 40)) (\<lambda>dsdt. load_dsdt dsdt s))) = Some t"
          using st2 unfolding if_not_P [OF n2] bind_eq_Some_conv by auto
        note fv = find_fadt_sound [OF v invu]
        have av: "\<not> available v" using fv up inv0(2) by auto
        have gv: "grows s v" using grows_trans [OF gu] fv by blast
        have invv: "pg_inv (ac_pg v)" using inv_grows [OF _ invu] fv by blast
        show ?thesis
        proof (cases fr)
          case None
          then show ?thesis using st3 gv av by simp
        next
          case fadt: (Some fadt)
          obtain w dsdt where w: "load_fadt fadt v = Some w" "ac_rd32 w (fadt + 40) = Some dsdt" "load_dsdt dsdt w = Some t"
            using st3 unfolding fadt option.case bind_eq_Some_conv by blast
          note lw = load_fadt_sound [OF w(1)]
          have invw: "pg_inv (ac_pg w)" using inv_grows [OF _ invv] lw by blast
          note lt = load_dsdt_sound [OF w(3) invw]
          have nw: "\<not> available w" using lw av by simp
          have gw: "grows w t" "grows v t" "grows u t" "grows s0 t" using lt [OF nw] lw fv up(1) grows_trans by blast+
          obtain x where x: "ac_rd32 v (fadt + 64) = Some x" "pm1a_cnt w = ucast x" using lw by blast
          have "available t \<Longrightarrow> acpi_chain rsdp rsdt len fadt dsdt t"
            unfolding acpi_chain_def
            using lt [OF nw] x(2) rd32_grows [OF gw(2) invv x(1)] rd32_grows [OF gw(1) invw w(2)] sig_grows [OF gw(2) invv] fv fadt
              listed_grows [OF gw(2) invv] checksum_grows [OF gw(3) invu len(2)] rd32_grows [OF gw(3) invu len(1)] sig_grows [OF gw(3) invu h1]
              rd32_grows [OF gw(4) inv0(1) r] find_rsdp_sound [OF hit [unfolded Some]] sig_grows [OF gw(4) inv0(1)] checksum_grows [OF gw(4) inv0(1)] True ok
            by auto
          then show ?thesis using lt [OF nw] grows_trans [OF g0 gw(4)] by blast
        qed
      qed
    qed
  qed
qed


section \<open>Properties\<close>


text \<open>
  A machine with paging still off whose tables lie behind the EBDA pointer, one after the other: the RSDP, an
  RSDT with one entry, the FADT, and a DSDT with the package \<open>Name (_S5_, Package (4) {5, 3})\<close>.
\<close>

definition sample_acpi :: acpi where
  "sample_acpi = \<lparr>bus_in = (\<lambda>n p. 0), bus_reads = 0, bus_log = [], ac_pg = (paging_init small_boot)\<lparr>enabled := False\<rparr>,
     fw = (\<lambda>_. 0)(
       0x40F := 0x80, 0x80000 := 0x52, 0x80001 := 0x53, 0x80002 := 0x44, 0x80003 := 0x20, 0x80004 := 0x50, 0x80005 := 0x54, 0x80006 := 0x52, 0x80007 := 0x20, 0x80008 := 0xC1,
       0x80010 := 0x18, 0x80012 := 0x8, 0x80018 := 0x52, 0x80019 := 0x53, 0x8001A := 0x44, 0x8001B := 0x54, 0x8001C := 0x28, 0x80020 := 0x53, 0x8003C := 0x40, 0x8003E := 0x8,
       0x80040 := 0x46, 0x80041 := 0x41, 0x80042 := 0x43, 0x80043 := 0x50, 0x80044 := 0x48, 0x80068 := 0x88, 0x8006A := 0x8, 0x80070 := 0xB2, 0x80074 := 0xF1, 0x80080 := 0x4,
       0x80081 := 0x6, 0x80088 := 0x44, 0x80089 := 0x53, 0x8008A := 0x44, 0x8008B := 0x54, 0x8008C := 0x34, 0x800AC := 0x8, 0x800AD := 0x5F, 0x800AE := 0x53, 0x800AF := 0x35,
       0x800B0 := 0x5F, 0x800B1 := 0x12, 0x800B2 := 0x6, 0x800B3 := 0x4, 0x800B4 := 0xA, 0x800B5 := 0x5, 0x800B6 := 0xA, 0x800B7 := 0x3),
     available = False, pm1a_cnt = 0, pm1b_cnt = 0, slp_typa = 0, slp_typb = 0, smi_cmd = 0, acpi_enable = 0\<rparr>"

lemma sample_peek:
  assumes "fw s = fw sample_acpi" and "ac_pg s = ac_pg sample_acpi"
  shows "peek s a = Some (fw sample_acpi a)"
  using assms by (simp add: peek_def sample_acpi_def paging_is_enabled_def)

lemma sum_loop_numeral:
  "sum_loop (numeral k) i p acc s = Option.bind (peek s (p + i)) (\<lambda>b. sum_loop (pred_numeral k) (i + 1) p (acc + b) s)"
  by (simp add: numeral_eq_Suc)

lemma sample_flat:
  assumes "ac_pg s = ac_pg sample_acpi" shows "map_phys a n s = Some s"
  using assms by (simp add: map_phys_def sample_acpi_def paging_is_enabled_def)

lemmas sample_eval = sample_peek sample_flat sig_at.simps ac_rd32_def

lemma sample_rsdp:
  assumes "fw s = fw sample_acpi" and "ac_pg s = ac_pg sample_acpi"
  shows "find_rsdp s = Some (Some 0x80000)"
proof -
  have sig: "sig_at ''RSD PTR '' 0x80000 s = Some True" using assms by (simp add: sample_eval) (simp add: sample_acpi_def)
  have "sum_loop 20 0 0x80000 0 s = Some 0" using assms by (simp add: sum_loop_numeral sample_peek) (simp add: sample_acpi_def)
  then have "scan_rsdp 0x80000 0x80400 s = Some (Some 0x80000)" by (subst scan_rsdp.simps) (simp add: sig checksum_ok_def)
  then show ?thesis using assms by (simp add: find_rsdp_def sample_peek) (simp add: sample_acpi_def Let_def)
qed

lemma sample_rsdt:
  assumes "fw s = fw sample_acpi" and "ac_pg s = ac_pg sample_acpi"
  shows "ac_rd32 s 0x80010 = Some 0x80018" "ac_rd32 s 0x8001C = Some 40" "map_table 0x80018 s = Some s" "sig_at ''RSDT'' 0x80018 s = Some True"
    "checksum_ok 0x80018 40 s = Some True" "ac_rd32 s 0x8003C = Some 0x80040"
proof -
  show len: "ac_rd32 s 0x8001C = Some 40" "ac_rd32 s 0x80010 = Some 0x80018" "ac_rd32 s 0x8003C = Some 0x80040" "sig_at ''RSDT'' 0x80018 s = Some True"
    using assms by (simp add: sample_eval, simp add: sample_acpi_def)+
  show "map_table 0x80018 s = Some s" using len(1) assms by (simp add: map_table_def sample_flat)
  have "sum_loop 40 0 0x80018 0 s = Some 0" using assms by (simp add: sum_loop_numeral sample_peek) (simp add: sample_acpi_def)
  then show "checksum_ok 0x80018 40 s = Some True" by (simp add: checksum_ok_def)
qed

lemma sample_fadt:
  assumes "fw s = fw sample_acpi" and "ac_pg s = ac_pg sample_acpi"
  shows "map_table 0x80040 s = Some s" "sig_at ''FACP'' 0x80040 s = Some True" "ac_rd32 s 0x80068 = Some 0x80088"
    "load_fadt 0x80040 s = Some (s\<lparr>smi_cmd := 0xB2, acpi_enable := 0xF1, pm1a_cnt := 0x604, pm1b_cnt := 0\<rparr>)"
proof -
  have "ac_rd32 s 0x80044 = Some 0x48" "ac_rd32 s 0x80070 = Some 0xB2" "ac_rd32 s 0x80080 = Some 0x604" "ac_rd32 s 0x80084 = Some 0" "peek s 0x80074 = Some 0xF1"
    using assms by (simp add: sample_eval, simp add: sample_acpi_def)+
  then show "map_table 0x80040 s = Some s" "load_fadt 0x80040 s = Some (s\<lparr>smi_cmd := 0xB2, acpi_enable := 0xF1, pm1a_cnt := 0x604, pm1b_cnt := 0\<rparr>)"
    using assms by (simp_all add: map_table_def sample_flat load_fadt_def)
  show "sig_at ''FACP'' 0x80040 s = Some True" "ac_rd32 s 0x80068 = Some 0x80088"
    using assms by (simp add: sample_eval, simp add: sample_acpi_def)+
qed

lemma sample_dsdt:
  assumes "fw s = fw sample_acpi" and "ac_pg s = ac_pg sample_acpi" and "pm1a_cnt s \<noteq> 0"
  shows "load_dsdt 0x80088 s = Some (s\<lparr>slp_typa := 5, slp_typb := 3, available := True\<rparr>)"
proof -
  have len: "ac_rd32 s 0x8008C = Some 0x34" using assms by (simp add: sample_eval) (simp add: sample_acpi_def)
  have m: "map_table 0x80088 s = Some s" using len assms by (simp add: map_table_def sample_flat)
  have sig: "sig_at ''DSDT'' 0x80088 s = Some True" "sig_at ''_S5_'' 0x800AC s = Some False" "sig_at ''_S5_'' 0x800AD s = Some True"
    using assms by (simp add: sample_eval, simp add: sample_acpi_def)+
  have f2: "find_s5 0x800AD 0x800B8 s = Some 0x800AD" by (subst find_s5.simps) (simp add: sig)
  have f1: "find_s5 0x800AC 0x800B8 s = Some 0x800AD" by (subst find_s5.simps) (simp add: sig f2)
  have n: "is_named 0x800AD s = Some True" "peek s 0x800B1 = Some 0x12" using assms by (simp add: is_named_def sample_peek, simp add: sample_acpi_def)+
  have p: "read_package 0x800AD s = Some (0, s\<lparr>slp_typa := 5, slp_typb := 3\<rparr>)"
    using assms by (simp add: read_package_def skip_prefix_def sample_peek) (simp add: sample_acpi_def)
  show ?thesis using assms(3) by (simp add: load_dsdt_def m sig parse_s5_def len f1 n p Let_def)
qed


text \<open>
  Powering off writes exactly the sleep command to the control registers, after asking for ACPI mode when the
  chipset is not in it; without the tables nothing is written.
\<close>

theorem acpi_poweroff_told:
  "fst (acpi_poweroff s) = -1 \<and> told (snd (acpi_poweroff s)) = told s @
    (if \<not> available s then []
     else (if (ucast (bus_in s (bus_reads s) (pm1a_cnt s)) :: u16) AND 1 = 0 \<and> smi_cmd s \<noteq> 0 \<and> acpi_enable s \<noteq> 0 then filter is_out [Out8 (smi_cmd s) (acpi_enable s)] else []) @
       [Out16 (pm1a_cnt s) (push_bit 10 (ucast (slp_typa s)) OR 0x2000)] @
       (if pm1b_cnt s \<noteq> 0 then [Out16 (pm1b_cnt s) (push_bit 10 (ucast (slp_typb s)) OR 0x2000)] else []))"
proof (cases "available s")
  case True
  let ?c = "(ucast (bus_in s (bus_reads s) (pm1a_cnt s)) :: u16) AND 1 = 0 \<and> smi_cmd s \<noteq> 0 \<and> acpi_enable s \<noteq> 0"
  define u where "u = snd (rd16 (pm1a_cnt s) s)"
  have r: "rd16 (pm1a_cnt s) s = (ucast (bus_in s (bus_reads s) (pm1a_cnt s)), u)" by (simp add: rd16_def u_def)
  have u: "smi_cmd u = smi_cmd s" "acpi_enable u = acpi_enable s" "pm1a_cnt u = pm1a_cnt s" "pm1b_cnt u = pm1b_cnt s"
    "slp_typa u = slp_typa s" "slp_typb u = slp_typb s" "told u = told s" by (simp_all add: rd16_def u_def told_def)
  have k8: "pm1a_cnt (wr8 p v x) = pm1a_cnt x" "pm1b_cnt (wr8 p v x) = pm1b_cnt x" "slp_typa (wr8 p v x) = slp_typa x" "slp_typb (wr8 p v x) = slp_typb x"
    for p v and x :: acpi by (simp_all add: wr8_def)
  define w where "w = (if ?c then wait_sci 300 (wr8 (smi_cmd s) (acpi_enable s) u) else u)"
  have w: "told w = told s @ (if ?c then filter is_out [Out8 (smi_cmd s) (acpi_enable s)] else [])" "pm1a_cnt w = pm1a_cnt s" "pm1b_cnt w = pm1b_cnt s"
    "slp_typa w = slp_typa s" "slp_typb w = slp_typb s"
    unfolding w_def using u wait_sci_fields [of 300 "wr8 (smi_cmd s) (acpi_enable s) u"] by (auto simp: k8)
  have k: "pm1b_cnt (wr16 p v w) = pm1b_cnt w" "slp_typb (wr16 p v w) = slp_typb w" for p v by (simp_all add: wr16_def)
  have "acpi_poweroff s = (-1, let t = wr16 (pm1a_cnt s) (push_bit 10 (ucast (slp_typa s)) OR 0x2000) w
      in if pm1b_cnt s \<noteq> 0 then wr16 (pm1b_cnt s) (push_bit 10 (ucast (slp_typb s)) OR 0x2000) t else t)"
    unfolding acpi_poweroff_def Let_def r prod.case u SCI_EN_def w_def [symmetric] using True by (simp add: w k SLP_EN_def)
  then show ?thesis using True w by (simp add: Let_def)
qed (simp add: acpi_poweroff_def)

end
