(* ===== verification/Vga.thy ===== *)
theory Vga
  imports Acpi
begin

text \<open>
  The display driver of \<open>drivers/vga.c\<close>: register-level mode setting, the Bochs display interface, the VESA BIOS,
  and the switch back to text mode. The BIOS is not part of the repository: \<open>bios n\<close> is what its \<open>n\<close>-th call does
  to the registers and to low memory. \<open>font_plane\<close> is what the window at 0xA0000 shows while the font plane is
  selected, \<open>text_mem\<close> the text memory; drawing may change both. The mapping of the frame buffer is the
  loop of \<open>drivers/acpi.c\<close>, which \<open>map_range\<close> repeats.
\<close>

section \<open>State\<close>

record regs16 =
  r_di :: u16
  r_si :: u16
  r_bp :: u16
  r_sp :: u16
  r_bx :: u16
  r_dx :: u16
  r_cx :: u16
  r_ax :: u16
  r_gs :: u16
  r_fs :: u16
  r_es :: u16
  r_ds :: u16
  r_flags :: u16

record vdev = bus +
  v_pg :: paging
  low :: "u32 \<Rightarrow> u8"
  bios :: "nat \<Rightarrow> u8 \<Rightarrow> regs16 \<times> (u32 \<Rightarrow> u8) \<Rightarrow> regs16 \<times> (u32 \<Rightarrow> u8)"
  bios_calls :: nat
  font_plane :: "nat \<Rightarrow> u8"
  text_mem :: "nat \<Rightarrow> u16"
  g_mode :: nat
  g_kind :: nat
  g_width :: nat
  g_height :: nat
  g_bpp :: nat
  g_pitch :: u32
  g_fb :: u32
  font_backup :: "nat \<Rightarrow> u8"

definition MISC_WRITE :: u16 where "MISC_WRITE = 0x3C2"
definition SEQ_INDEX :: u16 where "SEQ_INDEX = 0x3C4"
definition SEQ_DATA :: u16 where "SEQ_DATA = 0x3C5"
definition GC_INDEX :: u16 where "GC_INDEX = 0x3CE"
definition GC_DATA :: u16 where "GC_DATA = 0x3CF"
definition CRTC_INDEX :: u16 where "CRTC_INDEX = 0x3D4"
definition CRTC_DATA :: u16 where "CRTC_DATA = 0x3D5"
definition AC_INDEX :: u16 where "AC_INDEX = 0x3C0"
definition AC_WRITE :: u16 where "AC_WRITE = 0x3C0"
definition INPUT_STATUS :: u16 where "INPUT_STATUS = 0x3DA"
definition DAC_WRITE :: u16 where "DAC_WRITE = 0x3C8"
definition DAC_DATA :: u16 where "DAC_DATA = 0x3C9"
definition VBE_INDEX :: u16 where "VBE_INDEX = 0x01CE"
definition VBE_DATA :: u16 where "VBE_DATA = 0x01CF"
definition VBE_I_ID :: u16 where "VBE_I_ID = 0"
definition VBE_I_XRES :: u16 where "VBE_I_XRES = 1"
definition VBE_I_YRES :: u16 where "VBE_I_YRES = 2"
definition VBE_I_BPP :: u16 where "VBE_I_BPP = 3"
definition VBE_I_ENABLE :: u16 where "VBE_I_ENABLE = 4"
definition VBE_I_VWIDTH :: u16 where "VBE_I_VWIDTH = 6"
definition VBE_ENABLED :: u16 where "VBE_ENABLED = 0x01"
definition VBE_GETCAPS :: u16 where "VBE_GETCAPS = 0x02"
definition VBE_LFB :: u16 where "VBE_LFB = 0x40"
definition VBE_INFO :: u32 where "VBE_INFO = 0x8000"
definition VBE_MODE :: u32 where "VBE_MODE = 0x8200"

definition mode_13h :: "u8 list" where
  "mode_13h = [0x63,
     0x03, 0x01, 0x0F, 0x00, 0x0E,
     0x5F, 0x4F, 0x50, 0x82, 0x54, 0x80, 0xBF, 0x1F,
     0x00, 0x41, 0x00, 0x00, 0x00, 0x00, 0x00, 0x00,
     0x9C, 0x0E, 0x8F, 0x28, 0x40, 0x96, 0xB9, 0xA3,
     0xFF,
     0x00, 0x00, 0x00, 0x00, 0x00, 0x40, 0x05, 0x0F, 0xFF,
     0x00, 0x01, 0x02, 0x03, 0x04, 0x05, 0x06, 0x07,
     0x08, 0x09, 0x0A, 0x0B, 0x0C, 0x0D, 0x0E, 0x0F,
     0x41, 0x00, 0x0F, 0x00, 0x00]"

definition mode_03h :: "u8 list" where
  "mode_03h = [0x67,
     0x03, 0x00, 0x03, 0x00, 0x02,
     0x5F, 0x4F, 0x50, 0x82, 0x55, 0x81, 0xBF, 0x1F,
     0x00, 0x4F, 0x0D, 0x0E, 0x00, 0x00, 0x00, 0x50,
     0x9C, 0x0E, 0x8F, 0x28, 0x1F, 0x96, 0xB9, 0xA3,
     0xFF,
     0x00, 0x00, 0x00, 0x00, 0x00, 0x10, 0x0E, 0x00, 0xFF,
     0x00, 0x01, 0x02, 0x03, 0x04, 0x05, 0x06, 0x07,
     0x08, 0x09, 0x0A, 0x0B, 0x0C, 0x0D, 0x0E, 0x0F,
     0x0C, 0x00, 0x0F, 0x08, 0x00]"

definition dac16 :: "(u8 \<times> u8 \<times> u8) list" where
  "dac16 = [(0, 0, 0), (0, 0, 42), (0, 42, 0), (0, 42, 42),
     (42, 0, 0), (42, 0, 42), (42, 21, 0), (42, 42, 42),
     (21, 21, 21), (21, 21, 63), (21, 63, 21), (21, 63, 63),
     (63, 21, 21), (63, 21, 63), (63, 63, 21), (63, 63, 63)]"

section \<open>Register-level mode setting\<close>

definition write_pair :: "u16 \<Rightarrow> u16 \<Rightarrow> u8 \<times> u8 \<Rightarrow> vdev \<Rightarrow> vdev" where
  "write_pair ip dp iv s = wr8 dp (snd iv) (wr8 ip (fst iv) s)"

definition numbered :: "u8 list \<Rightarrow> (u8 \<times> u8) list" where
  "numbered vs = zip (map word_of_nat [0..<length vs]) vs"

definition write_attr :: "u8 \<times> u8 \<Rightarrow> vdev \<Rightarrow> vdev" where
  "write_attr iv s = wr8 AC_WRITE (snd iv) (wr8 AC_INDEX (fst iv) (snd (rd8 INPUT_STATUS s)))"

definition unlock_crtc :: "vdev \<Rightarrow> vdev" where
  "unlock_crtc s =
     (let s = wr8 CRTC_INDEX 0x03 s; (v, s) = rd8 CRTC_DATA s; s = wr8 CRTC_DATA (v OR 0x80) s;
          s = wr8 CRTC_INDEX 0x11 s; (v, s) = rd8 CRTC_DATA s
      in wr8 CRTC_DATA (v AND NOT 0x80) s)"

definition write_regs :: "u8 list \<Rightarrow> vdev \<Rightarrow> vdev" where
  "write_regs regs s =
     (let s = wr8 MISC_WRITE (regs ! 0) s;
          s = fold (write_pair SEQ_INDEX SEQ_DATA) (numbered (take 5 (drop 1 regs))) s;
          s = unlock_crtc s;
          crtc = take 25 (drop 6 regs);
          crtc = crtc[0x03 := crtc ! 0x03 OR 0x80];
          crtc = crtc[0x11 := crtc ! 0x11 AND NOT 0x80];
          s = fold (write_pair CRTC_INDEX CRTC_DATA) (numbered crtc) s;
          s = fold (write_pair GC_INDEX GC_DATA) (numbered (take 9 (drop 31 regs))) s;
          s = fold write_attr (numbered (take 21 (drop 40 regs))) s
      in wr8 AC_INDEX 0x20 (snd (rd8 INPUT_STATUS s)))"

definition seq :: "u8 \<Rightarrow> u8 \<Rightarrow> vdev \<Rightarrow> vdev" where "seq i v = write_pair SEQ_INDEX SEQ_DATA (i, v)"
definition gc :: "u8 \<Rightarrow> u8 \<Rightarrow> vdev \<Rightarrow> vdev" where "gc i v = write_pair GC_INDEX GC_DATA (i, v)"

definition font_access_begin :: "vdev \<Rightarrow> vdev" where
  "font_access_begin s = gc 0x06 0x00 (gc 0x05 0x00 (gc 0x04 0x02 (seq 0x00 0x03 (seq 0x04 0x07 (seq 0x02 0x04 (seq 0x00 0x01 s))))))"

definition font_access_end :: "vdev \<Rightarrow> vdev" where
  "font_access_end s = gc 0x06 0x0E (gc 0x05 0x10 (gc 0x04 0x00 (seq 0x00 0x03 (seq 0x04 0x03 (seq 0x02 0x03 (seq 0x00 0x01 s))))))"

definition save_font :: "vdev \<Rightarrow> vdev" where
  "save_font s =
     (let s = font_access_begin s;
          s = s\<lparr>font_backup := (\<lambda>i. if i < 256 * 32 then font_plane s i else font_backup s i)\<rparr>
      in font_access_end s)"

definition restore_font :: "vdev \<Rightarrow> vdev" where
  "restore_font s =
     (let s = font_access_begin s;
          s = s\<lparr>font_plane := (\<lambda>i. if i < 256 * 32 then font_backup s i else font_plane s i)\<rparr>
      in font_access_end s)"

section \<open>The Bochs interface\<close>

definition vbe_write :: "u16 \<Rightarrow> u16 \<Rightarrow> vdev \<Rightarrow> vdev" where
  "vbe_write index val s = wr16 VBE_DATA val (wr16 VBE_INDEX index s)"

definition vbe_read :: "u16 \<Rightarrow> vdev \<Rightarrow> u16 \<times> vdev" where
  "vbe_read index s = rd16 VBE_DATA (wr16 VBE_INDEX index s)"

definition cfg32 :: "u32 \<Rightarrow> vdev \<Rightarrow> u32 \<times> vdev" where
  "cfg32 a s = rd32 0xCFC (wr32 0xCF8 a s)"

fun lfb_from :: "nat \<Rightarrow> u32 \<Rightarrow> vdev \<Rightarrow> u32 \<times> vdev" where
  "lfb_from 0 dev s = (0, s)"
| "lfb_from (Suc n) dev s =
     (let addr = 0x80000000 OR push_bit 11 dev; (ident, s) = cfg32 (addr OR 0x00) s
      in if ident AND 0xFFFF = 0xFFFF then lfb_from n (dev + 1) s
         else let (cls, s) = cfg32 (addr OR 0x08) s
              in if drop_bit 24 cls \<noteq> 0x03 then lfb_from n (dev + 1) s
                 else let (bar, s) = cfg32 (addr OR 0x10) s in (bar AND 0xFFFFFFF0, s))"

definition pci_lfb :: "vdev \<Rightarrow> u32 \<times> vdev" where
  "pci_lfb s = lfb_from 32 0 s"

definition map_range :: "u32 \<Rightarrow> u32 \<Rightarrow> vdev \<Rightarrow> vdev option" where
  "map_range base len s =
     map_option (\<lambda>pg. s\<lparr>v_pg := pg\<rparr>) (map_pages (base AND NOT 0xFFF) ((base + len + 0xFFF) AND NOT 0xFFF) (v_pg s))"

fun best_size :: "(nat \<times> nat) list \<Rightarrow> u16 \<Rightarrow> u16 \<Rightarrow> nat \<times> nat" where
  "best_size [] maxx maxy = (640, 480)"
| "best_size ((w, h) # rest) maxx maxy = (if w \<le> unat maxx \<and> h \<le> unat maxy then (w, h) else best_size rest maxx maxy)"

definition want :: "(nat \<times> nat) list" where
  "want = [(1280, 1024), (1024, 768), (800, 600), (640, 480)]"

definition vbe_setup :: "vdev \<Rightarrow> (int \<times> vdev) option" where
  "vbe_setup s =
     (let (ident, s) = vbe_read VBE_I_ID s
      in if ident < 0xB0C0 \<or> ident > 0xB0CF then Some (-1, s)
         else let s = vbe_write VBE_I_ENABLE VBE_GETCAPS s;
                  (maxx, s) = vbe_read VBE_I_XRES s;
                  (maxy, s) = vbe_read VBE_I_YRES s;
                  s = vbe_write VBE_I_ENABLE 0 s;
                  (w, h) = best_size want maxx maxy;
                  (lfb, s) = pci_lfb s
         in if lfb = 0 then Some (-1, s)
            else let s = vbe_write VBE_I_ENABLE 0 s;
                     s = vbe_write VBE_I_XRES (word_of_nat w) s;
                     s = vbe_write VBE_I_YRES (word_of_nat h) s;
                     s = vbe_write VBE_I_BPP 32 s;
                     s = vbe_write VBE_I_ENABLE (VBE_ENABLED OR VBE_LFB) s;
                     s = s\<lparr>g_kind := 1, g_mode := 1, g_width := w, g_height := h, g_bpp := 32\<rparr>;
                     (vw, s) = vbe_read VBE_I_VWIDTH s;
                     pitch = ucast vw * 4 :: u32;
                     pitch = (if pitch < word_of_nat w * 4 then word_of_nat w * 4 else pitch);
                     s = s\<lparr>g_pitch := pitch\<rparr>
            in map_option (\<lambda>s. (0, s\<lparr>g_fb := lfb\<rparr>)) (map_range lfb (pitch * word_of_nat h) s))"

section \<open>The VESA BIOS\<close>

definition pic_mask_all :: "vdev \<Rightarrow> u8 \<times> u8 \<times> vdev" where
  "pic_mask_all s = (let (m1, s) = rd8 0x21 s; (m2, s) = rd8 0xA1 s in (m1, m2, wr8 0xA1 0xFF (wr8 0x21 0xFF s)))"

definition pic_unmask :: "u8 \<Rightarrow> u8 \<Rightarrow> vdev \<Rightarrow> vdev" where
  "pic_unmask m1 m2 s = wr8 0xA1 m2 (wr8 0x21 m1 s)"

definition clear_regs :: regs16 where
  "clear_regs = \<lparr>r_di = 0, r_si = 0, r_bp = 0, r_sp = 0, r_bx = 0, r_dx = 0, r_cx = 0, r_ax = 0,
     r_gs = 0, r_fs = 0, r_es = 0, r_ds = 0, r_flags = 0\<rparr>"

definition bios_int :: "u8 \<Rightarrow> regs16 \<Rightarrow> vdev \<Rightarrow> regs16 \<times> vdev" where
  "bios_int n r s = (let (r, m) = bios s (bios_calls s) n (r, low s) in (r, s\<lparr>low := m, bios_calls := Suc (bios_calls s)\<rparr>))"

definition rd16b :: "u32 \<Rightarrow> u32 \<Rightarrow> vdev \<Rightarrow> u16" where
  "rd16b p off s = ucast (low s (p + off)) OR push_bit 8 (ucast (low s (p + off + 1)))"

definition cand :: "u16 list" where "cand = [0x118, 0x117, 0x115, 0x114, 0x112, 0x111]"

text \<open>The modes in turn; the PIC masks are given back by the caller when none is usable.\<close>

fun try_modes :: "u16 list \<Rightarrow> u8 \<Rightarrow> u8 \<Rightarrow> vdev \<Rightarrow> (bool \<times> vdev) option" where
  "try_modes [] m1 m2 s = Some (False, s)"
| "try_modes (c # cs) m1 m2 s =
     (let (r, s) = bios_int 0x10 (clear_regs\<lparr>r_ax := 0x4F01, r_cx := c, r_di := ucast VBE_MODE\<rparr>) s
      in if r_ax r \<noteq> 0x004F then try_modes cs m1 m2 s
         else let attr = rd16b VBE_MODE 0 s; bpp = low s (VBE_MODE + 25);
                  w = rd16b VBE_MODE 18 s; h = rd16b VBE_MODE 20 s;
                  pitch = rd16b VBE_MODE 50 s;
                  pitch = (if pitch = 0 then rd16b VBE_MODE 16 s else pitch);
                  lfb = ucast (rd16b VBE_MODE 40 s) OR push_bit 16 (ucast (rd16b VBE_MODE 42 s)) :: u32
         in if attr AND 0x90 \<noteq> 0x90 then try_modes cs m1 m2 s
            else if bpp \<noteq> 16 \<and> bpp \<noteq> 24 \<and> bpp \<noteq> 32 then try_modes cs m1 m2 s
            else if w = 0 \<or> h = 0 \<or> lfb = 0 then try_modes cs m1 m2 s
            else let (r, s) = bios_int 0x10 (clear_regs\<lparr>r_ax := 0x4F02, r_bx := c OR 0x4000\<rparr>) s
            in if r_ax r \<noteq> 0x004F then try_modes cs m1 m2 s
               else let s = pic_unmask m1 m2 s;
                        s = s\<lparr>g_kind := 2, g_mode := 1, g_width := unat w, g_height := unat h, g_bpp := unat bpp, g_pitch := ucast pitch\<rparr>
               in map_option (\<lambda>s. (True, s\<lparr>g_fb := lfb\<rparr>)) (map_range lfb (ucast pitch * ucast h) s))"

definition clear_info :: "(u32 \<Rightarrow> u8) \<Rightarrow> (u32 \<Rightarrow> u8)" where
  "clear_info m = (\<lambda>a. if VBE_INFO \<le> a \<and> a < VBE_INFO + 512 then 0 else m a)
     (VBE_INFO := of_char CHR ''V'', VBE_INFO + 1 := of_char CHR ''B'', VBE_INFO + 2 := of_char CHR ''E'', VBE_INFO + 3 := of_char CHR ''2'')"

definition bios_vbe_setup :: "vdev \<Rightarrow> (int \<times> vdev) option" where
  "bios_vbe_setup s =
     (let (m1, m2, s) = pic_mask_all s;
          s = s\<lparr>low := clear_info (low s)\<rparr>;
          (r, s) = bios_int 0x10 (clear_regs\<lparr>r_ax := 0x4F00, r_di := ucast VBE_INFO\<rparr>) s
      in if r_ax r \<noteq> 0x004F \<or> \<not> (low s VBE_INFO = of_char CHR ''V'' \<and> low s (VBE_INFO + 1) = of_char CHR ''E'' \<and>
             low s (VBE_INFO + 2) = of_char CHR ''S'' \<and> low s (VBE_INFO + 3) = of_char CHR ''A'')
         then Some (-1, pic_unmask m1 m2 s)
         else map_option (\<lambda>(ok, s). if ok then (0, s) else (-1, pic_unmask m1 m2 s)) (try_modes cand m1 m2 s))"

section \<open>Entering and leaving graphics\<close>

definition set_mode_13h :: "vdev \<Rightarrow> vdev" where
  "set_mode_13h s =
     (write_regs mode_13h s)\<lparr>g_kind := 0, g_mode := 0, g_width := 320, g_height := 200, g_bpp := 8, g_pitch := 320, g_fb := 0xA0000\<rparr>"

definition vga_enter_graphics :: "vdev \<Rightarrow> vdev option" where
  "vga_enter_graphics s =
     Option.bind (bios_vbe_setup (save_font s)) (\<lambda>(r, s).
       if r = 0 then Some s
       else map_option (\<lambda>(r, s). if r = 0 then s else set_mode_13h s) (vbe_setup s))"

definition vga_set_palette :: "u8 \<Rightarrow> u8 \<times> u8 \<times> u8 \<Rightarrow> vdev \<Rightarrow> vdev" where
  "vga_set_palette index rgb s =
     (case rgb of (r, g, b) \<Rightarrow> wr8 DAC_DATA b (wr8 DAC_DATA g (wr8 DAC_DATA r (wr8 DAC_WRITE index s))))"

definition vga_leave_graphics :: "vdev \<Rightarrow> vdev" where
  "vga_leave_graphics s =
     (let s = (if g_kind s = 2
               then let (m1, m2, s) = pic_mask_all s; (r, s) = bios_int 0x10 (clear_regs\<lparr>r_ax := 0x0003\<rparr>) s in pic_unmask m1 m2 s
               else if g_kind s = 1 then vbe_write VBE_I_ENABLE 0 s else s);
          s = restore_font (write_regs mode_03h s);
          s = fold (\<lambda>i. vga_set_palette (word_of_nat i) (dac16 ! i)) [0..<16] s
      in s\<lparr>text_mem := (\<lambda>i. if i < 80 * 25 then 0x0700 else text_mem s i)\<rparr>)"

definition vga_width :: "vdev \<Rightarrow> nat" where "vga_width s = g_width s"
definition vga_height :: "vdev \<Rightarrow> nat" where "vga_height s = g_height s"
definition vga_bpp :: "vdev \<Rightarrow> nat" where "vga_bpp s = g_bpp s"
definition vga_pitch :: "vdev \<Rightarrow> u32" where "vga_pitch s = g_pitch s"
definition vga_framebuffer :: "vdev \<Rightarrow> u32" where "vga_framebuffer s = g_fb s"
definition vga_font :: "vdev \<Rightarrow> nat \<Rightarrow> u8" where "vga_font s = font_backup s"

section \<open>What the operations keep\<close>

text \<open>The accesses that reach the mask registers of the interrupt controllers.\<close>

fun is_pic :: "access \<Rightarrow> bool" where
  "is_pic (Out8 p v) = (p = 0x21 \<or> p = 0xA1)"
| "is_pic _ = False"

definition pic_log :: "'a bus_scheme \<Rightarrow> access list" where
  "pic_log s = filter is_pic (bus_log s)"

text \<open>Only ports other than those masks were touched.\<close>

definition quiet :: "vdev \<Rightarrow> vdev \<Rightarrow> bool" where
  "quiet s t \<longleftrightarrow> (\<exists>n l. t = s\<lparr>bus_reads := n, bus_log := bus_log s @ l\<rparr> \<and> filter is_pic l = [])"

lemma quiet_refl [simp]: "quiet s s"
  unfolding quiet_def by (rule exI [of _ "bus_reads s"], rule exI [of _ "[]"]) simp

lemma quiet_chain [trans]: "quiet a b \<Longrightarrow> quiet b c \<Longrightarrow> quiet a c"
  unfolding quiet_def
proof (elim exE conjE)
  fix n l n' l'
  assume b: "b = a\<lparr>bus_reads := n, bus_log := bus_log a @ l\<rparr>" "filter is_pic l = []"
    and c: "c = b\<lparr>bus_reads := n', bus_log := bus_log b @ l'\<rparr>" "filter is_pic l' = []"
  show "\<exists>n l. c = a\<lparr>bus_reads := n, bus_log := bus_log a @ l\<rparr> \<and> filter is_pic l = []"
    by (rule exI [of _ n'], rule exI [of _ "l @ l'"]) (use b c in simp)
qed

lemma quiet_rd [simp]: "quiet s (snd (rd8 p s))" "quiet s (snd (rd16 p s))" "quiet s (snd (rd32 p s))"
proof -
  show "quiet s (snd (rd8 p s))" unfolding quiet_def rd8_def
    by (rule exI [of _ "Suc (bus_reads s)"], rule exI [of _ "[In8 p]"]) simp
  show "quiet s (snd (rd16 p s))" unfolding quiet_def rd16_def
    by (rule exI [of _ "Suc (bus_reads s)"], rule exI [of _ "[In16 p]"]) simp
  show "quiet s (snd (rd32 p s))" unfolding quiet_def rd32_def
    by (rule exI [of _ "Suc (bus_reads s)"], rule exI [of _ "[In32 p]"]) simp
qed

lemma quiet_wr8: "p \<noteq> 0x21 \<Longrightarrow> p \<noteq> 0xA1 \<Longrightarrow> quiet s (wr8 p v s)"
  unfolding quiet_def wr8_def by (rule exI [of _ "bus_reads s"], rule exI [of _ "[Out8 p v]"]) simp

lemma quiet_wr16 [simp]: "quiet s (wr16 p v s)"
  unfolding quiet_def wr16_def by (rule exI [of _ "bus_reads s"], rule exI [of _ "[Out16 p v]"]) simp

lemma quiet_wr32 [simp]: "quiet s (wr32 p v s)"
  unfolding quiet_def wr32_def by (rule exI [of _ "bus_reads s"], rule exI [of _ "[Out32 p v]"]) simp

lemma quiet_fold:
  assumes "\<And>x s. quiet s (f x s)" shows "quiet s (fold f xs s)"
proof (induction xs arbitrary: s)
  case (Cons x xs)
  show ?case using quiet_chain [OF assms Cons.IH] by simp
qed simp

lemmas vga_ports = MISC_WRITE_def SEQ_INDEX_def SEQ_DATA_def GC_INDEX_def GC_DATA_def CRTC_INDEX_def CRTC_DATA_def
  AC_INDEX_def AC_WRITE_def INPUT_STATUS_def DAC_WRITE_def DAC_DATA_def

lemma quiet_pair:
  assumes "ip \<noteq> 0x21" "ip \<noteq> 0xA1" "dp \<noteq> 0x21" "dp \<noteq> 0xA1" shows "quiet s (write_pair ip dp iv s)"
  unfolding write_pair_def using quiet_chain [OF quiet_wr8 quiet_wr8] assms by blast

lemma quiet_seq [simp]: "quiet s (seq i v s)" and quiet_gc [simp]: "quiet s (gc i v s)"
  by (simp_all add: seq_def gc_def vga_ports quiet_pair)

lemma quiet_write_attr: "quiet s (write_attr iv s)"
  unfolding write_attr_def
  by (rule quiet_chain [OF quiet_rd(1)], rule quiet_chain [OF quiet_wr8 quiet_wr8]) (simp_all add: vga_ports)

lemma quiet_unlock: "quiet s (unlock_crtc s)"
  unfolding unlock_crtc_def Let_def case_prod_beta
  by (rule quiet_chain [OF _ quiet_wr8], rule quiet_chain [OF _ quiet_rd(1)], rule quiet_chain [OF _ quiet_wr8],
      rule quiet_chain [OF _ quiet_wr8], rule quiet_chain [OF _ quiet_rd(1)], rule quiet_wr8) (simp_all add: vga_ports)

lemma quiet_write_regs: "quiet s (write_regs regs s)"
  unfolding write_regs_def Let_def
  by (rule quiet_chain [OF _ quiet_wr8], rule quiet_chain [OF _ quiet_rd(1)],
      rule quiet_chain [OF _ quiet_fold [OF quiet_write_attr]], rule quiet_chain [OF _ quiet_fold [OF quiet_pair]],
      rule quiet_chain [OF _ quiet_fold [OF quiet_pair]], rule quiet_chain [OF _ quiet_unlock],
      rule quiet_chain [OF _ quiet_fold [OF quiet_pair]], rule quiet_wr8) (simp_all add: vga_ports)

lemma quiet_font_access: "quiet s (font_access_begin s)" "quiet s (font_access_end s)"
  unfolding font_access_begin_def font_access_end_def
  by (rule quiet_chain [OF _ quiet_gc], rule quiet_chain [OF _ quiet_gc], rule quiet_chain [OF _ quiet_gc],
      rule quiet_chain [OF _ quiet_seq], rule quiet_chain [OF _ quiet_seq], rule quiet_chain [OF _ quiet_seq], rule quiet_seq)+

lemma quiet_vbe [simp]: "quiet s (vbe_write i v s)" "quiet s (snd (vbe_read i s))"
  unfolding vbe_write_def vbe_read_def
  by (rule quiet_chain [OF quiet_wr16 quiet_wr16], rule quiet_chain [OF quiet_wr16 quiet_rd(2)])

lemma quiet_palette: "quiet s (vga_set_palette i rgb s)"
  unfolding vga_set_palette_def case_prod_beta
  by (rule quiet_chain [OF _ quiet_wr8], rule quiet_chain [OF _ quiet_wr8], rule quiet_chain [OF _ quiet_wr8], rule quiet_wr8)
    (simp_all add: vga_ports)

lemma quiet_cfg32 [simp]: "quiet s (snd (cfg32 a s))"
  unfolding cfg32_def by (rule quiet_chain [OF quiet_wr32 quiet_rd(3)])

lemma quiet_lfb_from: "quiet s (snd (lfb_from n dev s))"
proof (induction n arbitrary: dev s)
  case (Suc n)
  let ?a = "0x80000000 OR push_bit 11 dev"
  define s1 where "s1 = snd (cfg32 (?a OR 0x00) s)"
  define s2 where "s2 = snd (cfg32 (?a OR 0x08) s1)"
  define s3 where "s3 = snd (cfg32 (?a OR 0x10) s2)"
  have q: "quiet s s1" "quiet s1 s2" "quiet s2 s3" by (simp_all add: s1_def s2_def s3_def)
  have s2: "quiet s s2" and s3: "quiet s s3" using q quiet_chain by blast+
  show ?case using quiet_chain [OF q(1) Suc.IH] quiet_chain [OF s2 Suc.IH] s3
    by (simp add: Let_def case_prod_beta s1_def s2_def s3_def)
qed simp

lemma quiet_pci_lfb [simp]: "quiet s (snd (pci_lfb s))"
  by (simp add: pci_lfb_def quiet_lfb_from)

lemma quietD:
  assumes "quiet s t"
  shows "pic_log t = pic_log s" "v_pg t = v_pg s" "font_plane t = font_plane s" "font_backup t = font_backup s" "text_mem t = text_mem s"
    "g_mode t = g_mode s" "g_kind t = g_kind s" "g_width t = g_width s" "g_height t = g_height s" "g_bpp t = g_bpp s"
    "g_pitch t = g_pitch s" "g_fb t = g_fb s" "bus_in t = bus_in s" "low t = low s"
  using assms by (auto simp: quiet_def pic_log_def)

section \<open>Modes\<close>

text \<open>
  \<open>keeps\<close>: the font, its copy and the text memory are untouched and at most identity mappings were added.
\<close>

definition keeps :: "vdev \<Rightarrow> vdev \<Rightarrow> bool" where
  "keeps s t \<longleftrightarrow> font_plane t = font_plane s \<and> font_backup t = font_backup s \<and> text_mem t = text_mem s \<and> idmap (v_pg s) (v_pg t)"

lemma keeps_refl [simp]: "keeps s s" by (simp add: keeps_def)

lemma keeps_trans [trans]: "keeps a b \<Longrightarrow> keeps b c \<Longrightarrow> keeps a c"
  using idmap_trans by (auto simp: keeps_def)

lemma quiet_keeps: "quiet s t \<Longrightarrow> keeps s t"
  by (simp add: keeps_def quietD)

lemma bios_int_frame [simp]:
  "keeps s (snd (bios_int n r s))" "pic_log (snd (bios_int n r s)) = pic_log s" "g_kind (snd (bios_int n r s)) = g_kind s"
  "v_pg (snd (bios_int n r s)) = v_pg s" "bus_in (snd (bios_int n r s)) = bus_in s" "bus_reads (snd (bios_int n r s)) = bus_reads s"
  by (simp_all add: bios_int_def keeps_def pic_log_def Let_def case_prod_beta)

lemma pic_unmask_frame [simp]:
  "keeps s (pic_unmask m1 m2 s)" "pic_log (pic_unmask m1 m2 s) = pic_log s @ [Out8 0x21 m1, Out8 0xA1 m2]"
  "v_pg (pic_unmask m1 m2 s) = v_pg s"
  by (simp_all add: pic_unmask_def keeps_def pic_log_def wr8_def)

lemma map_range_returns:
  obtains pg where "map_range base len s = Some (s\<lparr>v_pg := pg\<rparr>)" "idmap (v_pg s) pg"
proof -
  let ?a = "base AND NOT 0xFFF" and ?z = "(base + len + 0xFFF) AND NOT 0xFFF"
  obtain pg where pg: "map_pages ?a ?z (v_pg s) = Some pg"
    using map_pages_returns [OF diff_page_aligned [OF aligned_page(2) aligned_page(2)]] by blast
  have "map_range base len s = Some (s\<lparr>v_pg := pg\<rparr>)" unfolding map_range_def pg by simp
  then show thesis using that map_pages_idmap [OF pg aligned_page(2)] by blast
qed

text \<open>A mode the drawing code can use.\<close>

definition mode_ok :: "vdev \<Rightarrow> bool" where
  "mode_ok s \<longleftrightarrow> 0 < g_width s \<and> 0 < g_height s \<and> g_fb s \<noteq> 0 \<and>
     (g_kind s = 2 \<and> g_mode s = 1 \<and> g_bpp s \<in> {16, 24, 32} \<and> g_width s < 2 ^ 16 \<and> g_height s < 2 ^ 16 \<or>
      g_kind s = 1 \<and> g_mode s = 1 \<and> g_bpp s = 32 \<and> (g_width s, g_height s) \<in> set want \<and> g_width s * 4 \<le> unat (g_pitch s) \<or>
      g_kind s = 0 \<and> g_mode s = 0 \<and> g_bpp s = 8 \<and> g_width s = 320 \<and> g_height s = 200 \<and> g_pitch s = 320 \<and> g_fb s = 0xA0000)"

lemma best_size_in: "best_size ws x y = (w, h) \<Longrightarrow> (w, h) \<in> set ws \<or> (w, h) = (640, 480)"
  by (induction ws x y rule: best_size.induct) (auto split: if_splits)

lemma best_want: "best_size want x y = (w, h) \<Longrightarrow> (w, h) \<in> set want"
  using best_size_in [of want x y w h] by (auto simp: want_def)

definition after_modes :: "u8 \<Rightarrow> u8 \<Rightarrow> vdev \<Rightarrow> bool \<times> vdev \<Rightarrow> bool" where
  "after_modes m1 m2 s r \<longleftrightarrow> keeps s (snd r) \<and>
     (if fst r then mode_ok (snd r) \<and> pic_log (snd r) = pic_log s @ [Out8 0x21 m1, Out8 0xA1 m2] else pic_log (snd r) = pic_log s)"

lemma after_modes_later:
  assumes "keeps s t" "pic_log t = pic_log s" "\<exists>r. x = Some r \<and> after_modes m1 m2 t r"
  shows "\<exists>r. x = Some r \<and> after_modes m1 m2 s r"
  using assms keeps_trans by (fastforce simp: after_modes_def)

text \<open>The last step of a try: the mode is set and its memory mapped.\<close>

definition took_mode :: "u8 \<Rightarrow> u8 \<Rightarrow> u16 \<Rightarrow> u16 \<Rightarrow> u8 \<Rightarrow> u16 \<Rightarrow> u32 \<Rightarrow> vdev \<Rightarrow> (bool \<times> vdev) option" where
  "took_mode m1 m2 w h bpp pitch lfb s =
     (let s = pic_unmask m1 m2 s;
          s = s\<lparr>g_kind := 2, g_mode := 1, g_width := unat w, g_height := unat h, g_bpp := unat bpp, g_pitch := ucast pitch\<rparr>
      in map_option (\<lambda>s. (True, s\<lparr>g_fb := lfb\<rparr>)) (map_range lfb (ucast pitch * ucast h) s))"

lemma took_mode_ok:
  assumes bpp: "bpp = 16 \<or> bpp = 24 \<or> bpp = 32" and nz: "w \<noteq> 0" "h \<noteq> 0" "lfb \<noteq> 0"
  shows "\<exists>r. took_mode m1 m2 w h bpp pitch lfb s = Some r \<and> after_modes m1 m2 s r"
proof -
  let ?s = "(pic_unmask m1 m2 s)\<lparr>g_kind := 2, g_mode := 1, g_width := unat w, g_height := unat h, g_bpp := unat bpp, g_pitch := ucast pitch\<rparr>"
  obtain pg where pg: "map_range lfb (ucast pitch * ucast h) ?s = Some (?s\<lparr>v_pg := pg\<rparr>)" "idmap (v_pg ?s) pg"
    by (rule map_range_returns)
  have w: "unat w < 2 ^ 16" "unat h < 2 ^ 16" using unsigned_less [of w, where 'a = nat] unsigned_less [of h, where 'a = nat] by simp_all
  have z: "0 < unat w" "0 < unat h" using nz by (simp_all add: unat_gt_0)
  have b: "unat bpp = 16 \<or> unat bpp = 24 \<or> unat bpp = 32" using bpp by auto
  let ?t = "?s\<lparr>v_pg := pg, g_fb := lfb\<rparr>"
  have 1: "took_mode m1 m2 w h bpp pitch lfb s = Some (True, ?t)"
    unfolding took_mode_def Let_def using pg(1) by simp
  have 2: "keeps s ?t" using pg(2) by (simp add: keeps_def pic_unmask_def wr8_def)
  have 3: "mode_ok ?t" using w z b nz by (simp add: mode_ok_def)
  have 4: "pic_log ?t = pic_log s @ [Out8 0x21 m1, Out8 0xA1 m2]"
    by (simp add: pic_log_def pic_unmask_def wr8_def)
  show ?thesis by (rule exI [of _ "(True, ?t)"]) (simp only: 1 2 3 4 after_modes_def fst_conv snd_conv if_True simp_thms)
qed

lemma try_modes_after: "\<exists>r. try_modes cs m1 m2 s = Some r \<and> after_modes m1 m2 s r"
proof (induction cs arbitrary: s)
  case Nil show ?case by (simp add: after_modes_def)
next
  case (Cons c cs)
  define r1 where "r1 = bios_int 0x10 (clear_regs\<lparr>r_ax := 0x4F01, r_cx := c, r_di := ucast VBE_MODE\<rparr>) s"
  define s1 where "s1 = snd r1"
  define r2 where "r2 = bios_int 0x10 (clear_regs\<lparr>r_ax := 0x4F02, r_bx := c OR 0x4000\<rparr>) s1"
  define s2 where "s2 = snd r2"
  define bpp where "bpp = low s1 (VBE_MODE + 25)"
  define w where "w = rd16b VBE_MODE 18 s1"
  define h where "h = rd16b VBE_MODE 20 s1"
  define pitch where "pitch = (if rd16b VBE_MODE 50 s1 = 0 then rd16b VBE_MODE 16 s1 else rd16b VBE_MODE 50 s1)"
  define lfb where "lfb = (ucast (rd16b VBE_MODE 40 s1) OR push_bit 16 (ucast (rd16b VBE_MODE 42 s1)) :: u32)"
  have k1: "keeps s s1" "pic_log s1 = pic_log s" by (simp_all add: s1_def r1_def)
  have k2: "keeps s s2" "pic_log s2 = pic_log s"
    using keeps_trans [OF k1(1)] k1(2) by (simp_all add: s2_def r2_def)
  have eq: "try_modes (c # cs) m1 m2 s =
     (if r_ax (fst r1) \<noteq> 0x004F then try_modes cs m1 m2 s1
      else if rd16b VBE_MODE 0 s1 AND 0x90 \<noteq> 0x90 then try_modes cs m1 m2 s1
      else if bpp \<noteq> 16 \<and> bpp \<noteq> 24 \<and> bpp \<noteq> 32 then try_modes cs m1 m2 s1
      else if w = 0 \<or> h = 0 \<or> lfb = 0 then try_modes cs m1 m2 s1
      else if r_ax (fst r2) \<noteq> 0x004F then try_modes cs m1 m2 s2
      else took_mode m1 m2 w h bpp pitch lfb s2)"
    unfolding try_modes.simps Let_def case_prod_beta r1_def [symmetric] s1_def [symmetric] r2_def [symmetric] s2_def [symmetric]
      bpp_def [symmetric] w_def [symmetric] h_def [symmetric] pitch_def [symmetric] lfb_def [symmetric] took_mode_def by (rule refl)
  note later1 = after_modes_later [OF k1 Cons.IH] and later2 = after_modes_later [OF k2 Cons.IH]
  have took: "bpp = 16 \<or> bpp = 24 \<or> bpp = 32 \<Longrightarrow> w \<noteq> 0 \<Longrightarrow> h \<noteq> 0 \<Longrightarrow> lfb \<noteq> 0 \<Longrightarrow>
      \<exists>r. took_mode m1 m2 w h bpp pitch lfb s2 = Some r \<and> after_modes m1 m2 s r"
    by (rule after_modes_later [OF k2 took_mode_ok])
  show ?case unfolding eq using later1 later2 took by (simp split: if_split) blast?
qed

text \<open>The masks are all set and given back with the values read first.\<close>

definition pic_saved :: "vdev \<Rightarrow> vdev \<Rightarrow> bool" where
  "pic_saved s t \<longleftrightarrow> pic_log t = pic_log s @ [Out8 0x21 0xFF, Out8 0xA1 0xFF,
     Out8 0x21 (ucast (bus_in s (bus_reads s) 0x21)), Out8 0xA1 (ucast (bus_in s (Suc (bus_reads s)) 0xA1))]"

lemma pic_mask_all_eq:
  "pic_mask_all s = (ucast (bus_in s (bus_reads s) 0x21), ucast (bus_in s (Suc (bus_reads s)) 0xA1), snd (snd (pic_mask_all s)))"
  by (simp add: pic_mask_all_def Let_def case_prod_beta rd8_def)

lemma pic_mask_all_frame:
  "keeps s (snd (snd (pic_mask_all s)))" "g_kind (snd (snd (pic_mask_all s))) = g_kind s"
  "pic_log (snd (snd (pic_mask_all s))) = pic_log s @ [Out8 0x21 0xFF, Out8 0xA1 0xFF]"
  by (simp_all add: pic_mask_all_def Let_def case_prod_beta bus_defs keeps_def pic_log_def)

lemma bios_vbe_setup_ok:
  "\<exists>r t. bios_vbe_setup s = Some (r, t) \<and> keeps s t \<and> pic_saved s t \<and> (r = 0 \<and> mode_ok t \<or> r = -1)"
proof -
  define m1 where "m1 = (ucast (bus_in s (bus_reads s) 0x21) :: u8)"
  define m2 where "m2 = (ucast (bus_in s (Suc (bus_reads s)) 0xA1) :: u8)"
  define s1 where "s1 = snd (snd (pic_mask_all s))"
  define s2 where "s2 = s1\<lparr>low := clear_info (low s1)\<rparr>"
  define r where "r = bios_int 0x10 (clear_regs\<lparr>r_ax := 0x4F00, r_di := ucast VBE_INFO\<rparr>) s2"
  define s3 where "s3 = snd r"
  have m: "pic_mask_all s = (m1, m2, s1)" using pic_mask_all_eq unfolding m1_def m2_def s1_def .
  have p1: "keeps s s1" "pic_log s1 = pic_log s @ [Out8 0x21 0xFF, Out8 0xA1 0xFF]"
    unfolding s1_def by (rule pic_mask_all_frame)+
  have p2: "keeps s1 s2" "pic_log s2 = pic_log s1" by (simp_all add: s2_def keeps_def pic_log_def)
  have p3: "keeps s2 s3" "pic_log s3 = pic_log s2" by (simp_all add: s3_def r_def)
  have k: "keeps s s3" using p1 p2 p3 keeps_trans by blast
  have l: "pic_log s3 = pic_log s @ [Out8 0x21 0xFF, Out8 0xA1 0xFF]" using p1 p2 p3 by simp
  have un: "keeps s t \<Longrightarrow> pic_log t = pic_log s3 \<Longrightarrow> keeps s (pic_unmask m1 m2 t) \<and> pic_saved s (pic_unmask m1 m2 t)" for t
    using keeps_trans [OF _ pic_unmask_frame(1)] by (simp add: l pic_saved_def m1_def m2_def)
  obtain ok t where t: "try_modes cand m1 m2 s3 = Some (ok, t)" and am: "after_modes m1 m2 s3 (ok, t)"
    using try_modes_after [of cand m1 m2 s3] by (metis surj_pair)
  have kt: "keeps s t" using am keeps_trans [OF k] by (simp add: after_modes_def)
  let ?bad = "r_ax (fst r) \<noteq> 0x004F \<or> \<not> (low s3 VBE_INFO = of_char CHR ''V'' \<and> low s3 (VBE_INFO + 1) = of_char CHR ''E'' \<and>
             low s3 (VBE_INFO + 2) = of_char CHR ''S'' \<and> low s3 (VBE_INFO + 3) = of_char CHR ''A'')"
  have eq: "bios_vbe_setup s = (if ?bad then Some (-1, pic_unmask m1 m2 s3)
      else map_option (\<lambda>(ok, s). if ok then (0, s) else (-1, pic_unmask m1 m2 s)) (try_modes cand m1 m2 s3))"
    unfolding bios_vbe_setup_def m Let_def case_prod_beta fst_conv snd_conv s2_def [symmetric] r_def [symmetric] s3_def [symmetric]
    by (rule refl)
  show ?thesis
  proof (cases ?bad)
    case True
    then have "bios_vbe_setup s = Some (-1, pic_unmask m1 m2 s3)" unfolding eq by (rule if_P)
    then show ?thesis using un [OF k refl] by simp
  next
    case False
    then have e: "bios_vbe_setup s = Some (if ok then (0, t) else (-1, pic_unmask m1 m2 t))"
      unfolding eq t by (simp only: if_False option.map prod.case)
    show ?thesis
    proof (cases ok)
      case True
      then have "mode_ok t" "pic_saved s t" using am by (simp_all add: after_modes_def pic_saved_def l m1_def m2_def)
      then show ?thesis using e True kt by simp
    next
      case False
      then have "pic_log t = pic_log s3" using am by (simp add: after_modes_def)
      then show ?thesis using e False un [OF kt] by simp
    qed
  qed
qed

text \<open>The Bochs interface in two halves: the search, and the mode once a frame buffer is known.\<close>

definition vbe_probe :: "vdev \<Rightarrow> u16 \<times> u16 \<times> u32 \<times> vdev" where
  "vbe_probe s =
     (let s = vbe_write VBE_I_ENABLE VBE_GETCAPS s; (maxx, s) = vbe_read VBE_I_XRES s; (maxy, s) = vbe_read VBE_I_YRES s;
          s = vbe_write VBE_I_ENABLE 0 s; (lfb, s) = pci_lfb s in (maxx, maxy, lfb, s))"

definition vbe_set :: "nat \<Rightarrow> nat \<Rightarrow> vdev \<Rightarrow> vdev" where
  "vbe_set w h s =
     vbe_write VBE_I_ENABLE (VBE_ENABLED OR VBE_LFB) (vbe_write VBE_I_BPP 32 (vbe_write VBE_I_YRES (word_of_nat h)
       (vbe_write VBE_I_XRES (word_of_nat w) (vbe_write VBE_I_ENABLE 0 s))))"

lemma quiet_probe: "quiet s (snd (snd (snd (vbe_probe s))))"
  unfolding vbe_probe_def Let_def case_prod_beta snd_conv
  by (rule quiet_chain [OF _ quiet_pci_lfb], rule quiet_chain [OF _ quiet_vbe(1)], rule quiet_chain [OF _ quiet_vbe(2)],
      rule quiet_chain [OF _ quiet_vbe(2)], rule quiet_vbe(1))

lemma quiet_set: "quiet s (vbe_set w h s)"
  unfolding vbe_set_def
  by (rule quiet_chain [OF _ quiet_vbe(1)], rule quiet_chain [OF _ quiet_vbe(1)], rule quiet_chain [OF _ quiet_vbe(1)],
      rule quiet_chain [OF _ quiet_vbe(1)], rule quiet_vbe(1))

definition bochs_pitch :: "nat \<Rightarrow> u16 \<Rightarrow> u32" where
  "bochs_pitch w vw = (if ucast vw * 4 < (word_of_nat w * 4 :: u32) then word_of_nat w * 4 else ucast vw * 4)"

lemma bochs_pitch_bound: "(w, h) \<in> set want \<Longrightarrow> w * 4 \<le> unat (bochs_pitch w vw)"
  by (auto simp: want_def bochs_pitch_def word_less_nat_alt)

definition vbe_take :: "nat \<Rightarrow> nat \<Rightarrow> u32 \<Rightarrow> vdev \<Rightarrow> (int \<times> vdev) option" where
  "vbe_take w h lfb s =
     (let s = (vbe_set w h s)\<lparr>g_kind := 1, g_mode := 1, g_width := w, g_height := h, g_bpp := 32\<rparr>;
          (vw, s) = vbe_read VBE_I_VWIDTH s;
          s = s\<lparr>g_pitch := bochs_pitch w vw\<rparr>
      in map_option (\<lambda>s. (0, s\<lparr>g_fb := lfb\<rparr>)) (map_range lfb (bochs_pitch w vw * word_of_nat h) s))"

lemma vbe_take_ok:
  assumes wh: "(w, h) \<in> set want" and l: "lfb \<noteq> 0"
  shows "\<exists>t. vbe_take w h lfb s = Some (0, t) \<and> keeps s t \<and> pic_log t = pic_log s \<and> mode_ok t"
proof -
  define s1 where "s1 = (vbe_set w h s)\<lparr>g_kind := 1, g_mode := 1, g_width := w, g_height := h, g_bpp := 32\<rparr>"
  define vw where "vw = fst (vbe_read VBE_I_VWIDTH s1)"
  define s2 where "s2 = snd (vbe_read VBE_I_VWIDTH s1)"
  define s3 where "s3 = s2\<lparr>g_pitch := bochs_pitch w vw\<rparr>"
  obtain pg where pg: "map_range lfb (bochs_pitch w vw * word_of_nat h) s3 = Some (s3\<lparr>v_pg := pg\<rparr>)" "idmap (v_pg s3) pg"
    by (rule map_range_returns)
  have eq: "vbe_take w h lfb s = Some (0, s3\<lparr>v_pg := pg, g_fb := lfb\<rparr>)"
    unfolding vbe_take_def Let_def case_prod_beta s1_def [symmetric] vw_def [symmetric] s2_def [symmetric] s3_def [symmetric] pg(1) by simp
  note q1 = quietD [OF quiet_set [of s w h]]
  have q: "quiet s1 s2" by (simp add: s2_def)
  note q2 = quietD [OF q]
  let ?t = "s3\<lparr>v_pg := pg, g_fb := lfb\<rparr>"
  have i: "idmap (v_pg s) pg" using pg(2) by (simp add: s3_def q1 q2 s1_def)
  have 1: "keeps s ?t" using i by (simp add: keeps_def s3_def q2) (simp add: s1_def q1)
  have "pic_log s1 = pic_log s" using q1(1) by (simp add: s1_def pic_log_def)
  then have 2: "pic_log ?t = pic_log s" using q2(1) by (simp add: s3_def pic_log_def)
  have pos: "0 < w" "0 < h" using wh by (auto simp: want_def)
  have f: "g_kind s2 = 1" "g_mode s2 = 1" "g_width s2 = w" "g_height s2 = h" "g_bpp s2 = 32" by (simp_all add: q2 s1_def)
  have 3: "mode_ok ?t" using pos wh l bochs_pitch_bound [OF wh] by (simp add: mode_ok_def s3_def f)
  show ?thesis using eq 1 2 3 by blast
qed

lemma vbe_setup_ok:
  "\<exists>r t. vbe_setup s = Some (r, t) \<and> keeps s t \<and> pic_log t = pic_log s \<and> (r = 0 \<and> mode_ok t \<or> r = -1)"
proof -
  define ident where "ident = fst (vbe_read VBE_I_ID s)"
  define s1 where "s1 = snd (vbe_read VBE_I_ID s)"
  obtain mx my lfb s2 where pr: "vbe_probe s1 = (mx, my, lfb, s2)" by (metis surj_pair)
  obtain w h where wh: "best_size want mx my = (w, h)" by fastforce
  have eq: "vbe_setup s = (if ident < 0xB0C0 \<or> ident > 0xB0CF then Some (-1, s1)
      else case vbe_probe s1 of (mx, my, lfb, s2) \<Rightarrow>
        if lfb = 0 then Some (-1, s2) else vbe_take (fst (best_size want mx my)) (snd (best_size want mx my)) lfb s2)"
    unfolding vbe_setup_def vbe_probe_def vbe_take_def vbe_set_def bochs_pitch_def ident_def s1_def Let_def case_prod_beta fst_conv snd_conv
    by (rule refl)
  have q1: "quiet s s1" by (simp add: s1_def)
  have "quiet s1 s2" using quiet_probe [of s1] by (simp add: pr)
  then have q: "quiet s s2" by (rule quiet_chain [OF q1])
  obtain t where t: "lfb \<noteq> 0 \<Longrightarrow> vbe_take w h lfb s2 = Some (0, t) \<and> keeps s2 t \<and> pic_log t = pic_log s2 \<and> mode_ok t"
    using vbe_take_ok [OF best_want [OF wh], of lfb s2] by blast
  have k: "lfb \<noteq> 0 \<Longrightarrow> keeps s t" using t keeps_trans [OF quiet_keeps [OF q]] by blast
  show ?thesis unfolding eq pr prod.case wh fst_conv snd_conv
    using t k quietD(1) [OF q] quietD(1) [OF q1] quiet_keeps [OF q] quiet_keeps [OF q1]
    by (cases "ident < 0xB0C0 \<or> ident > 0xB0CF"; cases "lfb = 0") (simp_all split del: if_split)
qed

lemma set_mode_13h_ok: "keeps s (set_mode_13h s)" "pic_log (set_mode_13h s) = pic_log s" "mode_ok (set_mode_13h s)"
  using quietD [OF quiet_write_regs [of s mode_13h]]
  by (simp_all add: set_mode_13h_def keeps_def mode_ok_def pic_log_def)

section \<open>There and back\<close>

lemma font_access_reads: "bus_reads (font_access_begin s) = bus_reads s" "bus_reads (font_access_end s) = bus_reads s"
  by (simp_all add: font_access_begin_def font_access_end_def seq_def gc_def write_pair_def wr8_def)

lemma pic_log_upd [simp]:
  "pic_log (s\<lparr>font_plane := f\<rparr>) = pic_log s" "pic_log (s\<lparr>font_backup := f\<rparr>) = pic_log s" "pic_log (s\<lparr>text_mem := m\<rparr>) = pic_log s"
  by (simp_all add: pic_log_def)

lemma save_font_frame:
  "font_plane (save_font s) = font_plane s" "v_pg (save_font s) = v_pg s" "text_mem (save_font s) = text_mem s"
  "pic_log (save_font s) = pic_log s" "bus_in (save_font s) = bus_in s" "bus_reads (save_font s) = bus_reads s"
  "font_backup (save_font s) = (\<lambda>i. if i < 256 * 32 then font_plane s i else font_backup s i)"
  using quietD [OF quiet_font_access(1) [of s]]
  by (simp_all add: save_font_def Let_def font_access_reads quietD [OF quiet_font_access(2)] cong: if_cong)

lemma restore_font_frame:
  "font_plane (restore_font s) = (\<lambda>i. if i < 256 * 32 then font_backup s i else font_plane s i)" "v_pg (restore_font s) = v_pg s"
  "text_mem (restore_font s) = text_mem s" "pic_log (restore_font s) = pic_log s"
  using quietD [OF quiet_font_access(1) [of s]]
  by (simp_all add: restore_font_def Let_def quietD [OF quiet_font_access(2)] cong: if_cong)

lemma enter_returns:
  obtains t where "vga_enter_graphics s = Some t" "keeps (save_font s) t" "pic_saved s t" "mode_ok t"
proof -
  define s0 where "s0 = save_font s"
  obtain r a where a: "bios_vbe_setup s0 = Some (r, a)" "keeps s0 a" "pic_saved s0 a" "r = 0 \<and> mode_ok a \<or> r = -1"
    using bios_vbe_setup_ok by metis
  obtain q b where b: "vbe_setup a = Some (q, b)" "keeps a b" "pic_log b = pic_log a" "q = 0 \<and> mode_ok b \<or> q = -1"
    using vbe_setup_ok by metis
  define t where "t = (if r = 0 then a else if q = 0 then b else set_mode_13h b)"
  have e: "vga_enter_graphics s = Some t"
    unfolding vga_enter_graphics_def s0_def [symmetric] a(1) by (simp add: b(1) t_def)
  have k: "keeps s0 t \<and> pic_log t = pic_log a \<and> mode_ok t"
    using a(2, 4) b(2, 3, 4) set_mode_13h_ok [of b] keeps_trans [OF a(2) b(2)] keeps_trans [OF keeps_trans [OF a(2) b(2)], of "set_mode_13h b"]
    unfolding t_def by (cases "r = 0"; cases "q = 0") simp_all
  have ps: "pic_saved s t" using a(3) k by (simp add: pic_saved_def s0_def save_font_frame)
  show thesis using that [OF e _ ps] k unfolding s0_def by blast
qed

text \<open>
  \<open>vga_enter_graphics\<close> always ends in a usable mode: a VESA mode of 16, 24 or 32 bits, a Bochs mode of one of the four
  sizes with room for each row, or mode 13h. The text font has been copied first, at most identity mappings were added to the
  page tables, and the masks of the interrupt controllers, all set during the BIOS calls, are back at the values they had.
\<close>

theorem vga_enter_usable:
  "\<exists>t. vga_enter_graphics s = Some t \<and> mode_ok t \<and> map (vga_font t) [0..<256 * 32] = map (font_plane s) [0..<256 * 32] \<and>
     idmap (v_pg s) (v_pg t) \<and> pic_saved s t"
proof -
  obtain t where t: "vga_enter_graphics s = Some t" "keeps (save_font s) t" "pic_saved s t" "mode_ok t" by (rule enter_returns)
  then show ?thesis by (simp add: keeps_def save_font_frame vga_font_def)
qed

definition leave_mode :: "vdev \<Rightarrow> vdev" where
  "leave_mode s = (if g_kind s = 2
               then let (m1, m2, s) = pic_mask_all s; (r, s) = bios_int 0x10 (clear_regs\<lparr>r_ax := 0x0003\<rparr>) s in pic_unmask m1 m2 s
               else if g_kind s = 1 then vbe_write VBE_I_ENABLE 0 s else s)"

lemma leave_mode_frame: "keeps s (leave_mode s)" "v_pg (leave_mode s) = v_pg s"
  "if g_kind s = 2 then pic_saved s (leave_mode s) else pic_log (leave_mode s) = pic_log s"
proof -
  define s1 where "s1 = snd (snd (pic_mask_all s))"
  define s2 where "s2 = snd (bios_int 0x10 (clear_regs\<lparr>r_ax := 0x0003\<rparr>) s1)"
  have m: "pic_mask_all s = (ucast (bus_in s (bus_reads s) 0x21), ucast (bus_in s (Suc (bus_reads s)) 0xA1), s1)"
    using pic_mask_all_eq unfolding s1_def .
  have e: "g_kind s = 2 \<Longrightarrow> leave_mode s = pic_unmask (ucast (bus_in s (bus_reads s) 0x21)) (ucast (bus_in s (Suc (bus_reads s)) 0xA1)) s2"
    unfolding leave_mode_def m Let_def case_prod_beta fst_conv snd_conv s2_def by (rule if_P)
  have v: "v_pg s1 = v_pg s" by (simp add: s1_def pic_mask_all_def Let_def case_prod_beta bus_defs)
  have k: "keeps s s2" using keeps_trans [OF pic_mask_all_frame(1)] by (simp add: s2_def s1_def)
  have l: "pic_log s2 = pic_log s @ [Out8 0x21 0xFF, Out8 0xA1 0xFF]" by (simp add: s2_def s1_def pic_mask_all_frame)
  have q: "g_kind s \<noteq> 2 \<Longrightarrow> quiet s (leave_mode s)" by (simp add: leave_mode_def)
  show "keeps s (leave_mode s)" using quiet_keeps [OF q] keeps_trans [OF k pic_unmask_frame(1)] e by (cases "g_kind s = 2") simp_all
  show "v_pg (leave_mode s) = v_pg s" using quietD(2) [OF q] v by (cases "g_kind s = 2") (simp_all add: e s2_def)
  show "if g_kind s = 2 then pic_saved s (leave_mode s) else pic_log (leave_mode s) = pic_log s"
    using quietD(1) [OF q] by (cases "g_kind s = 2") (simp_all add: e pic_saved_def l)
qed

lemma leave_eq:
  "vga_leave_graphics s =
     (let s = fold (\<lambda>i. vga_set_palette (word_of_nat i) (dac16 ! i)) [0..<16] (restore_font (write_regs mode_03h (leave_mode s)))
      in s\<lparr>text_mem := (\<lambda>i. if i < 80 * 25 then 0x0700 else text_mem s i)\<rparr>)"
  unfolding vga_leave_graphics_def leave_mode_def Let_def by (rule refl)

lemma leave_frame:
  "font_plane (vga_leave_graphics s) = (\<lambda>i. if i < 256 * 32 then font_backup s i else font_plane s i)"
  "v_pg (vga_leave_graphics s) = v_pg s"
  "text_mem (vga_leave_graphics s) = (\<lambda>i. if i < 80 * 25 then 0x0700 else text_mem s i)"
  "if g_kind s = 2 then pic_saved s (vga_leave_graphics s) else pic_log (vga_leave_graphics s) = pic_log s"
proof -
  define a where "a = leave_mode s"
  define b where "b = write_regs mode_03h a"
  define c where "c = restore_font b"
  define d where "d = fold (\<lambda>i. vga_set_palette (word_of_nat i) (dac16 ! i)) [0..<16] c"
  have e: "vga_leave_graphics s = d\<lparr>text_mem := (\<lambda>i. if i < 80 * 25 then 0x0700 else text_mem d i)\<rparr>"
    unfolding leave_eq Let_def a_def b_def c_def d_def by (rule refl)
  have A: "font_plane a = font_plane s" "font_backup a = font_backup s" "text_mem a = text_mem s" "v_pg a = v_pg s"
    using leave_mode_frame(1, 2) [of s] by (simp_all add: keeps_def a_def)
  have qb: "quiet a b" by (simp add: b_def quiet_write_regs)
  have qd: "quiet c d" unfolding d_def by (rule quiet_fold) (rule quiet_palette)
  note B = quietD [OF qb] and C = restore_font_frame [of b, folded c_def] and D = quietD [OF qd]
  show "font_plane (vga_leave_graphics s) = (\<lambda>i. if i < 256 * 32 then font_backup s i else font_plane s i)"
    unfolding e by (simp add: D C B A cong: if_cong)
  show "v_pg (vga_leave_graphics s) = v_pg s" unfolding e by (simp add: D C B A)
  show "text_mem (vga_leave_graphics s) = (\<lambda>i. if i < 80 * 25 then 0x0700 else text_mem s i)"
    unfolding e by (simp add: D C B A cong: if_cong)
  have "pic_log (vga_leave_graphics s) = pic_log a" unfolding e using D(1) C(4) B(1) by (simp add: pic_log_def)
  then show "if g_kind s = 2 then pic_saved s (vga_leave_graphics s) else pic_log (vga_leave_graphics s) = pic_log s"
    using leave_mode_frame(3) [of s] by (simp add: pic_saved_def a_def cong: if_cong)
qed


end
