(* ===== verification/Gfx.thy ===== *)
theory Gfx
  imports Vga Kheap StringLib
begin

text \<open>
  The drawing primitives of \<open>drivers/gfx.c\<close>. The back buffer and the frame buffer are parts of one byte store, so that
  a write outside the buffer, or into the other one, would show. Coordinates are C ints kept as \<open>int\<close>: addresses
  are taken modulo \<open>2^32\<close>, and \<open>gfx_ok\<close> bounds the buffer so that the offsets of clipped coordinates fit.
  The page tables of the display driver are those the heap maps its pages with.
\<close>

section \<open>State\<close>

record gfx =
  gvga :: vdev
  gheap :: kheap
  gmem :: bytes
  buf :: u32
  gw :: int
  gh :: int
  lut :: "u8 \<Rightarrow> u32"

definition FONT_W :: int where "FONT_W = 8"
definition FONT_H :: int where "FONT_H = 16"

definition shared_heap :: "gfx \<Rightarrow> kheap" where
  "shared_heap s = (gheap s)\<lparr>kh_pg := v_pg (gvga s)\<rparr>"

definition set_heap :: "kheap \<Rightarrow> gfx \<Rightarrow> gfx" where
  "set_heap h s = s\<lparr>gheap := h, gvga := (gvga s)\<lparr>v_pg := kh_pg h\<rparr>\<rparr>"

section \<open>Operations\<close>

definition gfx_init :: "gfx \<Rightarrow> (int \<times> gfx) option" where
  "gfx_init s =
     (let w = int (vga_width (gvga s)); h = int (vga_height (gvga s)); s = s\<lparr>gw := w, gh := h\<rparr>
      in map_option (\<lambda>(p, hp). (if p \<noteq> 0 then 0 else -1, (set_heap hp s)\<lparr>buf := p\<rparr>))
           (kmalloc (word_of_int w * word_of_int h) (shared_heap s)))"

definition gfx_shutdown :: "gfx \<Rightarrow> gfx option" where
  "gfx_shutdown s = (if buf s \<noteq> 0 then map_option (\<lambda>hp. (set_heap hp s)\<lparr>buf := 0\<rparr>) (kfree (buf s) (shared_heap s)) else Some s)"

definition gfx_width :: "gfx \<Rightarrow> int" where "gfx_width s = gw s"
definition gfx_height :: "gfx \<Rightarrow> int" where "gfx_height s = gh s"

definition six_to_eight :: "u8 \<Rightarrow> u8" where
  "six_to_eight v = push_bit 2 v OR drop_bit 4 v"

definition gfx_set_palette :: "u8 \<Rightarrow> u8 \<Rightarrow> u8 \<Rightarrow> u8 \<Rightarrow> gfx \<Rightarrow> gfx" where
  "gfx_set_palette index r g b s =
     (let s = s\<lparr>lut := (lut s)(index := push_bit 16 (ucast (six_to_eight r)) OR push_bit 8 (ucast (six_to_eight g)) OR ucast (six_to_eight b))\<rparr>
      in if vga_bpp (gvga s) = 8 then s\<lparr>gvga := vga_set_palette index (r, g, b) (gvga s)\<rparr> else s)"

definition gfx_clear :: "u8 \<Rightarrow> gfx \<Rightarrow> gfx" where
  "gfx_clear color s = s\<lparr>gmem := memset (buf s) color (unat (word_of_int (gw s) * word_of_int (gh s) :: u32)) (gmem s)\<rparr>"

definition pixel_addr :: "gfx \<Rightarrow> int \<Rightarrow> int \<Rightarrow> u32" where
  "pixel_addr s x y = buf s + word_of_int (y * gw s + x)"

definition on_screen :: "gfx \<Rightarrow> int \<Rightarrow> int \<Rightarrow> bool" where
  "on_screen s x y \<longleftrightarrow> \<not> (x < 0 \<or> x \<ge> gw s \<or> y < 0 \<or> y \<ge> gh s)"

definition gfx_pixel :: "int \<Rightarrow> int \<Rightarrow> u8 \<Rightarrow> gfx \<Rightarrow> gfx" where
  "gfx_pixel x y color s = (if \<not> on_screen s x y then s else s\<lparr>gmem := (gmem s)(pixel_addr s x y := color)\<rparr>)"

text \<open>The four lines with which \<open>gfx_fill_rect\<close> and \<open>gfx_present_rect\<close> begin.\<close>

definition clip :: "gfx \<Rightarrow> int \<Rightarrow> int \<Rightarrow> int \<Rightarrow> int \<Rightarrow> int \<times> int \<times> int \<times> int" where
  "clip s x y w h =
     (let (x, w) = (if x < 0 then (0, w + x) else (x, w));
          (y, h) = (if y < 0 then (0, h + y) else (y, h));
          w = (if x + w > gw s then gw s - x else w);
          h = (if y + h > gh s then gh s - y else h)
      in (x, y, w, h))"

fun fill_row :: "nat \<Rightarrow> u32 \<Rightarrow> u8 \<Rightarrow> bytes \<Rightarrow> bytes" where
  "fill_row 0 p color m = m"
| "fill_row (Suc n) p color m = fill_row n (p + 1) color (m(p := color))"

fun fill_rows :: "nat \<Rightarrow> int \<Rightarrow> int \<Rightarrow> int \<Rightarrow> u8 \<Rightarrow> gfx \<Rightarrow> gfx" where
  "fill_rows 0 x y w color s = s"
| "fill_rows (Suc n) x y w color s =
     fill_rows n x (y + 1) w color (s\<lparr>gmem := fill_row (nat w) (pixel_addr s x y) color (gmem s)\<rparr>)"

definition gfx_fill_rect :: "int \<Rightarrow> int \<Rightarrow> int \<Rightarrow> int \<Rightarrow> u8 \<Rightarrow> gfx \<Rightarrow> gfx" where
  "gfx_fill_rect x y w h color s = (let (x, y, w, h) = clip s x y w h in fill_rows (nat h) x y w color s)"

definition gfx_hline :: "int \<Rightarrow> int \<Rightarrow> int \<Rightarrow> u8 \<Rightarrow> gfx \<Rightarrow> gfx" where
  "gfx_hline x y w color s = gfx_fill_rect x y w 1 color s"

definition gfx_vline :: "int \<Rightarrow> int \<Rightarrow> int \<Rightarrow> u8 \<Rightarrow> gfx \<Rightarrow> gfx" where
  "gfx_vline x y h color s = gfx_fill_rect x y 1 h color s"

definition gfx_rect :: "int \<Rightarrow> int \<Rightarrow> int \<Rightarrow> int \<Rightarrow> u8 \<Rightarrow> gfx \<Rightarrow> gfx" where
  "gfx_rect x y w h color s =
     gfx_vline (x + w - 1) y h color (gfx_vline x y h color (gfx_hline x (y + h - 1) w color (gfx_hline x y w color s)))"

definition char_col :: "int \<Rightarrow> int \<Rightarrow> u8 \<Rightarrow> u8 \<Rightarrow> int \<Rightarrow> nat \<Rightarrow> gfx \<Rightarrow> gfx" where
  "char_col x y bits fg bg col s =
     (if bits AND drop_bit col 0x80 \<noteq> 0 then gfx_pixel (x + int col) y fg s
      else if bg \<ge> 0 then gfx_pixel (x + int col) y (word_of_int bg) s else s)"

definition char_row :: "int \<Rightarrow> int \<Rightarrow> char \<Rightarrow> u8 \<Rightarrow> int \<Rightarrow> nat \<Rightarrow> gfx \<Rightarrow> gfx" where
  "char_row x y c fg bg row s =
     (let bits = vga_font (gvga s) (of_char c * 32 + row) in fold (char_col x (y + int row) bits fg bg) [0..<nat FONT_W] s)"

definition gfx_char :: "int \<Rightarrow> int \<Rightarrow> char \<Rightarrow> u8 \<Rightarrow> int \<Rightarrow> gfx \<Rightarrow> gfx" where
  "gfx_char x y c fg bg s = fold (char_row x y c fg bg) [0..<nat FONT_H] s"

fun gfx_text :: "int \<Rightarrow> int \<Rightarrow> string \<Rightarrow> u8 \<Rightarrow> int \<Rightarrow> gfx \<Rightarrow> gfx" where
  "gfx_text x y [] fg bg s = s"
| "gfx_text x y (c # cs) fg bg s = gfx_text (x + FONT_W) y cs fg bg (gfx_char x y c fg bg s)"

definition gfx_text_width :: "string \<Rightarrow> int" where
  "gfx_text_width cs = int (length cs) * FONT_W"

text \<open>One row of \<open>gfx_present_rect\<close> in each format: \<open>p\<close> in the frame buffer, \<open>q\<close> in the back buffer.\<close>

definition store16 :: "u32 \<Rightarrow> u16 \<Rightarrow> bytes \<Rightarrow> bytes" where
  "store16 p v m = m(p := ucast v, p + 1 := ucast (drop_bit 8 v))"

definition store32 :: "u32 \<Rightarrow> u32 \<Rightarrow> bytes \<Rightarrow> bytes" where
  "store32 p v m = m(p := ucast v, p + 1 := ucast (drop_bit 8 v), p + 2 := ucast (drop_bit 16 v), p + 3 := ucast (drop_bit 24 v))"

definition store24 :: "u32 \<Rightarrow> u32 \<Rightarrow> bytes \<Rightarrow> bytes" where
  "store24 p c m = m(p := ucast c, p + 1 := ucast (drop_bit 8 c), p + 2 := ucast (drop_bit 16 c))"

definition rgb565 :: "u32 \<Rightarrow> u16" where
  "rgb565 c = (let r = ucast (drop_bit 16 c) :: u8; g = ucast (drop_bit 8 c) :: u8; b = ucast c :: u8
     in push_bit 11 (ucast (drop_bit 3 r)) OR push_bit 5 (ucast (drop_bit 2 g)) OR ucast (drop_bit 3 b))"

fun blit32 :: "nat \<Rightarrow> u32 \<Rightarrow> u32 \<Rightarrow> (u8 \<Rightarrow> u32) \<Rightarrow> bytes \<Rightarrow> bytes" where
  "blit32 0 p q l m = m"
| "blit32 (Suc n) p q l m = blit32 n (p + 4) (q + 1) l (store32 p (l (m q)) m)"

fun blit24 :: "nat \<Rightarrow> u32 \<Rightarrow> u32 \<Rightarrow> (u8 \<Rightarrow> u32) \<Rightarrow> bytes \<Rightarrow> bytes" where
  "blit24 0 p q l m = m"
| "blit24 (Suc n) p q l m = blit24 n (p + 3) (q + 1) l (store24 p (l (m q)) m)"

fun blit16 :: "nat \<Rightarrow> u32 \<Rightarrow> u32 \<Rightarrow> (u8 \<Rightarrow> u32) \<Rightarrow> bytes \<Rightarrow> bytes" where
  "blit16 0 p q l m = m"
| "blit16 (Suc n) p q l m = blit16 n (p + 2) (q + 1) l (store16 p (rgb565 (l (m q))) m)"

definition present_row :: "int \<Rightarrow> int \<Rightarrow> int \<Rightarrow> gfx \<Rightarrow> gfx" where
  "present_row x y w s =
     (let src = pixel_addr s x y;
          row = vga_framebuffer (gvga s) + word_of_int y * vga_pitch (gvga s);
          bpp = vga_bpp (gvga s)
      in s\<lparr>gmem :=
           (if bpp = 8 then memcpy (row + word_of_int x) src (nat w) (gmem s)
            else if bpp = 32 then blit32 (nat w) (row + word_of_int (x * 4)) src (lut s) (gmem s)
            else if bpp = 24 then blit24 (nat w) (row + word_of_int (x * 3)) src (lut s) (gmem s)
            else blit16 (nat w) (row + word_of_int (x * 2)) src (lut s) (gmem s))\<rparr>)"

fun present_rows :: "nat \<Rightarrow> int \<Rightarrow> int \<Rightarrow> int \<Rightarrow> gfx \<Rightarrow> gfx" where
  "present_rows 0 x y w s = s"
| "present_rows (Suc n) x y w s = present_rows n x (y + 1) w (present_row x y w s)"

definition gfx_present_rect :: "int \<Rightarrow> int \<Rightarrow> int \<Rightarrow> int \<Rightarrow> gfx \<Rightarrow> gfx" where
  "gfx_present_rect x y w h s =
     (let (x, y, w, h) = clip s x y w h
      in if w \<le> 0 \<or> h \<le> 0 then s else present_rows (nat h) x y w s)"

definition gfx_present :: "gfx \<Rightarrow> gfx" where
  "gfx_present s = gfx_present_rect 0 0 (gw s) (gh s) s"

definition gfx_fb_pixel :: "int \<Rightarrow> int \<Rightarrow> u8 \<Rightarrow> gfx \<Rightarrow> gfx" where
  "gfx_fb_pixel x y color s =
     (if \<not> on_screen s x y then s
      else let row = vga_framebuffer (gvga s) + word_of_int y * vga_pitch (gvga s); bpp = vga_bpp (gvga s); c = lut s color
      in s\<lparr>gmem :=
           (if bpp = 8 then (gmem s)(row + word_of_int x := color)
            else if bpp = 32 then store32 (row + word_of_int (x * 4)) c (gmem s)
            else if bpp = 24 then store24 (row + word_of_int (x * 3)) c (gmem s)
            else store16 (row + word_of_int (x * 2)) (rgb565 c) (gmem s))\<rparr>)"

section \<open>Windows of a raster\<close>

text \<open>Of all offsets of a raster with rows of length \<open>p\<close>, a run of length \<open>l\<close> that stays in its row covers that part of the row only.\<close>

lemma row_window:
  fixes p :: int
  assumes "0 \<le> x0" "x0 + l \<le> p" "0 \<le> x" "x < p"
  shows "0 \<le> (y * p + x) - (y0 * p + x0) \<and> (y * p + x) - (y0 * p + x0) < l \<longleftrightarrow> y = y0 \<and> x0 \<le> x \<and> x < x0 + l"
proof -
  have e: "(y * p + x) - (y0 * p + x0) = (y - y0) * p + (x - x0)" by (simp add: algebra_simps)
  consider "y = y0" | "1 \<le> y - y0" | "y - y0 \<le> -1" by linarith
  then show ?thesis
  proof cases
    case 2
    then have "1 * p \<le> (y - y0) * p" using assms by (intro mult_right_mono) auto
    then have "\<not> (y - y0) * p + (x - x0) < l" using assms by linarith
    then show ?thesis using 2 unfolding e by simp
  next
    case 3
    then have "(y - y0) * p \<le> (-1) * p" using assms by (intro mult_right_mono) auto
    then have "\<not> 0 \<le> (y - y0) * p + (x - x0)" using assms by linarith
    then show ?thesis using 3 unfolding e by simp
  qed auto
qed

lemma unat_word_of_int_window:
  assumes "- (2 ^ 31) < d" "d < 2 ^ 31" "l \<le> 2 ^ 31"
  shows "unat (word_of_int d :: u32) < nat l \<longleftrightarrow> 0 \<le> d \<and> d < l"
    and "0 \<le> d \<Longrightarrow> unat (word_of_int d :: u32) = nat d"
proof -
  have u: "unat (word_of_int d :: u32) = nat (d mod 2 ^ 32)"
    by (simp add: unat_eq_nat_uint uint_word_of_int take_bit_eq_mod)
  have p: "0 \<le> d \<Longrightarrow> d mod 2 ^ 32 = d" using assms by (intro mod_pos_pos_trivial) auto
  have n: "d mod 2 ^ 32 = d + 2 ^ 32" if "d < 0"
  proof -
    have "(d + 2 ^ 32) mod 2 ^ 32 = d + 2 ^ 32" using assms that by (intro mod_pos_pos_trivial) auto
    then show ?thesis by simp
  qed
  show "0 \<le> d \<Longrightarrow> unat (word_of_int d :: u32) = nat d" using u p by simp
  show "unat (word_of_int d :: u32) < nat l \<longleftrightarrow> 0 \<le> d \<and> d < l"
    using u p n assms by (cases "0 \<le> d") auto
qed

lemma raster_offset:
  fixes p :: int
  assumes "0 \<le> x" "x < p" "0 \<le> y" "y < h" shows "0 \<le> y * p + x" "y * p + x < h * p"
proof -
  show "0 \<le> y * p + x" using assms by simp
  have "(y + 1) * p \<le> h * p" using assms by (intro mult_right_mono) auto
  then show "y * p + x < h * p" using assms by (simp add: algebra_simps)
qed

text \<open>The address of a raster offset lies in a run at another offset exactly when the run covers it.\<close>

lemma raster_hit:
  fixes p :: int and b :: u32
  assumes c: "h * p \<le> 2 ^ 31" and x0: "0 \<le> x0" "x0 + l \<le> p" "0 < l" and y0: "0 \<le> y0" "y0 < h"
    and x: "0 \<le> x" "x < p" and y: "0 \<le> y" "y < h"
  shows "unat (b + word_of_int (y * p + x) - (b + word_of_int (y0 * p + x0))) < nat l \<longleftrightarrow> y = y0 \<and> x0 \<le> x \<and> x < x0 + l"
    and "y = y0 \<Longrightarrow> x0 \<le> x \<Longrightarrow> unat (b + word_of_int (y * p + x) - (b + word_of_int (y0 * p + x0))) = nat (x - x0)"
proof -
  let ?d = "(y * p + x) - (y0 * p + x0)"
  have d: "b + word_of_int (y * p + x) - (b + word_of_int (y0 * p + x0)) = word_of_int ?d" by simp
  have x0': "0 \<le> x0" "x0 < p" using x0 by simp_all
  note o = raster_offset [OF x y] raster_offset [OF x0' y0]
  have b: "- (2 ^ 31) < ?d" "?d < 2 ^ 31" using o c by linarith+
  have "1 * p \<le> h * p" using y x by (intro mult_right_mono) auto
  then have l: "l \<le> 2 ^ 31" using x0 c by linarith
  show "unat (b + word_of_int (y * p + x) - (b + word_of_int (y0 * p + x0))) < nat l \<longleftrightarrow> y = y0 \<and> x0 \<le> x \<and> x < x0 + l"
    unfolding d unat_word_of_int_window(1) [OF b l] by (rule row_window [OF x0(1, 2) x])
  show "unat (b + word_of_int (y * p + x) - (b + word_of_int (y0 * p + x0))) = nat (x - x0)" if "y = y0" "x0 \<le> x"
    unfolding d using unat_word_of_int_window(2) [OF b l] that by simp
qed

lemma unat_sub_step:
  fixes a p :: u32
  assumes "k < 2 ^ 32"
  shows "unat (a - (p + word_of_nat k)) = (if k \<le> unat (a - p) then unat (a - p) - k else unat (a - p) + 2 ^ 32 - k)"
proof -
  let ?k = "word_of_nat k :: u32"
  define d where "d = a - p"
  define n where "n = unat d"
  have k: "uint ?k = int k" using assms unat_of_nat_less [of k, where 'a = 32] by (simp add: uint_nat)
  have du: "uint d = int n" by (simp add: n_def)
  have "n < 2 ^ 32" unfolding n_def using unat_less_pow [of d] by simp
  then have "int n < int (2 ^ 32)" by (simp only: of_nat_less_iff)
  then have lt: "int n < 2 ^ 32" by simp
  have e: "a - (p + ?k) = d - ?k" by (simp add: d_def)
  have u: "unat (d - ?k) = nat ((int n - int k) mod 2 ^ 32)"
    unfolding unat_eq_nat_uint uint_word_ariths k du by simp
  have "int k < 2 ^ 32" using assms by (simp only: of_nat_less_iff [of k "2 ^ 32", where 'a = int, symmetric] of_nat_power of_nat_numeral)
  then show ?thesis unfolding e d_def [symmetric] u n_def [symmetric]
  proof (cases "k \<le> n")
    case True
    then have "(int n - int k) mod 2 ^ 32 = int n - int k" using lt by (intro mod_pos_pos_trivial) auto
    then show "nat ((int n - int k) mod 2 ^ 32) = (if k \<le> n then n - k else n + 2 ^ 32 - k)" using True by simp
  next
    case False
    have "(int n - int k + 2 ^ 32) mod 2 ^ 32 = int n - int k + 2 ^ 32"
      using lt \<open>int k < 2 ^ 32\<close> False by (intro mod_pos_pos_trivial) auto
    then have "(int n - int k) mod 2 ^ 32 = int n - int k + 2 ^ 32" by simp
    then show "nat ((int n - int k) mod 2 ^ 32) = (if k \<le> n then n - k else n + 2 ^ 32 - k)" using False by simp
  qed
qed

lemma unat_opposite: "a \<noteq> b \<Longrightarrow> unat (a - b) + unat (b - a) = 2 ^ 32" for a b :: u32
proof -
  assume "a \<noteq> b"
  then have n: "\<not> unat (a - b) \<le> unat (b - b)" by (simp add: unat_eq_0)
  have l: "unat (a - b) < 2 ^ 32" using unat_less_pow [of "a - b"] by simp
  have "b - a = b - (b + word_of_nat (unat (a - b)))" by simp
  then have "unat (b - a) = unat (b - b) + 2 ^ 32 - unat (a - b)" using unat_sub_step [OF l, of b b] n by (simp only: if_False)
  then show ?thesis using l by simp
qed

lemma unat_sub_inside:
  fixes a p :: u32
  assumes "unat (a - (p + word_of_nat k)) < n" "k + n \<le> 2 ^ 31" shows "unat (a - p) < k + n"
  using assms unat_sub_step [of k a p] by (simp split: if_splits)

lemma raster_run:
  fixes p :: int
  assumes c: "h * p \<le> 2 ^ 31" and x0: "0 \<le> x0" "x0 + l \<le> p" "0 < l" and y0: "0 \<le> y0" "y0 < h"
  shows "0 \<le> y0 * p + x0" "y0 * p + x0 + l \<le> h * p" "nat l \<le> 2 ^ 31"
proof -
  have "(y0 + 1) * p \<le> h * p" using y0 x0 by (intro mult_right_mono) auto
  then show o: "0 \<le> y0 * p + x0" "y0 * p + x0 + l \<le> h * p" using x0 y0 by (simp_all add: algebra_simps)
  have "l \<le> 2 ^ 31" using o c by linarith
  then show "nat l \<le> 2 ^ 31" by (simp add: nat_le_iff)
qed

lemma raster_outside:
  fixes p :: int and a b :: u32
  assumes c: "h * p \<le> 2 ^ 31" and x0: "0 \<le> x0" "x0 + l \<le> p" "0 < l" and y0: "0 \<le> y0" "y0 < h"
    and a: "nat (h * p) \<le> unat (a - b)"
  shows "\<not> unat (a - (b + word_of_int (y0 * p + x0))) < nat l"
proof -
  note o = raster_run [OF c x0 y0]
  have e: "nat (y0 * p + x0) + nat l \<le> nat (h * p)" using o x0 by linarith
  have "nat (h * p) \<le> 2 ^ 31" using c by (simp add: nat_le_iff)
  then have f: "nat (y0 * p + x0) + nat l \<le> 2 ^ 31" using e by (rule order_trans [rotated])
  have g: "b + word_of_int (y0 * p + x0) = b + word_of_nat (nat (y0 * p + x0))" using o by simp
  show ?thesis using unat_sub_inside [of a b "nat (y0 * p + x0)" "nat l"] a e f unfolding g by linarith
qed

section \<open>Drawing as overlays\<close>

text \<open>
  What a drawing operation does to the picture: an overlay gives the new colour of the pixels it covers. \<open>paints s f t\<close>
  says that \<open>t\<close> is \<open>s\<close> with the overlay \<open>f\<close> applied to the visible pixels of the back buffer, and that nothing else
  has changed, neither another field nor a byte of memory outside the buffer.
\<close>

definition pixel :: "gfx \<Rightarrow> int \<Rightarrow> int \<Rightarrow> u8" where
  "pixel s x y = gmem s (pixel_addr s x y)"

definition buffer_ok :: "gfx \<Rightarrow> bool" where
  "buffer_ok s \<longleftrightarrow> 0 < gw s \<and> 0 < gh s \<and> gh s * gw s \<le> 2 ^ 31"

type_synonym overlay = "int \<times> int \<rightharpoonup> u8"

definition paints :: "gfx \<Rightarrow> overlay \<Rightarrow> gfx \<Rightarrow> bool" where
  "paints s f t \<longleftrightarrow> t = s\<lparr>gmem := gmem t\<rparr> \<and>
     (\<forall>a. nat (gh s * gw s) \<le> unat (a - buf s) \<longrightarrow> gmem t a = gmem s a) \<and>
     (\<forall>x y. on_screen s x y \<longrightarrow> pixel t x y = (case f (x, y) of None \<Rightarrow> pixel s x y | Some c \<Rightarrow> c))"

lemma paints_frame:
  assumes "paints s f t"
  shows "gw t = gw s" "gh t = gh s" "buf t = buf s" "gvga t = gvga s" "gheap t = gheap s" "lut t = lut s"
proof -
  have t: "t = s\<lparr>gmem := gmem t\<rparr>" using assms by (simp add: paints_def)
  show "gw t = gw s" "gh t = gh s" "buf t = buf s" "gvga t = gvga s" "gheap t = gheap s" "lut t = lut s"
    by (subst t, simp)+
qed

lemma paints_ok [simp]: "paints s f t \<Longrightarrow> buffer_ok t = buffer_ok s"
  by (simp add: buffer_ok_def paints_frame)

lemma paints_refl [simp]: "paints s Map.empty s"
  by (simp add: paints_def)

lemma paints_trans:
  assumes st: "paints s f t" and tu: "paints t g u" shows "paints s (f ++ g) u"
proof -
  have t: "t = s\<lparr>gmem := gmem t\<rparr>" and u: "u = t\<lparr>gmem := gmem u\<rparr>" using st tu by (simp_all add: paints_def)
  have 1: "u = s\<lparr>gmem := gmem u\<rparr>" by (subst u, subst t, simp)
  have os: "on_screen t x y = on_screen s x y" for x y by (simp add: on_screen_def paints_frame [OF st])
  have 2: "pixel u x y = (case (f ++ g) (x, y) of None \<Rightarrow> pixel s x y | Some c \<Rightarrow> c)" if "on_screen s x y" for x y
    using st tu that os by (simp add: paints_def map_add_def split: option.splits)
  have 3: "gmem u a = gmem s a" if "nat (gh s * gw s) \<le> unat (a - buf s)" for a
    using st tu that by (simp add: paints_def paints_frame [OF st])
  show ?thesis unfolding paints_def using 1 2 3 by blast
qed

lemma paints_cong: "paints s f t \<Longrightarrow> (\<And>x y. on_screen s x y \<Longrightarrow> f (x, y) = g (x, y)) \<Longrightarrow> paints s g t"
  by (simp add: paints_def)

lemma pixel_addr_offset:
  assumes "buffer_ok s" "on_screen s x y"
  shows "unat (pixel_addr s x y - buf s) = nat (y * gw s + x)" "nat (y * gw s + x) < nat (gh s * gw s)"
proof -
  have o: "0 \<le> y * gw s + x" "y * gw s + x < gh s * gw s"
    using assms by (auto simp: on_screen_def buffer_ok_def intro!: raster_offset)
  show "nat (y * gw s + x) < nat (gh s * gw s)" using o by simp
  have b: "y * gw s + x < 2 ^ 31" using o assms by (simp add: buffer_ok_def)
  have "unat (word_of_int (y * gw s + x) :: u32) = nat (y * gw s + x)"
    by (rule unat_word_of_int_window(2) [where l = 0]) (use o b in simp_all)
  then show "unat (pixel_addr s x y - buf s) = nat (y * gw s + x)" by (simp add: pixel_addr_def)
qed

lemma fill_row_at: "n \<le> 2 ^ 31 \<Longrightarrow> fill_row n p c m a = (if unat (a - p) < n then c else m a)"
proof (induction n arbitrary: p m)
  case (Suc n)
  have s: "unat (a - (p + 1)) = (if 1 \<le> unat (a - p) then unat (a - p) - 1 else unat (a - p) + 2 ^ 32 - 1)"
    using unat_sub_step [of 1 a p] by simp
  have z: "unat (a - p) = 0 \<longleftrightarrow> a = p" by (simp add: unat_eq_0)
  have ih: "fill_row n (p + 1) c (m(p := c)) a = (if unat (a - (p + 1)) < n then c else (m(p := c)) a)"
    by (rule Suc.IH) (use Suc.prems in simp)
  show ?case unfolding fill_row.simps ih s using z Suc.prems by (cases "a = p") auto
qed simp

definition rect_map :: "int \<Rightarrow> int \<Rightarrow> int \<Rightarrow> int \<Rightarrow> u8 \<Rightarrow> overlay" where
  "rect_map x y w h c = (\<lambda>(px, py). if x \<le> px \<and> px < x + w \<and> y \<le> py \<and> py < y + h then Some c else None)"

lemma paints_run:
  assumes ok: "buffer_ok s" and x: "0 \<le> x" "x + w \<le> gw s" and y: "0 \<le> y" "y < gh s"
  shows "paints s (rect_map x y w 1 c) (s\<lparr>gmem := fill_row (nat w) (pixel_addr s x y) c (gmem s)\<rparr>)"
proof (cases "0 < w")
  case False
  then have "rect_map x y w 1 c (px, py) = None" for px py by (auto simp: rect_map_def)
  then show ?thesis using False by (simp add: paints_def pixel_def pixel_addr_def)
next
  case True
  let ?m = "fill_row (nat w) (pixel_addr s x y) c (gmem s)"
  have c: "gh s * gw s \<le> 2 ^ 31" using ok by (simp add: buffer_ok_def)
  have m: "?m a = (if unat (a - pixel_addr s x y) < nat w then c else gmem s a)" for a
    by (rule fill_row_at [OF raster_run(3) [OF c x True y]])
  have "?m a = gmem s a" if a: "nat (gh s * gw s) \<le> unat (a - buf s)" for a
    using raster_outside [OF c x True y a] unfolding pixel_addr_def [symmetric] by (simp only: m if_False)
  moreover have "?m (pixel_addr s px py) = (case rect_map x y w 1 c (px, py) of None \<Rightarrow> gmem s (pixel_addr s px py) | Some c \<Rightarrow> c)"
    if p: "on_screen s px py" for px py
  proof -
    have "unat (pixel_addr s px py - pixel_addr s x y) < nat w \<longleftrightarrow> py = y \<and> x \<le> px \<and> px < x + w"
      unfolding pixel_addr_def by (rule raster_hit(1) [OF c x True y]) (use p in \<open>auto simp: on_screen_def\<close>)
    then show ?thesis by (auto simp: m rect_map_def)
  qed
  ultimately show ?thesis unfolding paints_def pixel_def by (simp add: pixel_addr_def)
qed

lemma paints_pixel:
  assumes ok: "buffer_ok s" shows "paints s [(x, y) \<mapsto> c] (gfx_pixel x y c s)"
proof (cases "on_screen s x y")
  case False
  then have "paints s [(x, y) \<mapsto> c] s" by (intro paints_cong [OF paints_refl]) auto
  then show ?thesis using False by (simp add: gfx_pixel_def)
next
  case True
  then have "paints s (rect_map x y 1 1 c) (s\<lparr>gmem := fill_row (nat 1) (pixel_addr s x y) c (gmem s)\<rparr>)"
    by (intro paints_run [OF ok]) (auto simp: on_screen_def)
  then show ?thesis using True by (auto simp: gfx_pixel_def rect_map_def numeral_1_eq_Suc_0 elim!: paints_cong)
qed

lemma paints_rows:
  "\<lbrakk>buffer_ok s; 0 \<le> x; x + w \<le> gw s; 0 \<le> y; y + int n \<le> gh s\<rbrakk> \<Longrightarrow> paints s (rect_map x y w (int n) c) (fill_rows n x y w c s)"
proof (induction n arbitrary: y s)
  case 0
  have "paints s (rect_map x y w (int 0) c) s" by (rule paints_cong [OF paints_refl]) (auto simp: rect_map_def)
  then show ?case by simp
next
  case (Suc n)
  let ?t = "s\<lparr>gmem := fill_row (nat w) (pixel_addr s x y) c (gmem s)\<rparr>"
  have 1: "paints s (rect_map x y w 1 c) ?t" using Suc.prems by (intro paints_run) auto
  have 2: "paints ?t (rect_map x (y + 1) w (int n) c) (fill_rows n x (y + 1) w c ?t)"
    using Suc.prems 1 by (intro Suc.IH) (auto simp: buffer_ok_def)
  show ?case using paints_trans [OF 1 2] by (auto simp: rect_map_def map_add_def elim!: paints_cong)
qed

lemma clip_spec:
  assumes "clip s x y w h = (cx, cy, cw, ch)" "0 < gw s" "0 < gh s"
  shows "0 \<le> cx" "0 \<le> cy" "cx + cw \<le> gw s" "cy + ch \<le> gh s"
    and "on_screen s px py \<Longrightarrow> cx \<le> px \<and> px < cx + cw \<and> cy \<le> py \<and> py < cy + ch \<longleftrightarrow> x \<le> px \<and> px < x + w \<and> y \<le> py \<and> py < y + h"
  using assms by (auto simp: clip_def Let_def on_screen_def split: if_splits)

lemma paints_fill_rect:
  assumes ok: "buffer_ok s" shows "paints s (rect_map x y w h c) (gfx_fill_rect x y w h c s)"
proof -
  obtain cx cy cw ch where cl: "clip s x y w h = (cx, cy, cw, ch)" by (metis surj_pair)
  note c = clip_spec [OF cl, OF conjunct1 conjunct1 [OF conjunct2], OF ok [unfolded buffer_ok_def] ok [unfolded buffer_ok_def]]
  show ?thesis
  proof (cases "0 \<le> ch")
    case True
    then have "paints s (rect_map cx cy cw (int (nat ch)) c) (fill_rows (nat ch) cx cy cw c s)"
      using c by (intro paints_rows [OF ok]) auto
    then show ?thesis using True c(5)
      by (auto simp: gfx_fill_rect_def cl rect_map_def elim!: paints_cong)
  next
    case False
    have "rect_map x y w h c (px, py) = None" if "on_screen s px py" for px py
      using c(5) [OF that] False by (auto simp: rect_map_def)
    then show ?thesis using False by (auto simp: gfx_fill_rect_def cl intro: paints_cong [OF paints_refl])
  qed
qed

definition border_map :: "int \<Rightarrow> int \<Rightarrow> int \<Rightarrow> int \<Rightarrow> u8 \<Rightarrow> overlay" where
  "border_map x y w h c =
     rect_map x y w 1 c ++ rect_map x (y + h - 1) w 1 c ++ rect_map x y 1 h c ++ rect_map (x + w - 1) y 1 h c"

lemma paints_rect:
  assumes ok: "buffer_ok s" shows "paints s (border_map x y w h c) (gfx_rect x y w h c s)"
proof -
  have 1: "paints s (rect_map x y w 1 c) (gfx_hline x y w c s)" unfolding gfx_hline_def by (rule paints_fill_rect [OF ok])
  let ?a = "gfx_hline x y w c s" and ?b = "gfx_hline x (y + h - 1) w c (gfx_hline x y w c s)"
  let ?c = "gfx_vline x y h c ?b"
  have oa: "buffer_ok ?a" using paints_ok [OF 1] ok by simp
  have 2: "paints ?a (rect_map x (y + h - 1) w 1 c) ?b" unfolding gfx_hline_def [of x "y + h - 1"] by (rule paints_fill_rect [OF oa])
  have ob: "buffer_ok ?b" using paints_ok [OF 2] oa by simp
  have 3: "paints ?b (rect_map x y 1 h c) ?c" unfolding gfx_vline_def by (rule paints_fill_rect [OF ob])
  have oc: "buffer_ok ?c" using paints_ok [OF 3] ob by simp
  have 4: "paints ?c (rect_map (x + w - 1) y 1 h c) (gfx_vline (x + w - 1) y h c ?c)"
    unfolding gfx_vline_def [of "x + w - 1"] by (rule paints_fill_rect [OF oc])
  show ?thesis unfolding gfx_rect_def border_map_def by (rule paints_trans [OF paints_trans [OF paints_trans [OF 1 2] 3] 4])
qed

text \<open>A glyph of the font copy: the set bits, the leftmost highest, in the foreground colour, the others in the background unless it is negative.\<close>

definition ink :: "u8 \<Rightarrow> u8 \<Rightarrow> int \<Rightarrow> nat \<Rightarrow> u8 option" where
  "ink bits fg bg col = (if bit bits (7 - col) then Some fg else if bg \<ge> 0 then Some (word_of_int bg) else None)"

definition glyph_map :: "(nat \<Rightarrow> u8) \<Rightarrow> int \<Rightarrow> int \<Rightarrow> char \<Rightarrow> u8 \<Rightarrow> int \<Rightarrow> overlay" where
  "glyph_map font x y c fg bg = (\<lambda>(px, py).
     if x \<le> px \<and> px < x + 8 \<and> y \<le> py \<and> py < y + 16 then ink (font (of_char c * 32 + nat (py - y))) fg bg (nat (px - x)) else None)"

fun text_map :: "(nat \<Rightarrow> u8) \<Rightarrow> int \<Rightarrow> int \<Rightarrow> string \<Rightarrow> u8 \<Rightarrow> int \<Rightarrow> overlay" where
  "text_map font x y [] fg bg = Map.empty"
| "text_map font x y (c # cs) fg bg = glyph_map font x y c fg bg ++ text_map font (x + 8) y cs fg bg"

lemma column_bit: "col < 8 \<Longrightarrow> (bits AND drop_bit col 0x80 \<noteq> 0) = bit bits (7 - col)" for bits :: u8
proof -
  assume c: "col < 8"
  have "drop_bit col 0x80 = (2 ^ (7 - col) :: u8)"
  proof -
    have "col \<in> {0, 1, 2, 3, 4, 5, 6, 7}" using c by auto
    then show ?thesis by (elim insertE emptyE) (simp_all add: drop_bit_eq_div)
  qed
  then show ?thesis using and_exp_zero [of "7 - col" bits] by simp
qed

lemma paints_col:
  assumes ok: "buffer_ok s" and c: "col < 8"
  shows "paints s (\<lambda>p. if p = (x + int col, y) then ink bits fg bg col else None) (char_col x y bits fg bg col s)"
proof -
  have p: "paints s (\<lambda>p. if p = (x + int col, y) then Some v else None) (gfx_pixel (x + int col) y v s)" for v
    by (rule paints_cong [OF paints_pixel [OF ok]]) auto
  show ?thesis using p [of fg] p [of "word_of_int bg"]
    by (auto simp: char_col_def column_bit [OF c] ink_def intro: paints_cong [OF paints_refl] elim!: paints_cong)
qed

definition row_map :: "int \<Rightarrow> int \<Rightarrow> u8 \<Rightarrow> u8 \<Rightarrow> int \<Rightarrow> nat \<Rightarrow> overlay" where
  "row_map x y bits fg bg n = (\<lambda>(px, py). if py = y \<and> x \<le> px \<and> px < x + int n then ink bits fg bg (nat (px - x)) else None)"

lemma paints_cols:
  "buffer_ok s \<Longrightarrow> n \<le> 8 \<Longrightarrow> paints s (row_map x y bits fg bg n) (fold (char_col x y bits fg bg) [0..<n] s)"
proof (induction n)
  case 0
  have "paints s (row_map x y bits fg bg 0) s" by (rule paints_cong [OF paints_refl]) (auto simp: row_map_def)
  then show ?case by simp
next
  case (Suc n)
  let ?t = "fold (char_col x y bits fg bg) [0..<n] s"
  have 1: "paints s (row_map x y bits fg bg n) ?t" using Suc by simp
  have 2: "paints ?t (\<lambda>p. if p = (x + int n, y) then ink bits fg bg n else None) (char_col x y bits fg bg n ?t)"
    using Suc.prems paints_ok [OF 1] by (intro paints_col) auto
  have "paints s (row_map x y bits fg bg (Suc n)) (char_col x y bits fg bg n ?t)"
    by (rule paints_cong [OF paints_trans [OF 1 2]]) (auto simp: row_map_def map_add_def split: option.splits)
  then show ?case by simp
qed

definition part_glyph :: "(nat \<Rightarrow> u8) \<Rightarrow> int \<Rightarrow> int \<Rightarrow> char \<Rightarrow> u8 \<Rightarrow> int \<Rightarrow> nat \<Rightarrow> overlay" where
  "part_glyph font x y c fg bg n = (\<lambda>(px, py).
     if x \<le> px \<and> px < x + 8 \<and> y \<le> py \<and> py < y + int n then ink (font (of_char c * 32 + nat (py - y))) fg bg (nat (px - x)) else None)"

lemma paints_glyph_rows:
  "buffer_ok s \<Longrightarrow> paints s (part_glyph (vga_font (gvga s)) x y c fg bg n) (fold (char_row x y c fg bg) [0..<n] s)"
proof (induction n)
  case 0
  have "paints s (part_glyph (vga_font (gvga s)) x y c fg bg 0) s" by (rule paints_cong [OF paints_refl]) (auto simp: part_glyph_def)
  then show ?case by simp
next
  case (Suc n)
  let ?t = "fold (char_row x y c fg bg) [0..<n] s"
  let ?bits = "vga_font (gvga s) (of_char c * 32 + n)"
  have 1: "paints s (part_glyph (vga_font (gvga s)) x y c fg bg n) ?t" using Suc by simp
  have e: "char_row x y c fg bg n ?t = fold (char_col x (y + int n) ?bits fg bg) [0..<8] ?t"
    by (simp add: char_row_def FONT_W_def paints_frame [OF 1])
  have 2: "paints ?t (row_map x (y + int n) ?bits fg bg 8) (char_row x y c fg bg n ?t)"
    unfolding e using Suc.prems paints_ok [OF 1] by (intro paints_cols) auto
  have "paints s (part_glyph (vga_font (gvga s)) x y c fg bg (Suc n)) (char_row x y c fg bg n ?t)"
    by (rule paints_cong [OF paints_trans [OF 1 2]]) (auto simp: row_map_def part_glyph_def map_add_def split: option.splits)
  then show ?case by simp
qed

lemma paints_char:
  assumes "buffer_ok s" shows "paints s (glyph_map (vga_font (gvga s)) x y c fg bg) (gfx_char x y c fg bg s)"
  using paints_glyph_rows [OF assms, of x y c fg bg 16]
  by (simp add: gfx_char_def FONT_H_def part_glyph_def glyph_map_def)

lemma paints_text: "buffer_ok s \<Longrightarrow> paints s (text_map (vga_font (gvga s)) x y cs fg bg) (gfx_text x y cs fg bg s)"
proof (induction cs arbitrary: x s)
  case (Cons c cs)
  let ?t = "gfx_char x y c fg bg s"
  have 1: "paints s (glyph_map (vga_font (gvga s)) x y c fg bg) ?t" by (rule paints_char [OF Cons.prems])
  have 2: "paints ?t (text_map (vga_font (gvga ?t)) (x + 8) y cs fg bg) (gfx_text (x + 8) y cs fg bg ?t)"
    using Cons.prems paints_ok [OF 1] by (intro Cons.IH) simp
  show ?case using paints_trans [OF 1 2] by (simp add: FONT_W_def paints_frame [OF 1])
qed simp

lemma paints_clear:
  assumes ok: "buffer_ok s" shows "paints s (\<lambda>p. Some c) (gfx_clear c s)"
proof -
  have b: "0 \<le> gh s * gw s" "gh s * gw s \<le> 2 ^ 31" using ok by (simp_all add: buffer_ok_def)
  have n: "unat (word_of_int (gw s) * word_of_int (gh s) :: u32) = nat (gh s * gw s)"
  proof -
    have "unat (word_of_int (gh s * gw s) :: u32) = nat (gh s * gw s mod 2 ^ 32)"
      by (simp only: unat_eq_nat_uint uint_word_of_int take_bit_eq_mod) simp
    moreover have "gh s * gw s mod 2 ^ 32 = gh s * gw s" using b by (intro mod_pos_pos_trivial) auto
    ultimately show ?thesis by (simp add: mult.commute)
  qed
  have m: "nat (gh s * gw s) \<le> 2 ^ 31" using b by (simp add: nat_le_iff)
  have fr: "fill_row k p c m = memset p c k m" for k p m by (induction k arbitrary: p m) simp_all
  have at: "gmem (gfx_clear c s) a = (if unat (a - buf s) < nat (gh s * gw s) then c else gmem s a)" for a
    using fill_row_at [OF m, of "buf s" c "gmem s" a] by (simp add: gfx_clear_def n fr)
  show ?thesis unfolding paints_def pixel_def
    using pixel_addr_offset [OF ok] by (auto simp: at) (auto simp: gfx_clear_def pixel_addr_def)
qed

section \<open>Presenting\<close>

text \<open>The bytes of one colour index in the format of the frame buffer.\<close>

definition depth_bytes :: "nat \<Rightarrow> int" where
  "depth_bytes bpp = (if bpp = 8 then 1 else if bpp = 32 then 4 else if bpp = 24 then 3 else 2)"

definition encode :: "nat \<Rightarrow> (u8 \<Rightarrow> u32) \<Rightarrow> u8 \<Rightarrow> u8 list" where
  "encode bpp l i =
     (if bpp = 8 then [i]
      else if bpp = 32 then [ucast (l i), ucast (drop_bit 8 (l i)), ucast (drop_bit 16 (l i)), ucast (drop_bit 24 (l i))]
      else if bpp = 24 then [ucast (l i), ucast (drop_bit 8 (l i)), ucast (drop_bit 16 (l i))]
      else [ucast (rgb565 (l i)), ucast (drop_bit 8 (rgb565 (l i)))])"

lemma length_encode [simp]: "length (encode bpp l i) = nat (depth_bytes bpp)"
  by (simp add: encode_def depth_bytes_def)

lemma depth_bytes_bounds: "0 < depth_bytes bpp" "depth_bytes bpp \<le> 4"
  by (simp_all add: depth_bytes_def)

fun put_bytes :: "u32 \<Rightarrow> u8 list \<Rightarrow> bytes \<Rightarrow> bytes" where
  "put_bytes p [] m = m"
| "put_bytes p (b # bs) m = put_bytes (p + 1) bs (m(p := b))"

lemma put_bytes_at: "length bs \<le> 2 ^ 31 \<Longrightarrow> put_bytes p bs m a = (if unat (a - p) < length bs then bs ! unat (a - p) else m a)"
proof (induction bs arbitrary: p m)
  case (Cons b bs)
  have s: "unat (a - (p + 1)) = (if 1 \<le> unat (a - p) then unat (a - p) - 1 else unat (a - p) + 2 ^ 32 - 1)"
    using unat_sub_step [of 1 a p] by simp
  have z: "unat (a - p) = 0 \<longleftrightarrow> a = p" by (simp add: unat_eq_0)
  have ih: "put_bytes (p + 1) bs (m(p := b)) a = (if unat (a - (p + 1)) < length bs then bs ! unat (a - (p + 1)) else (m(p := b)) a)"
    by (rule Cons.IH) (use Cons.prems in simp)
  show ?case unfolding put_bytes.simps ih s using z Cons.prems
    by (cases "a = p") (auto simp: nth_Cons')
qed simp

lemma store_put: "store16 p v m = put_bytes p [ucast v, ucast (drop_bit 8 v)] m"
  "store24 p c m = put_bytes p [ucast c, ucast (drop_bit 8 c), ucast (drop_bit 16 c)] m"
  "store32 p c m = put_bytes p [ucast c, ucast (drop_bit 8 c), ucast (drop_bit 16 c), ucast (drop_bit 24 c)] m"
  by (simp_all add: store16_def store24_def store32_def add.commute)

text \<open>All four row loops are this one.\<close>

fun blit :: "nat \<Rightarrow> nat \<Rightarrow> u32 \<Rightarrow> u32 \<Rightarrow> (u8 \<Rightarrow> u32) \<Rightarrow> bytes \<Rightarrow> bytes" where
  "blit bpp 0 p q l m = m"
| "blit bpp (Suc n) p q l m = blit bpp n (p + word_of_int (depth_bytes bpp)) (q + 1) l (put_bytes p (encode bpp l (m q)) m)"

lemma blit_eqs: "memcpy p q n m = blit 8 n p q l m" "blit32 n p q l m = blit 32 n p q l m" "blit24 n p q l m = blit 24 n p q l m"
  "bpp \<noteq> 8 \<Longrightarrow> bpp \<noteq> 32 \<Longrightarrow> bpp \<noteq> 24 \<Longrightarrow> blit16 n p q l m = blit bpp n p q l m"
  by (induction n arbitrary: p q m) (simp_all add: encode_def depth_bytes_def store_put del: fun_upd_apply)

lemma present_row_blit:
  "present_row x y w s = s\<lparr>gmem := blit (vga_bpp (gvga s)) (nat w)
     (g_fb (gvga s) + word_of_int y * g_pitch (gvga s) + word_of_int (x * depth_bytes (vga_bpp (gvga s)))) (pixel_addr s x y) (lut s) (gmem s)\<rparr>"
  unfolding present_row_def Let_def
  by (simp add: blit_eqs [where l = "lut s"] vga_framebuffer_def vga_pitch_def depth_bytes_def)

lemma blit_at:
  assumes "nat (depth_bytes bpp) * n \<le> 2 ^ 31"
    and "\<And>i. i < n \<Longrightarrow> \<not> unat (q + word_of_nat i - p) < nat (depth_bytes bpp) * n"
  shows "blit bpp n p q l m a =
     (if unat (a - p) < nat (depth_bytes bpp) * n
      then encode bpp l (m (q + word_of_nat (unat (a - p) div nat (depth_bytes bpp)))) ! (unat (a - p) mod nat (depth_bytes bpp))
      else m a)"
  using assms
proof (induction n arbitrary: p q m)
  case (Suc n)
  define k where "k = nat (depth_bytes bpp)"
  have k: "0 < k" "k \<le> 4" using depth_bytes_bounds [of bpp] by (simp_all add: k_def)
  have kw: "word_of_int (depth_bytes bpp) = (word_of_nat k :: u32)" using depth_bytes_bounds [of bpp] by (simp add: k_def)
  let ?m = "put_bytes p (encode bpp l (m q)) m"
  have bd: "k * n + k \<le> 2 ^ 31" using Suc.prems(1) by (simp add: k_def)
  have m: "?m b = (if unat (b - p) < k then encode bpp l (m q) ! unat (b - p) else m b)" for b
    using put_bytes_at [of "encode bpp l (m q)" p m b] k by (simp add: k_def)
  have st: "unat (b - (p + word_of_nat k)) = (if k \<le> unat (b - p) then unat (b - p) - k else unat (b - p) + 2 ^ 32 - k)" for b
    by (rule unat_sub_step) (use k in simp)
  have far: "\<not> unat (q + word_of_nat i - p) < k * n + k" if "i < Suc n" for i
    using Suc.prems(2) [OF that] by (simp add: k_def)
  have far': "\<not> unat (q + 1 + word_of_nat i - (p + word_of_nat k)) < k * n" if "i < n" for i
    using far [of "Suc i"] that bd k unfolding st by (auto simp: add.assoc)
  have ih: "blit bpp n (p + word_of_nat k) (q + 1) l ?m a =
     (if unat (a - (p + word_of_nat k)) < k * n
      then encode bpp l (?m (q + 1 + word_of_nat (unat (a - (p + word_of_nat k)) div k))) ! (unat (a - (p + word_of_nat k)) mod k)
      else ?m a)"
    unfolding k_def by (rule Suc.IH) (use bd far' in \<open>simp_all add: k_def\<close>)
  let ?d = "unat (a - p)"
  show ?case
  proof (cases "?d < k")
    case True
    then have "\<not> unat (a - (p + word_of_nat k)) < k * n" unfolding st using bd by auto
    then have "blit bpp n (p + word_of_nat k) (q + 1) l ?m a = encode bpp l (m q) ! ?d" using True by (simp add: ih m)
    then show ?thesis using True k by (simp add: kw k_def [symmetric])
  next
    case False
    then have d: "unat (a - (p + word_of_nat k)) = ?d - k" unfolding st by simp
    have dm: "?d div k = Suc ((?d - k) div k)" "?d mod k = (?d - k) mod k"
      using False k by (simp_all add: le_div_geq le_mod_geq)
    show ?thesis
    proof (cases "?d < k * n + k")
      case True
      then have i: "(?d - k) div k < n" using False k by (simp add: div_less_iff_less_mult mult.commute)
      have "\<not> unat (q + word_of_nat (Suc ((?d - k) div k)) - p) < k" using far [of "Suc ((?d - k) div k)"] i by simp
      then have "?m (q + 1 + word_of_nat ((?d - k) div k)) = m (q + word_of_nat (?d div k))"
        unfolding dm(1) by (subst m) (simp add: add.assoc)
      moreover have "?d - k < k * n" using True False by simp
      ultimately have "blit bpp n (p + word_of_nat k) (q + 1) l ?m a = encode bpp l (m (q + word_of_nat (?d div k))) ! (?d mod k)"
        unfolding ih d dm(2) by (simp only: if_True)
      then show ?thesis using True by (simp add: kw k_def [symmetric])
    next
      case ge: False
      then have "\<not> ?d - k < k * n" using False by simp
      then have "blit bpp n (p + word_of_nat k) (q + 1) l ?m a = ?m a" by (simp add: ih d)
      then show ?thesis using ge False by (simp add: kw k_def [symmetric] m)
    qed
  qed
qed simp

text \<open>
  The frame buffer as a raster: each row has room for all pixels, and neither buffer reaches into the other.
\<close>

definition px_bytes :: "gfx \<Rightarrow> int" where "px_bytes s = depth_bytes (g_bpp (gvga s))"
definition fb_pitch :: "gfx \<Rightarrow> int" where "fb_pitch s = uint (g_pitch (gvga s))"

definition fb_addr :: "gfx \<Rightarrow> int \<Rightarrow> int \<Rightarrow> u32" where
  "fb_addr s x y = g_fb (gvga s) + word_of_int (y * fb_pitch s + x * px_bytes s)"

definition fb_ok :: "gfx \<Rightarrow> bool" where
  "fb_ok s \<longleftrightarrow> buffer_ok s \<and> gw s * px_bytes s \<le> fb_pitch s \<and> gh s * fb_pitch s \<le> 2 ^ 31 \<and>
     nat (gh s * fb_pitch s) \<le> unat (buf s - g_fb (gvga s)) \<and> nat (gh s * gw s) \<le> unat (g_fb (gvga s) - buf s)"

definition seen :: "gfx \<Rightarrow> int \<Rightarrow> int \<Rightarrow> u8 list" where
  "seen s x y = load (fb_addr s x y) (nat (px_bytes s)) (gmem s)"

definition colour_bytes :: "gfx \<Rightarrow> u8 \<Rightarrow> u8 list" where
  "colour_bytes s i = encode (g_bpp (gvga s)) (lut s) i"

text \<open>The bytes of memory outside the frame buffer keep their values.\<close>

definition only_fb :: "gfx \<Rightarrow> gfx \<Rightarrow> bool" where
  "only_fb s t \<longleftrightarrow> t = s\<lparr>gmem := gmem t\<rparr> \<and> (\<forall>a. nat (gh s * fb_pitch s) \<le> unat (a - g_fb (gvga s)) \<longrightarrow> gmem t a = gmem s a)"

definition shown :: "gfx \<Rightarrow> (int \<Rightarrow> int \<Rightarrow> bool) \<Rightarrow> gfx \<Rightarrow> bool" where
  "shown s R t \<longleftrightarrow> only_fb s t \<and>
     (\<forall>x y. on_screen s x y \<longrightarrow> seen t x y = (if R x y then colour_bytes s (pixel s x y) else seen s x y))"

lemma buffer_outside_fb:
  assumes ok: "fb_ok s" and o: "on_screen s x y"
  shows "nat (gh s * fb_pitch s) \<le> unat (pixel_addr s x y - g_fb (gvga s))"
proof -
  let ?b = "buf s" and ?f = "g_fb (gvga s)" and ?i = "nat (y * gw s + x)"
  have bo: "buffer_ok s" using ok by (simp add: fb_ok_def)
  have i: "unat (pixel_addr s x y - ?b) = ?i" "?i < nat (gh s * gw s)" using pixel_addr_offset [OF bo o] by simp_all
  have ne: "?b \<noteq> ?f" using i(2) ok by (auto simp: fb_ok_def)
  have "unat (?b - ?f) + unat (?f - ?b) = 2 ^ 32" by (rule unat_opposite [OF ne])
  moreover have "nat (gh s * gw s) \<le> unat (?f - ?b)" using ok by (simp add: fb_ok_def)
  ultimately have "unat (?b - ?f) + ?i < 2 ^ 32" using i(2) by linarith
  then have "unat ((?b - ?f) + (pixel_addr s x y - ?b)) = unat (?b - ?f) + ?i"
    using i(1) unat_plus_simple [of "?b - ?f" "pixel_addr s x y - ?b"] by simp
  then show ?thesis using ok by (simp add: fb_ok_def)
qed

lemma only_fb_frame:
  assumes "only_fb s t"
  shows "gw t = gw s" "gh t = gh s" "buf t = buf s" "gvga t = gvga s" "gheap t = gheap s" "lut t = lut s"
proof -
  have t: "t = s\<lparr>gmem := gmem t\<rparr>" using assms by (simp add: only_fb_def)
  show "gw t = gw s" "gh t = gh s" "buf t = buf s" "gvga t = gvga s" "gheap t = gheap s" "lut t = lut s"
    by (subst t, simp)+
qed

lemma only_fb_defs:
  assumes "only_fb s t"
  shows "fb_ok t = fb_ok s" "on_screen t x y = on_screen s x y" "colour_bytes t i = colour_bytes s i" "fb_pitch t = fb_pitch s"
    "fb_addr t x y = fb_addr s x y" "px_bytes t = px_bytes s" "pixel_addr t x y = pixel_addr s x y" "buffer_ok t = buffer_ok s"
  by (simp_all add: only_fb_frame [OF assms] fb_ok_def on_screen_def colour_bytes_def fb_pitch_def fb_addr_def px_bytes_def
      buffer_ok_def pixel_addr_def)

lemma only_fb_pixel: "fb_ok s \<Longrightarrow> only_fb s t \<Longrightarrow> on_screen s x y \<Longrightarrow> pixel t x y = pixel s x y"
  using buffer_outside_fb [of s x y] by (simp add: only_fb_def pixel_def only_fb_defs(7))

lemma only_fb_refl [simp]: "only_fb s s" by (simp add: only_fb_def)

lemma only_fb_trans:
  assumes st: "only_fb s t" and tu: "only_fb t u" shows "only_fb s u"
proof -
  have "t = s\<lparr>gmem := gmem t\<rparr>" and u: "u = t\<lparr>gmem := gmem u\<rparr>" using st tu by (simp_all add: only_fb_def)
  then have "u = s\<lparr>gmem := gmem u\<rparr>" by (metis gfx.surjective gfx.update_convs(3))
  then show ?thesis using st tu only_fb_frame [OF st] by (auto simp: only_fb_def fb_pitch_def)
qed

lemma shown_trans:
  assumes ok: "fb_ok s" and st: "shown s Q t" and tu: "shown t R u" shows "shown s (\<lambda>x y. Q x y \<or> R x y) u"
proof -
  have a: "only_fb s t" "only_fb t u" using st tu by (simp_all add: shown_def)
  have "seen u x y = (if Q x y \<or> R x y then colour_bytes s (pixel s x y) else seen s x y)" if o: "on_screen s x y" for x y
  proof -
    have "on_screen t x y" using o by (simp add: only_fb_defs [OF a(1)])
    then have "seen u x y = (if R x y then colour_bytes s (pixel s x y) else seen t x y)"
      using tu only_fb_pixel [OF ok a(1) o] by (simp add: shown_def only_fb_defs [OF a(1)])
    then show ?thesis using st o by (simp add: shown_def)
  qed
  then show ?thesis using only_fb_trans [OF a] by (simp add: shown_def)
qed

lemma fb_run_addr:
  "g_fb (gvga s) + word_of_int y * g_pitch (gvga s) + word_of_int (x * depth_bytes (vga_bpp (gvga s))) = fb_addr s x y"
  by (simp add: fb_addr_def fb_pitch_def px_bytes_def vga_bpp_def add.assoc)

lemma run_hits:
  fixes k :: int
  assumes "0 < k" "0 \<le> j" "j < k"
  shows "x0 * k \<le> x * k + j \<and> x * k + j < x0 * k + w * k \<longleftrightarrow> x0 \<le> x \<and> x < x0 + w"
proof -
  have e: "(x * k + j) div k = x" using assms by simp
  have f: "x0 * k + w * k = (x0 + w) * k" by (simp add: algebra_simps)
  have g: "b * k \<le> x * k + j \<longleftrightarrow> b \<le> x" for b
  proof
    assume "b * k \<le> x * k + j"
    then have "b * k div k \<le> (x * k + j) div k" using assms(1) by (intro zdiv_mono1) auto
    then show "b \<le> x" using assms(1) e by simp
  next
    assume "b \<le> x"
    then have "b * k \<le> x * k" using assms(1) by (intro mult_right_mono) auto
    then show "b * k \<le> x * k + j" using assms(2) by linarith
  qed
  show ?thesis unfolding f using g [of x0] g [of "x0 + w"] by (auto simp: not_le [symmetric])
qed

text \<open>A single run of pixels of the frame buffer.\<close>

lemma fb_run:
  assumes ok: "fb_ok s" and x: "0 \<le> x" "x + w \<le> gw s" "0 < w" and y: "0 \<le> y" "y < gh s"
  shows "nat (gh s * fb_pitch s) \<le> unat (a - g_fb (gvga s)) \<Longrightarrow> \<not> unat (a - fb_addr s x y) < nat (px_bytes s) * nat w"
    and "nat (px_bytes s) * nat w \<le> 2 ^ 31"
    and "on_screen s px py \<Longrightarrow> j < nat (px_bytes s) \<Longrightarrow>
      unat (fb_addr s px py + word_of_nat j - fb_addr s x y) < nat (px_bytes s) * nat w \<longleftrightarrow> py = y \<and> x \<le> px \<and> px < x + w"
    and "on_screen s px py \<Longrightarrow> j < nat (px_bytes s) \<Longrightarrow> py = y \<Longrightarrow> x \<le> px \<Longrightarrow>
      unat (fb_addr s px py + word_of_nat j - fb_addr s x y) = nat (px - x) * nat (px_bytes s) + j"
proof -
  let ?k = "px_bytes s" and ?p = "fb_pitch s"
  have k: "0 < ?k" by (simp add: px_bytes_def depth_bytes_bounds)
  have n: "nat ?k * nat w = nat (w * ?k)" using k x by (simp add: nat_mult_distrib mult.commute)
  have c: "gh s * ?p \<le> 2 ^ 31" "gw s * ?k \<le> ?p" using ok by (simp_all add: fb_ok_def)
  have x0: "0 \<le> x * ?k" "0 < w * ?k" using x k by simp_all
  have "(x + w) * ?k \<le> gw s * ?k" using x k by (intro mult_right_mono) auto
  then have x1: "x * ?k + w * ?k \<le> ?p" using c(2) by (simp add: algebra_simps)
  show "nat (px_bytes s) * nat w \<le> 2 ^ 31" unfolding n by (rule raster_run(3) [OF c(1) x0(1) x1 x0(2) y])
  show "\<not> unat (a - fb_addr s x y) < nat (px_bytes s) * nat w" if "nat (gh s * fb_pitch s) \<le> unat (a - g_fb (gvga s))"
    unfolding n fb_addr_def by (rule raster_outside [OF c(1) x0(1) x1 x0(2) y that])
  {
    assume o: "on_screen s px py" and j: "j < nat ?k"
    have e: "fb_addr s px py + word_of_nat j = g_fb (gvga s) + word_of_int (py * ?p + (px * ?k + int j))"
      by (simp add: fb_addr_def add.assoc)
    have "(px + 1) * ?k \<le> gw s * ?k" using o k by (intro mult_right_mono) (auto simp: on_screen_def)
    then have q: "0 \<le> px * ?k + int j" "px * ?k + int j < ?p"
      using o j k c(2) by (auto simp: on_screen_def algebra_simps)
    have r: "0 \<le> py" "py < gh s" using o by (auto simp: on_screen_def)
    note hit = raster_hit [OF c(1) x0(1) x1 x0(2) y q r, of "g_fb (gvga s)"]
    note rh = run_hits [OF k, of "int j" x px w]
    show "unat (fb_addr s px py + word_of_nat j - fb_addr s x y) < nat ?k * nat w \<longleftrightarrow> py = y \<and> x \<le> px \<and> px < x + w"
      unfolding n e using hit(1) rh j by (simp add: fb_addr_def)
    assume s: "py = y" "x \<le> px"
    have "x * ?k \<le> px * ?k" using s k by (intro mult_right_mono) auto
    then have "x * ?k \<le> px * ?k + int j" by simp
    then have "unat (fb_addr s px py + word_of_nat j - fb_addr s x y) = nat (px * ?k + int j - x * ?k)"
      unfolding e unfolding fb_addr_def by (rule hit(2) [OF s(1)])
    also have "px * ?k + int j - x * ?k = (px - x) * ?k + int j" by (simp add: algebra_simps)
    also have "nat \<dots> = nat (px - x) * nat ?k + j" using s k by (simp add: nat_add_distrib nat_mult_distrib)
    finally show "unat (fb_addr s px py + word_of_nat j - fb_addr s x y) = nat (px - x) * nat ?k + j" .
  }
qed

lemma shown_row:
  assumes ok: "fb_ok s" and x: "0 \<le> x" "x + w \<le> gw s" "0 < w" and y: "0 \<le> y" "y < gh s"
  shows "shown s (\<lambda>px py. py = y \<and> x \<le> px \<and> px < x + w) (present_row x y w s)"
proof -
  let ?k = "nat (px_bytes s)" and ?p = "fb_addr s x y" and ?q = "pixel_addr s x y"
  define t where "t = present_row x y w s"
  have kd: "nat (depth_bytes (vga_bpp (gvga s))) = ?k" by (simp add: px_bytes_def vga_bpp_def)
  have k: "0 < ?k" by (simp add: px_bytes_def depth_bytes_bounds)
  have t: "t = s\<lparr>gmem := blit (vga_bpp (gvga s)) (nat w) ?p ?q (lut s) (gmem s)\<rparr>"
    unfolding t_def present_row_blit fb_run_addr by (rule refl)
  note run = fb_run [OF ok x y]
  have src: "?q + word_of_nat i = pixel_addr s (x + int i) y" for i by (simp add: pixel_addr_def add.assoc)
  have on: "on_screen s (x + int i) y" if "i < nat w" for i using that x y by (auto simp: on_screen_def)
  have far: "\<not> unat (?q + word_of_nat i - ?p) < ?k * nat w" if "i < nat w" for i
    unfolding src by (rule run(1) [OF buffer_outside_fb [OF ok on [OF that]]])
  have at: "gmem t a = (if unat (a - ?p) < ?k * nat w
      then encode (vga_bpp (gvga s)) (lut s) (gmem s (?q + word_of_nat (unat (a - ?p) div ?k))) ! (unat (a - ?p) mod ?k) else gmem s a)" for a
    unfolding t using blit_at [where bpp = "vga_bpp (gvga s)", unfolded kd, OF run(2) far] by simp
  have 1: "only_fb s t" unfolding only_fb_def
  proof (intro conjI allI impI)
    show "t = s\<lparr>gmem := gmem t\<rparr>" unfolding t by simp
    show "gmem t a = gmem s a" if "nat (gh s * fb_pitch s) \<le> unat (a - g_fb (gvga s))" for a
      using run(1) [OF that] by (simp only: at if_False)
  qed
  have "seen t px py = (if py = y \<and> x \<le> px \<and> px < x + w then colour_bytes s (pixel s px py) else seen s px py)"
    if o: "on_screen s px py" for px py
  proof (rule nth_equalityI)
    have len: "length (colour_bytes s i) = ?k" for i by (simp add: colour_bytes_def px_bytes_def)
    show "length (seen t px py) = length (if py = y \<and> x \<le> px \<and> px < x + w then colour_bytes s (pixel s px py) else seen s px py)"
      by (simp add: seen_def load_def len only_fb_defs [OF 1])
    fix j assume "j < length (seen t px py)"
    then have j: "j < ?k" by (simp add: seen_def load_def only_fb_defs [OF 1])
    let ?a = "fb_addr s px py + word_of_nat j"
    have st: "seen t px py ! j = gmem t ?a" "seen s px py ! j = gmem s ?a"
      using j by (simp_all add: seen_def load_def only_fb_defs [OF 1])
    show "seen t px py ! j = (if py = y \<and> x \<le> px \<and> px < x + w then colour_bytes s (pixel s px py) else seen s px py) ! j"
    proof (cases "py = y \<and> x \<le> px \<and> px < x + w")
      case True
      then have d: "unat (?a - ?p) = nat (px - x) * ?k + j" using run(4) [OF o j] by simp
      have dm: "(nat (px - x) * ?k + j) div ?k = nat (px - x)" "(nat (px - x) * ?k + j) mod ?k = j" using j k by simp_all
      have h: "unat (?a - ?p) < ?k * nat w" using run(3) [OF o j] True by simp
      have pa: "?q + word_of_nat (nat (px - x)) = pixel_addr s px py" unfolding src using True by simp
      have "gmem t ?a = encode (vga_bpp (gvga s)) (lut s) (gmem s (?q + word_of_nat (unat (?a - ?p) div ?k))) ! (unat (?a - ?p) mod ?k)"
        using h by (simp only: at if_True)
      then have "gmem t ?a = encode (vga_bpp (gvga s)) (lut s) (pixel s px py) ! j"
        unfolding d dm pa by (simp only: pixel_def)
      then show ?thesis unfolding st if_P [OF True] colour_bytes_def vga_bpp_def .
    next
      case False
      then have "\<not> unat (?a - ?p) < ?k * nat w" using run(3) [OF o j] by simp
      then show ?thesis using False by (simp only: st at if_False)
    qed
  qed
  then show ?thesis unfolding shown_def t_def [symmetric] using 1 by blast
qed

lemma shown_rows:
  "\<lbrakk>fb_ok s; 0 \<le> x; x + w \<le> gw s; 0 < w; 0 \<le> y; y + int n \<le> gh s\<rbrakk> \<Longrightarrow>
     shown s (\<lambda>px py. x \<le> px \<and> px < x + w \<and> y \<le> py \<and> py < y + int n) (present_rows n x y w s)"
proof (induction n arbitrary: y s)
  case 0
  show ?case by (auto simp: shown_def)
next
  case (Suc n)
  let ?t = "present_row x y w s"
  have 1: "shown s (\<lambda>px py. py = y \<and> x \<le> px \<and> px < x + w) ?t" using Suc.prems by (intro shown_row) auto
  then have o: "only_fb s ?t" by (simp add: shown_def)
  have 2: "shown ?t (\<lambda>px py. x \<le> px \<and> px < x + w \<and> y + 1 \<le> py \<and> py < y + 1 + int n) (present_rows n x (y + 1) w ?t)"
    using Suc.prems by (intro Suc.IH) (auto simp: only_fb_defs [OF o] only_fb_frame [OF o])
  have e: "(\<lambda>px py. (py = y \<and> x \<le> px \<and> px < x + w) \<or> (x \<le> px \<and> px < x + w \<and> y + 1 \<le> py \<and> py < y + 1 + int n)) =
      (\<lambda>px py. x \<le> px \<and> px < x + w \<and> y \<le> py \<and> py < y + int (Suc n))" by (intro ext) auto
  show ?case using shown_trans [OF Suc.prems(1) 1 2] unfolding e by simp
qed

lemma shown_cong:
  "shown s Q t \<Longrightarrow> (\<And>x y. on_screen s x y \<Longrightarrow> Q x y = R x y) \<Longrightarrow> shown s R t"
  by (simp add: shown_def)

lemma shown_rect:
  assumes ok: "fb_ok s"
  shows "shown s (\<lambda>px py. x \<le> px \<and> px < x + w \<and> y \<le> py \<and> py < y + h) (gfx_present_rect x y w h s)"
proof -
  obtain cx cy cw ch where cl: "clip s x y w h = (cx, cy, cw, ch)" by (metis surj_pair)
  have "0 < gw s" "0 < gh s" using ok by (simp_all add: fb_ok_def buffer_ok_def)
  note c = clip_spec [OF cl this]
  show ?thesis
  proof (cases "cw \<le> 0 \<or> ch \<le> 0")
    case True
    have n: "\<not> (x \<le> px \<and> px < x + w \<and> y \<le> py \<and> py < y + h)" if "on_screen s px py" for px py
    proof
      assume "x \<le> px \<and> px < x + w \<and> y \<le> py \<and> py < y + h"
      then have "cx \<le> px \<and> px < cx + cw \<and> cy \<le> py \<and> py < cy + ch" by (rule iffD2 [OF c(5) [OF that]])
      then show False using True by linarith
    qed
    have "shown s (\<lambda>px py. x \<le> px \<and> px < x + w \<and> y \<le> py \<and> py < y + h) s"
      by (rule shown_cong [of s "\<lambda>_ _. False"]) (simp_all add: shown_def n)
    then show ?thesis using True by (simp add: gfx_present_rect_def cl)
  next
    case False
    then have "shown s (\<lambda>px py. cx \<le> px \<and> px < cx + cw \<and> cy \<le> py \<and> py < cy + int (nat ch)) (present_rows (nat ch) cx cy cw s)"
      using c(1-4) by (intro shown_rows [OF ok]) auto
    then have "shown s (\<lambda>px py. x \<le> px \<and> px < x + w \<and> y \<le> py \<and> py < y + h) (present_rows (nat ch) cx cy cw s)"
    proof (rule shown_cong)
      fix px py assume "on_screen s px py"
      from c(5) [OF this] False
      show "(cx \<le> px \<and> px < cx + cw \<and> cy \<le> py \<and> py < cy + int (nat ch)) = (x \<le> px \<and> px < x + w \<and> y \<le> py \<and> py < y + h)"
        by simp
    qed
    then show ?thesis using False by (simp add: gfx_present_rect_def cl)
  qed
qed

lemma shown_fb_pixel:
  assumes ok: "fb_ok s" and o: "on_screen s x y"
  shows "only_fb s (gfx_fb_pixel x y c s)"
    and "on_screen s px py \<Longrightarrow> seen (gfx_fb_pixel x y c s) px py = (if px = x \<and> py = y then colour_bytes s c else seen s px py)"
proof -
  let ?k = "nat (px_bytes s)" and ?p = "fb_addr s x y"
  define t where "t = gfx_fb_pixel x y c s"
  have run0: "0 \<le> x" "x + 1 \<le> gw s" "(0::int) < 1" "0 \<le> y" "y < gh s" using o by (auto simp: on_screen_def)
  note run = fb_run [OF ok run0, simplified]
  have len: "length (colour_bytes s i) = ?k" for i by (simp add: colour_bytes_def px_bytes_def)
  have t: "t = s\<lparr>gmem := put_bytes ?p (colour_bytes s c) (gmem s)\<rparr>"
    unfolding t_def gfx_fb_pixel_def Let_def fb_run_addr [symmetric]
    by (simp add: o colour_bytes_def encode_def depth_bytes_def store_put vga_framebuffer_def vga_pitch_def vga_bpp_def)
  have at: "gmem t a = (if unat (a - ?p) < ?k then colour_bytes s c ! unat (a - ?p) else gmem s a)" for a
    unfolding t using put_bytes_at [of "colour_bytes s c" ?p "gmem s" a] run(2) by (simp add: len)
  show 1: "only_fb s (gfx_fb_pixel x y c s)" unfolding only_fb_def t_def [symmetric]
  proof (intro conjI allI impI)
    show "t = s\<lparr>gmem := gmem t\<rparr>" unfolding t by simp
    show "gmem t a = gmem s a" if "nat (gh s * fb_pitch s) \<le> unat (a - g_fb (gvga s))" for a
      using run(1) [OF that] by (simp only: at if_False)
  qed
  note D = only_fb_defs [OF 1, folded t_def]
  show "seen (gfx_fb_pixel x y c s) px py = (if px = x \<and> py = y then colour_bytes s c else seen s px py)"
    if q: "on_screen s px py" unfolding t_def [symmetric]
  proof (rule nth_equalityI)
    show "length (seen t px py) = length (if px = x \<and> py = y then colour_bytes s c else seen s px py)"
      by (simp add: seen_def load_def len D)
    fix j assume "j < length (seen t px py)"
    then have j: "j < ?k" by (simp add: seen_def load_def D)
    let ?a = "fb_addr s px py + word_of_nat j"
    have st: "seen t px py ! j = gmem t ?a" "seen s px py ! j = gmem s ?a" using j by (simp_all add: seen_def load_def D)
    have eq: "py = y \<and> x \<le> px \<and> px < x + 1 \<longleftrightarrow> px = x \<and> py = y" by auto
    show "seen t px py ! j = (if px = x \<and> py = y then colour_bytes s c else seen s px py) ! j"
    proof (cases "px = x \<and> py = y")
      case True
      then have "unat (?a - ?p) = j" using fb_run(4) [OF ok run0 q j] by simp
      then show ?thesis unfolding st at if_P [OF True] using j by simp
    next
      case False
      then have "\<not> unat (?a - ?p) < ?k" using fb_run(3) [OF ok run0 q j] eq by simp
      then show ?thesis unfolding st at if_not_P [OF False] by (simp only: if_False)
    qed
  qed
qed

section \<open>The buffer\<close>

lemma shared_set_heap [simp]: "shared_heap (set_heap hp s) = hp" "shared_heap ((set_heap hp s)\<lparr>buf := p\<rparr>) = hp"
  "gw (set_heap hp s) = gw s" "gh (set_heap hp s) = gh s" "gmem (set_heap hp s) = gmem s"
  by (simp_all add: shared_heap_def set_heap_def)

lemma mode_ok_size:
  assumes "mode_ok v"
  shows "0 < g_width v" "0 < g_height v" "g_width v < 2 ^ 16" "g_height v < 2 ^ 16"
  using assms by (auto simp: mode_ok_def want_def)

lemma gfx_init_outcome:
  assumes inv: "heap_inv (shared_heap s)" and m: "mode_ok (gvga s)"
  obtains t k where "gfx_init s = Some (0, t)" "heap_inv (shared_heap t)" "buffer_ok t" "buf t \<noteq> 0"
      "live (shared_heap s) (buf t) = None" "live (shared_heap t) = (live (shared_heap s))(buf t \<mapsto> k)" "gw t * gh t \<le> int k"
  | t where "gfx_init s = Some (-1, t)" "heap_inv (shared_heap t)" "buf t = 0" "live (shared_heap t) = live (shared_heap s)"
proof -
  let ?w = "int (g_width (gvga s))" and ?h = "int (g_height (gvga s))"
  let ?n = "word_of_int ?w * word_of_int ?h :: u32"
  let ?s = "s\<lparr>gw := ?w, gh := ?h\<rparr>"
  have sh: "shared_heap ?s = shared_heap s" by (simp add: shared_heap_def)
  note d = mode_ok_size [OF m]
  have le: "g_width (gvga s) * g_height (gvga s) \<le> 65535 * 65535" using d by (intro mult_mono) auto
  have n: "unat ?n = g_width (gvga s) * g_height (gvga s)"
    using le unat_of_nat_less [of "g_width (gvga s) * g_height (gvga s)", where 'a = 32] by simp
  obtain p hp where k: "kmalloc ?n (shared_heap s) = Some (p, hp)" "heap_inv hp"
    using kmalloc_grants [OF inv, of ?n] unfolding grants_def by blast
  have e: "gfx_init s = Some (if p \<noteq> 0 then 0 else -1, (set_heap hp ?s)\<lparr>buf := p\<rparr>)"
    using k(1) by (simp add: gfx_init_def vga_width_def vga_height_def sh Let_def)
  show thesis
  proof (cases "p = 0")
    case True
    have "live hp = live (shared_heap s)" using kmalloc_grants [OF inv, of ?n] k(1) True by (simp add: grants_def live_def)
    then show ?thesis using that(2) [of "(set_heap hp ?s)\<lparr>buf := p\<rparr>"] e k(2) True by simp
  next
    case False
    obtain j where l: "live (shared_heap s) p = None" "live hp = (live (shared_heap s))(p \<mapsto> j)" "unat ?n \<le> j"
      using kmalloc_fresh [OF inv k(1) False] le unfolding n by auto
    have "live hp p = Some j" using l(2) by simp
    note bp = block_payload [OF k(2) this]
    have "j \<le> 2 ^ 30" using bp(1-3) unat_less_pow [of "heap_end hp"] by simp
    then have j: "int j \<le> 2 ^ 31" by simp
    have "g_width (gvga s) * g_height (gvga s) \<le> j" using l(3) n by simp
    then have sz: "?w * ?h \<le> int j" by (simp only: of_nat_le_iff of_nat_mult [symmetric])
    then have "?h * ?w \<le> 2 ^ 31" using j by (simp add: mult.commute)
    then have "buffer_ok ((set_heap hp ?s)\<lparr>buf := p\<rparr>)" using d by (simp add: buffer_ok_def)
    then show ?thesis using that(1) [of "(set_heap hp ?s)\<lparr>buf := p\<rparr>" j] e k(2) False l sz by simp
  qed
qed

lemma gfx_shutdown_frees:
  assumes "heap_inv (shared_heap s)" "buf s \<noteq> 0" "live (shared_heap s) (buf s) = Some k"
  shows "\<exists>t. gfx_shutdown s = Some t \<and> heap_inv (shared_heap t) \<and> live (shared_heap t) = (live (shared_heap s))(buf s := None) \<and> buf t = 0"
  using kfree_live [OF assms(1, 3)] assms(2) by (auto simp: gfx_shutdown_def)

text \<open>
  C36. \<open>gfx_init\<close> in a mode the display driver can leave it in returns. Either it gives -1 and no allocation has changed, or it
  gives 0 and the back buffer is a fresh heap allocation with room for every pixel, small enough that no offset
  overflows; \<open>gfx_shutdown\<close> then gives exactly that allocation back.
\<close>

theorem gfx_init_shutdown:
  assumes "heap_inv (shared_heap s)" "mode_ok (gvga s)"
  shows "\<exists>r t. gfx_init s = Some (r, t) \<and> heap_inv (shared_heap t) \<and>
     (if r = 0 then buffer_ok t \<and> (\<exists>k. live (shared_heap t) = (live (shared_heap s))(buf t \<mapsto> k) \<and> gw t * gh t \<le> int k) \<and>
        (\<exists>u. gfx_shutdown t = Some u \<and> heap_inv (shared_heap u) \<and> live (shared_heap u) = live (shared_heap s))
      else r = -1 \<and> live (shared_heap t) = live (shared_heap s))"
  using assms
proof (cases rule: gfx_init_outcome)
  case (1 t k)
  have b: "live (shared_heap t) (buf t) = Some k" using 1(6) by simp
  obtain u where u: "gfx_shutdown t = Some u" "heap_inv (shared_heap u)" "live (shared_heap u) = (live (shared_heap t))(buf t := None)"
    using gfx_shutdown_frees [OF 1(2, 4) b] by blast
  have "live (shared_heap u) = live (shared_heap s)" unfolding u(3) 1(6) using 1(5) by (metis fun_upd_triv fun_upd_upd)
  then show ?thesis using 1 u by (intro exI [of _ 0] exI [of _ t]) auto
next
  case (2 t)
  then show ?thesis by (intro exI [of _ "-1"] exI [of _ t]) simp
qed

text \<open>A display in mode 13h over the heap of a small machine.\<close>

definition vdev0 :: vdev where
  "vdev0 = \<lparr>bus_in = (\<lambda>_ _. 0), bus_reads = 0, bus_log = [], v_pg = kh_pg boot_heap, low = (\<lambda>_. 0), bios = (\<lambda>_ _ r. r), bios_calls = 0,
     font_plane = (\<lambda>_. 0), text_mem = (\<lambda>_. 0), g_mode = 0, g_kind = 0, g_width = 320, g_height = 200, g_bpp = 8, g_pitch = 320,
     g_fb = 0xA0000, font_backup = (\<lambda>i. word_of_nat i)\<rparr>"

definition gfx0 :: gfx where
  "gfx0 = \<lparr>gvga = vdev0, gheap = boot_heap, gmem = (\<lambda>_. 0), buf = 0xC0000010, gw = 320, gh = 200, lut = (\<lambda>_. 0)\<rparr>"

theorem gfx_init_shutdown_witness:
  "\<exists>h r t. kheap_init boot_heap = Some h \<and> gfx_init (set_heap h gfx0) = Some (r, t) \<and> heap_inv (shared_heap t)"
proof -
  obtain h where h: "kheap_init boot_heap = Some h" "heap_inv h" using boot_heap_init by blast
  have "mode_ok (gvga (set_heap h gfx0))" by (simp add: mode_ok_def set_heap_def gfx0_def vdev0_def)
  then show ?thesis using gfx_init_shutdown [of "set_heap h gfx0"] h by auto
qed

section \<open>Properties of drawing\<close>

text \<open>
  \<open>gfx_fill_rect\<close> paints the part of the rectangle that is on the screen, for any position and size, negative ones included,
  and changes nothing else: no other pixel, and no byte of memory outside the back buffer.
\<close>

theorem gfx_fill_rect_exact:
  assumes "buffer_ok s"
  shows "paints s (rect_map x y w h c) (gfx_fill_rect x y w h c s)"
  using assms by (rule paints_fill_rect)

theorem gfx_fill_rect_exact_witness:
  "buffer_ok gfx0 \<and> pixel (gfx_fill_rect (-5) 3 10 4 7 gfx0) 4 6 = 7 \<and> pixel (gfx_fill_rect (-5) 3 10 4 7 gfx0) 5 6 = 0"
proof -
  have ok: "buffer_ok gfx0" by (simp add: buffer_ok_def gfx0_def)
  have p: "paints gfx0 (rect_map (-5) 3 10 4 7) (gfx_fill_rect (-5) 3 10 4 7 gfx0)" by (rule gfx_fill_rect_exact [OF ok])
  have o: "on_screen gfx0 4 6" "on_screen gfx0 5 6" by (simp_all add: on_screen_def gfx0_def)
  have "pixel gfx0 5 6 = 0" by (simp add: pixel_def gfx0_def)
  then show ?thesis using ok p o by (simp add: paints_def rect_map_def)
qed

text \<open>
  \<open>gfx_text\<close> paints the glyphs of the saved font side by side, the set bits in the foreground colour, the clear ones in the
  background colour unless that is negative, cut off at the edges of the screen, and changes nothing else.
\<close>

theorem gfx_text_glyphs:
  assumes "buffer_ok s"
  shows "paints s (text_map (vga_font (gvga s)) x y cs fg bg) (gfx_text x y cs fg bg s)"
  using assms by (rule paints_text)

theorem gfx_text_glyphs_witness:
  "buffer_ok gfx0 \<and> pixel (gfx_text 315 10 [CHR 0x01, CHR 0x02] 9 (-1) gfx0) 317 10 = 9"
proof -
  have ok: "buffer_ok gfx0" by (simp add: buffer_ok_def gfx0_def)
  have p: "paints gfx0 (text_map (vga_font (gvga gfx0)) 315 10 [CHR 0x01, CHR 0x02] 9 (-1)) (gfx_text 315 10 [CHR 0x01, CHR 0x02] 9 (-1) gfx0)"
    by (rule gfx_text_glyphs [OF ok])
  have o: "on_screen gfx0 317 10" by (simp add: on_screen_def gfx0_def)
  have "text_map (vga_font (gvga gfx0)) 315 10 [CHR 0x01, CHR 0x02] 9 (-1) (317, 10) = Some 9"
    by (simp add: glyph_map_def ink_def vga_font_def gfx0_def vdev0_def map_add_def bit_word_iff_drop_bit_and)
  then show ?thesis using ok p o by (simp add: paints_def)
qed



end
