(* ===== verification/Ac97.thy ===== *)
theory Ac97
  imports Bus FatFile
begin

text \<open>
  The AC'97 audio driver of \<open>drivers/ac97.c\<close> at its registers, for both controllers, over the file system.
  \<open>tick n\<close> is the tick counter as the \<open>n\<close>-th reading of the timer finds it; a wait for time that does not pass
  never returns (\<open>None\<close>). \<open>dma\<close> is the reserved region of one megabyte by bytes, counted from its start; the
  console is the log of the file system's state.
\<close>

section \<open>State\<close>

datatype ac_variant = AC_NONE | AC_ICH | AC_VIA

record ac97 = bus +
  au_variant :: ac_variant
  au_bus :: u8
  au_dev :: u8
  au_fn :: u8
  io_mixer :: u16
  io_bm :: u16
  au_present :: bool
  dma :: "nat \<Rightarrow> u8"
  slot_bytes :: "nat \<Rightarrow> nat"
  ich_bdl :: "nat \<Rightarrow> u32"
  bdl_phys :: u32
  via_sgd :: "nat \<Rightarrow> u32"
  sgd_phys :: u32
  au_fs :: fatfs
  hz :: u32
  tick :: "nat \<Rightarrow> u32"
  tick_reads :: nat

definition CODEC_RESET :: u8 where "CODEC_RESET = 0x00"
definition CODEC_MASTER_VOL :: u8 where "CODEC_MASTER_VOL = 0x02"
definition CODEC_PCM_VOL :: u8 where "CODEC_PCM_VOL = 0x18"
definition CODEC_EXT_AUDIO :: u8 where "CODEC_EXT_AUDIO = 0x28"
definition CODEC_EXT_CTRL :: u8 where "CODEC_EXT_CTRL = 0x2A"
definition CODEC_PCM_RATE :: u8 where "CODEC_PCM_RATE = 0x2C"
definition CODEC_VENDOR1 :: u8 where "CODEC_VENDOR1 = 0x7C"
definition ICH_PO_BDBAR :: u16 where "ICH_PO_BDBAR = 0x10"
definition ICH_PO_LVI :: u16 where "ICH_PO_LVI = 0x15"
definition ICH_PO_SR :: u16 where "ICH_PO_SR = 0x16"
definition ICH_PO_CR :: u16 where "ICH_PO_CR = 0x1B"
definition ICH_GLOB_CNT :: u16 where "ICH_GLOB_CNT = 0x2C"
definition ICH_GLOB_STA :: u16 where "ICH_GLOB_STA = 0x30"
definition VIA_SGD_STATUS :: u16 where "VIA_SGD_STATUS = 0x00"
definition VIA_SGD_CONTROL :: u16 where "VIA_SGD_CONTROL = 0x01"
definition VIA_SGD_TYPE :: u16 where "VIA_SGD_TYPE = 0x02"
definition VIA_SGD_TABLE :: u16 where "VIA_SGD_TABLE = 0x04"
definition VIA_REG_AC97 :: u16 where "VIA_REG_AC97 = 0x80"
definition VIA_AC97_BUSY :: u32 where "VIA_AC97_BUSY = push_bit 24 1"
definition VIA_AC97_READ :: u32 where "VIA_AC97_READ = push_bit 23 1"
definition VIA_AC97_PVALID :: u32 where "VIA_AC97_PVALID = push_bit 25 1"
definition VIA_ACLINK_STAT :: u8 where "VIA_ACLINK_STAT = 0x40"
definition VIA_ACLINK_CTRL :: u8 where "VIA_ACLINK_CTRL = 0x41"
definition AC97_DMA_PHYS :: u32 where "AC97_DMA_PHYS = 0x00300000"
definition SLOT0_CAP :: nat where "SLOT0_CAP = 640 * 1024"
definition SLOT1_CAP :: nat where "SLOT1_CAP = 384 * 1024"
definition VIA_SPIN :: nat where "VIA_SPIN = 4000"

text \<open>The slots: where they start in the region, and how large they are.\<close>

definition slot_buf :: "nat \<Rightarrow> nat" where "slot_buf k = (if k = 0 then 0 else SLOT0_CAP)"
definition slot_cap :: "nat \<Rightarrow> nat" where "slot_cap k = (if k = 0 then SLOT0_CAP else SLOT1_CAP)"

section \<open>Time and registers\<close>

definition read_ticks :: "ac97 \<Rightarrow> u32 \<times> ac97" where
  "read_ticks s = (tick s (tick_reads s), s\<lparr>tick_reads := Suc (tick_reads s)\<rparr>)"

partial_function (option) delay_loop :: "u32 \<Rightarrow> u32 \<Rightarrow> ac97 \<Rightarrow> ac97 option" where
  "delay_loop start n s =
     (let (t, s) = read_ticks s in if t - start < n then delay_loop start n (bus_wait s) else Some s)"

definition delay_ms :: "u32 \<Rightarrow> ac97 \<Rightarrow> ac97 option" where
  "delay_ms ms s =
     (let h = (if hz s = 0 then 100 else hz s);
          n = ms * h div 1000;
          n = (if n = 0 then 1 else n);
          (start, s) = read_ticks s
      in delay_loop start n s)"

definition cfg_read8 :: "u8 \<Rightarrow> ac97 \<Rightarrow> u8 \<times> ac97" where
  "cfg_read8 off s =
     (let (v, s) = pci_cfg_read32 (au_bus s) (au_dev s) (au_fn s) (off AND 0xFC) s
      in (ucast (drop_bit (unat (off AND 3) * 8) v), s))"

definition cfg_write8 :: "u8 \<Rightarrow> u8 \<Rightarrow> ac97 \<Rightarrow> ac97" where
  "cfg_write8 off val s =
     (let sh = unat (off AND 3) * 8;
          (v, s) = pci_cfg_read32 (au_bus s) (au_dev s) (au_fn s) (off AND 0xFC) s
      in pci_cfg_write32 (au_bus s) (au_dev s) (au_fn s) (off AND 0xFC) ((v AND NOT (push_bit sh 0xFF)) OR push_bit sh (ucast val)) s)"

fun spin_busy :: "nat \<Rightarrow> ac97 \<Rightarrow> ac97" where
  "spin_busy 0 s = s"
| "spin_busy (Suc n) s =
     (let (v, s) = rd32 (io_bm s + VIA_REG_AC97) s in if v AND VIA_AC97_BUSY \<noteq> 0 then spin_busy n (bus_wait s) else s)"

definition codec_write :: "u8 \<Rightarrow> u16 \<Rightarrow> ac97 \<Rightarrow> ac97" where
  "codec_write reg val s =
     (if au_variant s = AC_ICH then wr16 (io_mixer s + ucast reg) val s
      else let s = spin_busy VIA_SPIN s;
               s = wr32 (io_bm s + VIA_REG_AC97) (push_bit 16 (ucast reg) OR ucast val) s
           in spin_busy VIA_SPIN s)"

fun codec_poll :: "nat \<Rightarrow> u8 \<Rightarrow> u32 \<Rightarrow> ac97 \<Rightarrow> u16 \<times> ac97" where
  "codec_poll 0 reg prev s = (ucast prev, s)"
| "codec_poll (Suc n) reg prev s =
     (let (v, s) = rd32 (io_bm s + VIA_REG_AC97) s
      in if v AND VIA_AC97_BUSY = 0 \<and> v AND VIA_AC97_PVALID \<noteq> 0
         then if drop_bit 16 v AND 0x7F = ucast reg then (ucast v, s) else codec_poll n reg v (bus_wait s)
         else codec_poll n reg prev (bus_wait s))"

definition codec_read :: "u8 \<Rightarrow> ac97 \<Rightarrow> u16 \<times> ac97" where
  "codec_read reg s =
     (if au_variant s = AC_ICH then rd16 (io_mixer s + ucast reg) s
      else codec_poll VIA_SPIN reg 0xFFFF (wr32 (io_bm s + VIA_REG_AC97) (VIA_AC97_READ OR push_bit 16 (ucast reg)) s))"

section \<open>Detection and set-up\<close>

fun find_fn :: "nat \<Rightarrow> u8 \<Rightarrow> u8 \<Rightarrow> ac97 \<Rightarrow> bool \<times> ac97" where
  "find_fn 0 d f s = (False, s)"
| "find_fn (Suc n) d f s =
     (let (ident, s) = pci_cfg_read32 0 d f 0x00 s; ven = ident AND 0xFFFF; dv = drop_bit 16 ident
      in if ven = 0xFFFF then find_fn n d (f + 1) s
         else if ven = 0x8086 \<and> dv = 0x2415 then (True, s\<lparr>au_variant := AC_ICH, au_bus := 0, au_dev := d, au_fn := f\<rparr>)
         else if ven = 0x1106 \<and> dv = 0x3058 then (True, s\<lparr>au_variant := AC_VIA, au_bus := 0, au_dev := d, au_fn := f\<rparr>)
         else find_fn n d (f + 1) s)"

fun find_dev :: "nat \<Rightarrow> u8 \<Rightarrow> ac97 \<Rightarrow> bool \<times> ac97" where
  "find_dev 0 d s = (False, s)"
| "find_dev (Suc n) d s =
     (let (id0, s) = pci_cfg_read32 0 d 0 0x00 s
      in if id0 AND 0xFFFF = 0xFFFF then find_dev n (d + 1) s
         else let (htype, s) = pci_cfg_read16 0 d 0 0x0E s;
                  (hit, s) = find_fn (if htype AND 0x80 \<noteq> 0 then 8 else 1) d 0 s
              in if hit then (True, s) else find_dev n (d + 1) s)"

definition find_controller :: "ac97 \<Rightarrow> bool \<times> ac97" where
  "find_controller s = find_dev 32 0 s"

fun wait_primary :: "nat \<Rightarrow> ac97 \<Rightarrow> ac97 option" where
  "wait_primary 0 s = Some s"
| "wait_primary (Suc n) s =
     (let (v, s) = rd32 (io_bm s + ICH_GLOB_STA) s
      in if v AND 0x100 \<noteq> 0 then Some s else Option.bind (delay_ms 1 s) (wait_primary n))"

fun wait_reset :: "nat \<Rightarrow> ac97 \<Rightarrow> ac97 option" where
  "wait_reset 0 s = Some s"
| "wait_reset (Suc n) s =
     (let (v, s) = rd8 (io_bm s + ICH_PO_CR) s
      in if v AND 0x02 \<noteq> 0 then Option.bind (delay_ms 1 s) (wait_reset n) else Some s)"

definition ich_init :: "ac97 \<Rightarrow> ac97 option" where
  "ich_init s =
     (let (b0, s) = pci_cfg_read32 (au_bus s) (au_dev s) (au_fn s) 0x10 s;
          s = s\<lparr>io_mixer := ucast (b0 AND 0xFFFC)\<rparr>;
          (b1, s) = pci_cfg_read32 (au_bus s) (au_dev s) (au_fn s) 0x14 s;
          s = s\<lparr>io_bm := ucast (b1 AND 0xFFFC)\<rparr>;
          s = wr32 (io_bm s + ICH_GLOB_CNT) 0x02 s
      in Option.bind (wait_primary 1000 s) (\<lambda>s. wait_reset 1000 (wr8 (io_bm s + ICH_PO_CR) 0x02 s)))"

fun wait_link :: "nat \<Rightarrow> ac97 \<Rightarrow> ac97 option" where
  "wait_link 0 s = Some s"
| "wait_link (Suc n) s =
     (let (v, s) = cfg_read8 VIA_ACLINK_STAT s
      in if v AND 0x01 \<noteq> 0 then Some s else Option.bind (delay_ms 1 s) (wait_link n))"

definition via_init :: "ac97 \<Rightarrow> ac97 option" where
  "via_init s =
     (let (b0, s) = pci_cfg_read32 (au_bus s) (au_dev s) (au_fn s) 0x10 s;
          s = s\<lparr>io_bm := ucast (b0 AND 0xFFFC)\<rparr>;
          (st, s) = cfg_read8 VIA_ACLINK_STAT s
      in if st AND 0x01 = 0
         then Option.bind (delay_ms 1 (cfg_write8 VIA_ACLINK_CTRL (0x80 OR 0x40 OR 0x20) s)) (\<lambda>s.
              Option.bind (delay_ms 1 (cfg_write8 VIA_ACLINK_CTRL (0x80 OR 0x40 OR 0x04) s)) (wait_link 250))
         else let (c, s) = cfg_read8 VIA_ACLINK_CTRL s in Some (cfg_write8 VIA_ACLINK_CTRL (c OR 0x04) s))"

fun codec_ready :: "nat \<Rightarrow> ac97 \<Rightarrow> (bool \<times> ac97) option" where
  "codec_ready 0 s = Some (False, s)"
| "codec_ready (Suc n) s =
     (let (v, s) = codec_read CODEC_VENDOR1 s
      in if v \<noteq> 0xFFFF then Some (True, s) else Option.bind (delay_ms 1 s) (codec_ready n))"

definition ac97_init :: "ac97 \<Rightarrow> ac97 option" where
  "ac97_init s =
     (let s = s\<lparr>au_present := False, au_variant := AC_NONE\<rparr>; (found, s) = find_controller s
      in if \<not> found then Some s
         else let (cmd, s) = pci_cfg_read32 (au_bus s) (au_dev s) (au_fn s) 0x04 s;
                  s = pci_cfg_write32 (au_bus s) (au_dev s) (au_fn s) 0x04 (cmd OR 0x05) s
              in Option.bind (if au_variant s = AC_ICH then ich_init s else via_init s) (\<lambda>s.
                 Option.bind (codec_ready 200 s) (\<lambda>(ready, s).
                   if \<not> ready then Some s
                   else Option.bind (delay_ms 2 (codec_write CODEC_RESET 0 s)) (\<lambda>s.
                     let s = codec_write CODEC_MASTER_VOL 0x0000 s;
                         s = codec_write CODEC_PCM_VOL 0x0808 s;
                         s = codec_write CODEC_EXT_CTRL 0x0000 s
                     in Some (s\<lparr>au_present := True\<rparr>)))))"

definition ac97_present :: "ac97 \<Rightarrow> bool" where "ac97_present s = au_present s"

section \<open>Diagnosis\<close>

definition au_say :: "string \<Rightarrow> ac97 \<Rightarrow> ac97" where
  "au_say m s = s\<lparr>au_fs := say m (au_fs s)\<rparr>"

definition hex_text :: "u32 \<Rightarrow> string" where
  "hex_text v = ''0x'' @ map (\<lambda>sh. hex_digit (drop_bit sh v AND 0xF)) [28, 24, 20, 16, 12, 8, 4, 0]"

definition say_codec :: "string \<Rightarrow> u8 \<Rightarrow> ac97 \<Rightarrow> ac97" where
  "say_codec m reg s = (let s = au_say m s; (v, s) = codec_read reg s in au_say (hex_text (ucast v)) s)"

definition ac97_debug :: "ac97 \<Rightarrow> ac97" where
  "ac97_debug s =
     (if au_variant s = AC_NONE then au_say (''  no AC'' @ [CHR 0x27] @ ''97 controller found on PCI'' @ [CHR 0x0A]) s
      else let s = au_say ''  controller : '' s;
               s = au_say (if au_variant s = AC_ICH then ''Intel ICH'' else ''VIA VT82C686'') s;
               s = au_say ((if au_present s then ''  (codec ready)'' else ''  (codec NOT ready)'') @ [CHR 0x0A]) s;
               s = au_say (''  io base    : '' @ hex_text (ucast (io_bm s))) s;
               s = (if au_variant s = AC_ICH then au_say (''  mixer '' @ hex_text (ucast (io_mixer s))) s else s);
               s = au_say [CHR 0x0A] s;
               s = (if au_variant s = AC_VIA
                    then let s = au_say ''  ACLINK STAT: '' s; (v, s) = cfg_read8 VIA_ACLINK_STAT s;
                             s = au_say (hex_text (ucast v) @ ''  (bit0 = primary codec ready)'' @ [CHR 0x0A]) s;
                             s = au_say ''  ACLINK CTRL: '' s; (v, s) = cfg_read8 VIA_ACLINK_CTRL s;
                             s = au_say (hex_text (ucast v) @ ''  (want E/N of 0xC4)'' @ [CHR 0x0A]) s;
                             s = au_say ''  AC97 window: '' s; (w, s) = rd32 (io_bm s + VIA_REG_AC97) s
                         in au_say (hex_text w @ [CHR 0x0A]) s
                    else let s = au_say ''  GLOB_STA   : '' s; (w, s) = rd32 (io_bm s + ICH_GLOB_STA) s
                         in au_say (hex_text w @ ''  (bit8 = primary codec ready)'' @ [CHR 0x0A]) s);
               s = say_codec ''  codec vendr: '' 0x7C s;
               s = say_codec '' '' 0x7E s;
               s = au_say (''  (0xFFFF = codec not answering)'' @ [CHR 0x0A]) s;
               s = say_codec ''  master(02) : '' CODEC_MASTER_VOL s;
               s = say_codec ''  extaud(28) : '' CODEC_EXT_AUDIO s;
               s = say_codec ''  rate(2C)   : '' CODEC_PCM_RATE s
           in au_say [CHR 0x0A] s)"

section \<open>Playback\<close>

text \<open>The descriptors of a clip: \<open>n\<close> entries are left of the list. The result is the number of entries used.\<close>

fun fill_bdl :: "nat \<Rightarrow> nat \<Rightarrow> nat \<Rightarrow> u32 \<Rightarrow> nat \<Rightarrow> (nat \<Rightarrow> u32) \<Rightarrow> nat \<times> (nat \<Rightarrow> u32)" where
  "fill_bdl 0 idx off phys bytes bdl = (idx, bdl)"
| "fill_bdl (Suc n) idx off phys bytes bdl =
     (if off < bytes
      then let chunk = bytes - off; chunk = (if chunk > 0xFFFE * 2 then 0xFFFE * 2 else chunk)
           in fill_bdl n (Suc idx) (off + chunk) phys bytes
                (bdl(idx * 2 := phys + word_of_nat off, idx * 2 + 1 := word_of_nat (chunk div 2)))
      else (idx, bdl))"

fun wait_engine :: "nat \<Rightarrow> ac97 \<Rightarrow> ac97" where
  "wait_engine 0 s = s"
| "wait_engine (Suc n) s =
     (let (v, s) = rd8 (io_bm s + ICH_PO_CR) s in if v AND 0x02 \<noteq> 0 then wait_engine n (bus_wait s) else s)"

definition ich_start :: "u32 \<Rightarrow> nat \<Rightarrow> ac97 \<Rightarrow> ac97" where
  "ich_start phys bytes s =
     (let (idx, bdl) = fill_bdl 32 0 0 phys bytes (ich_bdl s);
          s = s\<lparr>ich_bdl := bdl((idx - 1) * 2 + 1 := bdl ((idx - 1) * 2 + 1) OR push_bit 31 1)\<rparr>;
          s = wait_engine 1000 (wr8 (io_bm s + ICH_PO_CR) 0x02 s);
          s = wr32 (io_bm s + ICH_PO_BDBAR) (bdl_phys s) s;
          s = wr8 (io_bm s + ICH_PO_LVI) (word_of_nat (idx - 1)) s;
          s = wr16 (io_bm s + ICH_PO_SR) 0x1C s
      in wr8 (io_bm s + ICH_PO_CR) 0x01 s)"

definition ich_done :: "ac97 \<Rightarrow> bool \<times> ac97" where
  "ich_done s = (let (v, s) = rd16 (io_bm s + ICH_PO_SR) s in (v AND 0x01 \<noteq> 0, s))"

definition ich_stop :: "ac97 \<Rightarrow> ac97" where "ich_stop s = wr8 (io_bm s + ICH_PO_CR) 0x00 s"

definition via_start :: "u32 \<Rightarrow> nat \<Rightarrow> ac97 \<Rightarrow> ac97" where
  "via_start phys bytes s =
     (let s = s\<lparr>via_sgd := (via_sgd s)(0 := phys, 1 := word_of_nat bytes OR push_bit 31 1 OR push_bit 30 1)\<rparr>;
          s = bus_wait (wr8 (io_bm s + VIA_SGD_CONTROL) 0x40 s);
          s = wr8 (io_bm s + VIA_SGD_TYPE) (0x20 OR 0x10 OR 0x02) s;
          s = wr32 (io_bm s + VIA_SGD_TABLE) (sgd_phys s) s;
          s = wr8 (io_bm s + VIA_SGD_STATUS) 0x03 s
      in wr8 (io_bm s + VIA_SGD_CONTROL) 0x80 s)"

definition via_done :: "ac97 \<Rightarrow> bool \<times> ac97" where
  "via_done s = (let (v, s) = rd8 (io_bm s + VIA_SGD_STATUS) s in (v AND 0x02 \<noteq> 0 \<or> v AND 0x80 = 0, s))"

definition via_stop :: "ac97 \<Rightarrow> ac97" where "via_stop s = wr8 (io_bm s + VIA_SGD_CONTROL) 0x40 s"

text \<open>
  The sample of a byte, stored for both channels in four bytes, low byte first; the expansion runs forward
  over the first \<open>n\<close> bytes of the source, which lies in the same region.
\<close>

definition sample_of :: "u8 \<Rightarrow> u16" where "sample_of b = push_bit 8 (ucast b - 128)"

definition expand_step :: "nat \<Rightarrow> nat \<Rightarrow> nat \<Rightarrow> (nat \<Rightarrow> u8) \<Rightarrow> (nat \<Rightarrow> u8)" where
  "expand_step buf src i m =
     (let v = sample_of (m (src + i)); lo = ucast v; hi = ucast (drop_bit 8 v)
      in m(buf + 4 * i := lo, buf + 4 * i + 1 := hi, buf + 4 * i + 2 := lo, buf + 4 * i + 3 := hi))"

definition expand :: "nat \<Rightarrow> nat \<Rightarrow> nat \<Rightarrow> (nat \<Rightarrow> u8) \<Rightarrow> (nat \<Rightarrow> u8)" where
  "expand buf src n m = fold (expand_step buf src) [0..<n] m"

definition store_bytes :: "nat \<Rightarrow> u8 list \<Rightarrow> (nat \<Rightarrow> u8) \<Rightarrow> (nat \<Rightarrow> u8)" where
  "store_bytes a bs m = (\<lambda>i. if a \<le> i \<and> i < a + length bs then bs ! (i - a) else m i)"

definition ac97_preload :: "int \<Rightarrow> string \<Rightarrow> ac97 \<Rightarrow> (int \<times> ac97) option" where
  "ac97_preload slot path s =
     (if slot < 0 \<or> slot > 1 then Some (-1, s)
      else let k = nat slot; s = s\<lparr>slot_bytes := (slot_bytes s)(k := 0)\<rparr>
      in if \<not> au_present s then Some (-1, s)
         else let buf = slot_buf k; cap = slot_cap k; maxsrc = cap div 4; src = buf + (cap - maxsrc)
         in map_option (\<lambda>(n, bytes, fs).
              let s = s\<lparr>au_fs := fs, dma := store_bytes src bytes (dma s)\<rparr>
              in if n \<le> 0 then (-1, s)
                 else (0, s\<lparr>dma := expand buf src (nat n) (dma s), slot_bytes := (slot_bytes s)(k := nat n * 4)\<rparr>))
            (fs_read_path path (word_of_nat maxsrc) (au_fs s)))"

partial_function (option) play_loop :: "u32 \<Rightarrow> u32 \<Rightarrow> ac97 \<Rightarrow> ac97 option" where
  "play_loop start limit s =
     (let (t, s) = read_ticks s
      in if t - start < limit
         then let (fin, s) = (if au_variant s = AC_ICH then ich_done s else via_done s)
              in if fin then Some s else play_loop start limit (bus_wait s)
         else Some s)"

definition ac97_play :: "int \<Rightarrow> bool \<Rightarrow> ac97 \<Rightarrow> ac97 option" where
  "ac97_play slot block s =
     (if slot < 0 \<or> slot > 1 \<or> \<not> au_present s \<or> slot_bytes s (nat slot) = 0 then Some s
      else let k = nat slot; phys = AC97_DMA_PHYS + word_of_nat (slot_buf k); bytes = slot_bytes s k;
               s = (if au_variant s = AC_ICH then ich_start phys bytes s else via_start phys bytes s)
      in if \<not> block then Some s
         else let frames = slot_bytes s k div 4;
                  h = (if hz s = 0 then 100 else hz s);
                  ms = word_of_nat frames * 1000 div 48000 + 400;
                  limit = ms * h div 1000;
                  limit = (if limit = 0 then 1 else limit);
                  (start, s) = read_ticks s
         in map_option (\<lambda>s. if au_variant s = AC_ICH then ich_stop s else via_stop s) (play_loop start limit s))"

section \<open>The expansion in place\<close>

lemma ucast_sample: "(ucast (ucast b - 128 :: u16) :: u8) = b - 128" for b :: u8
  by transfer (simp add: take_bit_eq_mod mod_mod_cancel mod_diff_left_eq)

lemma sample_bytes: "ucast (sample_of b) = (0 :: u8)" "ucast (drop_bit 8 (sample_of b)) = (b - 128 :: u8)"
proof -
  define x :: u16 where "x = ucast b - 128"
  have s: "sample_of b = push_bit 8 x" by (simp add: sample_of_def x_def)
  show "ucast (sample_of b) = (0 :: u8)" unfolding s by (rule bit_word_eqI) (simp add: bit_simps)
  have "ucast (drop_bit 8 (push_bit 8 x)) = (ucast x :: u8)" by (rule bit_word_eqI) (auto simp: bit_simps)
  then show "ucast (drop_bit 8 (sample_of b)) = (b - 128 :: u8)" unfolding s by (simp add: x_def ucast_sample)
qed

lemma expand_step_eq:
  "expand_step buf src i m = m(buf + 4 * i := 0, buf + 4 * i + 1 := m (src + i) - 128, buf + 4 * i + 2 := 0, buf + 4 * i + 3 := m (src + i) - 128)"
  by (simp add: expand_step_def Let_def sample_bytes)

text \<open>
  The write position never overtakes the read position, because the source lies in the top quarter: byte \<open>i\<close>
  is read before anything is written at or above it.
\<close>

lemma expand_correct:
  assumes "src = buf + (4 * q - q)" and "n \<le> q"
  shows "(\<forall>i < n. expand buf src n m (buf + 4 * i) = 0 \<and> expand buf src n m (buf + 4 * i + 1) = m (src + i) - 128 \<and>
      expand buf src n m (buf + 4 * i + 2) = 0 \<and> expand buf src n m (buf + 4 * i + 3) = m (src + i) - 128) \<and>
    (\<forall>x. x < buf \<or> buf + 4 * n \<le> x \<longrightarrow> expand buf src n m x = m x)"
  using assms(2)
proof (induction n)
  case (Suc n)
  let ?e = "expand buf src n m"
  have e: "expand buf src (Suc n) m = expand_step buf src n ?e" by (simp add: expand_def)
  have r: "?e (src + n) = m (src + n)" using Suc assms(1) by simp
  note IH = Suc.IH [OF Suc_leD [OF Suc.prems]]
  show ?case unfolding e expand_step_eq r
  proof (intro conjI allI impI)
    fix i assume i: "i < Suc n"
    show "(?e(buf + 4 * n := 0, buf + 4 * n + 1 := m (src + n) - 128, buf + 4 * n + 2 := 0, buf + 4 * n + 3 := m (src + n) - 128)) (buf + 4 * i) = 0"
      "(?e(buf + 4 * n := 0, buf + 4 * n + 1 := m (src + n) - 128, buf + 4 * n + 2 := 0, buf + 4 * n + 3 := m (src + n) - 128)) (buf + 4 * i + 1) = m (src + i) - 128"
      "(?e(buf + 4 * n := 0, buf + 4 * n + 1 := m (src + n) - 128, buf + 4 * n + 2 := 0, buf + 4 * n + 3 := m (src + n) - 128)) (buf + 4 * i + 2) = 0"
      "(?e(buf + 4 * n := 0, buf + 4 * n + 1 := m (src + n) - 128, buf + 4 * n + 2 := 0, buf + 4 * n + 3 := m (src + n) - 128)) (buf + 4 * i + 3) = m (src + i) - 128"
      by (cases "i = n"; use i IH in simp)+
  next
    fix x assume "x < buf \<or> buf + 4 * Suc n \<le> x"
    then show "(?e(buf + 4 * n := 0, buf + 4 * n + 1 := m (src + n) - 128, buf + 4 * n + 2 := 0, buf + 4 * n + 3 := m (src + n) - 128)) x = m x"
      using IH by auto
  qed
qed (simp add: expand_def)

section \<open>The descriptor list\<close>

lemma fill_bdl_tiles:
  fixes C :: nat
  assumes "C = 131068" and "fill_bdl n idx (idx * C) phys bytes bdl = (idx', bdl')" and "bytes \<le> (idx + n) * C" and "idx * C < bytes"
  shows "idx < idx' \<and> idx' \<le> idx + n \<and> (idx' - 1) * C < bytes \<and> bytes \<le> idx' * C \<and>
    (\<forall>j. idx \<le> j \<and> j < idx' \<longrightarrow> bdl' (j * 2) = phys + word_of_nat (j * C) \<and>
       bdl' (j * 2 + 1) = word_of_nat ((if j = idx' - 1 then bytes - j * C else C) div 2)) \<and>
    (\<forall>j. j < idx * 2 \<longrightarrow> bdl' j = bdl j)"
  using assms(2-4)
proof (induction n arbitrary: idx bdl)
  case (Suc n)
  let ?chunk = "if bytes - idx * C > 0xFFFE * 2 then 0xFFFE * 2 else bytes - idx * C"
  define b where "b = bdl(idx * 2 := phys + word_of_nat (idx * C), idx * 2 + 1 := word_of_nat (?chunk div 2))"
  have run: "fill_bdl n (Suc idx) (idx * C + ?chunk) phys bytes b = (idx', bdl')" using Suc.prems(1,3) by (simp add: b_def Let_def)
  show ?case
  proof (cases "Suc idx * C < bytes")
    case True
    then have "?chunk = C" using assms(1) by simp
    then have run2: "fill_bdl n (Suc idx) (Suc idx * C) phys bytes b = (idx', bdl')" and b2: "b (idx * 2) = phys + word_of_nat (idx * C)" "b (idx * 2 + 1) = word_of_nat (C div 2)"
      using run by (simp_all add: b_def add.commute)
    have IH: "Suc idx < idx' \<and> idx' \<le> Suc idx + n \<and> (idx' - 1) * C < bytes \<and> bytes \<le> idx' * C \<and>
      (\<forall>j. Suc idx \<le> j \<and> j < idx' \<longrightarrow> bdl' (j * 2) = phys + word_of_nat (j * C) \<and>
         bdl' (j * 2 + 1) = word_of_nat ((if j = idx' - 1 then bytes - j * C else C) div 2)) \<and> (\<forall>j. j < Suc idx * 2 \<longrightarrow> bdl' j = b j)"
      by (rule Suc.IH [OF run2]) (use Suc.prems(2) True in simp_all)
    have "bdl' (j * 2) = phys + word_of_nat (j * C) \<and> bdl' (j * 2 + 1) = word_of_nat ((if j = idx' - 1 then bytes - j * C else C) div 2)"
      if "idx \<le> j" "j < idx'" for j
    proof (cases "j = idx")
      case True
      have "idx \<noteq> idx' - 1" using IH by linarith
      moreover have "bdl' (idx * 2) = b (idx * 2)" "bdl' (idx * 2 + 1) = b (idx * 2 + 1)" using IH by simp_all
      ultimately show ?thesis using b2 True by (simp only: if_False)
    qed (use IH that in simp)
    moreover have "bdl' j = bdl j" if "j < idx * 2" for j using IH that by (simp add: b_def)
    ultimately show ?thesis using IH by auto
  next
    case False
    then have c: "?chunk = bytes - idx * C" using assms(1) by auto
    have "fill_bdl n (Suc idx) bytes phys bytes b = (Suc idx, b)" by (cases n) simp_all
    then have "idx' = Suc idx" "bdl' = b" using run Suc.prems(3) unfolding c by simp_all
    then show ?thesis using False Suc.prems(3) c by (auto simp: b_def less_Suc_eq)
  qed
qed simp


section \<open>Waiting\<close>

text \<open>A wait ends when the counter has moved on far enough at some later reading.\<close>

lemma delay_loop_returns:
  "\<not> tick s (tick_reads s + k) - start < n \<Longrightarrow> \<exists>t. delay_loop start n s = Some t"
proof (induction k arbitrary: s)
  case 0
  then show ?case by (subst delay_loop.simps) (simp add: read_ticks_def)
next
  case (Suc k)
  let ?s = "bus_wait (s\<lparr>tick_reads := Suc (tick_reads s)\<rparr>)"
  have "\<not> tick ?s (tick_reads ?s + k) - start < n" using Suc.prems by (simp add: bus_defs)
  from Suc.IH [OF this] show ?case by (subst delay_loop.simps) (simp add: read_ticks_def)
qed

lemma play_loop_returns:
  "\<not> tick s (tick_reads s + k) - start < n \<Longrightarrow> \<exists>t. play_loop start n s = Some t"
proof (induction k arbitrary: s)
  case 0
  then show ?case by (subst play_loop.simps) (simp add: read_ticks_def)
next
  case (Suc k)
  let ?u = "s\<lparr>tick_reads := Suc (tick_reads s)\<rparr>"
  define fin v where "fin = fst (if au_variant ?u = AC_ICH then ich_done ?u else via_done ?u)" and "v = snd (if au_variant ?u = AC_ICH then ich_done ?u else via_done ?u)"
  have "tick (bus_wait v) = tick s" "tick_reads (bus_wait v) = Suc (tick_reads s)"
    by (simp_all add: v_def ich_done_def via_done_def bus_defs Let_def)
  then have "\<not> tick (bus_wait v) (tick_reads (bus_wait v) + k) - start < n" using Suc.prems by simp
  from Suc.IH [OF this] show ?case
    by (subst play_loop.simps) (simp add: read_ticks_def Let_def split_beta fin_def [simplified] v_def [simplified])
qed

lemma wait_engine_keeps:
  "tick (wait_engine n s) = tick s \<and> tick_reads (wait_engine n s) = tick_reads s \<and> io_bm (wait_engine n s) = io_bm s \<and>
   bdl_phys (wait_engine n s) = bdl_phys s \<and> ich_bdl (wait_engine n s) = ich_bdl s \<and> told (wait_engine n s) = told s"
proof (induction n arbitrary: s)
  case (Suc n)
  obtain v u where r: "rd8 (io_bm s + ICH_PO_CR) s = (v, u)" by fastforce
  then have "tick u = tick s" "tick_reads u = tick_reads s" "io_bm u = io_bm s" "bdl_phys u = bdl_phys s" "ich_bdl u = ich_bdl s" "told u = told s"
    by (auto simp: rd8_def told_def)
  then show ?case using Suc.IH [of "bus_wait u"] r by (simp add: bus_defs told_def)
qed simp

lemma start_keeps:
  "tick (ich_start p b s) = tick s" "tick_reads (ich_start p b s) = tick_reads s" "tick (via_start p b s) = tick s" "tick_reads (via_start p b s) = tick_reads s"
proof -
  show "tick (ich_start p b s) = tick s" "tick_reads (ich_start p b s) = tick_reads s"
    by (simp_all add: ich_start_def split_beta Let_def wait_engine_keeps bus_defs)
  show "tick (via_start p b s) = tick s" "tick_reads (via_start p b s) = tick_reads s"
    by (simp_all add: via_start_def Let_def bus_defs)
qed

text \<open>Playing a clip returns, blocking or not, when the timer runs: the wait is bounded by the length of the clip.\<close>

lemma ac97_play_returns:
  assumes "\<And>n. \<exists>k. n \<le> tick s (Suc (tick_reads s) + k) - tick s (tick_reads s)"
  shows "\<exists>t. ac97_play slot block s = Some t"
proof -
  define u where "u = (let phys = AC97_DMA_PHYS + word_of_nat (slot_buf (nat slot)); bytes = slot_bytes s (nat slot)
      in if au_variant s = AC_ICH then ich_start phys bytes s else via_start phys bytes s)"
  have u: "tick u = tick s" "tick_reads u = tick_reads s" by (simp_all add: u_def Let_def start_keeps)
  have "\<exists>t. play_loop (tick s (tick_reads s)) n (u\<lparr>tick_reads := Suc (tick_reads s)\<rparr>) = Some t" for n
  proof -
    from assms obtain k where "n \<le> tick s (Suc (tick_reads s) + k) - tick s (tick_reads s)" by blast
    then show ?thesis by (intro play_loop_returns [where k = k]) (simp add: u)
  qed
  then show ?thesis
    unfolding ac97_play_def Let_def u_def [unfolded Let_def, symmetric] read_ticks_def u prod.case by (auto simp: option.map_disc_iff)
qed

lemma fs_read_path_count: "fs_read_path path maxlen s = Some (n, bytes, s1) \<Longrightarrow> n = -1 \<or> n = int (length bytes)"
  using fs_read_bound(3)
  by (fastforce simp: fs_read_path_def Let_def bind_eq_Some_conv split: if_splits option.splits)

section \<open>Properties\<close>

text \<open>
  C34. Preloading a clip. On success the slot holds the whole file, every byte expanded to a signed sample for
  both channels, although source and destination share the buffer; on failure the slot counts as empty.
  In no case is a byte outside the slot written.
\<close>

theorem ac97_preload_expands:
  assumes "ac97_preload slot path s = Some (r, t)" and "length (cwd_path (au_fs s)) = 129"
  shows "(r = 0 \<longrightarrow> (\<exists>bytes fs. fs_read_path path (word_of_nat (slot_cap (nat slot) div 4)) (au_fs s) = Some (int (length bytes), bytes, fs) \<and>
      slot_bytes t (nat slot) = 4 * length bytes \<and> 0 < length bytes \<and> 4 * length bytes \<le> slot_cap (nat slot) \<and>
      (\<forall>i < length bytes. let a = slot_buf (nat slot) + 4 * i in
         dma t a = 0 \<and> dma t (a + 1) = bytes ! i - 128 \<and> dma t (a + 2) = 0 \<and> dma t (a + 3) = bytes ! i - 128))) \<and>
    (r \<noteq> 0 \<longrightarrow> r = -1 \<and> (slot = 0 \<or> slot = 1 \<longrightarrow> slot_bytes t (nat slot) = 0)) \<and>
    (\<forall>x. x < slot_buf (nat slot) \<or> slot_buf (nat slot) + slot_cap (nat slot) \<le> x \<longrightarrow> dma t x = dma s x)"
proof (cases "slot < 0 \<or> slot > 1 \<or> \<not> au_present s")
  case True
  then show ?thesis using assms(1) by (auto simp: ac97_preload_def Let_def split: if_splits)
next
  case False
  define k q where "k = nat slot" and "q = slot_cap (nat slot) div 4"
  have cap: "slot_cap k = 4 * q" "q < 2 ^ 32" by (simp_all add: q_def k_def slot_cap_def SLOT0_CAP_def SLOT1_CAP_def)
  have div4: "4 * q div 4 = q" by simp
  define src where "src = slot_buf k + (4 * q - q)"
  have sb: "dma (s\<lparr>slot_bytes := f\<rparr>) = dma s" for f by simp
  define G where "G = (\<lambda>(n, bytes, fs). let u = s\<lparr>slot_bytes := (slot_bytes s)(k := 0), au_fs := fs, dma := store_bytes src bytes (dma s)\<rparr>
      in if n \<le> (0 :: int) then (-1 :: int, u) else (0, u\<lparr>dma := expand (slot_buf k) src (nat n) (dma u), slot_bytes := (slot_bytes u)(k := nat n * 4)\<rparr>))"
  have "ac97_preload slot path s = map_option G (fs_read_path path (word_of_nat q) (au_fs s))"
    using False unfolding ac97_preload_def Let_def k_def [symmetric] cap div4 src_def [symmetric] G_def sb by simp
  then have "map_option G (fs_read_path path (word_of_nat q) (au_fs s)) = Some (r, t)" using assms(1) by (simp only:)
  then obtain n bytes fs where rd: "fs_read_path path (word_of_nat q) (au_fs s) = Some (n, bytes, fs)" and res0: "G (n, bytes, fs) = (r, t)"
    by auto
  define u where "u = s\<lparr>slot_bytes := (slot_bytes s)(k := 0), au_fs := fs, dma := store_bytes src bytes (dma s)\<rparr>"
  have res: "(r, t) = (if n \<le> 0 then (-1, u) else (0, u\<lparr>dma := expand (slot_buf k) src (nat n) (dma u), slot_bytes := (slot_bytes u)(k := nat n * 4)\<rparr>))"
    using res0 unfolding G_def prod.case Let_def u_def [symmetric] by simp
  have u: "dma u = store_bytes src bytes (dma s)" "slot_bytes u k = 0" by (simp_all add: u_def)
  have len: "length bytes \<le> q" using fs_read_path_keeps_cwd [OF rd assms(2)] cap(2) by (simp add: unat_of_nat_less)
  have n: "n \<le> 0 \<or> n = int (length bytes)" using fs_read_path_count [OF rd] by auto
  have out: "store_bytes src bytes (dma s) x = dma s x" if "x < slot_buf k \<or> slot_buf k + 4 * q \<le> x" for x
    using that len by (auto simp: store_bytes_def src_def)
  show ?thesis
  proof (cases "n \<le> 0")
    case True
    then show ?thesis using res out u unfolding k_def [symmetric] cap by simp
  next
    case pos: False
    then have n: "n = int (length bytes)" using n by simp
    let ?m = "store_bytes src bytes (dma s)"
    have t: "r = 0" "dma t = expand (slot_buf k) src (length bytes) ?m" "slot_bytes t k = 4 * length bytes" using res pos n u by simp_all
    note e = expand_correct [OF src_def len, of ?m]
    have b: "?m (src + i) = bytes ! i" if "i < length bytes" for i using that by (simp add: store_bytes_def)
    have "\<forall>i < length bytes. let a = slot_buf k + 4 * i in
        dma t a = 0 \<and> dma t (a + 1) = bytes ! i - 128 \<and> dma t (a + 2) = 0 \<and> dma t (a + 3) = bytes ! i - 128"
      unfolding t(2) Let_def using e b by (auto simp: add.assoc)
    moreover have "dma t x = dma s x" if "x < slot_buf k \<or> slot_buf k + 4 * q \<le> x" for x
      unfolding t(2) using e out [OF that] that len by auto
    ultimately show ?thesis using rd n pos len t unfolding k_def [symmetric] cap q_def [symmetric] by auto
  qed
qed


theorem ac97_preload_expands_witness:
  "\<forall>au. \<exists>r t. ac97_preload 0 ''a.txt'' (au\<lparr>au_fs := sample_dir, au_present := True\<rparr>) = Some (r, t) \<and> dma t 700000 = dma au 700000"
proof
  fix au :: ac97
  let ?s = "au\<lparr>au_fs := sample_dir, au_present := True\<rparr>"
  have c: "cwd_cluster sample_dir = 0" "length (cwd_path sample_dir) = 129" "mounted sample_dir" by (simp_all add: sample_dir_def sample_fs_def)
  obtain hit t where "dir_find 0 (to_83 ''a.txt'') sample_dir = Some (hit, t)" using dir_find_lookup [OF sample_dir_ok] by metis
  then have "fs_read_path ''a.txt'' (word_of_nat (slot_cap 0 div 4)) sample_dir \<noteq> None" using c by (simp add: fs_read_path_def last_slash_def fs_read_def)
  then obtain r t where p: "ac97_preload 0 ''a.txt'' ?s = Some (r, t)"
    by (cases "ac97_preload 0 ''a.txt'' ?s") (auto simp: ac97_preload_def Let_def)
  have "dma t 700000 = dma ?s 700000"
    using ac97_preload_expands [OF p] c(2) by (simp add: slot_buf_def slot_cap_def SLOT0_CAP_def)
  then show "\<exists>r t. ac97_preload 0 ''a.txt'' ?s = Some (r, t) \<and> dma t 700000 = dma au 700000" using p by simp
qed

text \<open>
  Starting the Intel engine: the descriptors cover the clip exactly, in order and without gaps, the last one
  with the interrupt flag, and the engine is reset, pointed at the list and started.
\<close>

theorem ich_start_programs:
  assumes "0 < bytes" and "bytes \<le> 32 * 131068" and "t = ich_start phys bytes s"
  shows "\<exists>n. 0 < n \<and> n \<le> 32 \<and> (n - 1) * 131068 < bytes \<and> bytes \<le> n * 131068 \<and>
    (\<forall>j < n. ich_bdl t (j * 2) = phys + word_of_nat (j * 131068) \<and>
      ich_bdl t (j * 2 + 1) = (if j = n - 1 then word_of_nat ((bytes - j * 131068) div 2) OR push_bit 31 1 else 0xFFFE)) \<and>
    told t = told s @ filter is_out [Out8 (io_bm s + 0x1B) 2, Out32 (io_bm s + 0x10) (bdl_phys s), Out8 (io_bm s + 0x15) (word_of_nat (n - 1)),
      Out16 (io_bm s + 0x16) 0x1C, Out8 (io_bm s + 0x1B) 1]"
proof -
  obtain n bdl where f: "fill_bdl 32 0 0 phys bytes (ich_bdl s) = (n, bdl)" by fastforce
  have T: "0 < n \<and> n \<le> 32 \<and> (n - 1) * 131068 < bytes \<and> bytes \<le> n * 131068 \<and>
    (\<forall>j. 0 \<le> j \<and> j < n \<longrightarrow> bdl (j * 2) = phys + word_of_nat (j * 131068) \<and>
       bdl (j * 2 + 1) = word_of_nat ((if j = n - 1 then bytes - j * 131068 else 131068) div 2))"
    using fill_bdl_tiles [OF refl, of 32 0 phys bytes "ich_bdl s" n bdl] f assms(1,2) by simp
  define u where "u = s\<lparr>ich_bdl := bdl((n - 1) * 2 + 1 := bdl ((n - 1) * 2 + 1) OR push_bit 31 1)\<rparr>"
  define v where "v = wait_engine 1000 (wr8 (io_bm u + ICH_PO_CR) 0x02 u)"
  have v: "io_bm v = io_bm s" "bdl_phys v = bdl_phys s" "ich_bdl v = bdl((n - 1) * 2 + 1 := bdl ((n - 1) * 2 + 1) OR push_bit 31 1)"
    "told v = told s @ filter is_out [Out8 (io_bm s + 0x1B) 2]"
    using wait_engine_keeps [of 1000 "wr8 (io_bm u + ICH_PO_CR) 0x02 u"] unfolding v_def by (simp_all add: wr8_def told_def u_def ICH_PO_CR_def)
  have t: "t = wr8 (io_bm s + ICH_PO_CR) 0x01 (wr16 (io_bm s + ICH_PO_SR) 0x1C (wr8 (io_bm s + ICH_PO_LVI) (word_of_nat (n - 1)) (wr32 (io_bm s + ICH_PO_BDBAR) (bdl_phys s) v)))"
    unfolding assms(3) ich_start_def f prod.case Let_def u_def [symmetric] v_def [symmetric] by (simp add: v bus_defs)
  have "ich_bdl t = ich_bdl v" unfolding t by (simp add: bus_defs)
  moreover have "told t = told s @ filter is_out [Out8 (io_bm s + 0x1B) 2, Out32 (io_bm s + 0x10) (bdl_phys s), Out8 (io_bm s + 0x15) (word_of_nat (n - 1)),
      Out16 (io_bm s + 0x16) 0x1C, Out8 (io_bm s + 0x1B) 1]"
    unfolding t by (simp add: v ICH_PO_CR_def ICH_PO_SR_def ICH_PO_LVI_def ICH_PO_BDBAR_def)
  moreover have "ich_bdl v (j * 2) = phys + word_of_nat (j * 131068) \<and>
      ich_bdl v (j * 2 + 1) = (if j = n - 1 then word_of_nat ((bytes - j * 131068) div 2) OR push_bit 31 1 else 0xFFFE)" if "j < n" for j
  proof -
    have "j * 2 \<noteq> (n - 1) * 2 + 1" by presburger
    then show ?thesis using T that unfolding v(3) by (cases "j = n - 1") auto
  qed
  ultimately show ?thesis using T by (intro exI [of _ n]) simp
qed

end
