(* ===== verification/Desktop.thy ===== *)
theory Desktop
  imports Gfx Editor Ac97 Acpi Input Rtc
begin

text \<open>
  The graphical desktop of \<open>kernel/desktop.c\<close>: icons of a directory with navigation, two windows with a z-order, the Start menu,
  the compositor and the event loop. One record holds the static variables of the file next to the components it uses: the
  graphics, the editor with the file system, the sound chip, the ACPI driver, keyboard and mouse. The loop is driven by
  \<open>tick\<close>s: the scan codes and mouse bytes that the interrupts deliver while the processor sleeps in \<open>hlt\<close>, and the keys typed
  while the editor is open. The clock chip is the sequence of times that \<open>rtc_read\<close> gives. A result of \<open>None\<close> stands for a call that
  does not return, or for the write past the end of \<open>cur_path\<close> in \<open>build_path\<close>.
\<close>

section \<open>State\<close>

record window =
  w_x :: int
  w_y :: int
  w_w :: int
  w_h :: int
  w_open :: bool
  w_title :: string
  w_body :: "string list"
  w_nbody :: nat

record desktop =
  d_gfx :: gfx
  d_ed :: editor
  d_au :: ac97
  d_acpi :: acpi
  d_kbd :: kbd
  d_mouse :: mouse
  d_times :: "nat \<Rightarrow> rtc_time"
  d_reads :: nat
  scr_w :: int
  scr_h :: int
  big :: bool
  cur_scale :: int
  entries :: "fs_dirent list"
  sel_slot :: int
  dir_stack :: "u16 list"
  name_stack :: "string list"
  dir_depth :: nat
  cur_path :: string
  cellw :: int
  cellh :: int
  icon_pad :: int
  icon_cols :: int
  glyph_w :: int
  glyph_h :: int
  wins :: "window list"
  zorder :: "nat list"
  sb_x :: int
  sb_y :: int
  sb_w :: int
  sb_h :: int
  mnu_x :: int
  mnu_y :: int
  mnu_w :: int
  mnu_h :: int
  mnu_ih :: int
  start_open :: bool
  start_hover :: int
  edit_name :: string
  dragging :: int
  grab_dx :: int
  grab_dy :: int

definition COL_BLACK :: u8 where "COL_BLACK = 0"
definition COL_DESKTOP :: u8 where "COL_DESKTOP = 1"
definition COL_FACE :: u8 where "COL_FACE = 2"
definition COL_TEXT :: u8 where "COL_TEXT = 3"
definition COL_TITLE :: u8 where "COL_TITLE = 4"
definition COL_TITLE_TEXT :: u8 where "COL_TITLE_TEXT = 5"
definition COL_BORDER :: u8 where "COL_BORDER = 6"
definition COL_TASKBAR :: u8 where "COL_TASKBAR = 7"
definition COL_TASK_TEXT :: u8 where "COL_TASK_TEXT = 8"
definition COL_CLOSE :: u8 where "COL_CLOSE = 9"
definition COL_SHADOW :: u8 where "COL_SHADOW = 10"
definition COL_ACCENT :: u8 where "COL_ACCENT = 11"
definition COL_INACTIVE :: u8 where "COL_INACTIVE = 12"
definition COL_WHITE :: u8 where "COL_WHITE = 15"
definition COL_FOLDER :: u8 where "COL_FOLDER = 16"
definition COL_FOLDER_D :: u8 where "COL_FOLDER_D = 17"
definition COL_PAGE :: u8 where "COL_PAGE = 18"
definition COL_PAGE_LINE :: u8 where "COL_PAGE_LINE = 19"
definition COL_LABEL :: u8 where "COL_LABEL = 20"
definition COL_SELECT :: u8 where "COL_SELECT = 21"
definition COL_MENU :: u8 where "COL_MENU = 22"
definition COL_MENU_HI :: u8 where "COL_MENU_HI = 23"
definition COL_MENU_TEXT :: u8 where "COL_MENU_TEXT = 24"
definition COL_START :: u8 where "COL_START = 25"
definition COL_START_HI :: u8 where "COL_START_HI = 26"

definition draw :: "(gfx \<Rightarrow> gfx) \<Rightarrow> desktop \<Rightarrow> desktop" where
  "draw f s = s\<lparr>d_gfx := f (d_gfx s)\<rparr>"

definition palette :: "(u8 \<times> u8 \<times> u8 \<times> u8) list" where
  "palette =
    [(COL_BLACK, 0, 0, 0), (COL_DESKTOP, 8, 26, 34), (COL_FACE, 50, 50, 55), (COL_TEXT, 4, 4, 6), (COL_TITLE, 12, 22, 55),
     (COL_TITLE_TEXT, 62, 62, 63), (COL_BORDER, 5, 5, 9), (COL_TASKBAR, 18, 18, 27), (COL_TASK_TEXT, 56, 56, 61),
     (COL_CLOSE, 54, 22, 22), (COL_SHADOW, 3, 11, 15), (COL_ACCENT, 32, 44, 63), (COL_INACTIVE, 30, 30, 38),
     (COL_WHITE, 63, 63, 63), (COL_FOLDER, 60, 50, 22), (COL_FOLDER_D, 40, 32, 10), (COL_PAGE, 60, 60, 62),
     (COL_PAGE_LINE, 34, 34, 42), (COL_LABEL, 58, 58, 62), (COL_SELECT, 26, 40, 62), (COL_MENU, 28, 28, 40),
     (COL_MENU_HI, 38, 50, 63), (COL_MENU_TEXT, 60, 60, 63), (COL_START, 22, 40, 52), (COL_START_HI, 36, 54, 63)]"

definition load_palette :: "desktop \<Rightarrow> desktop" where
  "load_palette s = draw (fold (\<lambda>(i, r, g, b). gfx_set_palette i r g b) palette) s"

definition TITLE_H :: int where "TITLE_H = 18"
definition TB_H :: int where "TB_H = 22"

section \<open>Strings\<close>

text \<open>\<open>set_str\<close> copies a C string, cut to the capacity; the terminating zero is not part of the result.\<close>

definition set_str :: "string \<Rightarrow> nat \<Rightarrow> string" where
  "set_str src cap = take (cap - 1) (cstring src)"

text \<open>The digits, least significant first, as \<open>append_uint\<close> collects them in \<open>tmp\<close>.\<close>

function uint_digits :: "u32 \<Rightarrow> string" where
  "uint_digits v = char_of (48 + unat (v mod 10)) # (if v div 10 = 0 then [] else uint_digits (v div 10))"
  by auto
termination
  by (relation "measure unat") (auto simp: unat_div word_unat_eq_iff)

definition append_uint :: "string \<Rightarrow> u32 \<Rightarrow> string" where
  "append_uint p v = p @ rev (uint_digits v)"

section \<open>Directories and icons\<close>

definition MAX_ICONS :: int where "MAX_ICONS = 32"
definition MAX_DEPTH :: nat where "MAX_DEPTH = 12"

definition base_slot :: "desktop \<Rightarrow> int" where
  "base_slot s = (if dir_depth s > 1 then 1 else 0)"

fun path_parts :: "string list \<Rightarrow> string" where
  "path_parts [] = []"
| "path_parts [n] = cstring n"
| "path_parts (n # ns) = cstring n @ ''/'' @ path_parts ns"

definition path_of :: "nat \<Rightarrow> string list \<Rightarrow> string" where
  "path_of depth names = ''/'' @ path_parts (drop 1 (take depth names))"

definition full_path :: "desktop \<Rightarrow> string" where
  "full_path s = path_of (dir_depth s) (name_stack s)"

definition build_path :: "desktop \<Rightarrow> desktop option" where
  "build_path s = (if length (full_path s) < 80 then Some (s\<lparr>cur_path := full_path s\<rparr>) else None)"

definition set_fs :: "fatfs \<Rightarrow> desktop \<Rightarrow> desktop" where
  "set_fs fs s = s\<lparr>d_ed := (d_ed s)\<lparr>ed_fs := fs\<rparr>\<rparr>"

definition reload_dir :: "desktop \<Rightarrow> desktop option" where
  "reload_dir s =
     Option.bind (fs_readdir (dir_stack s ! (dir_depth s - 1)) MAX_ICONS (ed_fs (d_ed s))) (\<lambda>(es, fs).
       build_path ((set_fs fs s)\<lparr>entries := es, sel_slot := -1\<rparr>))"

definition enter_dir :: "nat \<Rightarrow> desktop \<Rightarrow> desktop option" where
  "enter_dir ei s =
     (if dir_depth s \<ge> MAX_DEPTH then Some s
      else reload_dir (s\<lparr>dir_stack := (dir_stack s)[dir_depth s := d_cluster (entries s ! ei)],
                         name_stack := (name_stack s)[dir_depth s := set_str (d_name (entries s ! ei)) 13],
                         dir_depth := dir_depth s + 1\<rparr>))"

definition go_up :: "desktop \<Rightarrow> desktop option" where
  "go_up s = (if dir_depth s > 1 then reload_dir (s\<lparr>dir_depth := dir_depth s - 1\<rparr>) else Some s)"

definition layout_icons :: "desktop \<Rightarrow> desktop" where
  "layout_icons s =
     (let s = s\<lparr>cellw := (if big s then 88 else 52), cellh := (if big s then 56 else 42), icon_pad := (if big s then 16 else 6),
                glyph_w := (if big s then 34 else 20), glyph_h := (if big s then 26 else 16)\<rparr>;
          cols = (scr_w s - icon_pad s * 2) div cellw s
      in s\<lparr>icon_cols := (if cols < 1 then 1 else cols)\<rparr>)"

definition icon_pos :: "int \<Rightarrow> desktop \<Rightarrow> int \<times> int" where
  "icon_pos slot s = (icon_pad s + (slot mod icon_cols s) * cellw s, icon_pad s + (slot div icon_cols s) * cellh s)"

definition draw_folder :: "int \<Rightarrow> int \<Rightarrow> bool \<Rightarrow> desktop \<Rightarrow> desktop" where
  "draw_folder gx gy up s =
     (let tab = glyph_h s div 3;
          s = draw (gfx_fill_rect gx gy (glyph_w s div 2) tab COL_FOLDER_D) s;
          s = draw (gfx_fill_rect gx (gy + tab div 2) (glyph_w s) (glyph_h s - tab div 2) COL_FOLDER) s;
          s = draw (gfx_rect gx (gy + tab div 2) (glyph_w s) (glyph_h s - tab div 2) COL_FOLDER_D) s
      in if up
         then let ax = gx + glyph_w s div 2; ay = gy + glyph_h s div 2;
                  s = draw (fold (\<lambda>r. gfx_hline (ax - int r) (ay - 2 + int r) (2 * int r + 1) COL_TEXT) [0..<5]) s
              in draw (gfx_fill_rect (ax - 1) (ay + 1) 3 5 COL_TEXT) s
         else s)"

definition draw_page :: "int \<Rightarrow> int \<Rightarrow> desktop \<Rightarrow> desktop" where
  "draw_page gx gy s =
     (let s = draw (gfx_fill_rect gx gy (glyph_w s) (glyph_h s) COL_PAGE) s;
          s = draw (gfx_rect gx gy (glyph_w s) (glyph_h s) COL_PAGE_LINE) s
      in draw (fold (\<lambda>i. gfx_hline (gx + 3) (gy + int i * (glyph_h s div 4)) (glyph_w s - 6) COL_PAGE_LINE) [1..<4]) s)"

definition draw_slot :: "int \<Rightarrow> string \<Rightarrow> bool \<Rightarrow> bool \<Rightarrow> desktop \<Rightarrow> desktop" where
  "draw_slot slot name is_dir up s =
     (let (ix, iy) = icon_pos slot s;
          s = (if slot = sel_slot s then draw (gfx_fill_rect (ix + 2) iy (cellw s - 4) (cellh s - 2) COL_SELECT) s else s);
          gx = ix + (cellw s - glyph_w s) div 2; gy = iy + 3;
          s = (if is_dir \<or> up then draw_folder gx gy up s else draw_page gx gy s);
          maxc = (cellw s - 2) div FONT_W; maxc = (if maxc < 1 then 1 else maxc);
          label = take (nat maxc) (set_str name 13);
          tw = gfx_text_width label
      in draw (gfx_text (ix + (cellw s - tw) div 2) (iy + glyph_h s + 6) label COL_LABEL (-1)) s)"

definition draw_icons :: "desktop \<Rightarrow> desktop" where
  "draw_icons s =
     (let base = base_slot s; s = (if base \<noteq> 0 then draw_slot 0 ''..'' False True s else s)
      in fold (\<lambda>i s. draw_slot (int i + base) (d_name (entries s ! i)) (d_is_dir (entries s ! i)) False s) [0..<length (entries s)] s)"

fun slot_from :: "nat \<Rightarrow> int \<Rightarrow> int \<Rightarrow> int \<Rightarrow> desktop \<Rightarrow> int" where
  "slot_from 0 k px py s = -1"
| "slot_from (Suc n) k px py s =
     (let (ix, iy) = icon_pos k s
      in if px \<ge> ix \<and> px < ix + cellw s \<and> py \<ge> iy \<and> py < iy + cellh s then k else slot_from n (k + 1) px py s)"

definition slot_at :: "int \<Rightarrow> int \<Rightarrow> desktop \<Rightarrow> int" where
  "slot_at px py s = slot_from (nat (base_slot s + int (length (entries s)))) 0 px py s"

section \<open>Windows\<close>

definition MAX_WIN :: nat where "MAX_WIN = 2"
definition WIN_WELCOME :: nat where "WIN_WELCOME = 0"
definition WIN_INFO :: nat where "WIN_INFO = 1"
definition LINE_C :: nat where "LINE_C = 40"

definition on_win :: "nat \<Rightarrow> (window \<Rightarrow> window) \<Rightarrow> desktop \<Rightarrow> desktop" where
  "on_win i f s = s\<lparr>wins := (wins s)[i := f (wins s ! i)]\<rparr>"

definition windows_init :: "desktop \<Rightarrow> desktop" where
  "windows_init s =
     (let w = (if big s then 300 else 188);
          s = on_win WIN_WELCOME (\<lambda>win. win\<lparr>w_w := w, w_h := (if big s then 128 else 96), w_x := scr_w s div 2 - w div 2,
                w_y := (if big s then 40 else 18), w_open := True, w_title := set_str ''Welcome to PumpkinOS'' 28,
                w_body := [set_str ''Files in / show as icons.'' LINE_C, set_str ''Click a .txt to edit it.'' LINE_C,
                           set_str ''Click Start: shell / power.'' LINE_C, set_str ''Drag title bars; [x] closes.'' LINE_C,
                           set_str ''Esc returns to the shell.'' LINE_C],
                w_nbody := 5\<rparr>) s;
          s = on_win WIN_INFO (\<lambda>win. win\<lparr>w_open := False\<rparr>) s
      in s\<lparr>zorder := [WIN_WELCOME, WIN_INFO]\<rparr>)"

definition open_info :: "nat \<Rightarrow> desktop \<Rightarrow> desktop" where
  "open_info idx s =
     (let e = entries s ! idx; w = (if big s then 220 else 160);
          body = (if d_is_dir e then (w_body (wins s ! WIN_INFO))[0 := set_str ''Type:  directory'' LINE_C]
                  else (w_body (wins s ! WIN_INFO))[0 := set_str ''Type:  file'' LINE_C,
                         1 := set_str (append_uint ''Size:  '' (d_size e) @ '' bytes'') LINE_C])
      in on_win WIN_INFO (\<lambda>win. win\<lparr>w_title := set_str (d_name e) 28, w_body := body, w_nbody := (if d_is_dir e then 1 else 2),
           w_w := w, w_h := (if big s then 84 else 68), w_x := scr_w s div 2 - w div 2, w_y := scr_h s div 3, w_open := True\<rparr>) s)"

fun find_at :: "nat \<Rightarrow> nat \<Rightarrow> nat \<Rightarrow> nat list \<Rightarrow> nat" where
  "find_at 0 at idx z = at"
| "find_at (Suc n) at idx z = (if z ! at \<noteq> idx then find_at n (at + 1) idx z else at)"

fun shift_down_from :: "nat \<Rightarrow> nat \<Rightarrow> nat list \<Rightarrow> nat list" where
  "shift_down_from 0 at z = z"
| "shift_down_from (Suc n) at z = (if at < MAX_WIN - 1 then shift_down_from n (at + 1) (z[at := z ! (at + 1)]) else z)"

definition raise_window :: "nat \<Rightarrow> desktop \<Rightarrow> desktop" where
  "raise_window idx s =
     (let z = shift_down_from MAX_WIN (find_at MAX_WIN 0 idx (zorder s)) (zorder s) in s\<lparr>zorder := z[MAX_WIN - 1 := idx]\<rparr>)"

definition close_box_x :: "window \<Rightarrow> int" where
  "close_box_x w = w_x w + w_w w - TITLE_H - 1"

definition draw_window :: "window \<Rightarrow> bool \<Rightarrow> desktop \<Rightarrow> desktop" where
  "draw_window win active s =
     (let x = w_x win; y = w_y win; w = w_w win; h = w_h win;
          s = draw (gfx_fill_rect (x + 4) (y + 4) w h COL_SHADOW) s;
          s = draw (gfx_fill_rect x y w h COL_FACE) s;
          s = draw (gfx_rect x y w h COL_BORDER) s;
          s = draw (gfx_fill_rect (x + 1) (y + 1) (w - 2) TITLE_H (if active then COL_TITLE else COL_INACTIVE)) s;
          s = draw (gfx_text (x + 6) (y + 2) (w_title win) COL_TITLE_TEXT (-1)) s;
          cb = close_box_x win;
          s = draw (gfx_fill_rect cb (y + 2) (TITLE_H - 3) (TITLE_H - 3) COL_CLOSE) s;
          s = draw (gfx_char (cb + 2) (y + 1) (CHR ''x'') COL_TITLE_TEXT (-1)) s
      in draw (fold (\<lambda>i. gfx_text (x + 10) (y + TITLE_H + 8 + int i * (FONT_H + 2)) (w_body win ! i) COL_TEXT (-1)) [0..<w_nbody win]) s)"

section \<open>Taskbar and Start menu\<close>

definition menu_items :: "string list" where "menu_items = [''Enter shell'', ''Reboot'', ''Power Off'']"

definition layout_taskbar :: "desktop \<Rightarrow> desktop" where
  "layout_taskbar s =
     (let s = s\<lparr>sb_x := 4, sb_y := scr_h s - TB_H + 2, sb_w := (if big s then 66 else 48), sb_h := TB_H - 4,
                mnu_ih := FONT_H + 6, mnu_w := (if big s then 150 else 118)\<rparr>;
          s = s\<lparr>mnu_h := 3 * mnu_ih s + 4, mnu_x := 4\<rparr>
      in s\<lparr>mnu_y := scr_h s - TB_H - mnu_h s\<rparr>)"

definition menu_item_at :: "int \<Rightarrow> int \<Rightarrow> desktop \<Rightarrow> int" where
  "menu_item_at px py s =
     (if \<not> start_open s then -1
      else if px < mnu_x s \<or> px \<ge> mnu_x s + mnu_w s then -1
      else if py < mnu_y s + 2 \<or> py \<ge> mnu_y s + 2 + 3 * mnu_ih s then -1
      else (py - (mnu_y s + 2)) div mnu_ih s)"

definition two :: "u8 \<Rightarrow> string" where
  "two v = [char_of (48 + (unat v div 10) mod 10), char_of (48 + unat v mod 10)]"

definition read_clock :: "desktop \<Rightarrow> rtc_time \<times> desktop" where
  "read_clock s = (d_times s (d_reads s), s\<lparr>d_reads := Suc (d_reads s)\<rparr>)"

definition draw_taskbar :: "desktop \<Rightarrow> desktop" where
  "draw_taskbar s =
     (let y = scr_h s - TB_H;
          s = draw (gfx_fill_rect 0 y (scr_w s) TB_H COL_TASKBAR) s;
          s = draw (gfx_hline 0 y (scr_w s) COL_ACCENT) s;
          pad = (TB_H - FONT_H) div 2;
          s = draw (gfx_fill_rect (sb_x s) (sb_y s) (sb_w s) (sb_h s) (if start_open s then COL_START_HI else COL_START)) s;
          s = draw (gfx_rect (sb_x s) (sb_y s) (sb_w s) (sb_h s) COL_BORDER) s;
          s = draw (gfx_text (sb_x s + (if big s then 12 else 6)) (y + pad) ''Start'' COL_TITLE_TEXT (-1)) s;
          s = (if big s then draw (gfx_text (sb_x s + sb_w s + 12) (y + pad) (cur_path s) COL_TASK_TEXT (-1)) s else s);
          (t, s) = read_clock s;
          clk = two (hour t) @ '':'' @ two (minute t) @ '':'' @ two (second t)
      in draw (gfx_text (scr_w s - gfx_text_width clk - 8) (y + pad) clk COL_TASK_TEXT (-1)) s)"

definition draw_menu_item :: "nat \<Rightarrow> desktop \<Rightarrow> desktop" where
  "draw_menu_item i s =
     (let iy = mnu_y s + 2 + int i * mnu_ih s;
          s = (if int i = start_hover s then draw (gfx_fill_rect (mnu_x s + 2) iy (mnu_w s - 4) (mnu_ih s) COL_MENU_HI) s else s)
      in draw (gfx_text (mnu_x s + 10) (iy + 3) (menu_items ! i) (if int i = start_hover s then COL_TITLE else COL_MENU_TEXT) (-1)) s)"

definition draw_start_menu :: "desktop \<Rightarrow> desktop" where
  "draw_start_menu s =
     (if \<not> start_open s then s
      else let s = draw (gfx_fill_rect (mnu_x s + 3) (mnu_y s + 3) (mnu_w s) (mnu_h s) COL_SHADOW) s;
               s = draw (gfx_fill_rect (mnu_x s) (mnu_y s) (mnu_w s) (mnu_h s) COL_MENU) s;
               s = draw (gfx_rect (mnu_x s) (mnu_y s) (mnu_w s) (mnu_h s) COL_BORDER) s
           in fold draw_menu_item [0..<3] s)"

section \<open>Cursor and compositor\<close>

definition cursor_bmp :: "string list" where
  "cursor_bmp = [''#'', ''##'', ''#.#'', ''#..#'', ''#...#'', ''#....#'', ''#.....#'', ''#......#'', ''#...####'', ''#..#'', ''#.# #'', ''## ##'']"

definition CUR_COLS :: int where "CUR_COLS = 8"
definition CUR_ROWS :: int where "CUR_ROWS = 12"

definition cursor_dot :: "int \<Rightarrow> int \<Rightarrow> nat \<Rightarrow> nat \<Rightarrow> u8 \<Rightarrow> nat \<Rightarrow> gfx \<Rightarrow> gfx" where
  "cursor_dot px py row col c sc =
     fold (\<lambda>sy. fold (\<lambda>sx. gfx_fb_pixel (px + int col * int sc + int sx) (py + int row * int sc + int sy) c) [0..<sc]) [0..<sc]"

definition cursor_row :: "int \<Rightarrow> int \<Rightarrow> nat \<Rightarrow> nat \<Rightarrow> gfx \<Rightarrow> gfx" where
  "cursor_row px py sc row =
     fold (\<lambda>col. let ch = cursor_bmp ! row ! col
                 in if ch = CHR ''#'' then cursor_dot px py row col COL_BLACK sc
                    else if ch = CHR ''.'' then cursor_dot px py row col COL_WHITE sc else id)
       [0..<length (cursor_bmp ! row)]"

definition draw_cursor_fb :: "int \<Rightarrow> int \<Rightarrow> desktop \<Rightarrow> desktop" where
  "draw_cursor_fb px py s = draw (fold (cursor_row px py (nat (cur_scale s))) [0..<length cursor_bmp]) s"

definition render_scene :: "desktop \<Rightarrow> desktop" where
  "render_scene s =
     (let s = draw (gfx_clear COL_DESKTOP) s;
          s = draw_icons s;
          s = fold (\<lambda>i s. let idx = zorder s ! i
                in if w_open (wins s ! idx) then draw_window (wins s ! idx) (i = MAX_WIN - 1) s else s) [0..<MAX_WIN] s
      in draw_start_menu (draw_taskbar s))"

definition in_rect :: "int \<Rightarrow> int \<Rightarrow> int \<Rightarrow> int \<Rightarrow> int \<Rightarrow> int \<Rightarrow> bool" where
  "in_rect px py x y w h \<longleftrightarrow> px \<ge> x \<and> px < x + w \<and> py \<ge> y \<and> py < y + h"

section \<open>Clicks\<close>

datatype act = ACT_NONE | ACT_SCENE | ACT_EXIT | ACT_REBOOT | ACT_POWEROFF | ACT_EDIT

definition is_text_file :: "string \<Rightarrow> bool" where
  "is_text_file name \<longleftrightarrow> (let n = length (cstring name)
     in n \<ge> 4 \<and> name ! (n - 4) = CHR ''.'' \<and> name ! (n - 3) = CHR ''T'' \<and> name ! (n - 2) = CHR ''X'' \<and> name ! (n - 1) = CHR ''T'')"

definition press_window :: "nat \<Rightarrow> int \<Rightarrow> int \<Rightarrow> desktop \<Rightarrow> desktop" where
  "press_window idx px py s =
     (let s = raise_window idx s; w = wins s ! idx
      in if in_rect px py (close_box_x w) (w_y w + 2) (TITLE_H - 3) (TITLE_H - 3) then on_win idx (\<lambda>w. w\<lparr>w_open := False\<rparr>) s
         else if in_rect px py (w_x w) (w_y w) (w_w w) (TITLE_H + 1)
         then s\<lparr>dragging := int idx, grab_dx := px - w_x w, grab_dy := py - w_y w\<rparr> else s)"

text \<open>The open window under the pointer that is highest in the z-order.\<close>

fun hit_window :: "nat \<Rightarrow> int \<Rightarrow> int \<Rightarrow> desktop \<Rightarrow> nat option" where
  "hit_window 0 px py s = None"
| "hit_window (Suc i) px py s =
     (let idx = zorder s ! i; w = wins s ! idx
      in if \<not> w_open w \<or> \<not> in_rect px py (w_x w) (w_y w) (w_w w) (w_h w) then hit_window i px py s else Some idx)"

definition press_none :: "desktop \<Rightarrow> (act \<times> desktop) option" where
  "press_none s = Some (if sel_slot s \<noteq> -1 then (ACT_SCENE, s\<lparr>sel_slot := -1\<rparr>) else (ACT_NONE, s))"

definition press_icon :: "int \<Rightarrow> desktop \<Rightarrow> (act \<times> desktop) option" where
  "press_icon slot s =
     (let base = base_slot s
      in if base \<noteq> 0 \<and> slot = 0 then map_option (Pair ACT_SCENE) (go_up (on_win WIN_INFO (\<lambda>w. w\<lparr>w_open := False\<rparr>) s))
         else let ei = slot - base
         in if ei \<ge> 0 \<and> ei < int (length (entries s))
            then let e = entries s ! nat ei
                 in if d_is_dir e
                    then map_option (Pair ACT_SCENE) (enter_dir (nat ei) (on_win WIN_INFO (\<lambda>w. w\<lparr>w_open := False\<rparr>) s))
                    else if is_text_file (d_name e)
                    then Some (ACT_EDIT, s\<lparr>sel_slot := slot, edit_name := set_str (d_name e) 13\<rparr>)
                    else Some (ACT_SCENE, raise_window WIN_INFO (open_info (nat ei) (s\<lparr>sel_slot := slot\<rparr>)))
            else press_none s)"

definition handle_press :: "int \<Rightarrow> int \<Rightarrow> desktop \<Rightarrow> (act \<times> desktop) option" where
  "handle_press px py s =
     (if start_open s
      then let mi = menu_item_at px py s; s = s\<lparr>start_open := False, start_hover := -1\<rparr>
           in Some (if mi = 0 then ACT_EXIT else if mi = 1 then ACT_REBOOT else if mi = 2 then ACT_POWEROFF else ACT_SCENE, s)
      else if in_rect px py (sb_x s) (sb_y s) (sb_w s) (sb_h s) then Some (ACT_SCENE, s\<lparr>start_open := True\<rparr>)
      else case hit_window MAX_WIN px py s of
          Some idx \<Rightarrow> Some (ACT_SCENE, press_window idx px py s)
        | None \<Rightarrow>
            let slot = slot_at px py s in if slot \<ge> 0 then press_icon slot s else press_none s)"

section \<open>Leaving and entering graphics\<close>

text \<open>There is one kernel heap and one set of page tables: the graphics use those that the file system's record holds.\<close>

definition g_in :: "desktop \<Rightarrow> gfx" where
  "g_in s = set_heap (fs_heap (ed_fs (d_ed s))) (d_gfx s)"

definition g_out :: "gfx \<Rightarrow> desktop \<Rightarrow> desktop" where
  "g_out g s = set_fs ((ed_fs (d_ed s))\<lparr>fs_heap := shared_heap g\<rparr>) (s\<lparr>d_gfx := g\<rparr>)"

text \<open>Back in text mode the console's screen is the text memory that \<open>vga_leave_graphics\<close> has cleared.\<close>

definition leave_vga :: "desktop \<Rightarrow> desktop" where
  "leave_vga s =
     (let v = vga_leave_graphics (gvga (d_gfx s)); con = (ed_con (d_ed s))\<lparr>vga := map (text_mem v) [0..<VGA_ROWS * VGA_COLS]\<rparr>
      in s\<lparr>d_gfx := (d_gfx s)\<lparr>gvga := v\<rparr>, d_ed := (d_ed s)\<lparr>ed_con := con\<rparr>\<rparr>)"

definition leave_graphics :: "desktop \<Rightarrow> desktop option" where
  "leave_graphics s = map_option (\<lambda>g. leave_vga (g_out g s)) (gfx_shutdown (g_in s))"

definition enter_graphics :: "desktop \<Rightarrow> desktop option" where
  "enter_graphics s = map_option (\<lambda>v. g_out ((g_in s)\<lparr>gvga := v\<rparr>) s) (vga_enter_graphics (gvga (g_in s)))"

definition init_gfx :: "desktop \<Rightarrow> (int \<times> desktop) option" where
  "init_gfx s = map_option (\<lambda>(r, g). (r, g_out g s)) (gfx_init (g_in s))"

definition set_screen :: "desktop \<Rightarrow> desktop" where
  "set_screen s =
     (let s = s\<lparr>scr_w := gfx_width (d_gfx s), scr_h := gfx_height (d_gfx s)\<rparr>; s = s\<lparr>big := (scr_w s \<ge> 640)\<rparr>
      in s\<lparr>cur_scale := (if big s then 2 else 1)\<rparr>)"

definition bound_mouse :: "desktop \<Rightarrow> desktop" where
  "bound_mouse s = s\<lparr>d_mouse := mouse_set_bounds (nat (scr_w s)) (nat (scr_h s)) (d_mouse s)\<rparr>"

text \<open>
  The editor reads the keys that wait in the keyboard ring and then those typed while it runs; what it does not consume waits
  in the ring afterwards.
\<close>

definition edit_file :: "u8 list \<Rightarrow> desktop \<Rightarrow> desktop option" where
  "edit_file ks s =
     map_option (\<lambda>(rest, ed). s\<lparr>d_ed := ed, d_kbd := fold (\<lambda>b. kbd_enqueue (byte_chr b)) rest ((d_kbd s)\<lparr>kbd_tail := kbd_head (d_kbd s)\<rparr>)\<rparr>)
       (editor_run (edit_name s) (map of_char (kbd_contents (d_kbd s)) @ ks) (d_ed s))"

definition change_dir :: "string \<Rightarrow> desktop \<Rightarrow> desktop option" where
  "change_dir path s = map_option (\<lambda>(r, fs). set_fs fs s) (fs_cd path (ed_fs (d_ed s)))"

definition open_in_editor :: "u8 list \<Rightarrow> desktop \<Rightarrow> (int \<times> desktop) option" where
  "open_in_editor ks s =
     Option.bind (leave_graphics s) (\<lambda>s.
     let saved = set_str (fs_cwd (ed_fs (d_ed s))) 96 in
     Option.bind (change_dir (cur_path s) s) (\<lambda>s.
     Option.bind (edit_file ks s) (\<lambda>s.
     Option.bind (change_dir saved s) (\<lambda>s.
     Option.bind (enter_graphics s) (\<lambda>s.
     Option.bind (init_gfx s) (\<lambda>(r, s).
       if r \<noteq> 0 then Some (-1, leave_vga s)
       else map_option (Pair 0)
              (reload_dir (bound_mouse (layout_taskbar (layout_icons (load_palette (set_screen s))))))))))))"

partial_function (option) kbc_wait :: "console \<Rightarrow> console option" where
  "kbc_wait c = (let r = inb 0x64 c in if fst r AND 0x02 \<noteq> 0 then kbc_wait (snd r) else Some (snd r))"

definition do_reboot :: "desktop \<Rightarrow> desktop option" where
  "do_reboot s =
     Option.bind (leave_graphics s) (\<lambda>s.
       map_option (\<lambda>c. s\<lparr>d_ed := (d_ed s)\<lparr>ed_con := outb 0x64 0xFE c\<rparr>\<rparr>) (kbc_wait (ed_con (d_ed s))))"

definition AC97_STARTUP :: int where "AC97_STARTUP = 0"
definition AC97_SHUTDOWN :: int where "AC97_SHUTDOWN = 1"

definition shutdown_panel :: "desktop \<Rightarrow> desktop" where
  "shutdown_panel s =
     (let bw = (if big s then 280 else 190); bh = (if big s then 64 else 50);
          bx = scr_w s div 2 - bw div 2; by = scr_h s div 2 - bh div 2;
          s = draw (gfx_fill_rect (bx + 4) (by + 4) bw bh COL_SHADOW) s;
          s = draw (gfx_fill_rect bx by bw bh COL_FACE) s;
          s = draw (gfx_rect bx by bw bh COL_BORDER) s;
          s = draw (gfx_fill_rect (bx + 1) (by + 1) (bw - 2) TITLE_H COL_TITLE) s;
          s = draw (gfx_text (bx + 6) (by + 2) ''PumpkinOS'' COL_TITLE_TEXT (-1)) s;
          msg = ''Shutting down...'';
          s = draw (gfx_text (bx + (bw - gfx_text_width msg) div 2) (by + TITLE_H + 12) msg COL_TEXT (-1)) s
      in draw gfx_present s)"

definition do_poweroff :: "desktop \<Rightarrow> desktop option" where
  "do_poweroff s =
     (let s = shutdown_panel s
      in Option.bind (ac97_play AC97_SHUTDOWN True (d_au s)) (\<lambda>au.
           map_option (\<lambda>s. s\<lparr>d_acpi := snd (acpi_poweroff (d_acpi s))\<rparr>) (leave_graphics (s\<lparr>d_au := au\<rparr>))))"

section \<open>The event loop\<close>

record lvars =
  l_x :: int
  l_y :: int
  l_cx :: int
  l_cy :: int
  l_cw :: int
  l_ch :: int
  prev_buttons :: u8
  last_seq :: u32
  last_clock :: rtc_time

datatype outcome = Running desktop lvars | Left desktop | Halted desktop

definition MOUSE_LEFT :: u8 where "MOUSE_LEFT = 0x01"

definition home_dir :: "desktop \<Rightarrow> desktop" where
  "home_dir s = s\<lparr>dir_depth := 1, dir_stack := (dir_stack s)[0 := fs_root_cluster], name_stack := (name_stack s)[0 := set_str ''/'' 13]\<rparr>"

definition lay_out :: "desktop \<Rightarrow> desktop" where
  "lay_out s = bound_mouse (windows_init (layout_taskbar (layout_icons (load_palette (s\<lparr>start_open := False, dragging := -1\<rparr>)))))"

definition first_scene :: "desktop \<Rightarrow> outcome option" where
  "first_scene s =
     (let cw = CUR_COLS * cur_scale s; ch = CUR_ROWS * cur_scale s;
          x = mouse_x (d_mouse s); y = mouse_y (d_mouse s);
          lseq = mouse_seq (d_mouse s) - 1;
          (t, s) = read_clock s;
          s = draw_cursor_fb x y (draw gfx_present (render_scene s))
      in map_option (\<lambda>au. Running (s\<lparr>d_au := au\<rparr>)
           \<lparr>l_x = x, l_y = y, l_cx = x, l_cy = y, l_cw = cw, l_ch = ch, prev_buttons = 0, last_seq = lseq, last_clock = t\<rparr>)
           (ac97_play AC97_STARTUP False (d_au s)))"

definition start_desktop :: "desktop \<Rightarrow> outcome option" where
  "start_desktop s =
     Option.bind (enter_graphics s) (\<lambda>s.
     Option.bind (init_gfx s) (\<lambda>(r, s).
       if r \<noteq> 0 then Some (Left (leave_vga s))
       else Option.bind (reload_dir (home_dir (set_screen s))) (\<lambda>s. first_scene (lay_out s))))"

text \<open>What a pass has to repaint: everything, the menu, or the rectangle of a dragged window.\<close>

type_synonym dirt = "bool \<times> bool \<times> (int \<times> int \<times> int \<times> int) option"

definition on_press :: "u8 list \<Rightarrow> desktop \<Rightarrow> lvars \<Rightarrow> (outcome + bool \<times> desktop \<times> lvars) option" where
  "on_press ks s l =
     Option.bind (handle_press (l_x l) (l_y l) s) (\<lambda>(a, s).
       case a of
         ACT_EXIT \<Rightarrow> map_option (\<lambda>s. Inl (Left s)) (leave_graphics s)
       | ACT_REBOOT \<Rightarrow> map_option (\<lambda>s. Inl (Halted s)) (do_reboot s)
       | ACT_POWEROFF \<Rightarrow> map_option (\<lambda>s. Inl (Halted s)) (do_poweroff s)
       | ACT_EDIT \<Rightarrow> map_option (\<lambda>(r, s).
           if r \<noteq> 0 then Inl (Left s)
           else Inr (True, s, l\<lparr>l_x := mouse_x (d_mouse s), l_y := mouse_y (d_mouse s), prev_buttons := 0, last_seq := mouse_seq (d_mouse s)\<rparr>))
           (open_in_editor ks s)
       | ACT_SCENE \<Rightarrow> Some (Inr (True, s, l))
       | ACT_NONE \<Rightarrow> Some (Inr (False, s, l)))"

definition on_drag :: "desktop \<Rightarrow> lvars \<Rightarrow> (int \<times> int \<times> int \<times> int) option \<times> desktop" where
  "on_drag s l =
     (let i = nat (dragging s); w = wins s ! i; ox = w_x w; oy = w_y w;
          nx = l_x l - grab_dx s; ny = l_y l - grab_dy s;
          nx = (if nx < - (w_w w - 48) then - (w_w w - 48) else nx);
          nx = (if nx > scr_w s - 48 then scr_w s - 48 else nx);
          ny = (if ny < 0 then 0 else ny);
          ny = (if ny > scr_h s - TB_H - TITLE_H then scr_h s - TB_H - TITLE_H else ny)
      in if nx \<noteq> ox \<or> ny \<noteq> oy
         then let lo_x = (if ox < nx then ox else nx) - 1; lo_y = (if oy < ny then oy else ny) - 1;
                  hi_x = (if ox > nx then ox else nx) + w_w w + 6; hi_y = (if oy > ny then oy else ny) + w_h w + 6
              in (Some (lo_x, lo_y, hi_x - lo_x, hi_y - lo_y), on_win i (\<lambda>w. w\<lparr>w_x := nx, w_y := ny\<rparr>) s)
         else (None, s))"

definition on_hover :: "desktop \<Rightarrow> lvars \<Rightarrow> bool \<times> desktop" where
  "on_hover s l =
     (if start_open s
      then let hv = menu_item_at (l_x l) (l_y l) s in if hv \<noteq> start_hover s then (True, s\<lparr>start_hover := hv\<rparr>) else (False, s)
      else (False, s))"

definition on_mouse :: "u8 list \<Rightarrow> desktop \<Rightarrow> lvars \<Rightarrow> (outcome + dirt \<times> desktop \<times> lvars) option" where
  "on_mouse ks s l =
     (if mouse_seq (d_mouse s) = last_seq l then Some (Inr ((False, False, None), s, l))
      else let l = l\<lparr>last_seq := mouse_seq (d_mouse s), l_x := mouse_x (d_mouse s), l_y := mouse_y (d_mouse s)\<rparr>;
               btn = mouse_buttons (d_mouse s);
               left = (btn AND MOUSE_LEFT \<noteq> 0);
               was_left = (prev_buttons l AND MOUSE_LEFT \<noteq> 0)
      in Option.bind
           (if left \<and> \<not> was_left then on_press ks s l
            else if \<not> left \<and> was_left then Some (Inr (False, s\<lparr>dragging := -1\<rparr>, l))
            else Some (Inr (False, s, l)))
           (\<lambda>r. Some (case r of
              Inl out \<Rightarrow> Inl out
            | Inr (full, s, l) \<Rightarrow>
                let (dirty, s) = (if dragging s \<ge> 0 \<and> left then on_drag s l else (None, s));
                    (menu, s) = on_hover s l
                in Inr ((full, menu, dirty), s, l\<lparr>prev_buttons := btn\<rparr>))))"

definition repaint :: "dirt \<Rightarrow> bool \<Rightarrow> desktop \<Rightarrow> lvars \<Rightarrow> desktop \<times> lvars" where
  "repaint d taskbar s l =
     (case d of (full, menu, dirty) \<Rightarrow>
        let cw = l_cw l; ch = l_ch l
        in if full
           then (draw_cursor_fb (l_x l) (l_y l) (draw gfx_present (render_scene s)), l\<lparr>l_cx := l_x l, l_cy := l_y l\<rparr>)
           else let s = (case dirty of
                     Some (x, y, w, h) \<Rightarrow> draw (gfx_present_rect x y w h) (render_scene s)
                   | None \<Rightarrow>
                       if taskbar \<or> menu
                       then let s = render_scene s;
                                s = (if taskbar
                                     then let s = draw (gfx_present_rect 0 (scr_h s - TB_H) (scr_w s) TB_H) s
                                          in if l_cy l + ch > scr_h s - TB_H then draw_cursor_fb (l_cx l) (l_cy l) s else s
                                     else s)
                            in if menu then draw (gfx_present_rect (mnu_x s) (mnu_y s) (mnu_w s + 3) (mnu_h s + 3)) s else s
                       else s)
                in if dirty \<noteq> None \<or> l_x l \<noteq> l_cx l \<or> l_y l \<noteq> l_cy l
                   then (draw_cursor_fb (l_x l) (l_y l) (draw (gfx_present_rect (l_cx l) (l_cy l) cw ch) s), l\<lparr>l_cx := l_x l, l_cy := l_y l\<rparr>)
                   else (s, l))"

definition on_clock :: "desktop \<Rightarrow> lvars \<Rightarrow> bool \<times> desktop \<times> lvars" where
  "on_clock s l =
     (let (now, s) = read_clock s
      in if second now \<noteq> second (last_clock l) then (True, s, l\<lparr>last_clock := now\<rparr>) else (False, s, l))"

definition desktop_pass :: "u8 list \<Rightarrow> desktop \<Rightarrow> lvars \<Rightarrow> outcome option" where
  "desktop_pass ks s l =
     (let (esc, s) = (if keyboard_haschar (d_kbd s)
                      then let (c, k) = take_char (d_kbd s) in (c = CHR 0x1B, s\<lparr>d_kbd := k\<rparr>) else (False, s))
      in if esc then map_option Left (leave_graphics s)
         else Option.bind (on_mouse ks s l) (\<lambda>r. Some (case r of
                Inl out \<Rightarrow> out
              | Inr (d, s, l) \<Rightarrow>
                  let (taskbar, s, l) = on_clock s l; (s, l) = repaint d taskbar s l in Running s l)))"

text \<open>The interrupts of one \<open>hlt\<close>.\<close>

record tick =
  t_scans :: "u8 list"
  t_bytes :: "u8 list"
  t_typed :: "u8 list"

definition wake :: "tick \<Rightarrow> desktop \<Rightarrow> desktop" where
  "wake t s = s\<lparr>d_kbd := fold key_event (t_scans t) (d_kbd s), d_mouse := fold feed (t_bytes t) (d_mouse s)\<rparr>"

fun desktop_loop :: "tick list \<Rightarrow> desktop \<Rightarrow> lvars \<Rightarrow> outcome option" where
  "desktop_loop [] s l = Some (Running s l)"
| "desktop_loop (t # ts) s l =
     Option.bind (desktop_pass (t_typed t) s l) (\<lambda>out.
       case out of Running s l \<Rightarrow> desktop_loop ts (wake t s) l | _ \<Rightarrow> Some out)"

definition desktop_run :: "tick list \<Rightarrow> desktop \<Rightarrow> outcome option" where
  "desktop_run ts s =
     Option.bind (start_desktop s) (\<lambda>out. case out of Running s l \<Rightarrow> desktop_loop ts s l | _ \<Rightarrow> Some out)"

section \<open>Drawing stays inside the back buffer\<close>

definition gpaints :: "(gfx \<Rightarrow> gfx) \<Rightarrow> bool" where
  "gpaints F \<longleftrightarrow> (\<forall>g. buffer_ok g \<longrightarrow> (\<exists>f. paints g f (F g)))"

named_theorems scenic_rules \<open>what only draws\<close>

lemma gpaintsI: "(\<And>g. buffer_ok g \<Longrightarrow> paints g (f g) (F g)) \<Longrightarrow> gpaints F"
  unfolding gpaints_def by blast

lemma gpaints_ops [scenic_rules]:
  "gpaints (gfx_fill_rect x y w h c)" "gpaints (gfx_hline x y w c)" "gpaints (gfx_rect x y w h c)" "gpaints (gfx_clear c)"
  "gpaints (gfx_char x y ch fg bg)" "gpaints (gfx_text x y cs fg bg)"
proof -
  show "gpaints (gfx_fill_rect x y w h c)" by (rule gpaintsI) (rule paints_fill_rect)
  show "gpaints (gfx_hline x y w c)" by (rule gpaintsI) (simp only: gfx_hline_def, rule paints_fill_rect)
  show "gpaints (gfx_rect x y w h c)" by (rule gpaintsI) (rule paints_rect)
  show "gpaints (gfx_clear c)" by (rule gpaintsI) (rule paints_clear)
  show "gpaints (gfx_char x y ch fg bg)" by (rule gpaintsI) (rule paints_char)
  show "gpaints (gfx_text x y cs fg bg)" by (rule gpaintsI) (rule paints_text)
qed

lemma gpaints_fold [scenic_rules]:
  assumes "\<And>x. gpaints (F x)" shows "gpaints (fold F xs)"
proof (induction xs)
  case Nil
  show ?case by (rule gpaintsI [where f = "\<lambda>_. Map.empty"]) simp
next
  case (Cons x xs)
  show ?case unfolding gpaints_def
  proof (intro allI impI)
    fix g assume ok: "buffer_ok g"
    obtain f where f: "paints g f (F x g)" using assms [of x] ok unfolding gpaints_def by blast
    then have "buffer_ok (F x g)" using ok by simp
    then obtain h where "paints (F x g) h (fold F xs (F x g))" using Cons.IH unfolding gpaints_def by blast
    from paints_trans [OF f this] show "\<exists>f. paints g f (fold F (x # xs) g)" by auto
  qed
qed

text \<open>Only the picture and the number of clock readings differ.\<close>

definition scenic :: "desktop \<Rightarrow> desktop \<Rightarrow> bool" where
  "scenic s t \<longleftrightarrow> t = s\<lparr>d_gfx := d_gfx t, d_reads := d_reads t\<rparr> \<and> (buffer_ok (d_gfx s) \<longrightarrow> (\<exists>f. paints (d_gfx s) f (d_gfx t)))"

lemma scenic_refl [scenic_rules]: "scenic s s"
  by (auto simp: scenic_def intro!: exI [of _ Map.empty])

lemma scenic_trans:
  assumes st: "scenic s t" and tu: "scenic t u" shows "scenic s u"
proof -
  have t: "t = s\<lparr>d_gfx := d_gfx t, d_reads := d_reads t\<rparr>" and u: "u = t\<lparr>d_gfx := d_gfx u, d_reads := d_reads u\<rparr>"
    using st tu by (simp_all only: scenic_def)
  have "u = s\<lparr>d_gfx := d_gfx u, d_reads := d_reads u\<rparr>" by (subst u, subst t) simp
  moreover have "\<exists>f. paints (d_gfx s) f (d_gfx u)" if "buffer_ok (d_gfx s)"
  proof -
    obtain f where f: "paints (d_gfx s) f (d_gfx t)" using st \<open>buffer_ok (d_gfx s)\<close> by (auto simp: scenic_def)
    then have "buffer_ok (d_gfx t)" using \<open>buffer_ok (d_gfx s)\<close> by simp
    then show ?thesis using tu paints_trans [OF f] by (auto simp: scenic_def)
  qed
  ultimately show ?thesis unfolding scenic_def by blast
qed

lemma scenic_draw [scenic_rules]: "scenic s t \<Longrightarrow> gpaints F \<Longrightarrow> scenic s (draw F t)"
  by (rule scenic_trans, assumption) (simp add: scenic_def draw_def gpaints_def)

lemma scenic_if [scenic_rules]: "scenic s t \<Longrightarrow> scenic s u \<Longrightarrow> scenic s (if c then t else u)"
  by simp

lemma scenic_clock [scenic_rules]: "scenic s t \<Longrightarrow> scenic s (snd (read_clock t))"
  by (rule scenic_trans, assumption) (auto simp: scenic_def read_clock_def intro!: exI [of _ Map.empty])

lemma scenic_fold:
  assumes "\<And>x s. scenic s (F x s)" shows "scenic s (fold F xs s)"
  by (induction xs arbitrary: s) (auto intro: scenic_refl scenic_trans [OF assms])

lemma scenic_folder: "scenic s (draw_folder gx gy up s)"
  unfolding draw_folder_def Let_def by (intro scenic_rules)

lemma scenic_page: "scenic s (draw_page gx gy s)"
  unfolding draw_page_def Let_def by (intro scenic_rules)

lemma scenic_slot: "scenic s (draw_slot slot name isd up s)"
proof -
  define a where "a = (if slot = sel_slot s then draw (gfx_fill_rect (fst (icon_pos slot s) + 2) (snd (icon_pos slot s)) (cellw s - 4) (cellh s - 2) COL_SELECT) s else s)"
  have 1: "scenic s a" unfolding a_def by (intro scenic_rules)
  have 2: "scenic a (if isd \<or> up then draw_folder x y up a else draw_page x y a)" for x y
    by (intro scenic_if scenic_folder scenic_page)
  show ?thesis unfolding draw_slot_def Let_def case_prod_beta a_def [symmetric]
    by (intro scenic_draw scenic_trans [OF 1 2] gpaints_ops)
qed

lemma scenic_icons: "scenic s (draw_icons s)"
  unfolding draw_icons_def Let_def
  by (rule scenic_trans [OF _ scenic_fold [OF scenic_slot]]) (intro scenic_if scenic_slot scenic_refl)

lemma scenic_window: "scenic s (draw_window win active s)"
  unfolding draw_window_def Let_def by (intro scenic_rules)

lemma scenic_taskbar: "scenic s (draw_taskbar s)"
  unfolding draw_taskbar_def Let_def case_prod_beta by (intro scenic_rules)

lemma scenic_menu_item: "scenic s (draw_menu_item i s)"
  unfolding draw_menu_item_def Let_def by (intro scenic_rules)

lemma scenic_menu: "scenic s (draw_start_menu s)"
  unfolding draw_start_menu_def Let_def
  by (intro scenic_if scenic_refl scenic_trans [OF _ scenic_fold [OF scenic_menu_item]] scenic_draw gpaints_ops)

lemma scenic_render: "scenic s (render_scene s)"
  unfolding render_scene_def Let_def
  by (rule scenic_trans [OF _ scenic_menu], rule scenic_trans [OF _ scenic_taskbar], rule scenic_trans [OF _ scenic_fold],
      rule scenic_trans [OF _ scenic_icons], intro scenic_draw scenic_refl gpaints_ops)
    (intro scenic_if scenic_window scenic_refl)

lemma scenic_frame:
  assumes "scenic s t"
  shows "wins t = wins s" "zorder t = zorder s" "entries t = entries s" "sel_slot t = sel_slot s" "dir_stack t = dir_stack s"
    "name_stack t = name_stack s" "dir_depth t = dir_depth s" "dragging t = dragging s" "start_hover t = start_hover s"
    "start_open t = start_open s" "scr_w t = scr_w s" "scr_h t = scr_h s" "d_mouse t = d_mouse s" "cellw t = cellw s" "cellh t = cellh s"
    "icon_cols t = icon_cols s" "d_ed t = d_ed s" "d_kbd t = d_kbd s" "cur_scale t = cur_scale s" "mnu_ih t = mnu_ih s" "cur_path t = cur_path s"
proof -
  have t: "t = s\<lparr>d_gfx := d_gfx t, d_reads := d_reads t\<rparr>" using assms by (simp only: scenic_def)
  show "wins t = wins s" "zorder t = zorder s" "entries t = entries s" "sel_slot t = sel_slot s" "dir_stack t = dir_stack s"
    "name_stack t = name_stack s" "dir_depth t = dir_depth s" "dragging t = dragging s" "start_hover t = start_hover s"
    "start_open t = start_open s" "scr_w t = scr_w s" "scr_h t = scr_h s" "d_mouse t = d_mouse s" "cellw t = cellw s" "cellh t = cellh s"
    "icon_cols t = icon_cols s" "d_ed t = d_ed s" "d_kbd t = d_kbd s" "cur_scale t = cur_scale s" "mnu_ih t = mnu_ih s" "cur_path t = cur_path s"
    by (subst t, simp)+
qed

section \<open>Icons\<close>

definition in_cell :: "int \<Rightarrow> int \<Rightarrow> int \<Rightarrow> desktop \<Rightarrow> bool" where
  "in_cell k px py s \<longleftrightarrow> (let (ix, iy) = icon_pos k s in px \<ge> ix \<and> px < ix + cellw s \<and> py \<ge> iy \<and> py < iy + cellh s)"

lemma cell_index:
  fixes c :: int
  assumes "0 < c" "p + a * c \<le> x" "x < p + a * c + c" shows "(x - p) div c = a"
proof -
  have "x - p = a * c + (x - p - a * c)" by simp
  moreover have "0 \<le> x - p - a * c" "x - p - a * c < c" using assms by simp_all
  ultimately show ?thesis using assms(1) by (metis div_pos_pos_trivial div_mult_self3 add_0_right less_irrefl mult.commute add.commute)
qed

lemma in_cell_index:
  assumes "0 < cellw s" "0 < cellh s" "in_cell k px py s"
  shows "k = (py - icon_pad s) div cellh s * icon_cols s + (px - icon_pad s) div cellw s"
proof -
  have "(px - icon_pad s) div cellw s = k mod icon_cols s" "(py - icon_pad s) div cellh s = k div icon_cols s"
    using assms by (auto simp: in_cell_def icon_pos_def intro!: cell_index)
  then show ?thesis by simp
qed

lemma slot_from_hit:
  assumes cw: "0 < cellw s" "0 < cellh s" and k: "in_cell k px py s"
  shows "j \<le> k \<Longrightarrow> k < j + int n \<Longrightarrow> slot_from n j px py s = k"
proof (induction n arbitrary: j)
  case (Suc n)
  have e: "slot_from (Suc n) j px py s = (if in_cell j px py s then j else slot_from n (j + 1) px py s)"
    by (simp add: in_cell_def case_prod_beta)
  show ?case
  proof (cases "in_cell j px py s")
    case True
    then have "j = k" using in_cell_index [OF cw True] in_cell_index [OF cw k] by simp
    then show ?thesis using True e by simp
  next
    case False
    then have "j \<noteq> k" using k by auto
    then show ?thesis using False e Suc.IH [of "j + 1"] Suc.prems by simp
  qed
qed simp

lemma slot_from_none: "(\<And>k. j \<le> k \<Longrightarrow> k < j + int n \<Longrightarrow> \<not> in_cell k px py s) \<Longrightarrow> slot_from n j px py s = -1"
proof (induction n arbitrary: j)
  case (Suc n)
  have "slot_from (Suc n) j px py s = (if in_cell j px py s then j else slot_from n (j + 1) px py s)"
    by (simp add: in_cell_def case_prod_beta)
  then show ?case using Suc.prems [of j] Suc.IH [of "j + 1"] Suc.prems by simp
qed simp

lemma slot_at_range: "-1 \<le> slot_at px py s \<and> slot_at px py s < base_slot s + int (length (entries s)) \<or> slot_at px py s = -1"
proof -
  have "slot_from n j px py s = -1 \<or> j \<le> slot_from n j px py s \<and> slot_from n j px py s < j + int n" for n j
  proof (induction n arbitrary: j)
    case (Suc n)
    have e: "slot_from (Suc n) j px py s = (if in_cell j px py s then j else slot_from n (j + 1) px py s)"
      by (simp add: in_cell_def case_prod_beta)
    then show ?case using Suc [of "j + 1"] unfolding e by auto
  qed simp
  from this [of "nat (base_slot s + int (length (entries s)))" 0] show ?thesis by (auto simp: slot_at_def base_slot_def)
qed

section \<open>The invariant\<close>

lemma raise_zorder: "zorder s \<in> {[0, 1], [1, 0]} \<Longrightarrow> idx < 2 \<Longrightarrow> zorder (raise_window idx s) = [1 - idx, idx]"
proof -
  assume z: "zorder s \<in> {[0, 1], [1, 0]}" and i: "idx < 2"
  then have "idx = 0 \<or> idx = 1" by auto
  then show ?thesis using z by (elim disjE insertE emptyE) (simp_all add: raise_window_def MAX_WIN_def numeral_2_eq_2)
qed

lemma ent_loop_acc:
  assumes "\<And>e sec a s st b u. f e sec a s = Some (st, b, u) \<Longrightarrow> P a \<Longrightarrow> P b"
  shows "ent_loop f es sec a s = Some (st, b, u) \<Longrightarrow> P a \<Longrightarrow> P b"
proof (induction es arbitrary: a s)
  case (Cons e es)
  from Cons.prems(1) obtain st1 c v where c: "f e sec a s = Some (st1, c, v)"
      "(if st1 then Some (True, c, v) else ent_loop f es sec c v) = Some (st, b, u)" by (auto simp: bind_eq_Some_conv)
  have "P c" by (rule assms [OF c(1) Cons.prems(2)])
  then show ?case using c(2) Cons.IH [of c v] by (cases st1) simp_all
qed simp

lemma dir_loop_acc:
  assumes f: "\<And>lba sec a s st b u. body lba sec a s = Some (st, b, u) \<Longrightarrow> P a \<Longrightarrow> P b"
    and w: "dir_loop dir body idx sec a s = Some y"
  shows "P a \<longrightarrow> P (fst (snd y))"
proof -
  have "B = body \<longrightarrow> P a \<longrightarrow> P (fst (snd y))" if "dir_loop dir B idx sec a s = Some y" for B
  proof (rule dir_loop.raw_induct [OF _ that])
    fix loop dir B idx sec a s y
    assume IH: "\<And>dir B idx sec a s y. loop dir B idx sec a s = Some y \<Longrightarrow> B = body \<longrightarrow> P a \<longrightarrow> P (fst (snd y))"
      and st: "(let lba = dir_sector_lba dir idx s
        in if lba = 0 then Some (No_sector, a, sec, s)
           else let rd = read_fs lba 1 sec s; sec1 = fst (snd rd); s1 = snd (snd rd)
           in if fst rd \<noteq> 0 then Some (Bad_read, a, sec1, s1)
              else Option.bind (B lba sec1 a s1) (\<lambda>(stop, a2, s2).
                     if stop then Some (Stopped, a2, sec1, s2) else loop dir B (idx + 1) sec1 a2 s2)) = Some y"
    show "B = body \<longrightarrow> P a \<longrightarrow> P (fst (snd y))"
    proof (intro impI)
      assume b: "B = body" and pa: "P a"
      consider "fst (snd y) = a"
        | lba sec1 s1 stop a2 s2 where "B lba sec1 a s1 = Some (stop, a2, s2)" "fst (snd y) = a2 \<or> loop dir B (idx + 1) sec1 a2 s2 = Some y"
        using st by (fastforce simp: Let_def bind_eq_Some_conv split: if_splits)
      then show "P (fst (snd y))"
      proof cases
        case 2
        then have "P a2" using f pa b by blast
        from 2(2) show ?thesis
        proof
          assume "loop dir B (idx + 1) sec1 a2 s2 = Some y"
          from IH [OF this] show ?thesis using b \<open>P a2\<close> by blast
        qed (use \<open>P a2\<close> in simp)
      qed (use pa in simp)
    qed
  qed
  then show ?thesis using w by blast
qed

lemma fs_readdir_bound:
  assumes r: "fs_readdir cl m s = Some (es, u)" and m: "0 \<le> m" shows "int (length es) \<le> m"
proof (cases "\<not> mounted s \<or> m \<le> 0")
  case True
  then show ?thesis using r m by (auto simp: fs_readdir_def)
next
  case False
  let ?P = "\<lambda>out :: fs_dirent list. int (length out) \<le> m"
  have e: "?P b" if "read_entry m lba e sec a s = Some (st, b, u)" "?P a" for lba e sec a s st b u
    using that by (auto simp: read_entry_def Let_def split: if_splits)
  have l: "?P b" if "ent_loop (read_entry m lba) [0..<16] sec a s = Some (st, b, u)" "?P a" for lba sec a s st b u
    by (rule ent_loop_acc [where P = ?P, OF e that])
  obtain x w v where d: "dir_loop cl (\<lambda>lba. ent_loop (read_entry m lba) [0..<16]) 0 (stale s 512) [] s = Some (x, es, w, v)"
    using r False by (auto simp: fs_readdir_def dir_walk_def)
  have "?P [] \<longrightarrow> ?P (fst (snd (x, es, w, v)))" by (rule dir_loop_acc [where P = ?P, OF l d])
  then show ?thesis using m by simp
qed

text \<open>
  \<open>frame_ok\<close>: two windows in some order, a stack of one to twelve directories, valid indices of the dragged window and the
  hovered item, a screen and a pointer on it. \<open>dir_ok\<close>: at most 32 icons, the selection one of them, the path in its buffer.
\<close>

definition frame_ok :: "desktop \<Rightarrow> bool" where
  "frame_ok s \<longleftrightarrow> length (wins s) = 2 \<and> zorder s \<in> {[0, 1], [1, 0]} \<and> 1 \<le> dir_depth s \<and> dir_depth s \<le> 12 \<and>
     length (dir_stack s) = 12 \<and> length (name_stack s) = 12 \<and> -1 \<le> dragging s \<and> dragging s < 2 \<and>
     -1 \<le> start_hover s \<and> start_hover s < 3 \<and> mnu_ih s = 22 \<and> 1 \<le> icon_cols s \<and> 0 < cellw s \<and> 0 < cellh s"

definition dir_ok :: "desktop \<Rightarrow> bool" where
  "dir_ok s \<longleftrightarrow> length (entries s) \<le> 32 \<and> -1 \<le> sel_slot s \<and> sel_slot s < base_slot s + int (length (entries s)) \<and>
     length (full_path s) < 80 \<and> cur_path s = full_path s"

definition pointer_ok :: "desktop \<Rightarrow> bool" where
  "pointer_ok s \<longleftrightarrow> 0 < scr_w s \<and> 0 < scr_h s \<and> mouse_ok (d_mouse s) \<and> bound_w (d_mouse s) = scr_w s \<and> bound_h (d_mouse s) = scr_h s"

definition desk_inv :: "desktop \<Rightarrow> bool" where
  "desk_inv s \<longleftrightarrow> frame_ok s \<and> dir_ok s \<and> pointer_ok s"

lemmas desk_defs = desk_inv_def frame_ok_def dir_ok_def pointer_ok_def base_slot_def full_path_def

lemma scenic_inv: "scenic s t \<Longrightarrow> desk_inv s \<Longrightarrow> desk_inv t"
  by (simp add: desk_defs scenic_frame)

lemma reload_dir_ok:
  assumes "reload_dir s = Some t"
  shows "dir_ok t" "frame_ok t = frame_ok s" "pointer_ok t = pointer_ok s"
proof -
  obtain es fs where r: "fs_readdir (dir_stack s ! (dir_depth s - 1)) MAX_ICONS (ed_fs (d_ed s)) = Some (es, fs)"
    and b: "build_path ((set_fs fs s)\<lparr>entries := es, sel_slot := -1\<rparr>) = Some t"
    using assms by (auto simp: reload_dir_def bind_eq_Some_conv)
  have l: "length es \<le> 32" using fs_readdir_bound [OF r] by (simp add: MAX_ICONS_def)
  show "dir_ok t" "frame_ok t = frame_ok s" "pointer_ok t = pointer_ok s"
    using b l by (auto simp: build_path_def set_fs_def desk_defs split: if_splits)
qed

lemma on_win_frame [simp]:
  "length (wins (on_win i f s)) = length (wins s)" "frame_ok (on_win i f s) = frame_ok s" "dir_ok (on_win i f s) = dir_ok s"
  "pointer_ok (on_win i f s) = pointer_ok s" "entries (on_win i f s) = entries s" "base_slot (on_win i f s) = base_slot s"
  by (simp_all add: on_win_def desk_defs)

lemma reload_dir_inv:
  assumes "reload_dir s = Some t" "frame_ok s" "pointer_ok s" shows "desk_inv t"
  using reload_dir_ok [OF assms(1)] assms(2, 3) by (simp add: desk_inv_def)

lemma enter_dir_ok:
  assumes e: "enter_dir ei s = Some t" and d: "desk_inv s" shows "desk_inv t"
proof (cases "dir_depth s \<ge> MAX_DEPTH")
  case True
  then show ?thesis using e d by (simp add: enter_dir_def)
next
  case False
  let ?u = "s\<lparr>dir_stack := (dir_stack s)[dir_depth s := d_cluster (entries s ! ei)],
      name_stack := (name_stack s)[dir_depth s := set_str (d_name (entries s ! ei)) 13], dir_depth := dir_depth s + 1\<rparr>"
  have "frame_ok ?u" "pointer_ok ?u" using d False by (auto simp: desk_inv_def frame_ok_def pointer_ok_def MAX_DEPTH_def)
  then show ?thesis using e False reload_dir_inv [of ?u t] by (simp add: enter_dir_def)
qed

lemma go_up_ok:
  assumes g: "go_up s = Some t" and d: "desk_inv s" shows "desk_inv t"
proof (cases "dir_depth s > 1")
  case True
  have "frame_ok (s\<lparr>dir_depth := dir_depth s - 1\<rparr>)" "pointer_ok (s\<lparr>dir_depth := dir_depth s - 1\<rparr>)"
    using d True by (auto simp: desk_inv_def frame_ok_def pointer_ok_def)
  then show ?thesis using g True reload_dir_inv [of "s\<lparr>dir_depth := dir_depth s - 1\<rparr>" t] by (simp add: go_up_def)
qed (use g d in \<open>simp add: go_up_def\<close>)

lemma raise_window_ok: "idx < 2 \<Longrightarrow> desk_inv s \<Longrightarrow> desk_inv (raise_window idx s)"
proof -
  assume i: "idx < 2" and d: "desk_inv s"
  have z: "zorder (raise_window idx s) = [1 - idx, idx]" using raise_zorder [of s idx] i d by (simp add: desk_inv_def frame_ok_def)
  have "idx = 0 \<or> idx = 1" using i by auto
  then have "[1 - idx, idx] \<in> {[0, 1], [1, 0]}" by auto
  then show ?thesis using d z by (auto simp: raise_window_def desk_defs Let_def)
qed

lemma hit_window_less: "zorder s \<in> {[0, 1], [1, 0]} \<Longrightarrow> n \<le> 2 \<Longrightarrow> hit_window n px py s = Some idx \<Longrightarrow> idx < 2"
proof (induction n)
  case (Suc n)
  have "zorder s ! n < 2" using Suc.prems(1, 2) by (cases n) auto
  then show ?case using Suc by (auto simp: Let_def split: if_splits)
qed simp

lemma press_window_ok: "idx < 2 \<Longrightarrow> desk_inv s \<Longrightarrow> desk_inv (press_window idx px py s)"
  using raise_window_ok [of idx s] by (auto simp: press_window_def Let_def desk_inv_def) (auto simp: desk_defs)

lemma press_none_ok: "press_none s = Some (a, t) \<Longrightarrow> desk_inv s \<Longrightarrow> desk_inv t"
  by (cases "sel_slot s = -1") (auto simp: press_none_def desk_inv_def frame_ok_def dir_ok_def pointer_ok_def base_slot_def full_path_def)

lemma press_icon_ok:
  assumes p: "press_icon slot s = Some (a, t)" and d: "desk_inv s" and sl: "0 \<le> slot" "slot < base_slot s + int (length (entries s))"
  shows "desk_inv t"
proof -
  let ?s = "on_win WIN_INFO (\<lambda>w. w\<lparr>w_open := False\<rparr>) s"
  have d1: "desk_inv ?s" using d by (simp add: desk_inv_def)
  have d2: "desk_inv (s\<lparr>sel_slot := slot\<rparr>)" using d sl by (simp add: desk_defs)
  have d3: "desk_inv (open_info i (s\<lparr>sel_slot := slot\<rparr>))" for i using d2 by (simp add: open_info_def Let_def desk_inv_def)
  let ?e = "entries s ! nat (slot - base_slot s)"
  show ?thesis
  proof (cases "base_slot s \<noteq> 0 \<and> slot = 0")
    case True
    then have "map_option (Pair ACT_SCENE) (go_up ?s) = Some (a, t)" using p by (simp add: press_icon_def Let_def)
    then show ?thesis using go_up_ok [OF _ d1] by blast
  next
    case up: False
    have in': "slot - base_slot s \<ge> 0 \<and> slot - base_slot s < int (length (entries s))" using up sl by (auto simp: base_slot_def split: if_splits)
    note q = p [unfolded press_icon_def Let_def if_not_P [OF up] if_P [OF in']]
    show ?thesis
    proof (cases "d_is_dir ?e")
      case True
      then have "map_option (Pair ACT_SCENE) (enter_dir (nat (slot - base_slot s)) ?s) = Some (a, t)" using q by simp
      then show ?thesis using enter_dir_ok [OF _ d1] by blast
    next
      case plain: False
      show ?thesis
      proof (cases "is_text_file (d_name ?e)")
        case True
        then have "t = s\<lparr>sel_slot := slot, edit_name := set_str (d_name ?e) 13\<rparr>" using q plain by simp
        then show ?thesis using d2 by (simp add: desk_defs)
      next
        case False
        then have "t = raise_window WIN_INFO (open_info (nat (slot - base_slot s)) (s\<lparr>sel_slot := slot\<rparr>))" using q plain by simp
        then show ?thesis using raise_window_ok [OF _ d3] by (simp add: WIN_INFO_def)
      qed
    qed
  qed
qed

lemma handle_press_ok:
  assumes p: "handle_press px py s = Some (a, t)" and d: "desk_inv s" shows "desk_inv t"
proof (cases "start_open s")
  case True
  then have "t = s\<lparr>start_open := False, start_hover := -1\<rparr>" using p by (simp add: handle_press_def Let_def)
  then show ?thesis using d by (simp add: desk_defs)
next
  case closed: False
  show ?thesis
  proof (cases "in_rect px py (sb_x s) (sb_y s) (sb_w s) (sb_h s)")
    case True
    then have "t = s\<lparr>start_open := True\<rparr>" using p closed by (simp add: handle_press_def)
    then show ?thesis using d by (simp add: desk_defs)
  next
    case False
    note q = p [unfolded handle_press_def if_not_P [OF closed] if_not_P [OF False] Let_def]
    have z: "zorder s \<in> {[0, 1], [1, 0]}" using d by (simp add: desk_inv_def frame_ok_def)
    show ?thesis
    proof (cases "hit_window MAX_WIN px py s")
      case (Some idx)
      have "idx < 2" by (rule hit_window_less [OF z _ Some]) (simp add: MAX_WIN_def)
      moreover have "t = press_window idx px py s" using q Some by simp
      ultimately show ?thesis using press_window_ok [OF _ d] by blast
    next
      case None
      show ?thesis
      proof (cases "slot_at px py s \<ge> 0")
        case True
        then have "press_icon (slot_at px py s) s = Some (a, t)" using q None by simp
        moreover have "slot_at px py s < base_slot s + int (length (entries s))" using slot_at_range [of px py s] True by linarith
        ultimately show ?thesis using press_icon_ok [OF _ d True] by blast
      next
        case ge: False
        then have "press_none s = Some (a, t)" using q None by simp
        then show ?thesis using d by (rule press_none_ok)
      qed
    qed
  qed
qed

lemma g_out_frame [simp]:
  "frame_ok (g_out g s) = frame_ok s" "dir_ok (g_out g s) = dir_ok s" "pointer_ok (g_out g s) = pointer_ok s" "d_gfx (g_out g s) = g"
  "desk_inv (g_out g s) = desk_inv s" "d_mouse (g_out g s) = d_mouse s"
  by (simp_all add: g_out_def set_fs_def desk_defs)

lemma leave_vga_frame [simp]:
  "frame_ok (leave_vga s) = frame_ok s" "dir_ok (leave_vga s) = dir_ok s" "pointer_ok (leave_vga s) = pointer_ok s"
  "desk_inv (leave_vga s) = desk_inv s"
  by (simp_all add: leave_vga_def Let_def desk_defs)

lemma leave_graphics_inv: "leave_graphics s = Some t \<Longrightarrow> desk_inv t = desk_inv s"
  by (auto simp: leave_graphics_def)

lemma desk_inv_upd [simp]:
  "desk_inv (set_fs fs s) = desk_inv s" "desk_inv (s\<lparr>d_ed := e, d_kbd := k\<rparr>) = desk_inv s" "desk_inv (s\<lparr>d_kbd := k\<rparr>) = desk_inv s"
  "desk_inv (s\<lparr>d_ed := e\<rparr>) = desk_inv s"
  "desk_inv (s\<lparr>d_au := au\<rparr>) = desk_inv s" "desk_inv (s\<lparr>d_reads := n\<rparr>) = desk_inv s" "desk_inv (draw F s) = desk_inv s"
  by (simp_all add: set_fs_def draw_def desk_defs)

lemma change_dir_inv: "change_dir p s = Some t \<Longrightarrow> desk_inv t = desk_inv s"
  by (auto simp: change_dir_def)

lemma edit_file_inv: "edit_file ks s = Some t \<Longrightarrow> desk_inv t = desk_inv s"
  by (auto simp: edit_file_def)

lemma mode_ok_pg: "mode_ok (v\<lparr>v_pg := pg\<rparr>) = mode_ok v"
  by (simp add: mode_ok_def)

lemma enter_graphics_mode:
  assumes "enter_graphics s = Some t"
  shows "mode_ok (gvga (d_gfx t))" "frame_ok t = frame_ok s" "dir_ok t = dir_ok s" "d_mouse t = d_mouse s" "desk_inv t = desk_inv s"
proof -
  obtain v where v: "vga_enter_graphics (gvga (g_in s)) = Some v" "t = g_out ((g_in s)\<lparr>gvga := v\<rparr>) s"
    using assms by (auto simp: enter_graphics_def)
  obtain v' where "vga_enter_graphics (gvga (g_in s)) = Some v'" "mode_ok v'" by (rule enter_returns)
  then show "mode_ok (gvga (d_gfx t))" using v by simp
  show "frame_ok t = frame_ok s" "dir_ok t = dir_ok s" "d_mouse t = d_mouse s" "desk_inv t = desk_inv s" using v(2) by simp_all
qed

lemma init_gfx_size:
  assumes i: "init_gfx s = Some (r, t)" and m: "mode_ok (gvga (d_gfx s))"
  shows "0 < gw (d_gfx t)" "0 < gh (d_gfx t)" "frame_ok t = frame_ok s" "dir_ok t = dir_ok s" "d_mouse t = d_mouse s"
proof -
  obtain g where g: "gfx_init (g_in s) = Some (r, g)" "t = g_out g s" using i by (auto simp: init_gfx_def)
  have "mode_ok (gvga (g_in s))" using m by (simp add: g_in_def set_heap_def mode_ok_pg)
  note d = mode_ok_size [OF this]
  have "gw g = int (g_width (gvga (g_in s)))" "gh g = int (g_height (gvga (g_in s)))"
    using g(1) by (auto simp: gfx_init_def Let_def vga_width_def vga_height_def)
  then show "0 < gw (d_gfx t)" "0 < gh (d_gfx t)" using d g(2) by simp_all
  show "frame_ok t = frame_ok s" "dir_ok t = dir_ok s" "d_mouse t = d_mouse s" using g(2) by simp_all
qed

definition relayout :: "desktop \<Rightarrow> desktop" where
  "relayout s = bound_mouse (layout_taskbar (layout_icons (load_palette s)))"

lemma relayout_ok:
  assumes "mouse_ok (d_mouse s)" "0 < scr_w s" "0 < scr_h s"
  shows "pointer_ok (relayout s)"
    and "frame_ok (s\<lparr>mnu_ih := 22, icon_cols := 1, cellw := 1, cellh := 1\<rparr>) \<Longrightarrow> frame_ok (relayout s)"
    and "dir_ok (relayout s) = dir_ok s"
  using assms
  by (simp_all add: relayout_def bound_mouse_def layout_taskbar_def layout_icons_def load_palette_def draw_def Let_def desk_defs
      FONT_H_def mouse_set_bounds_def mouse_ok_def) linarith

lemma open_in_editor_ok:
  assumes o: "open_in_editor ks s = Some (0, t)" and d: "desk_inv s" shows "desk_inv t"
proof -
  obtain a b c e f r g where st: "leave_graphics s = Some a" "change_dir (cur_path a) a = Some b" "edit_file ks b = Some c"
      "change_dir (set_str (fs_cwd (ed_fs (d_ed a))) 96) c = Some e" "enter_graphics e = Some f" "init_gfx f = Some (r, g)"
      "(if r \<noteq> 0 then Some (-1 :: int, leave_vga g) else map_option (Pair 0) (reload_dir (relayout (set_screen g)))) = Some (0, t)"
    using o [unfolded open_in_editor_def Let_def bind_eq_Some_conv split_paired_Ex prod.case, folded relayout_def]
    by (elim exE conjE) (rule that)
  have dd: "desk_inv f" using d leave_graphics_inv [OF st(1)] change_dir_inv [OF st(2)] edit_file_inv [OF st(3)] change_dir_inv [OF st(4)]
      enter_graphics_mode(5) [OF st(5)] by simp
  note g = init_gfx_size [OF st(6) enter_graphics_mode(1) [OF st(5)]]
  have rl: "reload_dir (relayout (set_screen g)) = Some t" using st(7) by (auto split: if_splits)
  let ?u = "set_screen g"
  have u: "0 < scr_w ?u" "0 < scr_h ?u" "mouse_ok (d_mouse ?u)"
    using g dd by (simp_all add: set_screen_def Let_def gfx_width_def gfx_height_def desk_inv_def pointer_ok_def)
  have "frame_ok g" using g(3) dd by (simp add: desk_inv_def)
  then have fr: "frame_ok (?u\<lparr>mnu_ih := 22, icon_cols := 1, cellw := 1, cellh := 1\<rparr>)"
    by (simp add: frame_ok_def set_screen_def Let_def)
  show ?thesis by (rule reload_dir_inv [OF rl]) (use relayout_ok [OF u(3, 1, 2)] fr in auto)
qed

lemma menu_item_range: "mnu_ih s = 22 \<Longrightarrow> -1 \<le> menu_item_at px py s \<and> menu_item_at px py s < 3"
  by (auto simp: menu_item_at_def)

lemma on_hover_ok: "desk_inv s \<Longrightarrow> desk_inv (snd (on_hover s l))"
proof -
  assume d: "desk_inv s"
  have "-1 \<le> menu_item_at (l_x l) (l_y l) s" "menu_item_at (l_x l) (l_y l) s < 3"
    using menu_item_range [of s] d by (simp_all add: desk_inv_def frame_ok_def)
  then have "desk_inv (s\<lparr>start_hover := menu_item_at (l_x l) (l_y l) s\<rparr>)" using d by (simp add: desk_defs)
  then show ?thesis using d by (simp add: on_hover_def Let_def)
qed

lemma on_drag_ok: "desk_inv s \<Longrightarrow> desk_inv (snd (on_drag s l))"
proof -
  assume "desk_inv s"
  then have "desk_inv (on_win i f s)" for i f by (simp add: desk_inv_def)
  then show ?thesis using \<open>desk_inv s\<close> by (simp add: on_drag_def Let_def)
qed

lemma cursor_inv [simp]: "desk_inv (draw_cursor_fb x y s) = desk_inv s"
  by (simp add: draw_cursor_fb_def)

lemma render_inv [simp]: "desk_inv s \<Longrightarrow> desk_inv (render_scene s)"
  by (rule scenic_inv [OF scenic_render])

lemma repaint_ok: "desk_inv s \<Longrightarrow> desk_inv (fst (repaint d tb s l))"
  by (cases d) (simp add: repaint_def Let_def split: option.splits)

lemma on_clock_ok: "desk_inv s \<Longrightarrow> desk_inv (fst (snd (on_clock s l)))"
  by (simp add: on_clock_def read_clock_def Let_def)

definition running_ok :: "outcome \<Rightarrow> bool" where
  "running_ok r \<longleftrightarrow> (case r of Running s l \<Rightarrow> desk_inv s | _ \<Rightarrow> True)"

lemma on_press_ok:
  assumes p: "on_press ks s l = Some r" and d: "desk_inv s"
  shows "case r of Inl out \<Rightarrow> running_ok out | Inr (full, t, l') \<Rightarrow> desk_inv t"
proof -
  obtain a u where h: "handle_press (l_x l) (l_y l) s = Some (a, u)" using p by (auto simp: on_press_def bind_eq_Some_conv)
  have u: "desk_inv u" by (rule handle_press_ok [OF h d])
  show ?thesis
  proof (cases a)
    case ACT_EDIT
    obtain q v where o: "open_in_editor ks u = Some (q, v)" using p by (auto simp: on_press_def h ACT_EDIT)
    show ?thesis using p o u open_in_editor_ok [of ks u v] by (cases "q = 0") (auto simp: on_press_def h ACT_EDIT running_ok_def)
  qed (use p u in \<open>auto simp: on_press_def h running_ok_def\<close>)
qed

lemma on_mouse_ok:
  assumes p: "on_mouse ks s l = Some r" and d: "desk_inv s"
  shows "case r of Inl out \<Rightarrow> running_ok out | Inr (dirt, t, l') \<Rightarrow> desk_inv t"
proof (cases "mouse_seq (d_mouse s) = last_seq l")
  case True
  then show ?thesis using p d by (auto simp: on_mouse_def)
next
  case False
  let ?l = "l\<lparr>last_seq := mouse_seq (d_mouse s), l_x := mouse_x (d_mouse s), l_y := mouse_y (d_mouse s)\<rparr>"
  define left where "left = (mouse_buttons (d_mouse s) AND MOUSE_LEFT \<noteq> 0)"
  define was where "was = (prev_buttons l AND MOUSE_LEFT \<noteq> 0)"
  define q0 where "q0 = (if left \<and> \<not> was then on_press ks s ?l
      else if \<not> left \<and> was then Some (Inr (False, s\<lparr>dragging := -1\<rparr>, ?l)) else Some (Inr (False, s, ?l)))"
  define btn where "btn = mouse_buttons (d_mouse s)"
  define after where "after = (\<lambda>(full, s, l). let (dirty, s) = (if dragging s \<ge> 0 \<and> left then on_drag s l else (None, s)); (menu, s) = on_hover s l
         in Inr ((full, menu, dirty), s, l\<lparr>prev_buttons := btn\<rparr>) :: outcome + dirt \<times> desktop \<times> lvars)"
  have e: "on_mouse ks s l = Option.bind q0 (\<lambda>r. Some (case r of Inl out \<Rightarrow> Inl out | Inr x \<Rightarrow> after x))"
    unfolding on_mouse_def if_not_P [OF False] Let_def q0_def left_def was_def after_def btn_def by (simp add: case_prod_beta)
  obtain q where q: "q0 = Some q" and r: "r = (case q of Inl out \<Rightarrow> Inl out | Inr x \<Rightarrow> after x)"
    using p unfolding e bind_eq_Some_conv by blast
  have d1: "desk_inv (s\<lparr>dragging := -1\<rparr>)" using d by (simp add: desk_defs)
  have qo: "case q of Inl out \<Rightarrow> running_ok out | Inr (full, t, l') \<Rightarrow> desk_inv t"
  proof (cases "left \<and> \<not> was")
    case True
    then have "on_press ks s ?l = Some q" using q by (simp add: q0_def)
    then show ?thesis using d by (rule on_press_ok)
  next
    case False
    then show ?thesis using q d d1 by (cases "\<not> left \<and> was") (auto simp: q0_def)
  qed
  show ?thesis
  proof (cases q)
    case (Inl out)
    then show ?thesis using qo r by simp
  next
    case (Inr x)
    obtain full t l' where x: "x = (full, t, l')" by (metis prod_cases3)
    have t: "desk_inv t" using qo Inr x by simp
    define t1 where "t1 = snd (if dragging t \<ge> 0 \<and> left then on_drag t l' else (None, t))"
    have "desk_inv t1" using t on_drag_ok [OF t] by (simp add: t1_def)
    then have "desk_inv (snd (on_hover t1 l'))" by (rule on_hover_ok)
    then show ?thesis using r Inr x by (simp add: after_def Let_def case_prod_beta t1_def cong: if_cong)
  qed
qed

lemma desktop_pass_ok:
  assumes p: "desktop_pass ks s l = Some r" and d: "desk_inv s" shows "running_ok r"
proof -
  define ek where "ek = (if keyboard_haschar (d_kbd s) then let (c, k) = take_char (d_kbd s) in (c = CHR 0x1B, s\<lparr>d_kbd := k\<rparr>) else (False, s))"
  have u: "desk_inv (snd ek)" using d by (simp add: ek_def Let_def case_prod_beta)
  have e: "desktop_pass ks s l = (if fst ek then map_option Left (leave_graphics (snd ek))
      else Option.bind (on_mouse ks (snd ek) l) (\<lambda>r. Some (case r of Inl out \<Rightarrow> out
        | Inr (d, s, l) \<Rightarrow> let (taskbar, s, l) = on_clock s l; (s, l) = repaint d taskbar s l in Running s l)))"
    unfolding desktop_pass_def Let_def ek_def case_prod_beta by (rule refl)
  show ?thesis
  proof (cases "fst ek")
    case True
    then show ?thesis using p by (auto simp: e running_ok_def)
  next
    case False
    obtain m where m: "on_mouse ks (snd ek) l = Some m"
      and r: "r = (case m of Inl out \<Rightarrow> out | Inr (d, s, l) \<Rightarrow> let (taskbar, s, l) = on_clock s l; (s, l) = repaint d taskbar s l in Running s l)"
      using p unfolding e if_not_P [OF False] bind_eq_Some_conv by blast
    note mo = on_mouse_ok [OF m u]
    show ?thesis
    proof (cases m)
      case (Inl out)
      then show ?thesis using mo r by simp
    next
      case (Inr x)
      obtain dd t l' where x: "x = (dd, t, l')" by (metis prod_cases3)
      have "desk_inv (fst (snd (on_clock t l')))" using mo Inr x by (intro on_clock_ok) simp
      from repaint_ok [OF this] show ?thesis using r Inr x by (simp add: Let_def case_prod_beta running_ok_def)
    qed
  qed
qed

lemma fold_feed_ok: "mouse_ok m \<Longrightarrow> mouse_ok (fold feed bs m) \<and> bound_w (fold feed bs m) = bound_w m \<and> bound_h (fold feed bs m) = bound_h m"
proof (induction bs arbitrary: m)
  case (Cons b bs)
  have "bound_w (feed b m) = bound_w m" "bound_h (feed b m) = bound_h m"
    by (simp_all add: feed_def move_def Let_def case_prod_beta)
  then show ?case using Cons.IH [OF feed_ok [OF Cons.prems]] by simp
qed simp

lemma wake_ok: "desk_inv s \<Longrightarrow> desk_inv (wake t s)"
  using fold_feed_ok [of "d_mouse s" "t_bytes t"] by (simp add: wake_def desk_defs)

lemma desktop_loop_ok: "desktop_loop ts s l = Some r \<Longrightarrow> desk_inv s \<Longrightarrow> running_ok r"
proof (induction ts arbitrary: s l)
  case Nil
  then show ?case by (auto simp: running_ok_def)
next
  case (Cons t ts)
  obtain q where q: "desktop_pass (t_typed t) s l = Some q" using Cons.prems(1) by (auto simp: bind_eq_Some_conv)
  have o: "running_ok q" by (rule desktop_pass_ok [OF q Cons.prems(2)])
  show ?case
  proof (cases q)
    case (Running u l')
    then have "desk_inv (wake t u)" using o wake_ok by (simp add: running_ok_def)
    moreover have "desktop_loop ts (wake t u) l' = Some r" using Cons.prems(1) by (simp add: q Running)
    ultimately show ?thesis using Cons.IH by blast
  qed (use Cons.prems(1) o in \<open>auto simp: q running_ok_def\<close>)
qed

text \<open>The start: the sizes of the static arrays and a working mouse driver are all that is needed.\<close>

definition statics_ok :: "desktop \<Rightarrow> bool" where
  "statics_ok s \<longleftrightarrow> length (wins s) = 2 \<and> length (dir_stack s) = 12 \<and> length (name_stack s) = 12 \<and> mouse_ok (d_mouse s) \<and>
     -1 \<le> start_hover s \<and> start_hover s < 3"

lemma statics_upd [simp]:
  "statics_ok (g_out g s) = statics_ok s" "statics_ok (set_screen s) = statics_ok s" "statics_ok (set_fs fs s) = statics_ok s"
  "statics_ok (s\<lparr>entries := es, sel_slot := k\<rparr>) = statics_ok s" "statics_ok (s\<lparr>cur_path := p\<rparr>) = statics_ok s"
  by (simp_all add: statics_ok_def g_out_def set_fs_def set_screen_def Let_def)

lemma reload_dir_keeps:
  assumes "reload_dir s = Some t"
  shows "statics_ok t = statics_ok s" "dir_depth t = dir_depth s" "scr_w t = scr_w s" "scr_h t = scr_h s"
  using assms by (auto simp: reload_dir_def build_path_def bind_eq_Some_conv split: if_splits) (auto simp: set_fs_def)

lemma lay_out_ok:
  assumes "statics_ok s" "1 \<le> dir_depth s" "dir_depth s \<le> 12" "0 < scr_w s" "0 < scr_h s" "dir_ok s"
  shows "desk_inv (lay_out s)"
  using assms
  by (simp add: lay_out_def windows_init_def on_win_def bound_mouse_def layout_taskbar_def layout_icons_def load_palette_def draw_def Let_def desk_defs
      statics_ok_def FONT_H_def mouse_set_bounds_def mouse_ok_def WIN_WELCOME_def WIN_INFO_def) linarith

lemma first_scene_ok: "first_scene s = Some (Running t l) \<Longrightarrow> desk_inv s \<Longrightarrow> desk_inv t"
  by (auto simp: first_scene_def Let_def read_clock_def)

text \<open>Started with arrays of the right sizes and a working mouse driver, the desktop is well formed when its loop begins.\<close>

theorem start_desktop_ok:
  assumes r: "start_desktop s = Some (Running t l)" and st: "statics_ok s" shows "desk_inv t"
proof -
  obtain f q g u where e: "enter_graphics s = Some f" "init_gfx f = Some (q, g)" and q: "q = 0"
    and u: "reload_dir (home_dir (set_screen g)) = Some u" "first_scene (lay_out u) = Some (Running t l)"
    using r by (auto simp: start_desktop_def bind_eq_Some_conv split: if_splits)
  note sz = init_gfx_size [OF e(2) enter_graphics_mode(1) [OF e(1)]]
  have "statics_ok g" using st e by (auto simp: enter_graphics_def init_gfx_def)
  then have "statics_ok (home_dir (set_screen g))" by (simp add: statics_ok_def home_dir_def set_screen_def Let_def)
  then have "dir_depth u = 1" "0 < scr_w u" "0 < scr_h u" "statics_ok u"
    using reload_dir_keeps [OF u(1)] sz by (simp_all add: home_dir_def set_screen_def Let_def gfx_width_def gfx_height_def)
  then have "desk_inv (lay_out u)" using reload_dir_ok(1) [OF u(1)] by (intro lay_out_ok) simp_all
  then show ?thesis by (rule first_scene_ok [OF u(2)])
qed

section \<open>Properties\<close>


text \<open>A desktop in mode 13h with a directory of two entries and both windows closed, the left button pressed; the rest of the machine is arbitrary.\<close>

definition closed_window :: window where
  "closed_window = \<lparr>w_x = 0, w_y = 0, w_w = 100, w_h = 50, w_open = False, w_title = [], w_body = replicate 5 [], w_nbody = 0\<rparr>"

definition sample_desk :: "desktop \<Rightarrow> desktop" where
  "sample_desk d = relayout (d\<lparr>d_gfx := gfx0, d_mouse := mouse_boot\<lparr>buttons := 1\<rparr>, d_kbd := kbd_boot, scr_w := 320, scr_h := 200, big := False, cur_scale := 1,
     wins := [closed_window, closed_window], zorder := [0, 1], dir_depth := 1, dir_stack := replicate 12 0, name_stack := replicate 12 [],
     entries := [\<lparr>d_name = ''DOCS'', d_is_dir = True, d_size = 0, d_cluster = 5\<rparr>, \<lparr>d_name = ''A.TXT'', d_is_dir = False, d_size = 3, d_cluster = 6\<rparr>],
     sel_slot := -1, cur_path := ''/'', dragging := -1, start_open := False, start_hover := -1\<rparr>)"

lemmas sample_desk_defs = sample_desk_def relayout_def bound_mouse_def layout_taskbar_def layout_icons_def load_palette_def draw_def Let_def

lemma sample_desk_ok: "desk_inv (sample_desk d)" "statics_ok (sample_desk d)"
  by (simp_all add: sample_desk_defs desk_defs statics_ok_def path_of_def FONT_H_def mouse_boot_def mouse_set_bounds_def mouse_ok_def)

lemma sample_press: "handle_press 160 100 (sample_desk d) = Some (ACT_NONE, sample_desk d)"
proof -
  have "slot_at 160 100 (sample_desk d) = -1"
    by (simp add: slot_at_def sample_desk_defs base_slot_def icon_pos_def numeral_2_eq_2)
  moreover have "hit_window MAX_WIN 160 100 (sample_desk d) = None"
    by (simp add: MAX_WIN_def numeral_2_eq_2 sample_desk_defs closed_window_def)
  moreover have "\<not> in_rect 160 100 (sb_x (sample_desk d)) (sb_y (sample_desk d)) (sb_w (sample_desk d)) (sb_h (sample_desk d))"
    by (simp add: in_rect_def sample_desk_defs)
  moreover have "\<not> start_open (sample_desk d)" "sel_slot (sample_desk d) = -1" by (simp_all add: sample_desk_defs)
  ultimately show ?thesis by (simp add: handle_press_def press_none_def Let_def)
qed


text \<open>
  C39. Clicks find the icon that is drawn under the pointer: \<open>slot_at\<close> gives \<open>k\<close> exactly when \<open>k\<close> is one of the slots shown and
  the point lies in the cell at \<open>icon_pos k\<close>, which no two slots share, and -1 exactly when the point is in none of them.
\<close>

theorem slot_at_exact:
  assumes "desk_inv s"
  shows "slot_at px py s = k \<longleftrightarrow>
     (if k = -1 then \<forall>j. 0 \<le> j \<and> j < base_slot s + int (length (entries s)) \<longrightarrow> \<not> in_cell j px py s
      else 0 \<le> k \<and> k < base_slot s + int (length (entries s)) \<and> in_cell k px py s)"
proof -
  let ?n = "base_slot s + int (length (entries s))"
  have c: "0 < cellw s" "0 < cellh s" using assms by (simp_all add: desk_inv_def frame_ok_def)
  have n: "int (nat ?n) = ?n" by (simp add: base_slot_def)
  have hit: "slot_at px py s = j" if "0 \<le> j" "j < ?n" "in_cell j px py s" for j
    unfolding slot_at_def by (rule slot_from_hit [OF c that(3)]) (use that n in simp_all)
  show ?thesis
  proof (cases "\<exists>j. 0 \<le> j \<and> j < ?n \<and> in_cell j px py s")
    case True
    then obtain j where j: "0 \<le> j" "j < ?n" "in_cell j px py s" by blast
    have "slot_at px py s = j" by (rule hit [OF j])
    then show ?thesis using j hit by auto
  next
    case False
    then have "slot_at px py s = -1" unfolding slot_at_def by (intro slot_from_none) (use n in auto)
    then show ?thesis using False by auto
  qed
qed

theorem slot_at_exact_witness: "\<forall>d. desk_inv (sample_desk d) \<and> slot_at 60 10 (sample_desk d) = 1"
proof
  fix d
  have "in_cell 1 60 10 (sample_desk d)" "base_slot (sample_desk d) = 0" "length (entries (sample_desk d)) = 2"
    by (simp_all add: in_cell_def icon_pos_def base_slot_def sample_desk_defs)
  then show "desk_inv (sample_desk d) \<and> slot_at 60 10 (sample_desk d) = 1"
    using slot_at_exact [OF sample_desk_ok(1), of 60 10 d 1] sample_desk_ok(1) by simp
qed

lemma set_palette_frame:
  "gw (gfx_set_palette i r g b s) = gw s" "gh (gfx_set_palette i r g b s) = gh s" "buf (gfx_set_palette i r g b s) = buf s"
  "gmem (gfx_set_palette i r g b s) = gmem s" "quiet (gvga s) (gvga (gfx_set_palette i r g b s))"
  by (simp_all add: gfx_set_palette_def Let_def quiet_palette)

lemma palette_frame:
  defines "f \<equiv> \<lambda>(i, r, g, b). gfx_set_palette i r g b"
  shows "gw (fold f ps s) = gw s \<and> gh (fold f ps s) = gh s \<and> buf (fold f ps s) = buf s \<and> quiet (gvga s) (gvga (fold f ps s))"
proof (induction ps arbitrary: s)
  case (Cons p ps)
  obtain i r g b where p: "p = (i, r, g, b)" by (metis prod_cases4)
  have fp: "f p s = gfx_set_palette i r g b s" by (simp add: f_def p)
  note ih = Cons.IH [of "f p s", unfolded fp set_palette_frame(1-3)]
  have "quiet (gvga s) (gvga (fold f ps (gfx_set_palette i r g b s)))" using ih quiet_chain [OF set_palette_frame(5)] by blast
  then show ?case using ih by (simp only: fold.simps comp_apply fp simp_thms)
qed simp



text \<open>
  A dragged window can always be caught again: 48 columns of it and the whole height of its title bar stay on the screen, above the
  taskbar.
\<close>

lemma drag_reachable:
  fixes s :: desktop and l :: lvars
  assumes "dragging s = int i" "i < length (wins s)" "48 - w_w (wins s ! i) \<le> scr_w s - 48" "TB_H + TITLE_H \<le> scr_h s"
  defines "w \<equiv> wins (snd (on_drag s l)) ! i"
  shows "48 \<le> w_x w + w_w w \<and> w_x w + 48 \<le> scr_w s \<and> 0 \<le> w_y w \<and> w_y w + TITLE_H + TB_H \<le> scr_h s"
proof -
  let ?w = "wins s ! i"
  define nx where "nx = (let n = l_x l - grab_dx s; n = (if n < - (w_w ?w - 48) then - (w_w ?w - 48) else n)
    in if n > scr_w s - 48 then scr_w s - 48 else n)"
  define ny where "ny = (let n = l_y l - grab_dy s; n = (if n < 0 then 0 else n)
    in if n > scr_h s - TB_H - TITLE_H then scr_h s - TB_H - TITLE_H else n)"
  have b: "48 \<le> nx + w_w ?w" "nx + 48 \<le> scr_w s" "0 \<le> ny" "ny + TITLE_H + TB_H \<le> scr_h s"
    using assms(3, 4) by (auto simp: nx_def ny_def Let_def)
  have "snd (on_drag s l) = (if nx \<noteq> w_x ?w \<or> ny \<noteq> w_y ?w then on_win i (\<lambda>w. w\<lparr>w_x := nx, w_y := ny\<rparr>) s else s)"
    unfolding on_drag_def assms(1) Let_def nat_int nx_def ny_def by (simp only: if_distrib [of snd] snd_conv)
  then have "w = (if nx \<noteq> w_x ?w \<or> ny \<noteq> w_y ?w then ?w\<lparr>w_x := nx, w_y := ny\<rparr> else ?w)"
    using assms(2) unfolding w_def by (simp add: on_win_def)
  then show ?thesis using b by (cases "nx \<noteq> w_x ?w \<or> ny \<noteq> w_y ?w") auto
qed

text \<open>Eight levels of long names do not fit the path buffer.\<close>

lemma length_path_parts: "length (path_parts (replicate (Suc n) x)) = Suc n * length (cstring x) + n"
  by (induction n) simp_all

lemma build_path_overflow: "build_path (d\<lparr>dir_depth := 8, name_stack := replicate 12 ''ABCDEFGH.IJK''\<rparr>) = None"
proof -
  let ?x = "''ABCDEFGH.IJK''"
  have "drop 1 (take 8 (replicate 12 ?x)) = replicate (Suc 6) ?x" by (simp only: take_replicate drop_replicate) simp
  moreover have "length (cstring ?x) = 12" by (simp add: cstring_def)
  ultimately have "length (path_of 8 (replicate 12 ?x)) = 91" using length_path_parts [of 6 ?x] by (simp only: path_of_def length_append) simp
  then show ?thesis by (simp add: build_path_def full_path_def)
qed

end
