(* ===== verification/ShellCmd.thy ===== *)
theory ShellCmd
  imports Desktop Tcp NetApps Ata Nic Elf Cpu "HOL-Library.Monad_Syntax"
begin

text \<open>
  The built-in commands of the shell (\<open>shell/shell.c\<close>): output, the parsers of numbers and addresses, and one definition per
  command over the models of console, file system, disks, bus, network, loader, desktop and power control.
\<close>

section \<open>State\<close>

text \<open>
  \<open>sh_desk\<close> holds the console, the file system, keyboard, mouse, screen, audio, ACPI and clock, as the desktop uses them.
  Frames of the network travel through \<open>sh_net\<close>; of the card's registers the shell reads the link state, \<open>sh_nic\<close>.
  The heap of the machine is that of the file system; \<open>sh_loader\<close> is brought up to date with it on every use.
  \<open>sh_map\<close> is the memory map of the BIOS, \<open>sh_reply\<close> the static reply buffer of the DHCP client, \<open>sh_jobs\<close> what the
  spawned programs were started with.
\<close>

record shell =
  sh_desk :: desktop
  sh_net :: net
  sh_nic :: nic
  sh_ata :: ata
  sh_pci :: bus
  sh_timer :: timer
  sh_loader :: loader
  sh_jobs :: "(u32 \<times> u32 \<times> u8 list) list"
  sh_map :: "e820_entry list"
  sh_reply :: "u8 list"
  hist :: "string list"
  hist_n :: int
  hist_next :: int
  line :: string
  view :: int

text \<open>
  What happens around one call of \<open>keyboard_getchar\<close> and the command it may start: the scancodes that arrive before it returns,
  the keys typed in the editor, the ticks of the desktop, and for the network the depth of nested polls, the effect of
  \<open>rtl8139_reset_rx\<close> and the bytes behind the reply buffer; the addresses of \<open>task_bootstrap\<close> and \<open>elf_task\<close>.
\<close>

record moment =
  m_scans :: "u8 list"
  m_typed :: "u8 list"
  m_ticks :: "tick list"
  m_depth :: nat
  m_flush :: "net \<Rightarrow> net"
  m_beyond :: "nat \<Rightarrow> u8"
  m_boot :: u32
  m_task :: u32

datatype sh_out = Ready shell | InDesktop shell lvars | Stopped shell

definition sh_fs :: "shell \<Rightarrow> fatfs" where "sh_fs s = ed_fs (d_ed (sh_desk s))"
definition sh_con :: "shell \<Rightarrow> console" where "sh_con s = ed_con (d_ed (sh_desk s))"

definition put_fs :: "fatfs \<Rightarrow> shell \<Rightarrow> shell" where
  "put_fs fs s = s\<lparr>sh_desk := set_fs fs (sh_desk s)\<rparr>"

definition put_con :: "console \<Rightarrow> shell \<Rightarrow> shell" where
  "put_con c s = s\<lparr>sh_desk := (sh_desk s)\<lparr>d_ed := (d_ed (sh_desk s))\<lparr>ed_con := c\<rparr>\<rparr>\<rparr>"

section \<open>Output\<close>

text \<open>
  A run of calls of \<open>console_write\<close>, \<open>console_putc\<close>, \<open>console_set_color\<close> and of the number printers is the list of the
  characters and colours they send, played on the console. The messages of the file system are played in the same way.
\<close>

fun con_do :: "con_event \<Rightarrow> console \<Rightarrow> console option" where
  "con_do (Putc c) s = console_putc c s"
| "con_do (Set_color fg bg) s = Some (console_set_color fg bg s)"

fun emit :: "con_event list \<Rightarrow> console \<Rightarrow> console option" where
  "emit [] s = Some s"
| "emit (e # es) s = Option.bind (con_do e s) (emit es)"

definition out :: "con_event list \<Rightarrow> shell \<Rightarrow> shell option" where
  "out es s = map_option (\<lambda>c. put_con c s) (emit es (sh_con s))"

definition str :: "string \<Rightarrow> con_event list" where "str cs = map Putc cs"
definition nl :: "con_event list" where "nl = [Putc (CHR 0x0A)]"
definition dec_text :: "u32 \<Rightarrow> string" where "dec_text v = (if v = 0 then ''0'' else rev (dec_buf v))"
definition dec :: "u32 \<Rightarrow> con_event list" where "dec v = str (dec_text v)"
definition hex :: "u32 \<Rightarrow> con_event list" where "hex v = str (hex_text v)"
definition say_line :: "string \<Rightarrow> con_event list" where "say_line cs = str cs @ nl"

definition black :: u8 where "black = 0"
definition grey :: "con_event list" where "grey = [Set_color 7 black]"
definition green :: "con_event list" where "green = [Set_color 10 black]"
definition cyan :: "con_event list" where "cyan = [Set_color 11 black]"
definition red :: "con_event list" where "red = [Set_color 12 black]"
definition yellow :: "con_event list" where "yellow = [Set_color 14 black]"

definition fs_call :: "(fatfs \<Rightarrow> ('a \<times> fatfs) option) \<Rightarrow> shell \<Rightarrow> ('a \<times> shell) option" where
  "fs_call f s = do {
     (r, fs) \<leftarrow> f (sh_fs s);
     s' \<leftarrow> out (drop (length (con (sh_fs s))) (con fs)) (put_fs fs s);
     Some (r, s') }"

definition bslash :: char where "bslash = CHR 0x5C"

definition banner_lines :: "string list" where
  "banner_lines =
    [''   ____                       _    _         ___  ____  '',
     ''  |  _ '' @ [bslash] @ '' _   _ _ __ ___  _ __ | | _(_)_ __   / _ '' @ [bslash] @ ''/ ___| '',
     ''  | |_) | | | | '' @ [CHR 0x27] @ ''_ ` _ '' @ [bslash] @ ''| '' @ [CHR 0x27] @ ''_ '' @ [bslash] @ ''| |/ / | '' @ [CHR 0x27] @ ''_ '' @ [bslash] @
       '' | | | '' @ [bslash] @ ''___ '' @ [bslash] @ '' '',
     ''  |  __/| |_| | | | | | | |_) |   <| | | | || |_| |___) |'',
     ''  |_|    '' @ [bslash] @ ''__,_|_| |_| |_| .__/|_|'' @ [bslash] @ ''_'' @ [bslash] @ ''_|_| |_| '' @ [bslash] @ ''___/|____/ '',
     ''                        |_|                              '']"

definition banner :: "con_event list" where
  "banner = yellow @ nl @ concat (map say_line banner_lines) @ grey"

definition shell_banner :: "shell \<Rightarrow> shell option" where
  "shell_banner = out banner"

definition cmd_help :: "shell \<Rightarrow> shell option" where
  "cmd_help = out (cyan @ say_line ''PumpkinShell (PKSH) commands:'' @ grey @
     concat (map say_line
      [''  General : help  clear  echo <text>  banner  about'',
       ''  Files   : ls  cd <d>  pwd  cat <f>  edit <f>  write <f> <t>  touch <f>'',
       ''            mkdir <d>  rm [-r] <f>  rmdir <d>'',
       ''  System  : disks [read N]  meminfo  pci  audio  date  uptime  sleep <s>'',
       ''  Network : net  dhcp  dns <host>  ping <host>  http <host>'',
       ''  Programs: run <file.elf>  desktop'',
       ''  Power   : reboot  poweroff  halt'']))"

definition cmd_about :: "shell \<Rightarrow> shell option" where
  "cmd_about s = do {
     s \<leftarrow> shell_banner s;
     out (nl @ say_line ''  PumpkinOS - a 32-bit, BIOS-only hobby OS.'' @
          say_line ''  Protected mode, VGA + serial console, PS/2 keyboard,'' @
          say_line ''  and this very shell: PumpkinShell (PKSH).'' @ nl) s }"

definition print_2d :: "u32 \<Rightarrow> con_event list" where
  "print_2d v = (if v < 10 then str ''0'' else []) @ dec v"

definition uptime_parts :: "u32 \<Rightarrow> u32 \<times> u32 \<times> u32 \<times> u32" where
  "uptime_parts tot = (tot div 86400, (tot div 3600) mod 24, (tot div 60) mod 60, tot mod 60)"

definition cmd_uptime :: "shell \<Rightarrow> shell option" where
  "cmd_uptime s =
     (let t = timer_ticks (sh_timer s); hz = timer_hz (sh_timer s)
      in if hz = 0 then out (say_line ''uptime: timer is not running'') s
         else let (days, hours, mins, secs) = uptime_parts (t div hz)
              in out (str ''up '' @ (if days \<noteq> 0 then dec days @ str ''d '' else []) @
                      print_2d hours @ str '':'' @ print_2d mins @ str '':'' @ print_2d secs @
                      str ''   ('' @ dec t @ str '' ticks @ '' @ dec hz @ say_line '' Hz)'') s)"

definition is_digit :: "char \<Rightarrow> bool" where
  "is_digit c \<longleftrightarrow> 48 \<le> (of_char c :: nat) \<and> (of_char c :: nat) \<le> 57"

definition digit :: "char \<Rightarrow> u32" where "digit c = of_char c - 48"

fun parse_from :: "u32 \<Rightarrow> string \<Rightarrow> u32" where
  "parse_from v [] = v"
| "parse_from v (c # cs) = (if is_digit c then parse_from (v * 10 + digit c) cs else v)"

definition parse_uint :: "string \<Rightarrow> u32" where "parse_uint s = parse_from 0 s"

definition cmd_sleep :: "string \<Rightarrow> shell \<Rightarrow> shell option" where
  "cmd_sleep args s =
     (let secs = parse_uint args
      in if secs = 0 then out (say_line ''usage: sleep <seconds>'') s
         else let secs = (if secs > 3600 then 3600 else secs)
              in do {
                   s \<leftarrow> out (str ''sleeping for '' @ dec secs @ say_line ''s ...'') s;
                   t \<leftarrow> timer_sleep (secs * 1000) (sh_timer s);
                   out (say_line ''awake!'') (s\<lparr>sh_timer := t\<rparr>) })"

section \<open>Memory, files and disks\<close>

definition type_name :: "u32 \<Rightarrow> string" where
  "type_name t = (if t = 1 then ''usable'' else if t = 2 then ''reserved'' else if t = 3 then ''ACPI reclaim''
     else if t = 4 then ''ACPI NVS'' else if t = 5 then ''bad memory'' else ''other'')"

definition print_size_kb :: "u32 \<Rightarrow> con_event list" where
  "print_size_kb kb = (if kb \<ge> 1024 then dec (drop_bit 10 kb) @ str '' MB'' else dec kb @ str '' KB'')"

definition map_line :: "e820_entry \<Rightarrow> con_event list" where
  "map_line e = str ''    '' @ hex (ucast (e_base e)) @ str ''  '' @ print_size_kb (ucast (drop_bit 10 (e_length e))) @
     [Putc (CHR 0x09)] @ say_line (type_name (e_type e))"

definition frames_line :: "string \<Rightarrow> u32 \<Rightarrow> con_event list" where
  "frames_line title n = str title @ dec n @ str '' frames, '' @ print_size_kb (n * 4) @ nl"

definition pmm_report :: "e820_entry list \<Rightarrow> pmm \<Rightarrow> con_event list" where
  "pmm_report es p =
     (if es = [] then say_line ''  BIOS E820 memory map: unavailable''
      else str ''  BIOS E820 memory map ('' @ dec (word_of_nat (length es)) @ say_line '' entries):'' @ concat (map map_line es)) @
     say_line ''  frame size .. 4 KB'' @
     frames_line ''  total ....... '' (pmm_total_frames p) @
     frames_line ''  used ........ '' (pmm_used_frames p) @
     frames_line ''  free ........ '' (pmm_free_frames p)"

definition cmd_meminfo :: "shell \<Rightarrow> shell option" where
  "cmd_meminfo s = out (pmm_report (sh_map s) (pg_pmm (kh_pg (fs_heap (sh_fs s))))) s"

definition cmd_ls :: "shell \<Rightarrow> shell option" where
  "cmd_ls s = map_option snd (fs_call (\<lambda>fs. map_option (Pair ()) (fs_list fs)) s)"

definition cmd_cat :: "string \<Rightarrow> shell \<Rightarrow> shell option" where
  "cmd_cat args s =
     (if args = [] then out (say_line ''usage: cat <filename>'') s
      else do {
        (r, s) \<leftarrow> fs_call (fs_cat args) s;
        if r \<noteq> 0 then out (red @ str ''cat: file not found: '' @ say_line args @ grey) s else Some s })"

definition cmd_cd :: "string \<Rightarrow> shell \<Rightarrow> shell option" where
  "cmd_cd args s = map_option snd (fs_call (fs_cd (if args \<noteq> [] then args else ''/'')) s)"

definition cmd_pwd :: "shell \<Rightarrow> shell option" where
  "cmd_pwd s = map_option snd (fs_call (\<lambda>fs. Some ((), fs_pwd fs)) s)"

definition print2 :: "u32 \<Rightarrow> con_event list" where
  "print2 v = (if v < 10 then str ''0'' else []) @ dec v"

definition date_text :: "rtc_time \<Rightarrow> con_event list" where
  "date_text t = dec (ucast (year t)) @ str ''-'' @ print2 (ucast (month t)) @ str ''-'' @ print2 (ucast (day t)) @ str '' '' @
     print2 (ucast (hour t)) @ str '':'' @ print2 (ucast (minute t)) @ str '':'' @ print2 (ucast (second t)) @ nl"

definition cmd_date :: "shell \<Rightarrow> shell option" where
  "cmd_date s = (let (t, d) = read_clock (sh_desk s) in out (date_text t) (s\<lparr>sh_desk := d\<rparr>))"

definition print_padded :: "string \<Rightarrow> nat \<Rightarrow> con_event list" where
  "print_padded cs width = str (cs @ replicate (width - length cs) CHR '' '')"

definition disk_line :: "nat \<Rightarrow> ata_drive \<Rightarrow> con_event list" where
  "disk_line i d = str ''  '' @ dec (word_of_nat i) @ str ''  '' @ str (if channel d then ''secondary/'' else ''primary/'') @
     print_padded (if slave d then ''slave'' else ''master'') 6 @ str ''  '' @ dec (sectors d div 2048) @ str '' MiB'' @
     str ''  ('' @ dec (sectors d) @ str '' sec)  '' @ say_line (cstring (model d))"

text \<open>\<open>None\<close> is the null pointer that \<open>ata_get_drive\<close> gives for a drive that is not there.\<close>

fun disk_lines :: "nat list \<Rightarrow> ata \<Rightarrow> con_event list option" where
  "disk_lines [] a = Some []"
| "disk_lines (i # is) a = do { d \<leftarrow> ata_get_drive (int i) a; rest \<leftarrow> disk_lines is a; Some (disk_line i d @ rest) }"

definition sector_byte :: "u16 list \<Rightarrow> nat \<Rightarrow> u8" where
  "sector_byte ws i = (if even i then lo8 (ws ! (i div 2)) else hi8 (ws ! (i div 2)))"

definition blank :: "char \<Rightarrow> bool" where "blank c \<longleftrightarrow> c = CHR '' '' \<or> c = CHR 0x09"

definition cmd_disks :: "string \<Rightarrow> shell \<Rightarrow> shell option" where
  "cmd_disks args s =
     (let n = ata_drive_count (sh_ata s)
      in if n = 0 then out (say_line ''no IDE/ATA disks detected'') s
         else if take 4 args = ''read'' then
           let lba = parse_uint (dropWhile blank (drop 4 args)); (r, sec, a) = ata_read_sectors 0 lba 1 (sh_ata s);
               s = s\<lparr>sh_ata := a\<rparr>
           in if r \<noteq> 0 then out (say_line ''read failed (out of range or controller error)'') s
              else out (str ''disk0 LBA '' @ dec lba @ str '' first 16 bytes:'' @
                        concat (map (\<lambda>i. str '' '' @ hex (ucast (sector_byte sec i))) [0..<16]) @ nl) s
         else do {
           ls \<leftarrow> disk_lines [0..<n] (sh_ata s);
           out (say_line ''  #  pos          size        model'' @ ls) s })"

definition cmd_mkdir :: "string \<Rightarrow> shell \<Rightarrow> shell option" where
  "cmd_mkdir args s =
     (if args = [] then out (say_line ''usage: mkdir <name>'') s else map_option snd (fs_call (fs_mkdir args) s))"

definition cmd_touch :: "string \<Rightarrow> shell \<Rightarrow> shell option" where
  "cmd_touch args s =
     (if args = [] then out (say_line ''usage: touch <name>'') s else map_option snd (fs_call (fs_create args []) s))"

definition rm_args :: "string \<Rightarrow> bool \<times> string" where
  "rm_args args =
     (if take 2 args = ''-r'' \<and> (length args = 2 \<or> args ! 2 = CHR '' '')
      then (True, dropWhile (\<lambda>c. c = CHR '' '') (drop 2 args)) else (False, args))"

definition cmd_rm :: "string \<Rightarrow> shell \<Rightarrow> shell option" where
  "cmd_rm args s =
     (let (recursive, args) = rm_args args
      in if args = [] then out (say_line ''usage: rm [-r] <file>'') s
         else do {
           (rc, s) \<leftarrow> fs_call (if recursive then fs_rmrf args else fs_remove args) s;
           if rc \<noteq> 0 then out (red @ str ''rm: not found: '' @ say_line args @ grey) s else Some s })"

definition cmd_rmdir :: "string \<Rightarrow> shell \<Rightarrow> shell option" where
  "cmd_rmdir args s =
     (if args = [] then out (say_line ''usage: rmdir <dir>'') s
      else do {
        (rc, s) \<leftarrow> fs_call (fs_rmdir args) s;
        if rc \<noteq> 0 then out (red @ str ''rmdir: not found: '' @ say_line args @ grey) s else Some s })"

definition LINE_MAX :: nat where "LINE_MAX = 128"

text \<open>The name of the file and the bytes put in \<open>buf\<close>, which has room for \<open>LINE_MAX + 2\<close> of them.\<close>

definition write_parts :: "string \<Rightarrow> string \<times> u8 list" where
  "write_parts args =
     (let name = takeWhile (\<lambda>c. c \<noteq> CHR '' '') args; content = drop (Suc (length name)) args
      in (name, map of_char (take (LINE_MAX + 1) content @ [CHR 0x0A])))"

definition cmd_write :: "string \<Rightarrow> shell \<Rightarrow> shell option" where
  "cmd_write args s =
     (if args = [] then out (say_line ''usage: write <file> <text>'') s
      else let (name, buf) = write_parts args in map_option snd (fs_call (fs_create name buf) s))"

section \<open>The bus\<close>

definition print_hexn :: "u32 \<Rightarrow> nat \<Rightarrow> con_event list" where
  "print_hexn v digits = str (map (\<lambda>i. ''0123456789abcdef'' ! unat (drop_bit (i * 4) v AND 0xF)) (rev [0..<digits]))"

definition pci_class_name :: "u8 \<Rightarrow> u8 \<Rightarrow> string" where
  "pci_class_name cls sub = (if cls = 0x01 then ''Storage'' else if cls = 0x02 then ''Network'' else if cls = 0x03 then ''Display''
     else if cls = 0x04 then (if sub = 0x01 then ''Audio (AC97)'' else if sub = 0x03 then ''Audio (HDA)'' else ''Multimedia'')
     else if cls = 0x06 then ''Bridge'' else if cls = 0x0C then (if sub = 0x03 then ''USB'' else ''Serial bus'') else [])"

definition pci_fn :: "u8 \<Rightarrow> nat \<Rightarrow> bus \<Rightarrow> con_event list \<times> bus" where
  "pci_fn dev fn b =
     (let (ident, b) = pci_cfg_read32 0 dev (word_of_nat fn) 0x00 b
      in if ident AND 0xFFFF = 0xFFFF then ([], b)
         else let (cc, b) = pci_cfg_read32 0 dev (word_of_nat fn) 0x08 b;
                  cls = ucast (drop_bit 24 cc) :: u8; sub = ucast (drop_bit 16 cc) :: u8; audio = (cls = 0x04)
              in (str ''  00:'' @ print_hexn (ucast dev) 2 @ str ''.'' @ print_hexn (word_of_nat fn) 1 @ str ''   '' @
                  print_hexn (ident AND 0xFFFF) 4 @ str '':'' @ print_hexn (drop_bit 16 ident) 4 @ str ''  '' @
                  print_hexn (ucast cls) 2 @ str '':'' @ print_hexn (ucast sub) 2 @ str ''  '' @
                  (if audio then green else []) @ str (pci_class_name cls sub) @ (if audio then grey else []) @ nl, b))"

fun pci_fns :: "u8 \<Rightarrow> nat list \<Rightarrow> bus \<Rightarrow> con_event list \<times> bus" where
  "pci_fns dev [] b = ([], b)"
| "pci_fns dev (fn # fns) b = (let (es, b) = pci_fn dev fn b; (rest, b) = pci_fns dev fns b in (es @ rest, b))"

fun pci_devs :: "nat list \<Rightarrow> bus \<Rightarrow> con_event list \<times> bus" where
  "pci_devs [] b = ([], b)"
| "pci_devs (d # ds) b =
     (let dev = word_of_nat d; (id0, b) = pci_cfg_read32 0 dev 0 0x00 b
      in if id0 AND 0xFFFF = 0xFFFF then pci_devs ds b
         else let (htype, b) = pci_cfg_read16 0 dev 0 0x0E b;
                  nfn = (if (ucast htype :: u8) AND 0x80 \<noteq> 0 then 8 else 1);
                  (es, b) = pci_fns dev [0..<nfn] b; (rest, b) = pci_devs ds b
              in (es @ rest, b))"

definition cmd_pci :: "shell \<Rightarrow> shell option" where
  "cmd_pci s =
     (let (es, b) = pci_devs [0..<32] (sh_pci s)
      in out (say_line ''  bus:dev.fn  vend:dev   class  device'' @ es) (s\<lparr>sh_pci := b\<rparr>))"

section \<open>The network\<close>

definition print_ip :: "u32 \<Rightarrow> con_event list" where
  "print_ip ip = dec (drop_bit 24 ip AND 0xFF) @ str ''.'' @ dec (drop_bit 16 ip AND 0xFF) @ str ''.'' @
     dec (drop_bit 8 ip AND 0xFF) @ str ''.'' @ dec (ip AND 0xFF)"

definition hex_byte :: "u8 \<Rightarrow> string" where
  "hex_byte b = [''0123456789abcdef'' ! unat (drop_bit 4 b), ''0123456789abcdef'' ! unat (b AND 0xF)]"

definition print_mac :: "u8 list \<Rightarrow> con_event list" where
  "print_mac mac = concat (map (\<lambda>i. str (hex_byte (mac ! i)) @ (if i < 5 then str '':'' else [])) [0..<6])"

definition ip_line :: "string \<Rightarrow> u32 \<Rightarrow> con_event list" where
  "ip_line title ip = str title @ print_ip ip @ nl"

definition cmd_net :: "shell \<Rightarrow> shell option" where
  "cmd_net s =
     (if \<not> card (sh_net s) then out (say_line ''no network card detected'') s
      else let n = sh_net s; (link, c) = rtl8139_link_up (sh_nic s); s = s\<lparr>sh_nic := c\<rparr>
           in out (str ''  MAC     : '' @ print_mac (net_mac n) @ nl @ str ''  link    : '' @ say_line (if link then ''up'' else ''down'') @
                   str ''  status  : '' @
                   (if \<not> net_up n then say_line (''no IP  (run '' @ [CHR 0x27] @ ''dhcp'' @ [CHR 0x27] @ '')'')
                    else say_line ''up'' @ ip_line ''  IP      : '' (net_ip n) @ ip_line ''  netmask : '' (net_mask n) @
                         ip_line ''  gateway : '' (net_gateway n) @ ip_line ''  DNS     : '' (net_dns n))) s)"

definition cmd_dhcp :: "moment \<Rightarrow> shell \<Rightarrow> shell option" where
  "cmd_dhcp m s =
     (if \<not> card (sh_net s) then out (say_line ''no network card detected'') s
      else do {
        s \<leftarrow> out (say_line ''Requesting a DHCP lease...'') s;
        (r, reply, n) \<leftarrow> dhcp_configure (m_flush m) (m_depth m) (m_beyond m) (sh_reply s) (sh_net s);
        let s = s\<lparr>sh_net := n, sh_reply := reply\<rparr>;
        out (if r \<noteq> 0
             then green @ say_line ''lease acquired'' @ grey @ ip_line ''  IP      : '' (net_ip n) @
                  ip_line ''  gateway : '' (net_gateway n) @ ip_line ''  DNS     : '' (net_dns n)
             else red @ say_line ''DHCP failed (no response)'' @ grey) s })"

definition net_down :: "con_event list" where
  "net_down = say_line (''network is down; run '' @ [CHR 0x27] @ ''dhcp'' @ [CHR 0x27] @ '' first'')"

definition cmd_dns :: "moment \<Rightarrow> string \<Rightarrow> shell \<Rightarrow> shell option" where
  "cmd_dns m args s =
     (if args = [] then out (say_line ''usage: dns <hostname>'') s
      else if \<not> net_up (sh_net s) then out net_down s
      else do {
        s \<leftarrow> out (str ''Resolving '' @ str args @ say_line '' ...'') s;
        (ip, n) \<leftarrow> dns_resolve (m_depth m) args (sh_net s);
        let s = s\<lparr>sh_net := n\<rparr>;
        out (case ip of Some a \<Rightarrow> str ''  '' @ str args @ str '' -> '' @ print_ip a @ nl
                      | None \<Rightarrow> red @ say_line ''could not resolve'' @ grey) s })"

text \<open>
  \<open>v\<close> is an \<open>int\<close> that wraps around for a long run of digits; such a run has more than three of them.
\<close>

fun quad_part :: "u32 \<Rightarrow> nat \<Rightarrow> string \<Rightarrow> u32 \<times> nat \<times> string" where
  "quad_part v n [] = (v, n, [])"
| "quad_part v n (c # cs) = (if is_digit c then quad_part (v * 10 + digit c) (Suc n) cs else (v, n, c # cs))"

fun quad_loop :: "nat \<Rightarrow> u32 \<Rightarrow> string \<Rightarrow> u32 option" where
  "quad_loop 0 ip s = (if s = [] then Some ip else None)"
| "quad_loop (Suc k) ip s =
     (if s = [] \<or> \<not> is_digit (hd s) then None
      else let (v, n, s) = quad_part 0 0 s
           in if sint v > 255 \<or> n > 3 then None
              else let ip = push_bit 8 ip OR v
                   in if 0 < k then (if s = [] \<or> hd s \<noteq> CHR ''.'' then None else quad_loop k ip (tl s))
                      else quad_loop k ip s)"

definition parse_ipv4 :: "string \<Rightarrow> u32 option" where "parse_ipv4 s = quad_loop 4 0 s"

definition resolve_target :: "nat \<Rightarrow> string \<Rightarrow> net \<Rightarrow> (u32 option \<times> net) option" where
  "resolve_target d name n = (case parse_ipv4 name of Some ip \<Rightarrow> Some (Some ip, n) | None \<Rightarrow> dns_resolve d name n)"

fun ping_rounds :: "nat list \<Rightarrow> nat \<Rightarrow> u32 \<Rightarrow> u32 \<Rightarrow> shell \<Rightarrow> (u32 \<times> shell) option" where
  "ping_rounds [] d ip ok s = Some (ok, s)"
| "ping_rounds (i # is) d ip ok s = do {
     (rtt, n) \<leftarrow> icmp_ping d ip 1000 (sh_net s);
     let s = s\<lparr>sh_net := n\<rparr>;
     s \<leftarrow> out (str ''  reply '' @ dec (word_of_nat (i + 1)) @
              (case rtt of Some t \<Rightarrow> str '': time='' @ dec t @ say_line '' ms'' | None \<Rightarrow> say_line '': timeout'')) s;
     ping_rounds is d ip (if rtt \<noteq> None then ok + 1 else ok) s }"

definition cmd_ping :: "moment \<Rightarrow> string \<Rightarrow> shell \<Rightarrow> shell option" where
  "cmd_ping m args s =
     (if args = [] then out (say_line ''usage: ping <host>'') s
      else if \<not> net_up (sh_net s) then out net_down s
      else do {
        (ip, n) \<leftarrow> resolve_target (m_depth m) args (sh_net s);
        let s = s\<lparr>sh_net := n\<rparr>;
        case ip of
          None \<Rightarrow> out (red @ str ''ping: cannot resolve '' @ say_line args @ grey) s
        | Some a \<Rightarrow> do {
            s \<leftarrow> out (str ''PING '' @ print_ip a @ nl) s;
            (ok, s) \<leftarrow> ping_rounds [0..<4] (m_depth m) a 0 s;
            out (str ''  '' @ dec ok @ say_line ''/4 received'') s } })"

definition http_args :: "string \<Rightarrow> string \<times> string" where
  "http_args args =
     (let host = take 127 (takeWhile (\<lambda>c. c \<noteq> CHR '' '') args);
          rest = dropWhile (\<lambda>c. c = CHR '' '') (drop (length host) args)
      in (host, if rest \<noteq> [] then rest else ''/''))"

definition crlf :: string where "crlf = [CHR 0x0D, CHR 0x0A]"

definition http_request :: "string \<Rightarrow> string \<Rightarrow> string" where
  "http_request host path = ''GET '' @ path @ '' HTTP/1.0'' @ crlf @ ''Host: '' @ host @ crlf @ ''Connection: close'' @ crlf @ crlf"

partial_function (option) http_stream :: "nat \<Rightarrow> tcp_conn \<Rightarrow> int \<Rightarrow> shell \<Rightarrow> (int \<times> tcp_conn \<times> shell) option" where
  "http_stream d c tot s =
     Option.bind (tcp_recv d 1499 5000 c (sh_net s)) (\<lambda>(r, bytes, c, n).
       if r \<le> 0 then Some (tot, c, s\<lparr>sh_net := n\<rparr>)
       else Option.bind (out (str (cstring (map byte_chr bytes))) (s\<lparr>sh_net := n\<rparr>)) (\<lambda>s. http_stream d c (tot + r) s))"

definition http_fetch :: "nat \<Rightarrow> string \<Rightarrow> tcp_conn \<Rightarrow> shell \<Rightarrow> shell option" where
  "http_fetch d req c s = do {
     (r, c, n) \<leftarrow> tcp_send d (map of_char req) c (sh_net s);
     let s = s\<lparr>sh_net := n\<rparr>;
     if r < 0 then do {
       s \<leftarrow> out (red @ say_line ''http: send failed'' @ grey) s;
       (c, n) \<leftarrow> tcp_close d c (sh_net s);
       Some (s\<lparr>sh_net := n\<rparr>) }
     else do {
       (tot, c, s) \<leftarrow> http_stream d c 0 s;
       s \<leftarrow> out (nl @ str ''['' @ dec (word_of_int tot) @ say_line '' bytes]'') s;
       (c, n) \<leftarrow> tcp_close d c (sh_net s);
       Some (s\<lparr>sh_net := n\<rparr>) } }"

definition cmd_http :: "moment \<Rightarrow> string \<Rightarrow> shell \<Rightarrow> shell option" where
  "cmd_http m args s =
     (if args = [] then out (say_line ''usage: http <host> [path]'') s
      else if \<not> net_up (sh_net s) then out net_down s
      else let (host, path) = http_args args in do {
        (ip, n) \<leftarrow> resolve_target (m_depth m) host (sh_net s);
        let s = s\<lparr>sh_net := n\<rparr>;
        case ip of
          None \<Rightarrow> out (red @ str ''http: cannot resolve '' @ say_line host @ grey) s
        | Some a \<Rightarrow> do {
            s \<leftarrow> out (str ''Connecting to '' @ print_ip a @ say_line '':80 ...'') s;
            (r, c, n) \<leftarrow> tcp_connect (m_depth m) a 80 (sh_net s);
            let s = s\<lparr>sh_net := n\<rparr>;
            if r = 0 then out (red @ say_line ''http: connection failed'' @ grey) s
            else http_fetch (m_depth m) (http_request host path) c s } })"

section \<open>Programs and power\<close>

definition cmd_audio :: "shell \<Rightarrow> shell option" where
  "cmd_audio s =
     (let au = ac97_debug ((d_au (sh_desk s))\<lparr>au_fs := sh_fs s\<rparr>)
      in map_option snd (fs_call (\<lambda>_. Some ((), au_fs au)) (s\<lparr>sh_desk := (sh_desk s)\<lparr>d_au := au\<rparr>\<rparr>)))"

definition cmd_run :: "moment \<Rightarrow> string \<Rightarrow> shell \<Rightarrow> shell option" where
  "cmd_run m args s =
     (if args = [] then out (say_line ''usage: run <program.elf>'') s
      else let l = sh_loader s;
               l = l\<lparr>ld_fs := sh_fs s, ld_sched := (ld_sched l)\<lparr>s_heap := fs_heap (sh_fs s)\<rparr>\<rparr>
           in do {
             (r, job, l) \<leftarrow> elf_exec (m_boot m) (m_task m) args l;
             let s = s\<lparr>sh_loader := l, sh_jobs := sh_jobs s @ (case job of None \<Rightarrow> [] | Some j \<Rightarrow> [j])\<rparr>;
             (_, s) \<leftarrow> fs_call (\<lambda>_. Some ((), (ld_fs l)\<lparr>fs_heap := s_heap (ld_sched l)\<rparr>)) s;
             if r \<noteq> 0 then out (red @ str ''run: not a runnable ELF program: '' @ say_line args @ grey) s else Some s })"

definition cmd_edit :: "moment \<Rightarrow> string \<Rightarrow> shell \<Rightarrow> shell option" where
  "cmd_edit m args s =
     (if args = [] then out (say_line ''usage: edit <file>'') s
      else let d = sh_desk s in do {
        (rest, ed) \<leftarrow> editor_run args (map of_char (kbd_contents (d_kbd d)) @ m_typed m) (d_ed d);
        Some (s\<lparr>sh_desk := d\<lparr>d_ed := ed,
          d_kbd := fold (\<lambda>b. kbd_enqueue (byte_chr b)) rest ((d_kbd d)\<lparr>kbd_tail := kbd_head (d_kbd d)\<rparr>)\<rparr>\<rparr>) })"

definition cmd_desktop :: "moment \<Rightarrow> shell \<Rightarrow> sh_out option" where
  "cmd_desktop m s = do {
     res \<leftarrow> desktop_run (m_ticks m) (sh_desk s);
     Some (case res of Running d l \<Rightarrow> InDesktop (s\<lparr>sh_desk := d\<rparr>) l
                     | Left d \<Rightarrow> Ready (s\<lparr>sh_desk := d\<rparr>)
                     | Halted d \<Rightarrow> Stopped (s\<lparr>sh_desk := d\<rparr>)) }"

definition cmd_poweroff :: "shell \<Rightarrow> sh_out option" where
  "cmd_poweroff s = do {
     s \<leftarrow> out (cyan @ say_line ''Powering off via ACPI...'' @ grey) s;
     let s = s\<lparr>sh_desk := (sh_desk s)\<lparr>d_acpi := snd (acpi_poweroff (d_acpi (sh_desk s)))\<rparr>\<rparr>;
     s \<leftarrow> out (yellow @ say_line ''ACPI power-off unavailable; halting instead.'' @ grey) s;
     Some (Stopped s) }"

definition cmd_reboot :: "shell \<Rightarrow> sh_out option" where
  "cmd_reboot s = do {
     s \<leftarrow> out (say_line ''Rebooting...'') s;
     c \<leftarrow> kbc_wait (sh_con s);
     Some (Stopped (put_con (outb 0x64 0xFE c) s)) }"

definition cmd_halt :: "shell \<Rightarrow> sh_out option" where
  "cmd_halt s = do {
     s \<leftarrow> out (cyan @ say_line ''System halted. It is now safe to turn off your computer.'' @ grey) s;
     Some (Stopped s) }"

section \<open>Output\<close>

lemma emit_append: "emit (xs @ ys) c = Option.bind (emit xs c) (emit ys)"
proof (induction xs arbitrary: c)
  case (Cons e xs)
  then show ?case by (cases "con_do e c") simp_all
qed simp

text \<open>The printers are those of the console.\<close>

lemma emit_str: "emit (str cs) c = console_write cs c"
proof (induction cs arbitrary: c)
  case (Cons x cs)
  then show ?case by (cases "console_putc x c") (simp_all add: str_def)
qed (simp add: str_def)

lemma emit_dec: "emit (dec v) c = console_write_dec v c"
  by (cases "console_putc CHR ''0'' c") (simp_all add: dec_def dec_text_def emit_str console_write_dec_def)

lemma emit_hex: "emit (hex v) c = console_write_hex v c"
  by (simp only: hex_def emit_str hex_text_def console_write_hex_def)

section \<open>Numbers\<close>

fun dec_from :: "nat \<Rightarrow> string \<Rightarrow> nat" where
  "dec_from v [] = v"
| "dec_from v (c # cs) = dec_from (v * 10 + digit_value c) cs"

definition dec_value :: "string \<Rightarrow> nat" where "dec_value cs = dec_from 0 cs"

lemma dec_from_snoc: "dec_from v (cs @ [c]) = dec_from v cs * 10 + digit_value c"
  by (induction cs arbitrary: v) simp_all

lemma digit_word: "is_digit c \<Longrightarrow> digit c = word_of_nat (digit_value c)"
  by (simp add: digit_def digit_value_def is_digit_def of_nat_diff of_nat_of_char)

lemma digit_value_less: "is_digit c \<Longrightarrow> digit_value c < 10"
  by (simp add: digit_value_def is_digit_def less_diff_conv2)

lemma dec_from_bound: "list_all is_digit cs \<Longrightarrow> dec_from v cs < (v + 1) * 10 ^ length cs"
proof (induction cs arbitrary: v)
  case (Cons c cs)
  have "dec_from (v * 10 + digit_value c) cs < (v * 10 + digit_value c + 1) * 10 ^ length cs" using Cons by simp
  also have "\<dots> \<le> (v * 10 + 10) * 10 ^ length cs" using digit_value_less [of c] Cons.prems by (intro mult_right_mono) auto
  finally show ?case by (simp add: algebra_simps)
qed simp

lemma parse_from_value:
  "parse_from (word_of_nat v) cs = word_of_nat (dec_from v (takeWhile is_digit cs))"
proof (induction cs arbitrary: v)
  case (Cons c cs)
  show ?case using Cons.IH [of "v * 10 + digit_value c"] by (simp add: digit_word)
qed simp

lemma quad_part_value:
  "quad_part (word_of_nat v) n cs =
     (word_of_nat (dec_from v (takeWhile is_digit cs)), n + length (takeWhile is_digit cs), dropWhile is_digit cs)"
proof (induction cs arbitrary: v n)
  case (Cons c cs)
  show ?case using Cons.IH [of "v * 10 + digit_value c" "Suc n"] by (simp add: digit_word)
qed simp

lemma dec_text_digits: "dec_text v \<noteq> [] \<and> list_all is_digit (dec_text v)"
proof -
  have "list_all is_digit (dec_buf v)" for v
  proof (induction v rule: dec_buf.induct)
    case (1 v)
    have "unat (v mod 10) < 10" by (simp add: unat_mod)
    then have "is_digit (char_of (48 + unat (v mod 10)))" by (simp add: is_digit_def)
    then show ?case using 1 by (subst dec_buf.simps) simp
  qed
  then show ?thesis using dec_buf_last [of v] by (auto simp: dec_text_def is_digit_def)
qed

lemma dec_text_value: "dec_value (dec_text v) = unat v"
proof -
  have "dec_value (rev (dec_buf v)) = unat v" for v
  proof (induction v rule: dec_buf.induct)
    case (1 v)
    have "unat (v mod 10) < 10" by (simp add: unat_mod)
    moreover have "unat (v div 10) * 10 + unat (v mod 10) = unat v" by (simp add: unat_mod unat_div)
    ultimately show ?case using 1 by (subst dec_buf.simps) (simp add: dec_value_def dec_from_snoc)
  qed
  then show ?thesis by (simp add: dec_text_def dec_value_def digit_value_def)
qed

lemma parse_uint_value: "parse_uint cs = word_of_nat (dec_value (takeWhile is_digit cs))"
  using parse_from_value [of 0 cs] by (simp add: parse_uint_def dec_value_def)

lemma takeWhile_all: "list_all P xs \<Longrightarrow> takeWhile P xs = xs"
  by (simp add: list_all_iff)

text \<open>A number reads back as it is printed.\<close>

lemma parse_uint_dec_text: "parse_uint (dec_text v) = v"
  by (simp add: parse_uint_value takeWhile_all dec_text_digits dec_text_value)

section \<open>Addresses\<close>

definition part_ok :: "string \<Rightarrow> bool" where
  "part_ok p \<longleftrightarrow> p \<noteq> [] \<and> length p \<le> 3 \<and> list_all is_digit p \<and> dec_value p \<le> 255"

lemma part_range:
  assumes "list_all is_digit p"
  shows "(sint (word_of_nat (dec_value p) :: u32) > 255 \<or> length p > 3) \<longleftrightarrow> \<not> (length p \<le> 3 \<and> dec_value p \<le> 255)"
proof (cases "length p \<le> 3")
  case True
  have "(10::nat) ^ length p \<le> 10 ^ 3" using True by (intro power_increasing) simp_all
  then have "dec_value p < 1000" using dec_from_bound [OF assms, of 0] by (simp add: dec_value_def)
  then have "unat (word_of_nat (dec_value p) :: u32) = dec_value p" by (intro unat_of_nat_less) simp
  then have "sint (word_of_nat (dec_value p) :: u32) = int (dec_value p)"
    using \<open>dec_value p < 1000\<close> by (simp add: sint_small)
  then show ?thesis using True by auto
qed simp

lemma quad_step:
  "quad_loop (Suc k) ip s =
     (let p = takeWhile is_digit s; r = dropWhile is_digit s; ip = push_bit 8 ip OR word_of_nat (dec_value p)
      in if \<not> part_ok p then None
         else if 0 < k then (if r = [] \<or> hd r \<noteq> CHR ''.'' then None else quad_loop k ip (tl r)) else quad_loop k ip r)"
proof -
  let ?p = "takeWhile is_digit s"
  have d: "list_all is_digit ?p" by (auto simp: list_all_iff dest: set_takeWhileD)
  have q: "quad_part 0 0 s = (word_of_nat (dec_value ?p), length ?p, dropWhile is_digit s)"
    using quad_part_value [of 0 0 s] by (simp add: dec_value_def)
  have e: "s = [] \<or> \<not> is_digit (hd s) \<longleftrightarrow> ?p = []" by (cases s) simp_all
  show ?thesis unfolding quad_loop.simps e q prod.case Let_def part_range [OF d] using d by (simp add: part_ok_def)
qed

declare quad_loop.simps(2) [simp del]

lemma quad_dot:
  assumes "0 < k"
  shows "quad_loop (Suc k) ip s = Some a \<longleftrightarrow>
    (\<exists>p r. part_ok p \<and> s = p @ ''.'' @ r \<and> quad_loop k (push_bit 8 ip OR word_of_nat (dec_value p)) r = Some a)" (is "?l \<longleftrightarrow> ?r")
proof
  assume ?l
  then have "part_ok (takeWhile is_digit s)" "dropWhile is_digit s = CHR ''.'' # tl (dropWhile is_digit s)"
    "quad_loop k (push_bit 8 ip OR word_of_nat (dec_value (takeWhile is_digit s))) (tl (dropWhile is_digit s)) = Some a"
    using assms by (auto simp: quad_step [of k] Let_def split: if_splits) (metis list.collapse dropWhile_eq_Nil_conv)
  moreover have "s = takeWhile is_digit s @ dropWhile is_digit s" by simp
  ultimately show ?r by (metis append_Cons append_Nil)
next
  assume ?r
  then obtain p r where r: "part_ok p" "s = p @ ''.'' @ r" "quad_loop k (push_bit 8 ip OR word_of_nat (dec_value p)) r = Some a" by blast
  have "\<not> is_digit CHR ''.''" by (simp add: is_digit_def)
  then have "takeWhile is_digit s = p" "dropWhile is_digit s = CHR ''.'' # r"
    using r(1) by (simp_all add: r(2) part_ok_def list_all_iff takeWhile_append2 dropWhile_append2)
  then show ?l using r assms by (simp add: quad_step [of k] Let_def)
qed

lemma quad_last: "quad_loop (Suc 0) ip s = Some a \<longleftrightarrow> part_ok s \<and> a = push_bit 8 ip OR word_of_nat (dec_value s)"
proof (cases "list_all is_digit s")
  case True
  then have t: "takeWhile is_digit s = s" "dropWhile is_digit s = []" by (simp_all add: takeWhile_all list_all_iff)
  show ?thesis by (auto simp: quad_step [of 0] Let_def t)
next
  case False
  then have "dropWhile is_digit s \<noteq> []" "\<not> part_ok s" by (auto simp: part_ok_def list_all_iff)
  then show ?thesis by (simp add: quad_step [of 0] Let_def del: dropWhile_eq_Nil_conv)
qed

definition quad_ip :: "string list \<Rightarrow> u32" where
  "quad_ip ps = bytes_to_ip (map (\<lambda>p. word_of_nat (dec_value p)) ps)"

lemma quad_ip_shifts:
  assumes "part_ok a" "part_ok b" "part_ok c" "part_ok d"
  shows "push_bit 8 (push_bit 8 (push_bit 8 (push_bit 8 0 OR word_of_nat (dec_value a)) OR word_of_nat (dec_value b)) OR word_of_nat (dec_value c))
    OR word_of_nat (dec_value d) = quad_ip [a, b, c, d]"
proof -
  have u: "ucast (word_of_nat (dec_value p) :: u8) = (word_of_nat (dec_value p) :: u32)" if "part_ok p" for p
    using that by (simp add: part_ok_def word_unat_eq_iff unat_of_nat_less unat_ucast_up)
  show ?thesis by (simp add: quad_ip_def bytes_to_ip_def u assms push_bit_or or.assoc)
qed

lemma parse_quads:
  "parse_ipv4 s = Some ip \<longleftrightarrow>
    (\<exists>a b c d. part_ok a \<and> part_ok b \<and> part_ok c \<and> part_ok d \<and> s = a @ ''.'' @ b @ ''.'' @ c @ ''.'' @ d \<and> ip = quad_ip [a, b, c, d])"
proof -
  have four: "(4::nat) = Suc (Suc (Suc (Suc 0)))" by simp
  show ?thesis unfolding parse_ipv4_def four quad_dot [OF zero_less_Suc] quad_last
    using quad_ip_shifts by (smt (verit, ccfv_threshold) append.assoc)
qed

lemma part_ok_dec_text: "unat v \<le> 255 \<Longrightarrow> part_ok (dec_text v)"
  using dec_buf_length [of v 3] dec_text_digits [of v] by (auto simp: part_ok_def dec_text_value) (simp add: dec_text_def)

lemma byte_of: "unat ((drop_bit n ip :: u32) AND 0xFF) \<le> 255 \<and> word_of_nat (unat (drop_bit n ip AND 0xFF)) = (ucast (drop_bit n ip) :: u8)"
proof -
  have "drop_bit n ip AND 0xFF = take_bit 8 (drop_bit n ip)" by (simp add: take_bit_eq_mask mask_eq_exp_minus_1)
  moreover have "word_of_nat (unat (take_bit 8 (drop_bit n ip))) = (ucast (drop_bit n ip) :: u8)"
    by (rule word_unat_eq_iff [THEN iffD2]) (simp add: unat_of_nat unat_take_bit unsigned_ucast_eq take_bit_eq_mod unat_mod)
  moreover have "unat (take_bit 8 (drop_bit n ip)) < 2 ^ 8" by (simp add: unat_take_bit)
  ultimately show ?thesis by simp
qed

section \<open>Properties\<close>

text \<open>
  C0. \<open>parse_ipv4\<close> accepts exactly the dotted quads, four runs of one to three digits with values up to 255 separated by single dots and
  nothing after them, and gives the address whose bytes they are; every address that \<open>print_ip\<close> prints is read back as itself.
\<close>

theorem parse_ipv4_exact:
  "(parse_ipv4 s = Some ip \<longleftrightarrow>
     (\<exists>a b c d. part_ok a \<and> part_ok b \<and> part_ok c \<and> part_ok d \<and> s = a @ ''.'' @ b @ ''.'' @ c @ ''.'' @ d \<and>
        ip = bytes_to_ip (map (\<lambda>p. word_of_nat (dec_value p)) [a, b, c, d]))) \<and>
   (\<exists>t. print_ip ip = str t \<and> parse_ipv4 t = Some ip)"
proof -
  let ?p = "\<lambda>n. dec_text (drop_bit n ip AND 0xFF)"
  let ?t = "?p 24 @ ''.'' @ ?p 16 @ ''.'' @ ?p 8 @ ''.'' @ ?p 0"
  have "print_ip ip = str ?t" by (simp add: print_ip_def dec_def str_def)
  moreover have "quad_ip [?p 24, ?p 16, ?p 8, ?p 0] = ip"
    using bytes_ip_roundtrip [of ip] byte_of [of _ ip]
    by (simp add: quad_ip_def dec_text_value ip_to_bytes_def del: drop_bit_0 bytes_ip_roundtrip) simp
  moreover have "part_ok (?p n)" for n using byte_of by (intro part_ok_dec_text) blast
  ultimately have "print_ip ip = str ?t \<and> parse_ipv4 ?t = Some ip" unfolding parse_quads by metis
  then show ?thesis using parse_quads [of s ip] by (auto simp: quad_ip_def)
qed

text \<open>
  The fixed buffers of the commands hold what is put in them: for any argument that fits a line, the request of \<open>http\<close> needs at most the
  384 bytes of \<open>req\<close> and its host name the 128 of \<open>host\<close>, and \<open>write\<close> puts at most \<open>LINE_MAX + 2\<close> bytes in \<open>buf\<close>.
\<close>

theorem shell_buffers_fit:
  assumes "length args < LINE_MAX" and "http_args args = (host, path)" and "write_parts args = (name, dat)"
  shows "length (http_request host path) \<le> 384 \<and> length host < 128 \<and> length dat \<le> LINE_MAX + 2"
proof -
  have h: "host = take 127 (takeWhile (\<lambda>c. c \<noteq> CHR '' '') args)"
    and p: "path = dropWhile (\<lambda>c. c = CHR '' '') (drop (length host) args) \<or> path = ''/''"
    using assms(2) unfolding http_args_def Let_def prod.inject by (blast, metis)
  have "length (dropWhile (\<lambda>c. c = CHR '' '') (drop (length host) args)) \<le> length args"
    using length_dropWhile_le [of _ "drop (length host) args"] by (rule order.trans) simp
  then have "length path \<le> 127" using p assms(1) by (auto simp: LINE_MAX_def)
  moreover have "length host \<le> 127" by (simp add: h)
  moreover have "length dat \<le> 130" using assms(3) by (auto simp: write_parts_def LINE_MAX_def Let_def)
  ultimately show ?thesis by (simp add: http_request_def crlf_def LINE_MAX_def)
qed

theorem shell_buffers_fit_witness:
  "length (http_request ''pumpkin.org'' ''/index.html'') \<le> 384 \<and> length ''pumpkin.org'' < (128::nat) \<and>
   length (map of_char (''/index.html'' @ [CHR 0x0A]) :: u8 list) \<le> LINE_MAX + 2"
  by (rule shell_buffers_fit [of "''pumpkin.org /index.html''" _ _ "''pumpkin.org''"])
     (simp_all add: LINE_MAX_def http_args_def write_parts_def)

text \<open>\<open>uptime\<close> splits the seconds since boot exactly.\<close>

theorem uptime_exact:
  "case uptime_parts t of (d, h, m, s) \<Rightarrow>
     unat d * 86400 + unat h * 3600 + unat m * 60 + unat s = unat t \<and> unat h < 24 \<and> unat m < 60 \<and> unat s < 60"
proof -
  have "x div 86400 * 86400 + x div 3600 mod 24 * 3600 + x div 60 mod 60 * 60 + x mod 60 = x" for x :: nat
  proof -
    define q p where "q = x div 60" and "p = q div 60"
    have e: "x div 3600 = p" "x div 86400 = p div 24" by (simp_all add: p_def q_def flip: div_mult2_eq)
    have "x = q * 60 + x mod 60" "q = p * 60 + q mod 60" "p = p div 24 * 24 + p mod 24" by (simp_all add: p_def q_def)
    then show ?thesis unfolding e q_def [symmetric] by linarith
  qed
  then show ?thesis by (simp add: uptime_parts_def unat_div unat_mod)
qed

end
