(* ===== verification/Shell.thy ===== *)
theory Shell
  imports ShellCmd
begin

text \<open>
  The shell itself (\<open>shell/shell.c\<close>): splitting and dispatching a line, the ring of past commands, line editing with
  recall and completion, and the loop that reads keys. \<open>line\<close> holds the \<open>len\<close> characters of the input line.
\<close>

section \<open>Dispatch\<close>

definition skip_spaces :: "string \<Rightarrow> string" where "skip_spaces cs = dropWhile blank cs"

definition split_line :: "string \<Rightarrow> string \<times> string" where
  "split_line cs =
     (let cmd = skip_spaces cs; word = takeWhile (\<lambda>c. \<not> blank c) cmd
      in (word, skip_spaces (drop (Suc (length word)) cmd)))"

definition goes_on :: "shell option \<Rightarrow> sh_out option" where "goes_on r = map_option Ready r"

definition clear_screen :: "shell \<Rightarrow> shell" where "clear_screen s = put_con (console_clear (sh_con s)) s"

definition builtin :: "moment \<Rightarrow> string \<Rightarrow> string \<Rightarrow> shell \<Rightarrow> sh_out option" where
  "builtin m cmd args s =
     (if cmd = ''help'' then goes_on (cmd_help s)
      else if cmd = ''clear'' \<or> cmd = ''cls'' then Some (Ready (clear_screen s))
      else if cmd = ''echo'' then goes_on (out (str args @ nl) s)
      else if cmd = ''ls'' \<or> cmd = ''dir'' then goes_on (cmd_ls s)
      else if cmd = ''cat'' \<or> cmd = ''type'' then goes_on (cmd_cat args s)
      else if cmd = ''cd'' then goes_on (cmd_cd args s)
      else if cmd = ''pwd'' then goes_on (cmd_pwd s)
      else if cmd = ''date'' \<or> cmd = ''time'' then goes_on (cmd_date s)
      else if cmd = ''mkdir'' then goes_on (cmd_mkdir args s)
      else if cmd = ''write'' then goes_on (cmd_write args s)
      else if cmd = ''touch'' then goes_on (cmd_touch args s)
      else if cmd = ''rm'' \<or> cmd = ''del'' then goes_on (cmd_rm args s)
      else if cmd = ''rmdir'' then goes_on (cmd_rmdir args s)
      else if cmd = ''disks'' \<or> cmd = ''hdd'' then goes_on (cmd_disks args s)
      else if cmd = ''banner'' then goes_on (do { s \<leftarrow> shell_banner s; out nl s })
      else if cmd = ''about'' then goes_on (cmd_about s)
      else if cmd = ''uptime'' then goes_on (cmd_uptime s)
      else if cmd = ''sleep'' then goes_on (cmd_sleep args s)
      else if cmd = ''meminfo'' then goes_on (cmd_meminfo s)
      else if cmd = ''net'' \<or> cmd = ''ipconfig'' then goes_on (cmd_net s)
      else if cmd = ''dhcp'' then goes_on (cmd_dhcp m s)
      else if cmd = ''dns'' \<or> cmd = ''nslookup'' then goes_on (cmd_dns m args s)
      else if cmd = ''pci'' \<or> cmd = ''lspci'' then goes_on (cmd_pci s)
      else if cmd = ''audio'' then goes_on (cmd_audio s)
      else if cmd = ''ping'' then goes_on (cmd_ping m args s)
      else if cmd = ''http'' then goes_on (cmd_http m args s)
      else if cmd = ''edit'' \<or> cmd = ''ed'' then goes_on (cmd_edit m args s)
      else if cmd = ''run'' \<or> cmd = ''exec'' then goes_on (cmd_run m args s)
      else if cmd = ''desktop'' \<or> cmd = ''gui'' then cmd_desktop m s
      else if cmd = ''poweroff'' \<or> cmd = ''shutdown'' then cmd_poweroff s
      else if cmd = ''reboot'' then cmd_reboot s
      else if cmd = ''halt'' then cmd_halt s
      else goes_on (out (red @ str ''pksh: command not found: '' @ say_line cmd @ grey) s))"

definition shell_execute :: "moment \<Rightarrow> string \<Rightarrow> shell \<Rightarrow> sh_out option" where
  "shell_execute m cs s = (let (cmd, args) = split_line cs in if cmd = [] then Some (Ready s) else builtin m cmd args s)"

definition print_prompt :: "shell \<Rightarrow> shell option" where
  "print_prompt s = out (green @ str ''pksh:'' @ str (fs_cwd (sh_fs s)) @ str ''> '' @ grey) s"

section \<open>Past commands\<close>

definition HIST_SIZE :: int where "HIST_SIZE = 16"

definition hist_add :: "string \<Rightarrow> shell \<Rightarrow> shell" where
  "hist_add cmd s =
     (if cmd = [] then s
      else s\<lparr>hist := (hist s)[nat (hist_next s) := take (LINE_MAX - 1) cmd],
             hist_next := (hist_next s + 1) mod HIST_SIZE,
             hist_n := (if hist_n s < HIST_SIZE then hist_n s + 1 else hist_n s)\<rparr>)"

definition hist_get :: "int \<Rightarrow> shell \<Rightarrow> string" where
  "hist_get v s = hist s ! nat ((hist_next s - 1 - v + HIST_SIZE * 2) mod HIST_SIZE)"

section \<open>Line editing\<close>

definition KEY_UP :: char where "KEY_UP = CHR 0x11"
definition KEY_DOWN :: char where "KEY_DOWN = CHR 0x12"
definition bsp :: char where "bsp = CHR 0x08"

text \<open>What is sent to the console, and the state after it.\<close>

definition replace_line :: "string \<Rightarrow> shell \<Rightarrow> con_event list \<times> shell" where
  "replace_line cs s =
     (let new = take (LINE_MAX - 1) cs in (str (replicate (length (line s)) bsp @ new), s\<lparr>line := new\<rparr>))"

definition key_up :: "shell \<Rightarrow> con_event list \<times> shell" where
  "key_up s =
     (if view s + 1 < hist_n s then let s = s\<lparr>view := view s + 1\<rparr> in replace_line (hist_get (view s) s) s else ([], s))"

definition key_down :: "shell \<Rightarrow> con_event list \<times> shell" where
  "key_down s =
     (if view s > 0 then let s = s\<lparr>view := view s - 1\<rparr> in replace_line (hist_get (view s) s) s
      else if view s = 0 then replace_line [] (s\<lparr>view := -1\<rparr>) else ([], s))"

definition edit_key :: "char \<Rightarrow> shell \<Rightarrow> con_event list \<times> shell" where
  "edit_key c s =
     (if c = bsp then (if line s \<noteq> [] then (str [bsp], s\<lparr>line := butlast (line s)\<rparr>) else ([], s))
      else if c = KEY_UP then key_up s
      else if c = KEY_DOWN then key_down s
      else if (of_char c :: nat) \<ge> 32 \<and> (of_char c :: nat) < 127 \<and> length (line s) < LINE_MAX - 1
      then (str [c], s\<lparr>line := line s @ [c]\<rparr>) else ([], s))"

definition last_word :: "string \<Rightarrow> string" where
  "last_word cs = rev (takeWhile (\<lambda>c. c \<noteq> CHR '' '') (rev cs))"

definition insert_word :: "string \<Rightarrow> string \<Rightarrow> string \<Rightarrow> con_event list \<times> string" where
  "insert_word word cmpl cs =
     (let base = take (length cs - length word) cs; new = take (LINE_MAX - 1 - length base) cmpl
      in (str (replicate (length word) bsp @ new), base @ new))"

definition complete :: "shell \<Rightarrow> (con_event list \<times> shell) option" where
  "complete s =
     (let word = last_word (line s); prefix = take 15 word in do {
        (matches, cmpl, fs) \<leftarrow> fs_complete prefix 16 (sh_fs s);
        let s = put_fs fs s;
        Some (if matches \<ge> 1 \<and> length cmpl > length prefix
              then let (es, new) = insert_word word cmpl (line s) in (es, s\<lparr>line := new\<rparr>) else ([], s)) })"

definition enter :: "moment \<Rightarrow> shell \<Rightarrow> sh_out option" where
  "enter m s = do {
     s \<leftarrow> out nl s;
     res \<leftarrow> shell_execute m (line s) (hist_add (line s) s);
     case res of Ready s \<Rightarrow> goes_on (print_prompt (s\<lparr>line := [], view := -1\<rparr>)) | _ \<Rightarrow> Some res }"

definition shell_key :: "moment \<Rightarrow> char \<Rightarrow> shell \<Rightarrow> sh_out option" where
  "shell_key m c s =
     (if c = CHR 0x0A then enter m s
      else if c = CHR 0x09 then do { (es, s) \<leftarrow> complete s; goes_on (out es s) }
      else let (es, s) = edit_key c s in goes_on (out es s))"

definition receive :: "u8 list \<Rightarrow> shell \<Rightarrow> shell" where
  "receive scans s = s\<lparr>sh_desk := (sh_desk s)\<lparr>d_kbd := fold key_event scans (d_kbd (sh_desk s))\<rparr>\<rparr>"

definition take_key :: "shell \<Rightarrow> char \<times> shell" where
  "take_key s = (let (c, k) = take_char (d_kbd (sh_desk s)) in (c, s\<lparr>sh_desk := (sh_desk s)\<lparr>d_kbd := k\<rparr>\<rparr>))"

text \<open>
  \<open>keyboard_getchar\<close> waits while the ring is empty: each moment brings some scancodes, and once there is a key it is handled.
  The result is the state in which the shell waits after these moments.
\<close>

fun shell_loop :: "moment list \<Rightarrow> shell \<Rightarrow> sh_out option" where
  "shell_loop [] s = Some (Ready s)"
| "shell_loop (m # ms) s =
     (let s = receive (m_scans m) s
      in if keyboard_haschar (d_kbd (sh_desk s))
         then let (c, s) = take_key s
              in do { res \<leftarrow> shell_key m c s; case res of Ready s \<Rightarrow> shell_loop ms s | _ \<Rightarrow> Some res }
         else shell_loop ms s)"

definition shell_run :: "moment list \<Rightarrow> shell \<Rightarrow> sh_out option" where
  "shell_run ms s = do { s \<leftarrow> print_prompt (s\<lparr>line := [], view := -1\<rparr>); shell_loop ms s }"

section \<open>Commands leave the line and the history alone\<close>

definition kept :: "shell \<Rightarrow> string list \<times> int \<times> int \<times> string \<times> int" where
  "kept s = (hist s, hist_n s, hist_next s, line s, view s)"

lemma kept_upd [simp]:
  "kept (s\<lparr>sh_desk := d\<rparr>) = kept s" "kept (s\<lparr>sh_net := n\<rparr>) = kept s" "kept (s\<lparr>sh_nic := c\<rparr>) = kept s"
  "kept (s\<lparr>sh_ata := a\<rparr>) = kept s" "kept (s\<lparr>sh_pci := b\<rparr>) = kept s" "kept (s\<lparr>sh_timer := t\<rparr>) = kept s"
  "kept (s\<lparr>sh_loader := l\<rparr>) = kept s" "kept (s\<lparr>sh_jobs := j\<rparr>) = kept s" "kept (s\<lparr>sh_reply := r\<rparr>) = kept s"
  "kept (put_fs fs s) = kept s" "kept (put_con k s) = kept s" "kept (clear_screen s) = kept s"
  by (simp_all add: kept_def put_fs_def put_con_def clear_screen_def)

lemma out_kept: "out es s = Some t \<Longrightarrow> kept t = kept s"
  by (auto simp: out_def)

lemma fs_call_kept: "fs_call f s = Some (r, t) \<Longrightarrow> kept t = kept s"
  by (auto simp: fs_call_def bind_eq_Some_conv dest: out_kept)

lemma http_stream_kept:
  assumes "http_stream d c n s = Some y"
  shows "kept (snd (snd y)) = kept s"
proof (rule http_stream.raw_induct [where P = "\<lambda>d c n s y. kept (snd (snd y)) = kept s", OF _ assms])
  fix f d c n s y
  assume ih: "\<And>d c n s y. f d c n s = Some y \<Longrightarrow> kept (snd (snd y)) = kept s"
    and e: "Option.bind (tcp_recv d 1499 5000 c (sh_net s)) (\<lambda>(r, bytes, c, m).
       if r \<le> 0 then Some (n, c, s\<lparr>sh_net := m\<rparr>)
       else Option.bind (out (str (cstring (map byte_chr bytes))) (s\<lparr>sh_net := m\<rparr>)) (\<lambda>s. f d c (n + r) s)) = Some y"
  show "kept (snd (snd y)) = kept s"
    using e by (auto simp: bind_eq_Some_conv split: prod.splits if_splits dest!: ih out_kept)
qed

lemma ping_rounds_kept: "ping_rounds is d ip ok s = Some (n, t) \<Longrightarrow> kept t = kept s"
  by (induction "is" arbitrary: ok s) (auto simp: bind_eq_Some_conv Let_def dest!: out_kept)

lemmas kept_rules = out_kept fs_call_kept http_stream_kept ping_rounds_kept
lemmas kept_splits = if_splits prod.splits option.splits outcome.splits

lemma simple_kept:
  "cmd_help s = Some t \<Longrightarrow> kept t = kept s" "cmd_ls s = Some t \<Longrightarrow> kept t = kept s"
  "cmd_pwd s = Some t \<Longrightarrow> kept t = kept s" "cmd_date s = Some t \<Longrightarrow> kept t = kept s"
  "shell_banner s = Some t \<Longrightarrow> kept t = kept s" "cmd_about s = Some t \<Longrightarrow> kept t = kept s"
  "cmd_meminfo s = Some t \<Longrightarrow> kept t = kept s" "cmd_pci s = Some t \<Longrightarrow> kept t = kept s"
  "cmd_audio s = Some t \<Longrightarrow> kept t = kept s" "cmd_uptime s = Some t \<Longrightarrow> kept t = kept s"
  "cmd_net s = Some t \<Longrightarrow> kept t = kept s" "print_prompt s = Some t \<Longrightarrow> kept t = kept s"
  by (auto simp: cmd_help_def cmd_ls_def cmd_pwd_def cmd_date_def shell_banner_def cmd_about_def cmd_meminfo_def cmd_pci_def
      cmd_audio_def cmd_uptime_def cmd_net_def print_prompt_def Let_def bind_eq_Some_conv split: kept_splits dest!: kept_rules)

lemma file_kept:
  "cmd_cat args s = Some t \<Longrightarrow> kept t = kept s" "cmd_cd args s = Some t \<Longrightarrow> kept t = kept s"
  "cmd_mkdir args s = Some t \<Longrightarrow> kept t = kept s" "cmd_write args s = Some t \<Longrightarrow> kept t = kept s"
  "cmd_touch args s = Some t \<Longrightarrow> kept t = kept s" "cmd_rm args s = Some t \<Longrightarrow> kept t = kept s"
  "cmd_rmdir args s = Some t \<Longrightarrow> kept t = kept s" "cmd_disks args s = Some t \<Longrightarrow> kept t = kept s"
  "cmd_sleep args s = Some t \<Longrightarrow> kept t = kept s" "cmd_edit m args s = Some t \<Longrightarrow> kept t = kept s"
  by (auto simp: cmd_cat_def cmd_cd_def cmd_mkdir_def cmd_write_def cmd_touch_def cmd_rm_def cmd_rmdir_def cmd_disks_def
      cmd_sleep_def cmd_edit_def Let_def bind_eq_Some_conv split: kept_splits dest!: kept_rules)

lemma http_fetch_kept: "http_fetch d req c s = Some t \<Longrightarrow> kept t = kept s"
  by (auto simp: http_fetch_def Let_def bind_eq_Some_conv split: kept_splits dest!: kept_rules)

lemma net_kept:
  "cmd_dhcp m s = Some t \<Longrightarrow> kept t = kept s" "cmd_dns m args s = Some t \<Longrightarrow> kept t = kept s"
  "cmd_ping m args s = Some t \<Longrightarrow> kept t = kept s" "cmd_http m args s = Some t \<Longrightarrow> kept t = kept s"
  "cmd_run m args s = Some t \<Longrightarrow> kept t = kept s"
  by (auto simp: cmd_dhcp_def cmd_dns_def cmd_ping_def cmd_http_def cmd_run_def Let_def bind_eq_Some_conv
      split: kept_splits dest!: kept_rules http_fetch_kept)

definition keeps :: "shell \<Rightarrow> sh_out option \<Rightarrow> bool" where
  "keeps s r \<longleftrightarrow> (\<forall>t. r = Some (Ready t) \<longrightarrow> kept t = kept s)"

lemma keeps_if: "keeps s a \<Longrightarrow> keeps s b \<Longrightarrow> keeps s (if P then a else b)"
  by simp

lemma keeps_goes_on: "(\<And>t. r = Some t \<Longrightarrow> kept t = kept s) \<Longrightarrow> keeps s (goes_on r)"
  by (auto simp: goes_on_def keeps_def)

lemma keeps_power:
  "keeps s (cmd_poweroff s)" "keeps s (cmd_reboot s)" "keeps s (cmd_halt s)" "keeps s (Some (Ready (clear_screen s)))"
  by (auto simp: cmd_poweroff_def cmd_reboot_def cmd_halt_def keeps_def Let_def bind_eq_Some_conv)

lemma keeps_desktop: "keeps s (cmd_desktop m s)"
proof (cases "desktop_run (m_ticks m) (sh_desk s)")
  case (Some y)
  then show ?thesis by (cases y) (auto simp: cmd_desktop_def keeps_def)
qed (simp add: cmd_desktop_def keeps_def)

lemma banner_kept: "do { s \<leftarrow> shell_banner s; out nl s } = Some t \<Longrightarrow> kept t = kept s"
  by (auto simp: bind_eq_Some_conv dest!: simple_kept out_kept)

lemma builtin_kept: "keeps s (builtin m cmd args s)"
  unfolding builtin_def
  by (intro keeps_if keeps_power keeps_desktop keeps_goes_on)
    (erule simple_kept file_kept net_kept banner_kept out_kept)+

lemma execute_kept: "shell_execute m cs s = Some (Ready t) \<Longrightarrow> kept t = kept s"
  using builtin_kept [of s m] by (auto simp: shell_execute_def keeps_def split: prod.splits if_splits)

section \<open>Past commands\<close>

text \<open>The ring holds the last commands, the most recent first.\<close>

definition hist_wf :: "shell \<Rightarrow> bool" where
  "hist_wf s \<longleftrightarrow> length (hist s) = 16 \<and> 0 \<le> hist_next s \<and> hist_next s < 16 \<and> 0 \<le> hist_n s \<and> hist_n s \<le> 16"

definition remembers :: "string list \<Rightarrow> shell \<Rightarrow> bool" where
  "remembers past s \<longleftrightarrow> hist_wf s \<and> hist_n s = min 16 (int (length past)) \<and> (\<forall>v < nat (hist_n s). hist_get (int v) s = past ! v)"

lemma hist_index: "0 \<le> n \<Longrightarrow> n < 16 \<Longrightarrow> 0 \<le> v \<Longrightarrow> v < 16 \<Longrightarrow> nat ((n - 1 - v + HIST_SIZE * 2) mod HIST_SIZE) < 16"
  by (simp add: HIST_SIZE_def nat_less_iff)

lemma hist_get_add:
  assumes "hist_wf s" and "cmd \<noteq> []" and "0 \<le> v" and "v < 16"
  shows "hist_get v (hist_add cmd s) = (if v = 0 then take (LINE_MAX - 1) cmd else hist_get (v - 1) s)"
proof -
  have n: "0 \<le> hist_next s" "hist_next s < 16" "length (hist s) = 16" using assms(1) by (simp_all add: hist_wf_def)
  define j where "j = (hist_next s - v) mod 16"
  have "hist_next s + 1 + (31 - v) = hist_next s - v + 2 * 16" by simp
  then have "((hist_next s + 1) mod 16 + (31 - v)) mod 16 = j" by (simp only: mod_add_left_eq mod_mult_self1 j_def)
  moreover have "(hist_next s + 1) mod 16 - 1 - v + 32 = (hist_next s + 1) mod 16 + (31 - v)" by simp
  ultimately have i: "((hist_next s + 1) mod 16 - 1 - v + 32) mod 16 = j" by (simp only:)
  have "hist_next s - 1 - (v - 1) + 32 = hist_next s - v + 2 * 16" by simp
  then have e: "(hist_next s - 1 - (v - 1) + 32) mod 16 = j" by (simp only: mod_mult_self1 j_def)
  have "j = hist_next s - v + 16" if "\<not> v \<le> hist_next s"
    unfolding j_def mod_add_self2 [of "hist_next s - v" 16, symmetric] using that n assms(4) by (intro mod_pos_pos_trivial) auto
  moreover have "j = hist_next s - v" if "v \<le> hist_next s" using that n assms(3) by (simp add: j_def)
  ultimately have "j = hist_next s \<longleftrightarrow> v = 0" using n assms(4) by force
  moreover have "0 \<le> j" by (simp add: j_def)
  ultimately have z: "nat (hist_next s) = nat j \<longleftrightarrow> v = 0" using n(1) by (auto simp: eq_nat_nat_iff)
  have "nat (hist_next s) < 16" using n(2) by simp
  moreover have h: "hist (hist_add cmd s) = (hist s)[nat (hist_next s) := take (LINE_MAX - 1) cmd]"
    "hist_next (hist_add cmd s) = (hist_next s + 1) mod 16" using assms(2) by (simp_all add: hist_add_def HIST_SIZE_def)
  moreover have t: "(16::int) * 2 = 32" by simp
  ultimately show ?thesis unfolding hist_get_def h HIST_SIZE_def t i e using z n(3) by (simp add: nth_list_update)
qed

lemma hist_add_remembers:
  assumes "remembers past s"
  shows "remembers (if cmd = [] then past else take (LINE_MAX - 1) cmd # past) (hist_add cmd s)"
proof (cases "cmd = []")
  case True
  then show ?thesis using assms by (simp add: hist_add_def)
next
  case False
  have w: "hist_wf s" and n: "hist_n s = min 16 (int (length past))" and g: "\<forall>v < nat (hist_n s). hist_get (int v) s = past ! v"
    using assms by (simp_all add: remembers_def)
  have wf: "hist_wf (hist_add cmd s)" using w False by (auto simp: hist_wf_def hist_add_def HIST_SIZE_def)
  have n': "hist_n (hist_add cmd s) = min 16 (int (Suc (length past)))" using n False by (auto simp: hist_add_def HIST_SIZE_def)
  have "hist_get (int v) (hist_add cmd s) = (take (LINE_MAX - 1) cmd # past) ! v" if "v < nat (hist_n (hist_add cmd s))" for v
  proof (cases v)
    case (Suc u)
    then have "u < nat (hist_n s)" using that n n' by auto
    then show ?thesis using g hist_get_add [OF w False, of "int v"] that n' Suc by auto
  qed (use hist_get_add [OF w False, of 0] in simp)
  then show ?thesis using wf n' False by (simp add: remembers_def)
qed

section \<open>The input line\<close>

text \<open>
  A line is shorter than its buffer and ends where its first null byte is; so are the lines remembered. A line being recalled is one that is there.
\<close>

definition text_ok :: "string \<Rightarrow> bool" where "text_ok cs \<longleftrightarrow> length cs < LINE_MAX \<and> CHR 0x00 \<notin> set cs"

definition line_ok :: "shell \<Rightarrow> bool" where
  "line_ok s \<longleftrightarrow> text_ok (line s) \<and> hist_wf s \<and> list_all text_ok (hist s) \<and> -1 \<le> view s \<and> (view s = -1 \<or> view s < hist_n s)"

lemma text_ok_take: "text_ok cs \<Longrightarrow> take (LINE_MAX - 1) cs = cs"
  by (simp add: text_ok_def LINE_MAX_def)

lemma text_ok_butlast: "text_ok cs \<Longrightarrow> text_ok (butlast cs)"
  by (auto simp: text_ok_def dest: in_set_butlastD)

lemma hist_get_ok: "hist_wf s \<Longrightarrow> list_all text_ok (hist s) \<Longrightarrow> 0 \<le> v \<Longrightarrow> v < 16 \<Longrightarrow> text_ok (hist_get v s)"
  unfolding hist_get_def hist_wf_def using hist_index [of "hist_next s" v] by (auto simp: list_all_iff)

lemma line_ok_kept: "kept t = kept s \<Longrightarrow> line_ok s \<Longrightarrow> line_ok t"
  by (simp add: kept_def line_ok_def hist_wf_def)

lemma replace_line_simps:
  "text_ok cs \<Longrightarrow> replace_line cs s = (str (replicate (length (line s)) bsp @ cs), s\<lparr>line := cs\<rparr>)"
  by (simp add: replace_line_def Let_def text_ok_take [simplified])

lemma line_ok_recall:
  assumes "line_ok s" and "-1 \<le> v" and "v < hist_n s \<or> v = -1" and "text_ok cs"
  shows "line_ok (s\<lparr>view := v, line := cs\<rparr>)"
  using assms by (auto simp: line_ok_def hist_wf_def)

lemma hist_get_view [simp]: "hist_get v (s\<lparr>view := x\<rparr>) = hist_get v s"
  by (simp add: hist_get_def)

text \<open>What each editing key does.\<close>

definition edited :: "char \<Rightarrow> shell \<Rightarrow> shell" where
  "edited c s =
     (if c = bsp then s\<lparr>line := butlast (line s)\<rparr>
      else if c = KEY_UP \<and> view s + 1 < hist_n s then s\<lparr>view := view s + 1, line := hist_get (view s + 1) s\<rparr>
      else if c = KEY_DOWN \<and> view s > 0 then s\<lparr>view := view s - 1, line := hist_get (view s - 1) s\<rparr>
      else if c = KEY_DOWN \<and> view s = 0 then s\<lparr>view := -1, line := []\<rparr>
      else if c \<noteq> KEY_UP \<and> c \<noteq> KEY_DOWN \<and> 32 \<le> (of_char c :: nat) \<and> (of_char c :: nat) < 127 \<and> length (line s) < LINE_MAX - 1
      then s\<lparr>line := line s @ [c]\<rparr> else s)"

lemma recall_ok:
  assumes "line_ok s"
  shows "view s + 1 < hist_n s \<Longrightarrow> text_ok (hist_get (view s + 1) s)" "view s > 0 \<Longrightarrow> text_ok (hist_get (view s - 1) s)"
  using assms by (auto simp: line_ok_def hist_wf_def intro!: hist_get_ok)

lemma special_keys: "bsp \<noteq> KEY_UP" "bsp \<noteq> KEY_DOWN" "KEY_UP \<noteq> KEY_DOWN" "KEY_UP \<noteq> bsp" "KEY_DOWN \<noteq> bsp" "KEY_DOWN \<noteq> KEY_UP"
  by (simp_all add: bsp_def KEY_UP_def KEY_DOWN_def)

lemma edit_key_edited:
  assumes "line_ok s"
  shows "snd (edit_key c s) = edited c s"
proof -
  have e: "text_ok []" by (simp add: text_ok_def LINE_MAX_def)
  consider "c = bsp" | "c = KEY_UP" | "c = KEY_DOWN" | "c \<noteq> bsp" "c \<noteq> KEY_UP" "c \<noteq> KEY_DOWN" by blast
  then show ?thesis
  proof cases
    case 2
    then show ?thesis using recall_ok(1) [OF assms] by (simp add: edit_key_def edited_def key_up_def special_keys replace_line_simps Let_def)
  next
    case 3
    then show ?thesis using recall_ok(2) [OF assms] by (simp add: edit_key_def edited_def key_down_def special_keys replace_line_simps Let_def e)
  qed (simp_all add: edit_key_def edited_def special_keys)
qed

lemma edited_ok: "line_ok s \<Longrightarrow> line_ok (edited c s)"
proof -
  assume ok: "line_ok s"
  have w: "line_ok (s\<lparr>line := cs\<rparr>)" if "text_ok cs" for cs using ok that by (simp add: line_ok_def hist_wf_def)
  have "CHR 0x00 \<noteq> c" if "32 \<le> (of_char c :: nat)" using that by auto
  then have a: "text_ok (line s @ [c])" if "32 \<le> (of_char c :: nat)" "length (line s) < LINE_MAX - 1"
    using ok that by (auto simp: line_ok_def text_ok_def LINE_MAX_def)
  have l: "text_ok (line s)" "-1 \<le> view s" "view s = -1 \<or> view s < hist_n s" using ok by (simp_all add: line_ok_def)
  have n: "text_ok []" by (simp add: text_ok_def LINE_MAX_def)
  have u: "line_ok (s\<lparr>view := view s + 1, line := hist_get (view s + 1) s\<rparr>)" if "view s + 1 < hist_n s"
    by (rule line_ok_recall [OF ok]) (use that l recall_ok(1) [OF ok that] in simp_all)
  have d: "line_ok (s\<lparr>view := view s - 1, line := hist_get (view s - 1) s\<rparr>)" if "view s > 0"
    by (rule line_ok_recall [OF ok]) (use that l recall_ok(2) [OF ok that] in auto)
  show ?thesis unfolding edited_def
    by (simp only: if_split) (intro conjI impI, simp_all add: ok w a n l u d text_ok_butlast line_ok_recall [OF ok])
qed

text \<open>What the console shows of a line when these characters are sent to it.\<close>

fun echo :: "con_event \<Rightarrow> string \<Rightarrow> string" where
  "echo (Putc c) cs = (if c = bsp then butlast cs else cs @ [c])"
| "echo (Set_color fg bg) cs = cs"

lemma echo_text: "bsp \<notin> set xs \<Longrightarrow> fold echo (str xs) cs = cs @ xs"
  by (induction xs arbitrary: cs) (auto simp: str_def)

lemma echo_erase: "fold echo (str (replicate n bsp)) cs = take (length cs - n) cs"
  by (induction n arbitrary: cs) (simp_all add: str_def butlast_take butlast_conv_take min_def)

lemma str_append: "str (xs @ ys) = str xs @ str ys"
  by (simp add: str_def)

lemma echo_replace: "bsp \<notin> set xs \<Longrightarrow> fold echo (str (replicate n bsp @ xs)) cs = take (length cs - n) cs @ xs"
  by (simp add: str_append echo_erase echo_text)

lemma hist_get_set: "hist_wf s \<Longrightarrow> 0 \<le> v \<Longrightarrow> v < 16 \<Longrightarrow> hist_get v s \<in> set (hist s)"
  unfolding hist_get_def hist_wf_def using hist_index [of "hist_next s" v] by auto

lemma edit_key_echo:
  assumes ok: "line_ok s" and b: "\<forall>h \<in> set (hist s). bsp \<notin> set h"
  shows "fold echo (fst (edit_key c s)) (line s) = line (snd (edit_key c s))"
proof -
  have w: "hist_wf s" "-1 \<le> view s" "view s = -1 \<or> view s < hist_n s" "hist_n s \<le> 16" using ok by (simp_all add: line_ok_def hist_wf_def)
  have u: "bsp \<notin> set (hist_get (view s + 1) s)" if "view s + 1 < hist_n s"
    using b hist_get_set [OF w(1), of "view s + 1"] that w by auto
  have d: "bsp \<notin> set (hist_get (view s - 1) s)" if "view s > 0"
    using b hist_get_set [OF w(1), of "view s - 1"] that w by auto
  have e: "text_ok []" by (simp add: text_ok_def LINE_MAX_def)
  consider "c = bsp" | "c = KEY_UP" | "c = KEY_DOWN" | "c \<noteq> bsp" "c \<noteq> KEY_UP" "c \<noteq> KEY_DOWN" by blast
  then show ?thesis
  proof cases
    case 2
    then show ?thesis using recall_ok(1) [OF ok] u by (simp add: edit_key_def key_up_def special_keys replace_line_simps Let_def echo_replace)
  next
    case 3
    then show ?thesis using recall_ok(2) [OF ok] d
      by (simp add: edit_key_def key_down_def special_keys replace_line_simps Let_def echo_replace e) (simp add: echo_erase)
  qed (simp_all add: edit_key_def special_keys str_def)
qed

section \<open>Completion\<close>

lemma complete_text:
  assumes c: "fs_complete pre 16 fs = Some (k, nm, u)"
  shows "length nm \<le> 15 \<and> CHR 0x00 \<notin> set nm"
proof -
  let ?P = "\<lambda>mo :: int \<times> string. length (snd mo) \<le> 15 \<and> CHR 0x00 \<notin> set (snd mo)"
  let ?f = "complete_entry (map upper (take 12 pre)) 16"
  have z: "CHR 0x00 \<notin> set (take n (cstring xs))" for n xs
    using set_takeWhileD [of "CHR 0x00" "\<lambda>c. c \<noteq> CHR 0x00" xs] in_set_takeD by (fastforce simp: cstring_def)
  have e: "?P b" if "?f lba e sec a s = Some (st, b, u)" "?P a" for lba e sec a s st b u
    using that z by (auto simp: complete_entry_def Let_def split: if_splits prod.splits dest: in_set_takeD)
  have l: "?P b" if "ent_loop (?f lba) [0..<16] sec a s = Some (st, b, u)" "?P a" for lba sec a s st b u
    by (rule ent_loop_acc [where P = ?P, OF e that])
  obtain x w v where d: "dir_loop (cwd_cluster fs) (\<lambda>lba. ent_loop (?f lba) [0..<16]) 0 (stale fs 512) (0, []) fs = Some (x, (k, nm), w, v)"
    using c by (auto simp: fs_complete_def dir_walk_def)
  have "?P (0, []) \<longrightarrow> ?P (fst (snd (x, (k, nm), w, v)))" by (rule dir_loop_acc [where P = ?P, OF l d])
  then show ?thesis by simp
qed

lemma complete_ok: "complete s = Some (es, t) \<Longrightarrow> line_ok s \<Longrightarrow> line_ok t"
proof -
  assume c: "complete s = Some (es, t)" and ok: "line_ok s"
  obtain k cmpl fs where f: "fs_complete (take 15 (last_word (line s))) 16 (sh_fs s) = Some (k, cmpl, fs)"
    and t: "t = put_fs fs s \<or> t = (put_fs fs s)\<lparr>line := snd (insert_word (last_word (line s)) cmpl (line s))\<rparr>"
    using c by (auto simp: complete_def Let_def bind_eq_Some_conv put_fs_def split: if_splits prod.splits)
  have l: "text_ok (line s)" using ok by (simp add: line_ok_def)
  have "text_ok (snd (insert_word w cmpl (line s)))" for w
    using l complete_text [OF f] by (auto simp: insert_word_def Let_def text_ok_def LINE_MAX_def min_def dest: in_set_takeD)
  moreover have "line_ok (put_fs fs s)" using ok by (rule line_ok_kept [rotated]) simp
  ultimately show ?thesis using t by (auto simp: line_ok_def hist_wf_def)
qed

section \<open>The loop\<close>

lemma hist_add_ok: "line_ok s \<Longrightarrow> line_ok (hist_add (line s) s)"
proof -
  assume ok: "line_ok s"
  then have "list_all text_ok ((hist s)[nat (hist_next s) := take (LINE_MAX - 1) (line s)])"
    by (auto simp: line_ok_def text_ok_take [simplified] list_all_iff dest!: set_update_subset_insert [THEN subsetD])
  then show ?thesis using ok by (auto simp: line_ok_def hist_add_def hist_wf_def HIST_SIZE_def)
qed

lemma line_ok_fresh: "line_ok s \<Longrightarrow> line_ok (s\<lparr>line := [], view := -1\<rparr>)"
  by (simp add: line_ok_def hist_wf_def text_ok_def LINE_MAX_def)

lemma on_ready:
  "((case res of Ready s \<Rightarrow> f s | _ \<Rightarrow> Some res) = Some (Ready t)) = (\<exists>s. res = Ready s \<and> f s = Some (Ready t))"
  by (cases res) auto

lemma enter_ok: "enter m s = Some (Ready t) \<Longrightarrow> line_ok s \<Longrightarrow> line_ok t"
proof -
  assume e: "enter m s = Some (Ready t)" and ok: "line_ok s"
  obtain u v where u: "out nl s = Some u" and v: "shell_execute m (line u) (hist_add (line u) u) = Some (Ready v)"
    and t: "print_prompt (v\<lparr>line := [], view := -1\<rparr>) = Some t"
    using e by (auto simp: enter_def goes_on_def bind_eq_Some_conv on_ready)
  have "line_ok (hist_add (line u) u)" using line_ok_kept [OF out_kept [OF u] ok] by (rule hist_add_ok)
  then have "line_ok v" by (rule line_ok_kept [OF execute_kept [OF v]])
  then show ?thesis by (rule line_ok_kept [OF simple_kept(12) [OF t] line_ok_fresh])
qed

lemma shell_key_ok: "shell_key m c s = Some (Ready t) \<Longrightarrow> line_ok s \<Longrightarrow> line_ok t"
  using edit_key_edited [of s c] edited_ok [of s c]
  by (auto simp: shell_key_def goes_on_def bind_eq_Some_conv split: if_splits prod.splits
      dest: enter_ok dest!: complete_ok line_ok_kept [OF out_kept])

lemma line_ok_desk [simp]: "line_ok (s\<lparr>sh_desk := d\<rparr>) = line_ok s"
  by (simp add: line_ok_def hist_wf_def)

lemma shell_loop_ok: "shell_loop ms s = Some (Ready t) \<Longrightarrow> line_ok s \<Longrightarrow> line_ok t"
proof (induction ms arbitrary: s)
  case (Cons m ms)
  let ?r = "receive (m_scans m) s"
  have r: "line_ok ?r" using Cons.prems(2) by (simp add: receive_def)
  obtain c k where k: "take_char (d_kbd (sh_desk ?r)) = (c, k)" by fastforce
  show ?case
  proof (cases "keyboard_haschar (d_kbd (sh_desk ?r))")
    case True
    then obtain u where "shell_key m c (?r\<lparr>sh_desk := (sh_desk ?r)\<lparr>d_kbd := k\<rparr>\<rparr>) = Some (Ready u)" "shell_loop ms u = Some (Ready t)"
      using Cons.prems(1) by (auto simp: Let_def take_key_def k bind_eq_Some_conv on_ready)
    then show ?thesis using Cons.IH shell_key_ok r by (simp only: line_ok_desk)
  next
    case False
    then show ?thesis using Cons.IH r Cons.prems(1) by (simp add: Let_def)
  qed
qed simp

section \<open>The console answers\<close>

definition live :: "shell \<Rightarrow> bool" where "live s \<longleftrightarrow> uart_live (sh_con s) \<and> con_inv (sh_con s)"

lemma emit_live:
  "uart_live c \<Longrightarrow> con_inv c \<Longrightarrow> \<exists>d. emit es c = Some d \<and> uart_live d \<and> con_inv d"
proof (induction es arbitrary: c)
  case (Cons e es)
  have "\<exists>d. con_do e c = Some d \<and> uart_live d \<and> con_inv d"
  proof (cases e)
    case (Putc x)
    then show ?thesis using console_write_ok [OF Cons.prems, of "[x]"] by (auto simp: bind_eq_Some_conv)
  next
    case (Set_color fg bg)
    then show ?thesis using Cons.prems by (simp add: console_set_color_def uart_live_def con_inv_def)
  qed
  then show ?case using Cons.IH by auto
qed simp

lemma sh_con_put [simp]: "sh_con (put_con c s) = c"
  by (simp add: sh_con_def put_con_def)

lemma out_live: "live s \<Longrightarrow> \<exists>c. out es s = Some (put_con c s) \<and> emit es (sh_con s) = Some c \<and> live (put_con c s)"
  using emit_live [of "sh_con s" es] by (auto simp: live_def out_def)

lemma live_line [simp]: "live (s\<lparr>line := l\<rparr>) = live s" "live (s\<lparr>view := v\<rparr>) = live s"
  "sh_con (s\<lparr>line := l\<rparr>) = sh_con s" "sh_con (s\<lparr>view := v\<rparr>) = sh_con s"
  by (simp_all add: live_def sh_con_def)

lemma edited_con: "sh_con (edited c s) = sh_con s"
  by (simp add: edited_def)

section \<open>Recall\<close>

lemma fold_hist_add:
  "remembers past s \<Longrightarrow> remembers (rev (map (take (LINE_MAX - 1)) (filter (\<lambda>c. c \<noteq> []) cmds)) @ past) (fold hist_add cmds s)"
proof (induction cmds arbitrary: s past)
  case (Cons c cs)
  show ?case using Cons.IH [OF hist_add_remembers [OF Cons.prems, of c]] by (cases "c = []") simp_all
qed simp

lemma remembers_line [simp]: "remembers past (s\<lparr>line := l\<rparr>) = remembers past s" "remembers past (s\<lparr>view := v\<rparr>) = remembers past s"
  by (simp_all add: remembers_def hist_wf_def hist_get_def)

lemma key_up_step:
  assumes "remembers past s" and "view s = int k - 1" and "k < min 16 (length past)" and "length (past ! k) < LINE_MAX"
  shows "snd (edit_key KEY_UP s) = s\<lparr>view := int k, line := past ! k\<rparr>"
proof -
  have "hist_n s = min 16 (int (length past))" "\<forall>v < nat (hist_n s). hist_get (int v) s = past ! v"
    using assms(1) by (simp_all add: remembers_def)
  moreover from this have "k < nat (hist_n s)" using assms(3) by auto
  ultimately have "hist_get (int k) s = past ! k" "view s + 1 < hist_n s" using assms(2) by auto
  moreover have "take (LINE_MAX - Suc 0) (past ! k) = past ! k" using assms(4) by simp
  ultimately show ?thesis using assms(2) by (simp add: edit_key_def key_up_def special_keys replace_line_def Let_def)
qed

lemma key_up_times:
  assumes "remembers past s" and "view s = -1" and "\<forall>h \<in> set past. length h < LINE_MAX" and "k < min 16 (length past)"
  shows "((\<lambda>s. snd (edit_key KEY_UP s)) ^^ Suc k) s = s\<lparr>view := int k, line := past ! k\<rparr>"
  using assms(4)
proof (induction k)
  case 0
  then show ?case using key_up_step [of past s 0] assms by simp
next
  case (Suc k)
  let ?u = "s\<lparr>view := int k, line := past ! k\<rparr>"
  have "((\<lambda>s. snd (edit_key KEY_UP s)) ^^ Suc (Suc k)) s = snd (edit_key KEY_UP ?u)" using Suc by simp
  also have "\<dots> = ?u\<lparr>view := int (Suc k), line := past ! Suc k\<rparr>"
    using Suc.prems assms(1, 3) by (intro key_up_step) (simp_all del: of_nat_Suc)
  finally show ?case by simp
qed

section \<open>Properties\<close>

text \<open>A shell with an answering console, an empty ring and one character typed; the rest of the machine is arbitrary.\<close>

definition fresh_shell :: "shell \<Rightarrow> shell" where
  "fresh_shell s = put_con blank_console (s\<lparr>hist := replicate 16 [], hist_n := 0, hist_next := 0, line := ''l'', view := -1,
     sh_desk := (sh_desk s)\<lparr>d_kbd := kbd_boot\<rparr>\<rparr>)"

lemma fresh_shell_ok: "line_ok (fresh_shell s)" "live (fresh_shell s)" "hist_wf (fresh_shell s)" "hist_n (fresh_shell s) = 0"
  "line (fresh_shell s) = ''l''" "hist (fresh_shell s) = replicate 16 []" "d_kbd (sh_desk (fresh_shell s)) = kbd_boot"
  by (simp_all add: fresh_shell_def put_con_def line_ok_def hist_wf_def text_ok_def LINE_MAX_def live_def sh_con_def blank_console_ready list_all_iff)

lemma key_s: "keyboard_haschar (key_event 0x1F kbd_boot)" "fst (take_char (key_event 0x1F kbd_boot)) = CHR ''s''"
  by code_simp+

text \<open>
  C0. The input line never overruns its buffer: whatever keys arrive and whatever commands run, while the shell reads keys the line and all
  remembered commands are shorter than their 128 bytes and free of null bytes, the ring indices are in range, and the entry being
  recalled is one that is stored.
\<close>

theorem shell_line_safe:
  assumes "line_ok s" and "shell_loop ms s = Some (Ready t)"
  shows "line_ok t"
  using shell_loop_ok [OF assms(2, 1)] .

theorem shell_line_safe_witness:
  "\<forall>s m. \<exists>t. shell_loop [m\<lparr>m_scans := [0x1F]\<rparr>] (fresh_shell s) = Some (Ready t) \<and> line_ok t \<and> line t = ''ls''"
proof (intro allI)
  fix s and m :: moment
  let ?s = "fresh_shell s" and ?m = "m\<lparr>m_scans := [0x1F]\<rparr>"
  let ?k = "snd (take_char (key_event 0x1F kbd_boot))"
  let ?v = "?s\<lparr>sh_desk := (sh_desk ?s)\<lparr>d_kbd := ?k\<rparr>\<rparr>"
  have l: "live (?v\<lparr>line := ''ls''\<rparr>)" using fresh_shell_ok(2) [of s] by (simp add: live_def sh_con_def)
  obtain c where c: "out (str ''s'') (?v\<lparr>line := ''ls''\<rparr>) = Some (put_con c (?v\<lparr>line := ''ls''\<rparr>))" using out_live [OF l] by blast
  have "edit_key CHR ''s'' ?v = (str ''s'', ?v\<lparr>line := ''ls''\<rparr>)"
    by (simp add: edit_key_def bsp_def KEY_UP_def KEY_DOWN_def fresh_shell_ok LINE_MAX_def)
  then have "shell_key ?m CHR ''s'' ?v = Some (Ready (put_con c (?v\<lparr>line := ''ls''\<rparr>)))" by (simp add: shell_key_def goes_on_def c)
  then have e: "shell_loop [?m] ?s = Some (Ready (put_con c (?v\<lparr>line := ''ls''\<rparr>)))"
    using key_s by (simp add: receive_def take_key_def fresh_shell_ok case_prod_beta)
  have "line_ok (put_con c (?v\<lparr>line := ''ls''\<rparr>))" by (rule shell_line_safe [OF fresh_shell_ok(1) e])
  then show "\<exists>t. shell_loop [?m] ?s = Some (Ready t) \<and> line_ok t \<and> line t = ''ls''" using e by (simp add: put_con_def)
qed

text \<open>
  C0. The screen shows what will be executed. On a console that answers, every key but Enter and Tab is handled at once, changes the line as
  \<open>edited\<close> says, and the characters sent to the console turn the line shown into the new line.
\<close>

theorem line_echo:
  assumes "line_ok s" and "live s" and "\<forall>h \<in> set (hist s). bsp \<notin> set h" and "c \<noteq> CHR 0x0A" and "c \<noteq> CHR 0x09"
  shows "\<exists>t es. shell_key m c s = Some (Ready t) \<and> kept t = kept (edited c s) \<and>
    emit es (sh_con s) = Some (sh_con t) \<and> fold echo es (line s) = line t"
proof -
  obtain es u where e: "edit_key c s = (es, u)" by fastforce
  have u: "u = edited c s" using edit_key_edited [OF assms(1), of c] by (simp add: e)
  then have "live u" using assms(2) by (simp add: live_def edited_con)
  from out_live [OF this, of es] obtain k where k: "out es u = Some (put_con k u)" "emit es (sh_con u) = Some k" by blast
  have "kept (put_con k u) = kept u" by simp
  then have "line (put_con k u) = line u" by (simp add: kept_def)
  moreover have "shell_key m c s = Some (Ready (put_con k u))" using assms(4, 5) by (simp add: shell_key_def e goes_on_def k)
  moreover have "fold echo es (line s) = line u" using edit_key_echo [OF assms(1, 3), of c] by (simp add: e)
  moreover have "sh_con u = sh_con s" by (simp add: u edited_con)
  ultimately show ?thesis using k u by (intro exI [of _ "put_con k u"] exI [of _ es]) simp
qed

theorem line_echo_witness:
  "\<forall>s m. \<exists>t es. shell_key m bsp (fresh_shell s) = Some (Ready t) \<and> line t = [] \<and>
     emit es (sh_con (fresh_shell s)) = Some (sh_con t) \<and> fold echo es ''l'' = line t"
proof (intro allI)
  fix s m
  have "\<forall>h \<in> set (hist (fresh_shell s)). bsp \<notin> set h" by (simp add: fresh_shell_ok)
  from line_echo [OF fresh_shell_ok(1, 2) this, of bsp m]
  obtain t es where "shell_key m bsp (fresh_shell s) = Some (Ready t)" "kept t = kept (edited bsp (fresh_shell s))"
    "emit es (sh_con (fresh_shell s)) = Some (sh_con t)" "fold echo es (line (fresh_shell s)) = line t" by (auto simp: bsp_def)
  then show "\<exists>t es. shell_key m bsp (fresh_shell s) = Some (Ready t) \<and> line t = [] \<and>
     emit es (sh_con (fresh_shell s)) = Some (sh_con t) \<and> fold echo es ''l'' = line t"
    by (auto simp: kept_def edited_def fresh_shell_ok)
qed

text \<open>
  C0. The ring of past commands is the list of the last sixteen non-empty lines, each cut to 127 characters, the most recent first: \<open>hist_get\<close>
  numbers them in that order, and pressing Up \<open>k + 1\<close> times from a fresh line brings up entry \<open>k\<close>.
\<close>

theorem history_recall:
  fixes cmds :: "string list"
  defines "past \<equiv> rev (map (take (LINE_MAX - 1)) (filter (\<lambda>c. c \<noteq> []) cmds))"
  assumes "hist_wf s" and "hist_n s = 0" and "k < min 16 (length past)"
  shows "remembers past (fold hist_add cmds s) \<and>
    line (((\<lambda>s. snd (edit_key KEY_UP s)) ^^ Suc k) ((fold hist_add cmds s)\<lparr>view := -1\<rparr>)) = past ! k"
proof -
  have "remembers [] s" using assms(2, 3) by (simp add: remembers_def)
  from fold_hist_add [OF this, of cmds] have r: "remembers past (fold hist_add cmds s)" by (simp add: past_def)
  have "\<forall>h \<in> set past. length h < LINE_MAX" by (auto simp: past_def LINE_MAX_def)
  from key_up_times [OF _ _ this assms(4), of "(fold hist_add cmds s)\<lparr>view := -1\<rparr>"] r show ?thesis by simp
qed

theorem history_recall_witness:
  "\<forall>s. line (((\<lambda>s. snd (edit_key KEY_UP s)) ^^ 2) ((fold hist_add [''ls'', [], ''pwd''] (fresh_shell s))\<lparr>view := -1\<rparr>)) = ''ls''"
proof
  fix s
  show "line (((\<lambda>s. snd (edit_key KEY_UP s)) ^^ 2) ((fold hist_add [''ls'', [], ''pwd''] (fresh_shell s))\<lparr>view := -1\<rparr>)) = ''ls''"
    using history_recall [OF fresh_shell_ok(3, 4), of 1 "[''ls'', [], ''pwd'']" s] by (simp add: LINE_MAX_def numeral_2_eq_2)
qed

text \<open>
  A line whose first word is no command of the shell is reported and has no other effect; an empty line has none at all.
\<close>

definition builtins :: "string list" where
  "builtins = [''help'', ''clear'', ''cls'', ''echo'', ''ls'', ''dir'', ''cat'', ''type'', ''cd'', ''pwd'', ''date'', ''time'', ''mkdir'', ''write'', ''touch'',
     ''rm'', ''del'', ''rmdir'', ''disks'', ''hdd'', ''banner'', ''about'', ''uptime'', ''sleep'', ''meminfo'', ''net'', ''ipconfig'', ''dhcp'', ''dns'', ''nslookup'',
     ''pci'', ''lspci'', ''audio'', ''ping'', ''http'', ''edit'', ''ed'', ''run'', ''exec'', ''desktop'', ''gui'', ''poweroff'', ''shutdown'', ''reboot'', ''halt'']"

theorem unknown_command:
  assumes "split_line cs = (cmd, args)" and "cmd \<notin> set builtins" and "live s"
  shows "\<exists>c. shell_execute m cs s = Some (Ready (put_con c s)) \<and>
    emit (if cmd = [] then [] else red @ str ''pksh: command not found: '' @ str cmd @ nl @ grey) (sh_con s) = Some c"
proof (cases "cmd = []")
  case True
  then show ?thesis using assms(1) by (simp add: shell_execute_def put_con_def sh_con_def)
next
  case False
  have n: "cmd \<noteq> b" if "b \<in> set builtins" for b using assms(2) that by blast
  have "builtin m cmd args s = goes_on (out (red @ str ''pksh: command not found: '' @ say_line cmd @ grey) s)"
    unfolding builtin_def using n by (simp add: builtins_def)
  then show ?thesis using False assms(1) out_live [OF assms(3), of "red @ str ''pksh: command not found: '' @ say_line cmd @ grey"]
    by (auto simp: shell_execute_def goes_on_def say_line_def str_append)
qed

theorem unknown_command_witness:
  "\<forall>s m. \<exists>c. shell_execute m ''  foo bar'' (fresh_shell s) = Some (Ready (put_con c (fresh_shell s)))"
  using unknown_command [of "''  foo bar''" "''foo''" "''bar''", OF _ _ fresh_shell_ok(2)]
  by (auto simp: split_line_def skip_spaces_def blank_def builtins_def Let_def)

end
