(* ===== verification/Spec2Isabelle.thy ===== *)
theory Spec2Isabelle
  imports Machine StringLib FatFile Tcp NetApps Ata Nic Elf Editor Desktop Shell
begin

text \<open>
  PumpkinOS.
\<close>

end
